(* ===== verification/Prelude.thy ===== *)
theory Prelude
  imports Main "HOL-Library.Word"
begin

text \<open>
  Prelude of the development: the integer types of \<^verbatim>\<open>include/zero/types.h\<close>, the status codes of
  \<^verbatim>\<open>include/zero/result.h\<close>, little-endian byte encodings, and the generic lemmas on words and
  lists that the components share.  \<^verbatim>\<open>size_t\<close> and \<^verbatim>\<open>uintptr_t\<close> are 32 bits wide: the model is the
  one of the 32-bit microcontrollers the library is written for.
\<close>

unbundle bit_operations_syntax

section \<open>Machine integers\<close>

type_synonym u8 = "8 word"
type_synonym u16 = "16 word"
type_synonym u32 = "32 word"
type_synonym u64 = "64 word"
type_synonym usize = "32 word"
type_synonym ptr = "32 word"

abbreviation (input) FW_NULL :: ptr where "FW_NULL \<equiv> 0"

section \<open>Status codes (result.h)\<close>

datatype fw_status =
    FW_OK
  | FW_ERR_GENERIC
  | FW_ERR_INVALID_ARG
  | FW_ERR_OUT_OF_MEMORY
  | FW_ERR_BUFFER_OVERFLOW
  | FW_ERR_TIMEOUT
  | FW_ERR_BUSY
  | FW_ERR_NOT_FOUND
  | FW_ERR_NOT_SUPPORTED
  | FW_ERR_IO
  | FW_ERR_CORRUPTED
  | FW_ERR_ISR_VIOLATION
  | FW_ERR_DMA_UNALIGNED

definition fw_is_ok :: "fw_status \<Rightarrow> bool" where
  "fw_is_ok st \<longleftrightarrow> st = FW_OK"

definition fw_is_err :: "fw_status \<Rightarrow> bool" where
  "fw_is_err st \<longleftrightarrow> st \<noteq> FW_OK"

lemma fw_is_err_iff [simp]: "fw_is_err st \<longleftrightarrow> \<not> fw_is_ok st"
  by (simp add: fw_is_err_def fw_is_ok_def)

section \<open>Shared theorem collections\<close>

named_theorems unat_simps \<open>reading word arithmetic on naturals\<close>
named_theorems mem_simps \<open>reads of a written memory\<close>
named_theorems le_simps \<open>little-endian encodings\<close>

section \<open>Lists\<close>

lemma map_nth_upt [simp]: "map (\<lambda>i. xs ! i) [0..<length xs] = xs"
  by (simp add: map_nth)

lemma map_nth_upt_take:
  "n \<le> length xs \<Longrightarrow> map (\<lambda>i. xs ! i) [0..<n] = take n xs"
  by (metis map_nth take_map take_upt add_0)

lemma takeWhile_eq_all_take: "takeWhile P xs = take (length (takeWhile P xs)) xs"
  by (metis append_eq_conv_conj takeWhile_dropWhile_id)

lemma filter_list_update:
  "i < length xs \<Longrightarrow> filter P (xs[i := e]) =
     filter P (take i xs) @ (if P e then [e] else []) @ filter P (drop (Suc i) xs)"
  by (simp add: upd_conv_take_nth_drop)

lemma filter_split_nth:
  "i < length xs \<Longrightarrow> filter P xs =
     filter P (take i xs) @ (if P (xs ! i) then [xs ! i] else []) @ filter P (drop (Suc i) xs)"
  using filter_list_update [of i xs P "xs ! i"] by simp

lemma map_of_insert_mid:
  "k \<notin> fst ` set xs \<Longrightarrow> map_of (xs @ (k, v) # ys) = (map_of (xs @ ys))(k \<mapsto> v)"
  by (induction xs) (auto simp: fun_eq_iff)

lemma map_of_delete_mid:
  "k \<notin> fst ` set xs \<Longrightarrow> k \<notin> fst ` set ys \<Longrightarrow> map_of (xs @ ys) = (map_of (xs @ (k, v) # ys))(k := None)"
  by (induction xs) (auto simp: fun_eq_iff map_of_eq_None_iff)

text \<open>The index of the first element that satisfies a predicate: the search loops of the code.\<close>

fun find_idx :: "('a \<Rightarrow> bool) \<Rightarrow> 'a list \<Rightarrow> nat option" where
  "find_idx P [] = None"
| "find_idx P (x # xs) = (if P x then Some 0 else map_option Suc (find_idx P xs))"

lemma find_idx_None_iff: "find_idx P xs = None \<longleftrightarrow> (\<forall>x\<in>set xs. \<not> P x)"
  by (induction xs) auto

lemma find_idx_SomeD:
  "find_idx P xs = Some i \<Longrightarrow> i < length xs \<and> P (xs ! i) \<and> (\<forall>j<i. \<not> P (xs ! j))"
proof (induction xs arbitrary: i)
  case (Cons x xs)
  show ?case
  proof (cases "P x")
    case False
    with Cons.prems obtain k where k: "find_idx P xs = Some k" "i = Suc k" by auto
    then show ?thesis using Cons.IH [OF k(1)] False by (auto simp: nth_Cons split: nat.splits)
  qed (use Cons.prems in auto)
qed simp

lemma find_idx_SomeI:
  "i < length xs \<Longrightarrow> P (xs ! i) \<Longrightarrow> (\<And>j. j < i \<Longrightarrow> \<not> P (xs ! j)) \<Longrightarrow> find_idx P xs = Some i"
proof (induction xs arbitrary: i)
  case (Cons x xs)
  show ?case
  proof (cases i)
    case (Suc k)
    have "find_idx P xs = Some k"
      using Cons.prems(1,2) Suc Cons.prems(3) [of "Suc _"] by (intro Cons.IH) auto
    moreover have "\<not> P x" using Cons.prems(3) [of 0] Suc by simp
    ultimately show ?thesis using Suc by simp
  qed (use Cons.prems in simp)
qed simp

lemma find_idx_split:
  assumes "find_idx P xs = Some i"
  shows "xs = take i xs @ xs ! i # drop (Suc i) xs" and "P (xs ! i)"
    and "\<And>x. x \<in> set (take i xs) \<Longrightarrow> \<not> P x" and "i < length xs"
  using find_idx_SomeD [OF assms] by (auto simp: id_take_nth_drop [symmetric] in_set_conv_nth)

lemma find_idx_cong:
  "(\<And>x. x \<in> set xs \<Longrightarrow> P x \<longleftrightarrow> Q x) \<Longrightarrow> find_idx P xs = find_idx Q xs"
  by (induction xs) auto

section \<open>Words as naturals\<close>

lemma unat_lt32: "unat (x :: 32 word) < 4294967296"
  using unsigned_less [of x, where ?'a = nat] by simp

lemma unat_le32: "unat (x :: 32 word) \<le> 4294967296"
  using unat_lt32 [of x] by simp

lemma unat_add_nowrap [unat_simps]:
  "unat (x :: 'a::len word) + unat y < 2 ^ LENGTH('a) \<Longrightarrow> unat (x + y) = unat x + unat y"
  by (simp add: unat_word_ariths)

lemma unat_of_nat_small [unat_simps]:
  "n < 2 ^ LENGTH('a) \<Longrightarrow> unat (of_nat n :: 'a::len word) = n"
  by (simp add: unsigned_of_nat take_bit_nat_eq_self)

lemma unat_add_of_nat [unat_simps]:
  "unat (x :: 'a::len word) + n < 2 ^ LENGTH('a) \<Longrightarrow> unat (x + of_nat n) = unat x + n"
  by (subst unat_add_nowrap) (simp_all add: unat_of_nat_small)

lemma unat_sub_le [unat_simps]:
  "(y :: 'a::len word) \<le> x \<Longrightarrow> unat (x - y) = unat x - unat y"
  by (simp add: unat_sub)

lemma unat_sub_wrap:
  "unat (x :: 'a::len word) < unat y \<Longrightarrow> unat (x - y) = 2 ^ LENGTH('a) + unat x - unat y"
  by (simp add: unat_sub_if_size word_size word_le_nat_alt)

lemma of_nat_unat_id [simp]: "of_nat (unat (x :: 'a::len word)) = x"
  by simp

section \<open>Powers of two and masks\<close>

lemma nat_pow2_of_and:
  fixes n :: nat
  assumes "n \<noteq> 0" and "n AND (n - 1) = 0"
  shows "\<exists>k. n = 2 ^ k"
  using assms
proof (induction n rule: less_induct)
  case (less n)
  show ?case
  proof (cases "even n")
    case True
    then obtain m where n: "n = 2 * m" by blast
    with less.prems have m: "m \<noteq> 0" by simp
    have "n AND (n - 1) = (2 * m) AND Suc (2 * (m - 1))"
      using n m by (cases m) simp_all
    also have "\<dots> = 2 * (m AND (m - 1))"
      by (subst and_nat_rec) simp
    finally have "m AND (m - 1) = 0" using less.prems by simp
    moreover have "m < n" using n m by simp
    ultimately obtain k where "m = 2 ^ k" using less.IH m by blast
    with n have "n = 2 ^ Suc k" by simp
    then show ?thesis by blast
  next
    case False
    then obtain m where n: "n = Suc (2 * m)" by (metis oddE Suc_eq_plus1)
    have "n AND (n - 1) = 2 * (m AND m)"
      using n by (simp) (subst and_nat_rec, simp)
    with less.prems have "m = 0" by simp
    with n show ?thesis by (metis mult_0_right One_nat_def power_0)
  qed
qed

lemma word_pow2_of_and:
  fixes a :: "'a::len word"
  assumes "a \<noteq> 0" and "a AND (a - 1) = 0"
  shows "\<exists>k < LENGTH('a). a = 2 ^ k"
proof -
  have "unat a AND (unat a - 1) = 0"
    using assms by (metis unat_0 unat_minus_one unsigned_and_eq)
  moreover have "unat a \<noteq> 0" using assms(1) by (simp add: unat_eq_zero)
  ultimately obtain k where k: "unat a = 2 ^ k" using nat_pow2_of_and by blast
  have "(2::nat) ^ k < 2 ^ LENGTH('a)" using unsigned_less [of a, where ?'a = nat] k by simp
  then have "k < LENGTH('a)" by simp
  moreover have "a = 2 ^ k"
    by (metis k of_nat_unat_id of_nat_numeral of_nat_power)
  ultimately show ?thesis by blast
qed

lemma unat_pow2 [unat_simps]: "k < LENGTH('a) \<Longrightarrow> unat ((2 :: 'a::len word) ^ k) = 2 ^ k"
  by (metis of_nat_numeral of_nat_power power_strict_increasing_iff one_less_numeral_iff semiring_norm(76) unat_of_nat_small)  

lemma and_pow2_minus_one:
  "(x :: 'a::len word) AND (2 ^ k - 1) = take_bit k x"
  by (simp add: take_bit_eq_mask mask_eq_exp_minus_1)

lemma unat_take_bit_mod: "unat (take_bit k x) = unat (x :: 'a::len word) mod 2 ^ k"
  by (metis unsigned_take_bit_eq take_bit_eq_mod)

lemma unat_and_not_mask:
  "unat ((x :: 'a::len word) AND NOT (2 ^ k - 1)) = unat x - unat x mod 2 ^ k"
proof -
  have "x - take_bit k x = x AND NOT (take_bit k x)"
    by (rule disjunctive_diff) (simp add: bit_take_bit_iff)
  also have "\<dots> = x AND NOT (mask k)"
    by (rule bit_eqI) (auto simp: bit_simps)
  finally have "x AND NOT (mask k) = x - take_bit k x" ..
  moreover have "unat x mod 2 ^ k \<le> unat x" by simp
  ultimately show ?thesis
    by (simp add: mask_eq_exp_minus_1 [symmetric] unat_sub_le word_le_nat_alt unat_take_bit_mod)
qed

lemma unat_and_pow2_minus_one:
  "unat ((x :: 'a::len word) AND (2 ^ k - 1)) = unat x mod 2 ^ k"
  by (simp add: and_pow2_minus_one unat_take_bit_mod)

lemma pow2_test_iff:
  "a \<noteq> 0 \<and> a AND (a - 1) = 0 \<longleftrightarrow> (\<exists>k < LENGTH('a). (a :: 'a::len word) = 2 ^ k)"
proof
  assume "a \<noteq> 0 \<and> a AND (a - 1) = 0"
  then show "\<exists>k < LENGTH('a). a = 2 ^ k" by (blast intro: word_pow2_of_and)
next
  assume "\<exists>k < LENGTH('a). a = 2 ^ k"
  then obtain k where k: "k < LENGTH('a)" and a: "a = 2 ^ k" by blast
  have "unat (a AND (a - 1)) = 0"
    using k by (simp add: a unat_and_pow2_minus_one unat_pow2)
  moreover have "unat a = 2 ^ k" using k by (simp add: a unat_pow2)
  ultimately show "a \<noteq> 0 \<and> a AND (a - 1) = 0"
    by (metis power_not_zero unat_0 unat_0_iff zero_neq_numeral)
qed

lemma word_and_pow2_iff:
  assumes "k < LENGTH('a)"
  shows "(w :: 'a::len word) AND 2 ^ k = 0 \<longleftrightarrow> \<not> bit w k"
proof
  assume "w AND 2 ^ k = 0"
  then have "\<not> bit (w AND 2 ^ k) k" by simp
  with assms show "\<not> bit w k" by (simp add: bit_simps)
next
  assume "\<not> bit w k"
  then show "w AND 2 ^ k = 0" by (intro bit_eqI) (auto simp: bit_simps)
qed

lemma xor_right_cancel: "(x :: 'a::len word) XOR z = y XOR z \<longleftrightarrow> x = y"
  by (auto simp: bit_eq_iff bit_xor_iff)

lemma xor_left_cancel: "(z :: 'a::len word) XOR x = z XOR y \<longleftrightarrow> x = y"
  by (auto simp: bit_eq_iff bit_xor_iff)

section \<open>Little-endian encodings\<close>

definition le16 :: "u16 \<Rightarrow> u8 list" where
  "le16 v = [ucast v, ucast (drop_bit 8 v)]"

definition of_le16 :: "u8 \<Rightarrow> u8 \<Rightarrow> u16" where
  "of_le16 a b = ucast a OR push_bit 8 (ucast b)"

definition le32 :: "u32 \<Rightarrow> u8 list" where
  "le32 v = [ucast v, ucast (drop_bit 8 v), ucast (drop_bit 16 v), ucast (drop_bit 24 v)]"

definition of_le32 :: "u8 \<Rightarrow> u8 \<Rightarrow> u8 \<Rightarrow> u8 \<Rightarrow> u32" where
  "of_le32 a b c d =
     ucast a OR push_bit 8 (ucast b) OR push_bit 16 (ucast c) OR push_bit 24 (ucast d)"

lemma length_le16 [le_simps, simp]: "length (le16 v) = 2"
  by (simp add: le16_def)

lemma length_le32 [le_simps, simp]: "length (le32 v) = 4"
  by (simp add: le32_def)

lemma of_le16_le16 [le_simps]: "of_le16 (ucast v) (ucast (drop_bit 8 v)) = v"
  unfolding of_le16_def by (rule bit_word_eqI) (auto simp: bit_simps)

lemma of_le32_le32 [le_simps]:
  "of_le32 (ucast v) (ucast (drop_bit 8 v)) (ucast (drop_bit 16 v)) (ucast (drop_bit 24 v)) = v"
proof (rule bit_word_eqI, unfold of_le32_def)
  fix n assume "n < LENGTH(32)"
  then consider "n < 8" | "8 \<le> n \<and> n < 16" | "16 \<le> n \<and> n < 24" | "24 \<le> n \<and> n < 32" by fastforce
  then show "bit (ucast (ucast v :: u8) OR push_bit 8 (ucast (ucast (drop_bit 8 v) :: u8))
      OR push_bit 16 (ucast (ucast (drop_bit 16 v) :: u8))
      OR push_bit 24 (ucast (ucast (drop_bit 24 v) :: u8)) :: u32) n \<longleftrightarrow> bit v n"
    by cases (auto simp: bit_simps)
qed

lemma of_le16_le16_nth [le_simps]: "of_le16 (le16 v ! 0) (le16 v ! 1) = v"
  by (simp add: le16_def of_le16_le16)

lemma of_le32_le32_nth [le_simps]:
  "of_le32 (le32 v ! 0) (le32 v ! 1) (le32 v ! 2) (le32 v ! 3) = v"
  by (simp add: le32_def of_le32_le32 numeral_2_eq_2 numeral_3_eq_3)

end
