(* ===== verification/Memory.thy ===== *)
theory Memory
  imports Prelude
begin

text \<open>
  The byte memory the C code works on.  A memory maps every 32-bit address to a byte; a pointer is
  an address and \<^verbatim>\<open>NULL\<close> is address 0.  \<^verbatim>\<open>memcpy\<close>, \<^verbatim>\<open>memset\<close> and the accesses to 32-bit words
  (little-endian) are functions on memories.  Control blocks (pools, arenas, queues) are records
  beside the memory; the buffers they manage are in it.
\<close>

unbundle bit_operations_syntax

type_synonym mem = "ptr \<Rightarrow> u8"

definition mem_read :: "mem \<Rightarrow> ptr \<Rightarrow> nat \<Rightarrow> u8 list" where
  "mem_read m p n = map (\<lambda>i. m (p + of_nat i)) [0..<n]"

definition mem_write :: "mem \<Rightarrow> ptr \<Rightarrow> u8 list \<Rightarrow> mem" where
  "mem_write m p bs = (\<lambda>a. if unat (a - p) < length bs then bs ! unat (a - p) else m a)"

definition memcpy :: "mem \<Rightarrow> ptr \<Rightarrow> ptr \<Rightarrow> usize \<Rightarrow> mem" where
  "memcpy m dst src n = mem_write m dst (mem_read m src (unat n))"

definition memset :: "mem \<Rightarrow> ptr \<Rightarrow> u8 \<Rightarrow> usize \<Rightarrow> mem" where
  "memset m p v n = mem_write m p (replicate (unat n) v)"

definition load32 :: "mem \<Rightarrow> ptr \<Rightarrow> u32" where
  "load32 m p = of_le32 (m p) (m (p + 1)) (m (p + 2)) (m (p + 3))"

definition store32 :: "mem \<Rightarrow> ptr \<Rightarrow> u32 \<Rightarrow> mem" where
  "store32 m p v = mem_write m p (le32 v)"

section \<open>Blocks of addresses\<close>

definition nowrap :: "ptr \<Rightarrow> nat \<Rightarrow> bool" where
  "nowrap p n \<longleftrightarrow> unat p + n \<le> 2 ^ 32"

definition in_block :: "ptr \<Rightarrow> nat \<Rightarrow> ptr \<Rightarrow> bool" where
  "in_block p n a \<longleftrightarrow> unat (a - p) < n"

definition disjoint_blocks :: "ptr \<Rightarrow> nat \<Rightarrow> ptr \<Rightarrow> nat \<Rightarrow> bool" where
  "disjoint_blocks p n q k \<longleftrightarrow> (\<forall>a. in_block p n a \<longrightarrow> \<not> in_block q k a)"

lemma nowrap_mono: "nowrap p n \<Longrightarrow> k \<le> n \<Longrightarrow> nowrap p k"
  by (simp add: nowrap_def)

lemma in_block_iff:
  assumes "nowrap p n"
  shows "in_block p n a \<longleftrightarrow> unat p \<le> unat a \<and> unat a < unat p + n"
proof (cases "unat p \<le> unat a")
  case True
  then have "unat (a - p) = unat a - unat p"
    by (simp add: unat_sub_le word_le_nat_alt)
  with True show ?thesis by (auto simp: in_block_def)
next
  case False
  then have "unat (a - p) = 2 ^ 32 + unat a - unat p"
    using unat_sub_wrap [of a p] by simp
  with False assms show ?thesis by (simp add: in_block_def nowrap_def)
qed

lemma disjoint_blocksI:
  assumes "nowrap p n" and "nowrap q k"
    and "unat p + n \<le> unat q \<or> unat q + k \<le> unat p"
  shows "disjoint_blocks p n q k"
  using assms(3) by (auto simp: disjoint_blocks_def in_block_iff assms(1,2))

lemma in_block_within:
  assumes "nowrap p n" and "nowrap q k" and "unat p \<le> unat q" and "unat q + k \<le> unat p + n"
    and "in_block q k a"
  shows "in_block p n a"
  using assms(3-5) unfolding in_block_iff [OF assms(1)] in_block_iff [OF assms(2)] by linarith

lemma disjoint_blocks_sym: "disjoint_blocks p n q k \<longleftrightarrow> disjoint_blocks q k p n"
  by (auto simp: disjoint_blocks_def)

lemma in_block_offset: "i < 2 ^ 32 \<Longrightarrow> in_block p n (p + of_nat i) \<longleftrightarrow> i < n"
  by (simp add: in_block_def unat_of_nat_small)

lemma in_block_sub:
  assumes "unat off + k \<le> n" and "in_block (p + off) k a" and "n \<le> 2 ^ 32"
  shows "in_block p n a"
proof -
  let ?d = "a - (p + off)"
  have d: "unat ?d < k" using assms(2) by (simp add: in_block_def)
  have "a - p = ?d + off" by simp
  moreover have "unat (?d + off) = unat ?d + unat off"
    using d assms(1,3) by (intro unat_add_nowrap) simp
  ultimately have "unat (a - p) < n"
    using d assms(1) by simp
  then show ?thesis by (simp add: in_block_def)
qed

section \<open>Reads of written memories\<close>

lemma length_mem_read [simp]: "length (mem_read m p n) = n"
  by (simp add: mem_read_def)

lemma nth_mem_read [simp]: "i < n \<Longrightarrow> mem_read m p n ! i = m (p + of_nat i)"
  by (simp add: mem_read_def)

lemma mem_read_0 [simp]: "mem_read m p 0 = []"
  by (simp add: mem_read_def)

lemma mem_write_Nil [simp]: "mem_write m p [] = m"
  by (simp add: mem_write_def)

lemma mem_read_append: "mem_read m p (a + b) = mem_read m p a @ mem_read m (p + of_nat a) b"
  by (rule nth_equalityI) (auto simp: nth_append add.assoc simp flip: of_nat_add)

lemma mem_read_take: "k \<le> n \<Longrightarrow> take k (mem_read m p n) = mem_read m p k"
  by (rule nth_equalityI) simp_all

lemma mem_read_drop: "mem_read m (p + of_nat k) (n - k) = drop k (mem_read m p n)"
  by (rule nth_equalityI) (simp_all add: add.assoc)

lemma mem_write_in [mem_simps]:
  "in_block p (length bs) a \<Longrightarrow> mem_write m p bs a = bs ! unat (a - p)"
  by (simp add: mem_write_def in_block_def)

lemma mem_write_out [mem_simps]:
  "\<not> in_block p (length bs) a \<Longrightarrow> mem_write m p bs a = m a"
  by (simp add: mem_write_def in_block_def)

lemma mem_write_offset [mem_simps]:
  "i < length bs \<Longrightarrow> length bs \<le> 2 ^ 32 \<Longrightarrow> mem_write m p bs (p + of_nat i) = bs ! i"
  by (simp add: mem_write_def unat_of_nat_small)

lemma mem_read_write_same [mem_simps]:
  "length bs \<le> 2 ^ 32 \<Longrightarrow> mem_read (mem_write m p bs) p (length bs) = bs"
  by (rule nth_equalityI) (simp_all add: mem_write_offset)

lemma mem_read_cong:
  assumes "\<And>a. in_block p n a \<Longrightarrow> m a = m' a" and "n \<le> 2 ^ 32"
  shows "mem_read m p n = mem_read m' p n"
  using assms by (intro nth_equalityI) (auto simp: in_block_offset)

lemma mem_read_write_disjoint [mem_simps]:
  "disjoint_blocks p (length bs) q n \<Longrightarrow> n \<le> 2 ^ 32 \<Longrightarrow>
     mem_read (mem_write m p bs) q n = mem_read m q n"
  by (rule mem_read_cong) (metis disjoint_blocks_def mem_write_out, simp)

lemma mem_write_append:
  assumes "length xs + length ys \<le> 2 ^ 32"
  shows "mem_write (mem_write m p xs) (p + of_nat (length xs)) ys = mem_write m p (xs @ ys)"
proof
  fix a
  let ?c = "length xs"
  have e: "a - (p + of_nat ?c) = (a - p) - of_nat ?c" by simp
  show "mem_write (mem_write m p xs) (p + of_nat ?c) ys a = mem_write m p (xs @ ys) a"
  proof (cases "ys = []")
    case False
    then have c: "unat (of_nat ?c :: ptr) = ?c"
      using assms by (intro unat_of_nat_small) (cases ys; simp)
    show ?thesis
    proof (cases "?c \<le> unat (a - p)")
      case True
      then have "unat (a - (p + of_nat ?c)) = unat (a - p) - ?c"
        unfolding e by (subst unat_sub_le) (simp_all add: word_le_nat_alt c)
      with True show ?thesis by (auto simp: mem_write_def nth_append)
    next
      case lt: False
      then have "unat (a - (p + of_nat ?c)) = 2 ^ 32 + unat (a - p) - ?c"
        unfolding e by (subst unat_sub_wrap) (simp_all add: c)
      then have "\<not> unat (a - (p + of_nat ?c)) < length ys" using assms by simp
      with lt show ?thesis by (auto simp: mem_write_def nth_append)
    qed
  qed simp
qed

lemma load32_conv:
  "load32 m p = of_le32 (mem_read m p 4 ! 0) (mem_read m p 4 ! 1) (mem_read m p 4 ! 2) (mem_read m p 4 ! 3)"
  by (simp add: load32_def)

lemma load32_cong: "mem_read m p 4 = mem_read m' p 4 \<Longrightarrow> load32 m p = load32 m' p"
  by (simp add: load32_conv)

lemma load32_store32_same [mem_simps]: "load32 (store32 m p v) p = v"
  using mem_read_write_same [of "le32 v" m p]
  by (simp add: load32_conv store32_def of_le32_le32_nth [simplified])

lemma load32_mem_write_disjoint [mem_simps]:
  "disjoint_blocks p (length bs) q 4 \<Longrightarrow> load32 (mem_write m p bs) q = load32 m q"
  by (rule load32_cong) (simp add: mem_read_write_disjoint)

lemma load32_store32_disjoint [mem_simps]:
  "disjoint_blocks p 4 q 4 \<Longrightarrow> load32 (store32 m p v) q = load32 m q"
  by (simp add: store32_def load32_mem_write_disjoint)

lemma length_replicate_unat [simp]: "length (replicate (unat n) v) = unat n"
  by simp

lemma le32_load32: "le32 (load32 m p) = mem_read m p 4"
proof -
  have "ucast (of_le32 a b c d) = a" "ucast (drop_bit 8 (of_le32 a b c d)) = b"
      "ucast (drop_bit 16 (of_le32 a b c d)) = c" "ucast (drop_bit 24 (of_le32 a b c d)) = d" for a b c d :: u8
    unfolding of_le32_def by (rule bit_word_eqI; auto simp: bit_simps dest: bit_imp_le_length)+
  then show ?thesis by (simp add: le32_def load32_def mem_read_def numeral_eq_Suc)
qed

section \<open>Alignment\<close>

text \<open>\<^verbatim>\<open>align_up\<close> is defined identically in \<^verbatim>\<open>arena.c\<close> and \<^verbatim>\<open>pool.c\<close>.\<close>

definition align_up :: "ptr \<Rightarrow> usize \<Rightarrow> ptr" where
  "align_up p align = (p + (align - 1)) AND NOT (align - 1)"

lemma unat_align_up:
  assumes "align = 2 ^ k" and "k < 32"
  shows "unat (align_up p align) =
    ((unat p + 2 ^ k - 1) mod 2 ^ 32) - ((unat p + 2 ^ k - 1) mod 2 ^ k)"
proof -
  have one: "unat (align - 1) = 2 ^ k - 1"
    using assms by (subst unat_minus_one) (simp_all add: unat_pow2)
  have sum: "unat (p + (align - 1)) = (unat p + 2 ^ k - 1) mod 2 ^ 32"
    by (simp add: unat_word_ariths one)
  have "(unat p + 2 ^ k - 1) mod 2 ^ 32 mod 2 ^ k = (unat p + 2 ^ k - 1) mod 2 ^ k"
    using assms(2) by (intro mod_mod_cancel le_imp_power_dvd) simp
  then show ?thesis
    using unat_and_not_mask [of "p + (align - 1)" k] sum assms(1) by (simp add: align_up_def)
qed

lemma align_up_nowrap:
  assumes "align = 2 ^ k" and "k < 32" and "unat p + 2 ^ k - 1 < 2 ^ 32"
  shows "unat p \<le> unat (align_up p align)"
    and "unat (align_up p align) < unat p + 2 ^ k"
    and "2 ^ k dvd unat (align_up p align)"
proof -
  have eq: "unat (align_up p align) =
      (unat p + 2 ^ k - 1) - ((unat p + 2 ^ k - 1) mod 2 ^ k)"
    using unat_align_up [OF assms(1,2), of p] assms(3) by simp
  have lt: "(unat p + 2 ^ k - 1) mod 2 ^ k < 2 ^ k" by simp
  show "unat p \<le> unat (align_up p align)"
    using eq lt by linarith
  have "0 < (2::nat) ^ k" by simp
  then show "unat (align_up p align) < unat p + 2 ^ k"
    using eq by linarith
  show "2 ^ k dvd unat (align_up p align)"
    unfolding eq by (rule dvd_minus_mod)
qed

lemma align_up_wrap:
  assumes "align = 2 ^ k" and "k < 32" and "2 ^ 32 \<le> unat p + 2 ^ k - 1"
  shows "align_up p align = 0"
proof -
  let ?s = "unat p + 2 ^ k - 1"
  have "(2::nat) ^ k < 2 ^ 32" using assms(2) by (intro power_strict_increasing) simp_all
  moreover have "unat p < 2 ^ 32" using unat_lt32 [of p] by simp
  moreover have "0 < (2::nat) ^ k" by simp
  ultimately have lt: "?s - 2 ^ 32 < 2 ^ k"
    by linarith
  with \<open>2 ^ k < 2 ^ 32\<close> have "?s - 2 ^ 32 < 2 ^ 32"
    by linarith
  moreover note lt
  moreover have "?s mod 2 ^ 32 = (?s - 2 ^ 32) mod 2 ^ 32"
    using assms(3) by (rule le_mod_geq)
  ultimately have s: "?s mod 2 ^ 32 < 2 ^ k"
    by (simp only: mod_less)
  then have "?s mod 2 ^ 32 mod 2 ^ k = ?s mod 2 ^ 32"
    by (rule mod_less)
  moreover have "?s mod 2 ^ 32 mod 2 ^ k = ?s mod 2 ^ k"
    using assms(2) by (intro mod_mod_cancel le_imp_power_dvd) simp
  ultimately have "unat (align_up p align) = 0"
    using unat_align_up [OF assms(1,2), of p] by simp
  then show ?thesis by (simp add: unat_0_iff)
qed

text \<open>Rounding up to a multiple of a power of two, on the naturals.\<close>

definition round_up :: "nat \<Rightarrow> nat \<Rightarrow> nat" where
  "round_up k n = (n + 2 ^ k - 1) div 2 ^ k * 2 ^ k"

lemma align_up_round:
  assumes "k < 32" and "unat p + 2 ^ k - 1 < 2 ^ 32"
  shows "unat (align_up p (2 ^ k)) = round_up k (unat p)"
proof -
  have "unat (align_up p (2 ^ k)) = (unat p + 2 ^ k - 1) - ((unat p + 2 ^ k - 1) mod 2 ^ k)"
    using unat_align_up [OF refl assms(1), of p] assms(2) by simp
  then show ?thesis by (simp only: round_up_def minus_mod_eq_div_mult)
qed

lemma round_up_ge: "n \<le> round_up k n"
proof -
  have "(n + 2 ^ k - 1) mod 2 ^ k < 2 ^ k" by simp
  moreover have "round_up k n + (n + 2 ^ k - 1) mod 2 ^ k = n + 2 ^ k - 1"
    by (simp only: round_up_def div_mult_mod_eq)
  ultimately show ?thesis by linarith
qed

lemma round_up_less: "round_up k n < n + 2 ^ k"
proof -
  have "round_up k n \<le> n + 2 ^ k - 1"
    unfolding round_up_def by (rule div_times_less_eq_dividend)
  moreover have "0 < (2 :: nat) ^ k" by simp
  ultimately show ?thesis by linarith
qed

lemma round_up_dvd: "2 ^ k dvd round_up k n"
  by (simp add: round_up_def)

lemma round_up_id: "2 ^ k dvd n \<Longrightarrow> round_up k n = n"
proof -
  assume "2 ^ k dvd n"
  then obtain q where n: "n = 2 ^ k * q" ..
  have "(2 ^ k * q + (2 ^ k - 1)) div 2 ^ k = q + (2 ^ k - 1) div (2 :: nat) ^ k"
    by (subst add.commute, subst div_mult_self2) simp_all
  then show ?thesis by (simp add: round_up_def n)
qed

end
