(* ===== verification/Ring.thy ===== *)
theory Ring
  imports Memory
begin

text \<open>
  Two things the queues of the library share: the interface of a bounded FIFO queue, as a locale
  whose laws every ring buffer of the code discharges, and the index arithmetic of a ring whose
  capacity is a power of two and whose free-running counters wrap at \<open>2 ^ 32\<close>.
\<close>

unbundle bit_operations_syntax

section \<open>The interface of a bounded FIFO queue\<close>

datatype 'a queue_op = Put 'a | Take

text \<open>A run of operations: the elements accepted, the elements handed out, the final queue.\<close>

fun queue_run ::
  "('a \<Rightarrow> 'q \<Rightarrow> fw_status \<times> 'q) \<Rightarrow> ('q \<Rightarrow> ('a \<times> 'q) option) \<Rightarrow> 'a queue_op list \<Rightarrow> 'q
    \<Rightarrow> 'a list \<times> 'a list \<times> 'q" where
  "queue_run enq deq [] q = ([], [], q)"
| "queue_run enq deq (Put x # ops) q =
     (case enq x q of (st, q') \<Rightarrow>
      case queue_run enq deq ops q' of (acc, out, q'') \<Rightarrow>
        ((if st = FW_OK then x # acc else acc), out, q''))"
| "queue_run enq deq (Take # ops) q =
     (case deq q of
        None \<Rightarrow> queue_run enq deq ops q
      | Some (x, q') \<Rightarrow>
          (case queue_run enq deq ops q' of (acc, out, q'') \<Rightarrow> (acc, x # out, q'')))"

fun enq_all :: "('a \<Rightarrow> 'q \<Rightarrow> fw_status \<times> 'q) \<Rightarrow> 'a list \<Rightarrow> 'q \<Rightarrow> 'q" where
  "enq_all enq [] q = q"
| "enq_all enq (x # xs) q = enq_all enq xs (snd (enq x q))"

locale bounded_queue =
  fixes enq :: "'a \<Rightarrow> 'q \<Rightarrow> fw_status \<times> 'q"
    and deq :: "'q \<Rightarrow> ('a \<times> 'q) option"
    and items :: "'q \<Rightarrow> 'a list"
    and cap :: "'q \<Rightarrow> nat"
    and inv :: "'q \<Rightarrow> bool"
  assumes items_le: "inv q \<Longrightarrow> length (items q) \<le> cap q"
    and enq_room: "inv q \<Longrightarrow> length (items q) < cap q \<Longrightarrow>
      \<exists>q'. enq x q = (FW_OK, q') \<and> inv q' \<and> items q' = items q @ [x] \<and> cap q' = cap q"
    and enq_full: "inv q \<Longrightarrow> length (items q) = cap q \<Longrightarrow> enq x q = (FW_ERR_BUFFER_OVERFLOW, q)"
    and deq_empty: "inv q \<Longrightarrow> items q = [] \<Longrightarrow> deq q = None"
    and deq_first: "inv q \<Longrightarrow> items q = x # xs \<Longrightarrow>
      \<exists>q'. deq q = Some (x, q') \<and> inv q' \<and> items q' = xs \<and> cap q' = cap q"
begin

lemma enq_cases:
  assumes "inv q"
  obtains (room) q' where "length (items q) < cap q" "enq x q = (FW_OK, q')" "inv q'"
      "items q' = items q @ [x]" "cap q' = cap q"
    | (full) "length (items q) = cap q" "enq x q = (FW_ERR_BUFFER_OVERFLOW, q)"
  using assms items_le [OF assms] enq_room [OF assms, of x] enq_full [OF assms, of x]
  by fastforce

lemma deq_cases:
  assumes "inv q"
  obtains (empty) "items q = []" "deq q = None"
    | (first) x xs q' where "items q = x # xs" "deq q = Some (x, q')" "inv q'" "items q' = xs"
      "cap q' = cap q"
  using assms deq_empty [OF assms] deq_first [OF assms] by (cases "items q") auto

text \<open>Nothing is lost, duplicated or reordered, whatever the order of operations.\<close>

lemma run_fifo:
  "inv q \<Longrightarrow> queue_run enq deq ops q = (acc, out, q') \<Longrightarrow>
     inv q' \<and> cap q' = cap q \<and> items q @ acc = out @ items q'"
proof (induction ops arbitrary: q acc out q')
  case Nil
  then show ?case by simp
next
  case (Cons op ops)
  show ?case
  proof (cases op)
    case (Put x)
    from Cons.prems(1) show ?thesis
    proof (cases rule: enq_cases [where x = x])
      case (room q1)
      then show ?thesis
        using Put Cons.prems(2) Cons.IH [of q1] by (fastforce split: prod.splits)
    next
      case full
      then show ?thesis
        using Put Cons.prems Cons.IH [of q] by (fastforce split: prod.splits)
    qed
  next
    case Take
    from Cons.prems(1) show ?thesis
    proof (cases rule: deq_cases)
      case empty
      then show ?thesis using Take Cons.prems Cons.IH [of q] by simp
    next
      case (first x xs q1)
      then show ?thesis
        using Take Cons.prems(2) Cons.IH [of q1] by (fastforce split: prod.splits)
    qed
  qed
qed

lemma enq_all_items:
  "inv q \<Longrightarrow> inv (enq_all enq xs q) \<and> cap (enq_all enq xs q) = cap q
     \<and> items (enq_all enq xs q) = items q @ take (cap q - length (items q)) xs"
proof (induction xs arbitrary: q)
  case Nil
  then show ?case by simp
next
  case (Cons x xs)
  from Cons.prems show ?case
  proof (cases rule: enq_cases [where x = x])
    case (room q')
    then have "cap q - length (items q) = Suc (cap q' - length (items q'))" by simp
    with room Cons.IH [of q'] show ?thesis by simp
  next
    case full
    with Cons.IH [OF Cons.prems] show ?thesis by simp
  qed
qed

end

section \<open>Ring index arithmetic\<close>

lemma unat_ring_index:
  fixes t :: usize
  assumes "k < 32"
  shows "unat ((t + of_nat i) AND (2 ^ k - 1)) = (unat t + i) mod 2 ^ k"
proof -
  have dvd: "(2::nat) ^ k dvd 2 ^ 32" using assms by (intro le_imp_power_dvd) simp
  have "unat (t + of_nat i) = (unat t + i) mod 2 ^ 32"
    by (simp add: unat_word_ariths unsigned_of_nat take_bit_nat_def mod_simps)
  then show ?thesis
    by (simp only: unat_and_pow2_minus_one mod_mod_cancel [OF dvd])
qed

lemma ring_index_inj:
  fixes t :: usize
  assumes "k < 32" and "i < 2 ^ k" and "j < 2 ^ k"
    and "(t + of_nat i) AND (2 ^ k - 1) = (t + of_nat j) AND (2 ^ k - 1)"
  shows "i = j"
proof -
  have *: "i = j" if "i \<le> j" "j < 2 ^ k" "(unat t + i) mod 2 ^ k = (unat t + j) mod 2 ^ k" for i j
  proof -
    have "2 ^ k dvd (unat t + j) - (unat t + i)"
      using that(1,3) by (metis add_le_cancel_left mod_eq_dvd_iff_nat)
    then have "2 ^ k dvd j - i" by simp
    then show ?thesis using that(1,2) by (metis diff_diff_cancel diff_zero dvd_imp_le
          le_less_trans less_imp_diff_less linorder_not_le zero_less_diff diff_is_0_eq' not_gr_zero)
  qed
  have "(unat t + i) mod 2 ^ k = (unat t + j) mod 2 ^ k"
    using assms(4) unat_ring_index [OF assms(1)] by metis
  then show ?thesis
    using *[of i j] *[of j i] assms(2,3) by (metis nat_le_linear)
qed

definition ring_addr :: "ptr \<Rightarrow> usize \<Rightarrow> usize \<Rightarrow> nat \<Rightarrow> ptr" where
  "ring_addr buf msk t i = buf + ((t + of_nat i) AND msk)"

lemma ring_addr_inj:
  assumes "k < 32" and "i < 2 ^ k" and "j < 2 ^ k"
  shows "ring_addr buf (2 ^ k - 1) t i = ring_addr buf (2 ^ k - 1) t j \<longleftrightarrow> i = j"
  using ring_index_inj [OF assms] by (auto simp: ring_addr_def)

lemma ring_addr_Suc: "ring_addr buf msk (t + 1) i = ring_addr buf msk t (Suc i)"
  by (simp add: ring_addr_def add.assoc)

lemma ring_addr_in_block:
  assumes "k < 32"
  shows "in_block buf (2 ^ k) (ring_addr buf (2 ^ k - 1) t i)"
  using unat_ring_index [OF assms, of t i] by (simp add: in_block_def ring_addr_def)

text \<open>Storing a byte string one byte at a time into a ring: the reference for the bulk copies.\<close>

fun ring_store :: "mem \<Rightarrow> ptr \<Rightarrow> usize \<Rightarrow> usize \<Rightarrow> u8 list \<Rightarrow> mem" where
  "ring_store m buf msk h [] = m"
| "ring_store m buf msk h (b # bs) = ring_store (m(buf + (h AND msk) := b)) buf msk (h + 1) bs"

lemma ring_store_other:
  "(\<And>j. j < length bs \<Longrightarrow> a \<noteq> ring_addr buf msk h j) \<Longrightarrow> ring_store m buf msk h bs a = m a"
proof (induction bs arbitrary: m h)
  case (Cons b bs)
  have "a \<noteq> ring_addr buf msk (h + 1) j" if "j < length bs" for j
    using Cons.prems [of "Suc j"] that by (simp add: ring_addr_Suc)
  moreover have "a \<noteq> buf + (h AND msk)"
    using Cons.prems [of 0] by (simp add: ring_addr_def)
  ultimately show ?case using Cons.IH by simp
qed simp

lemma ring_store_nth:
  assumes "k < 32"
  shows "length bs \<le> 2 ^ k \<Longrightarrow> j < length bs \<Longrightarrow>
    ring_store m buf (2 ^ k - 1) h bs (ring_addr buf (2 ^ k - 1) h j) = bs ! j"
proof (induction bs arbitrary: m h j)
  case (Cons b bs)
  show ?case
  proof (cases j)
    case 0
    have "ring_addr buf (2 ^ k - 1) h 0 \<noteq> ring_addr buf (2 ^ k - 1) (h + 1) i"
      if "i < length bs" for i
      using that Cons.prems ring_addr_inj [OF assms, of 0 "Suc i"]
      by (simp add: ring_addr_Suc)
    then show ?thesis
      using 0 by (simp add: ring_store_other) (simp add: ring_addr_def)
  next
    case (Suc i)
    with Cons show ?thesis by (simp flip: ring_addr_Suc)
  qed
qed simp

lemma ring_store_append:
  "ring_store m buf msk h (xs @ ys) = ring_store (ring_store m buf msk h xs) buf msk (h + of_nat (length xs)) ys"
  by (induction xs arbitrary: m h) (simp_all add: add.assoc)

lemma ring_index_add:
  fixes t :: usize
  assumes "k < 32"
  shows "unat ((t + of_nat i) AND (2 ^ k - 1)) = (unat (t AND (2 ^ k - 1)) + i) mod 2 ^ k"
  using unat_ring_index [OF assms, of t i] unat_ring_index [OF assms, of t 0] by (simp add: mod_add_left_eq)

text \<open>Up to the end of the storage the byte-by-byte store is one copy.\<close>

lemma ring_store_run:
  assumes k: "k < 32"
  shows "unat (h AND (2 ^ k - 1)) + length bs \<le> 2 ^ k \<Longrightarrow>
    ring_store m buf (2 ^ k - 1) h bs = mem_write m (buf + (h AND (2 ^ k - 1))) bs"
proof (induction bs arbitrary: m h)
  case (Cons b bs)
  let ?p = "buf + (h AND (2 ^ k - 1))"
  have pk: "(2 :: nat) ^ k < 2 ^ 32" using k by (intro power_strict_increasing) simp_all
  have one: "m(?p := b) = mem_write m ?p [b]" by (auto simp: mem_write_def fun_eq_iff unat_eq_0)
  show ?case
  proof (cases "bs = []")
    case False
    have idx: "unat ((h + 1) AND (2 ^ k - 1)) = Suc (unat (h AND (2 ^ k - 1)))"
    proof -
      have "0 < length bs" "length (b # bs) = length bs + 1" using False by simp_all
      then have "unat (h AND (2 ^ k - 1)) + 1 < 2 ^ k" using Cons.prems by linarith
      then show ?thesis using ring_index_add [OF k, of h 1] by (simp only: mod_less of_nat_1 Suc_eq_plus1)
    qed
    have "(h + 1) AND (2 ^ k - 1) = of_nat (unat ((h + 1) AND (2 ^ k - 1)))" by (rule of_nat_unat_id [symmetric])
    also have "\<dots> = (h AND (2 ^ k - 1)) + 1" unfolding idx by (simp only: of_nat_Suc of_nat_unat_id add.commute)
    finally show ?thesis
      using Cons.IH [of "h + 1" "m(?p := b)"] Cons.prems idx pk mem_write_append [of "[b]" bs m ?p]
      by (simp add: one add.assoc)
  qed (simp add: one)
qed simp

text \<open>The two-chunk copy of the bulk operations is the byte-by-byte store.\<close>

lemma chunked_ring_store:
  fixes h :: usize
  assumes k: "k < 32" and len: "length bs \<le> 2 ^ k"
    and idx: "idx = unat (h AND (2 ^ k - 1))" and c1: "c1 = min (2 ^ k - idx) (length bs)"
  shows "mem_write (mem_write m (buf + (h AND (2 ^ k - 1))) (take c1 bs)) buf (drop c1 bs)
    = ring_store m buf (2 ^ k - 1) h bs"
proof -
  have idxk: "idx < 2 ^ k" using k unat_ring_index [OF k, of h 0] by (simp add: idx)
  have first: "ring_store m buf (2 ^ k - 1) h (take c1 bs) = mem_write m (buf + (h AND (2 ^ k - 1))) (take c1 bs)"
    using idxk c1 by (intro ring_store_run [OF k]) (simp flip: idx)
  have rest: "ring_store m' buf (2 ^ k - 1) (h + of_nat c1) (drop c1 bs) = mem_write m' buf (drop c1 bs)" for m'
  proof (cases "drop c1 bs = []")
    case False
    then have "c1 = 2 ^ k - idx" using c1 by auto
    then have "unat ((h + of_nat c1) AND (2 ^ k - 1)) = 0"
      using ring_index_add [OF k, of h c1] idxk by (simp flip: idx)
    then show ?thesis
      using ring_store_run [OF k, of "h + of_nat c1" "drop c1 bs" m' buf] len by (simp add: unat_eq_0)
  qed simp
  have "length (take c1 bs) = c1" using c1 by simp
  then show ?thesis
    using ring_store_append [of m buf "2 ^ k - 1" h "take c1 bs" "drop c1 bs"] first rest by simp
qed

text \<open>Reading a ring in two chunks is reading it slot by slot.\<close>

definition ring_read :: "mem \<Rightarrow> ptr \<Rightarrow> usize \<Rightarrow> usize \<Rightarrow> nat \<Rightarrow> u8 list" where
  "ring_read m buf msk t n = map (\<lambda>i. m (ring_addr buf msk t i)) [0..<n]"

lemma chunked_ring_read:
  fixes t :: usize
  assumes k: "k < 32" and n: "n \<le> 2 ^ k"
    and idx: "idx = unat (t AND (2 ^ k - 1))" and c1: "c1 = min (2 ^ k - idx) n"
  shows "mem_read m (buf + (t AND (2 ^ k - 1))) c1 @ mem_read m buf (n - c1)
    = ring_read m buf (2 ^ k - 1) t n"
proof (rule nth_equalityI)
  show "length (mem_read m (buf + (t AND (2 ^ k - 1))) c1 @ mem_read m buf (n - c1))
      = length (ring_read m buf (2 ^ k - 1) t n)"
    using c1 by (simp add: ring_read_def)
next
  fix i assume "i < length (mem_read m (buf + (t AND (2 ^ k - 1))) c1 @ mem_read m buf (n - c1))"
  then have i: "i < n" using c1 by simp
  have idxk: "idx < 2 ^ k" using unat_ring_index [OF k, of t 0] by (simp add: idx)
  have idxm: "idx = unat t mod 2 ^ k" using unat_ring_index [OF k, of t 0] by (simp add: idx)
  have t: "t AND (2 ^ k - 1) = of_nat idx" by (simp add: idx)
  have off: "unat (ring_addr buf (2 ^ k - 1) t i - buf) = (idx + i) mod 2 ^ k"
    using unat_ring_index [OF k, of t i] by (simp add: ring_addr_def idxm mod_simps)
  have addr: "ring_addr buf (2 ^ k - 1) t i
      = (if i < c1 then buf + of_nat idx + of_nat i else buf + of_nat (i - c1))"
  proof (cases "i < c1")
    case True
    then have "idx + i < 2 ^ k" using c1 by (simp add: less_diff_conv add.commute)
    then have "ring_addr buf (2 ^ k - 1) t i - buf = of_nat (idx + i)"
      using off by (metis mod_less of_nat_unat_id)
    then show ?thesis using True by (simp add: algebra_simps)
  next
    case False
    then have c1': "c1 = 2 ^ k - idx" using i c1 by simp
    have "idx + i = (i - c1) + 2 ^ k" using False c1' idxk by simp
    then have "(idx + i) mod 2 ^ k = (i - c1) mod 2 ^ k" by simp
    also have "\<dots> = i - c1" using i n by simp
    finally have "ring_addr buf (2 ^ k - 1) t i - buf = of_nat (i - c1)"
      using off by (metis of_nat_unat_id)
    then show ?thesis using False by (simp add: algebra_simps)
  qed
  show "(mem_read m (buf + (t AND (2 ^ k - 1))) c1 @ mem_read m buf (n - c1)) ! i
      = ring_read m buf (2 ^ k - 1) t n ! i"
    using i by (simp add: ring_read_def nth_append addr t)
qed

lemma length_ring_read [simp]: "length (ring_read m buf msk t n) = n"
  by (simp add: ring_read_def)

lemma nth_ring_read [simp]: "i < n \<Longrightarrow> ring_read m buf msk t n ! i = m (ring_addr buf msk t i)"
  by (simp add: ring_read_def)

lemma ring_read_cong:
  "(\<And>i. i < n \<Longrightarrow> m (ring_addr buf msk t i) = m' (ring_addr buf msk t i)) \<Longrightarrow>
     ring_read m buf msk t n = ring_read m' buf msk t n"
  by (rule nth_equalityI) simp_all

lemma ring_read_store:
  assumes k: "k < 32" and "n + length bs \<le> 2 ^ k"
  shows "ring_read (ring_store m buf (2 ^ k - 1) (t + of_nat n) bs) buf (2 ^ k - 1) t (n + length bs)
    = ring_read m buf (2 ^ k - 1) t n @ bs"
proof (rule nth_equalityI)
  have shift: "ring_addr buf (2 ^ k - 1) (t + of_nat n) j = ring_addr buf (2 ^ k - 1) t (n + j)" for j
    by (simp add: ring_addr_def add.assoc)
  fix i
  assume "i < length (ring_read (ring_store m buf (2 ^ k - 1) (t + of_nat n) bs) buf (2 ^ k - 1) t
    (n + length bs))"
  then have i: "i < n + length bs" by simp
  show "ring_read (ring_store m buf (2 ^ k - 1) (t + of_nat n) bs) buf (2 ^ k - 1) t (n + length bs) ! i
    = (ring_read m buf (2 ^ k - 1) t n @ bs) ! i"
  proof (cases "i < n")
    case True
    then have "ring_addr buf (2 ^ k - 1) t i \<noteq> ring_addr buf (2 ^ k - 1) (t + of_nat n) j"
      if "j < length bs" for j
      using that assms(2) ring_addr_inj [OF k, of i "n + j"] by (simp add: shift)
    then show ?thesis using True by (simp add: nth_append ring_store_other)
  next
    case False
    then obtain j where j: "i = n + j" by (metis le_Suc_ex not_less)
    then show ?thesis
      using i assms(2) ring_store_nth [OF k, of bs j m buf "t + of_nat n"]
      by (simp add: nth_append shift)
  qed
qed simp

lemma ring_read_drop:
  "drop r (ring_read m buf msk t n) = ring_read m buf msk (t + of_nat r) (n - r)"
  by (rule nth_equalityI) (simp_all add: ring_addr_def add.assoc)

lemma ring_read_take: "r \<le> n \<Longrightarrow> take r (ring_read m buf msk t n) = ring_read m buf msk t r"
  by (rule nth_equalityI) simp_all

end
