(* ===== verification/Spsc.thy ===== *)
theory Spsc
  imports Ring
begin

text \<open>
  The single-producer single-consumer byte ring (\<^verbatim>\<open>include/zero/sync/spsc.h\<close>, \<^verbatim>\<open>src/spsc.c\<close>), as the
  sequential functions its operations are.  \<open>head\<close> and \<open>tail\<close> are free-running 32-bit counters.
  The concurrent use by an interrupt and the main loop is the theory \<^verbatim>\<open>Spsc_Concurrent\<close>.
\<close>

unbundle bit_operations_syntax

record fw_spsc =
  sq_buffer :: ptr
  sq_capacity :: usize
  sq_mask :: usize
  sq_head :: usize
  sq_tail :: usize

definition fw_spsc_init :: "fw_spsc option \<Rightarrow> ptr \<Rightarrow> usize \<Rightarrow> fw_status \<times> fw_spsc option" where
  "fw_spsc_init spsc buffer capacity =
     (if spsc = None \<or> buffer = FW_NULL \<or> capacity = 0 then (FW_ERR_INVALID_ARG, spsc)
      else if capacity AND (capacity - 1) \<noteq> 0 then (FW_ERR_INVALID_ARG, spsc)
      else (FW_OK, Some \<lparr>sq_buffer = buffer, sq_capacity = capacity, sq_mask = capacity - 1,
                         sq_head = 0, sq_tail = 0\<rparr>))"

definition fw_spsc_push :: "mem \<Rightarrow> fw_spsc option \<Rightarrow> u8 \<Rightarrow> fw_status \<times> mem \<times> fw_spsc option" where
  "fw_spsc_push m spsc byte =
     (case spsc of
        None \<Rightarrow> (FW_ERR_INVALID_ARG, m, None)
      | Some q \<Rightarrow>
          let head = sq_head q; tail = sq_tail q
          in if head - tail \<ge> sq_capacity q then (FW_ERR_BUFFER_OVERFLOW, m, Some q)
             else (FW_OK, m(sq_buffer q + (head AND sq_mask q) := byte),
                   Some (q\<lparr>sq_head := head + 1\<rparr>)))"

definition fw_spsc_pop ::
  "mem \<Rightarrow> fw_spsc option \<Rightarrow> u8 option \<Rightarrow> fw_status \<times> fw_spsc option \<times> u8 option" where
  "fw_spsc_pop m spsc out =
     (case (spsc, out) of
        (Some q, Some _) \<Rightarrow>
          let tail = sq_tail q; head = sq_head q
          in if tail = head then (FW_ERR_NOT_FOUND, Some q, out)
             else (FW_OK, Some (q\<lparr>sq_tail := tail + 1\<rparr>),
                   Some (m (sq_buffer q + (tail AND sq_mask q))))
      | _ \<Rightarrow> (FW_ERR_INVALID_ARG, spsc, out))"

definition fw_spsc_write ::
  "mem \<Rightarrow> fw_spsc option \<Rightarrow> ptr \<Rightarrow> usize \<Rightarrow> usize \<times> mem \<times> fw_spsc option" where
  "fw_spsc_write m spsc src count =
     (case spsc of
        None \<Rightarrow> (0, m, None)
      | Some q \<Rightarrow>
          if src = FW_NULL \<or> count = 0 then (0, m, Some q)
          else
            let head = sq_head q; tail = sq_tail q;
                available = sq_capacity q - (head - tail);
                to_write = (if count < available then count else available)
            in if to_write = 0 then (0, m, Some q)
               else
                 let idx = head AND sq_mask q;
                     chunk1 = sq_capacity q - idx;
                     chunk1 = (if chunk1 > to_write then to_write else chunk1);
                     m1 = memcpy m (sq_buffer q + idx) src chunk1;
                     chunk2 = to_write - chunk1;
                     m2 = (if chunk2 > 0 then memcpy m1 (sq_buffer q) (src + chunk1) chunk2 else m1)
                 in (to_write, m2, Some (q\<lparr>sq_head := head + to_write\<rparr>)))"

definition fw_spsc_read ::
  "mem \<Rightarrow> fw_spsc option \<Rightarrow> ptr \<Rightarrow> usize \<Rightarrow> usize \<times> mem \<times> fw_spsc option" where
  "fw_spsc_read m spsc dst max_count =
     (case spsc of
        None \<Rightarrow> (0, m, None)
      | Some q \<Rightarrow>
          if dst = FW_NULL \<or> max_count = 0 then (0, m, Some q)
          else
            let tail = sq_tail q; head = sq_head q;
                count = head - tail;
                to_read = (if max_count < count then max_count else count)
            in if to_read = 0 then (0, m, Some q)
               else
                 let idx = tail AND sq_mask q;
                     chunk1 = sq_capacity q - idx;
                     chunk1 = (if chunk1 > to_read then to_read else chunk1);
                     m1 = memcpy m dst (sq_buffer q + idx) chunk1;
                     chunk2 = to_read - chunk1;
                     m2 = (if chunk2 > 0 then memcpy m1 (dst + chunk1) (sq_buffer q) chunk2 else m1)
                 in (to_read, m2, Some (q\<lparr>sq_tail := tail + to_read\<rparr>)))"

definition fw_spsc_count :: "fw_spsc option \<Rightarrow> usize" where
  "fw_spsc_count spsc = (case spsc of None \<Rightarrow> 0 | Some q \<Rightarrow> sq_head q - sq_tail q)"

definition fw_spsc_available :: "fw_spsc option \<Rightarrow> usize" where
  "fw_spsc_available spsc =
     (case spsc of None \<Rightarrow> 0 | Some q \<Rightarrow> sq_capacity q - (sq_head q - sq_tail q))"

definition fw_spsc_is_empty :: "fw_spsc option \<Rightarrow> bool" where
  "fw_spsc_is_empty spsc = (case spsc of None \<Rightarrow> True | Some q \<Rightarrow> sq_head q = sq_tail q)"

definition fw_spsc_is_full :: "fw_spsc option \<Rightarrow> bool" where
  "fw_spsc_is_full spsc =
     (case spsc of None \<Rightarrow> True | Some q \<Rightarrow> sq_head q - sq_tail q \<ge> sq_capacity q)"

section \<open>Invariant and abstraction\<close>

definition spsc_wf :: "fw_spsc \<Rightarrow> bool" where
  "spsc_wf q \<longleftrightarrow> sq_buffer q \<noteq> FW_NULL \<and> sq_capacity q \<noteq> 0
     \<and> sq_capacity q AND (sq_capacity q - 1) = 0 \<and> sq_mask q = sq_capacity q - 1
     \<and> nowrap (sq_buffer q) (unat (sq_capacity q)) \<and> sq_head q - sq_tail q \<le> sq_capacity q"

definition spsc_bytes :: "mem \<Rightarrow> fw_spsc \<Rightarrow> u8 list" where
  "spsc_bytes m q =
     ring_read m (sq_buffer q) (sq_mask q) (sq_tail q) (unat (sq_head q - sq_tail q))"

lemma spsc_init_wf:
  "fw_spsc_init (Some q0) buf n = (FW_OK, Some q) \<Longrightarrow> nowrap buf (unat n) \<Longrightarrow>
     spsc_wf q \<and> spsc_bytes m q = []"
  by (auto simp: fw_spsc_init_def spsc_wf_def spsc_bytes_def ring_read_def split: if_splits)

lemma spsc_wfE:
  assumes "spsc_wf q"
  obtains k where "k < 32" and "sq_capacity q = 2 ^ k" and "sq_mask q = 2 ^ k - 1"
    and "unat (sq_capacity q) = 2 ^ k" and "unat (sq_head q - sq_tail q) \<le> 2 ^ k"
proof -
  have "\<exists>k < LENGTH(32). sq_capacity q = 2 ^ k"
    using assms by (intro word_pow2_of_and) (simp_all add: spsc_wf_def)
  then obtain k where k: "k < 32" "sq_capacity q = 2 ^ k" by auto
  moreover have "unat (sq_capacity q) = 2 ^ k" using k by (simp add: unat_pow2)
  moreover have "unat (sq_head q - sq_tail q) \<le> unat (sq_capacity q)"
    using assms by (simp add: spsc_wf_def word_le_nat_alt)
  ultimately show ?thesis using that assms by (simp add: spsc_wf_def)
qed

lemma length_spsc_bytes [simp]: "length (spsc_bytes m q) = unat (sq_head q - sq_tail q)"
  by (simp add: spsc_bytes_def)

lemma head_as_offset: "(h :: usize) = t + of_nat (unat (h - t))"
  by simp

text \<open>Storing \<open>bs\<close> at the head and advancing it appends \<open>bs\<close> to the contents.\<close>

lemma spsc_store_bytes:
  assumes wf: "spsc_wf q" and fit: "unat (sq_head q - sq_tail q) + length bs \<le> unat (sq_capacity q)"
  defines "q' \<equiv> q\<lparr>sq_head := sq_head q + of_nat (length bs)\<rparr>"
  shows "spsc_wf q'"
    and "spsc_bytes (ring_store m (sq_buffer q) (sq_mask q) (sq_head q) bs) q' = spsc_bytes m q @ bs"
proof -
  obtain k where k: "k < 32" and msk: "sq_mask q = 2 ^ k - 1" and cap: "unat (sq_capacity q) = 2 ^ k"
    using wf by (rule spsc_wfE)
  let ?n = "unat (sq_head q - sq_tail q)"
  have pk: "(2::nat) ^ k < 2 ^ 32" using k by (intro power_strict_increasing) simp_all
  have "sq_head q' - sq_tail q' = (sq_head q - sq_tail q) + of_nat (length bs)"
    by (simp add: q'_def)
  moreover have "?n + length bs < 2 ^ 32" using fit cap pk by simp
  ultimately have n': "unat (sq_head q' - sq_tail q') = ?n + length bs"
    by (simp add: unat_add_of_nat)
  then show "spsc_wf q'"
    using wf fit by (simp add: spsc_wf_def q'_def word_le_nat_alt)
  have "spsc_bytes (ring_store m (sq_buffer q) (sq_mask q) (sq_head q) bs) q'
      = ring_read (ring_store m (sq_buffer q) (2 ^ k - 1) (sq_tail q + of_nat ?n) bs)
          (sq_buffer q) (2 ^ k - 1) (sq_tail q) (?n + length bs)"
    using n' by (simp add: spsc_bytes_def msk q'_def)
  also have "\<dots> = spsc_bytes m q @ bs"
    using ring_read_store [OF k, of ?n bs m "sq_buffer q" "sq_tail q"] fit cap
    by (simp add: spsc_bytes_def msk)
  finally show "spsc_bytes (ring_store m (sq_buffer q) (sq_mask q) (sq_head q) bs) q'
      = spsc_bytes m q @ bs" .
qed

text \<open>Advancing the tail by \<open>r\<close> drops the first \<open>r\<close> bytes.\<close>

lemma spsc_drop_bytes:
  assumes wf: "spsc_wf q" and r: "r \<le> unat (sq_head q - sq_tail q)"
  defines "q' \<equiv> q\<lparr>sq_tail := sq_tail q + of_nat r\<rparr>"
  shows "spsc_wf q'" and "spsc_bytes m q' = drop r (spsc_bytes m q)"
proof -
  have "sq_head q' - sq_tail q' = (sq_head q - sq_tail q) - of_nat r" by (simp add: q'_def)
  moreover have "unat (of_nat r :: usize) = r"
    using r unat_lt32 [of "sq_head q - sq_tail q"] by (simp add: unat_of_nat_small)
  ultimately have n': "unat (sq_head q' - sq_tail q') = unat (sq_head q - sq_tail q) - r"
    using r by (simp add: unat_sub_le word_le_nat_alt)
  then show "spsc_wf q'"
    using wf by (auto simp: spsc_wf_def q'_def word_le_nat_alt intro: le_trans [OF diff_le_self])
  show "spsc_bytes m q' = drop r (spsc_bytes m q)"
    using n' by (simp add: spsc_bytes_def ring_read_drop) (simp add: q'_def)
qed

section \<open>The ring as a bounded FIFO queue\<close>

definition spsc_enq :: "u8 \<Rightarrow> mem \<times> fw_spsc \<Rightarrow> fw_status \<times> (mem \<times> fw_spsc)" where
  "spsc_enq byte s =
     (case fw_spsc_push (fst s) (Some (snd s)) byte of
        (st, m', q') \<Rightarrow> (st, m', the q'))"

definition spsc_deq :: "mem \<times> fw_spsc \<Rightarrow> (u8 \<times> (mem \<times> fw_spsc)) option" where
  "spsc_deq s =
     (case fw_spsc_pop (fst s) (Some (snd s)) (Some 0) of
        (st, q', out) \<Rightarrow> if st = FW_OK then Some (the out, fst s, the q') else None)"

definition spsc_items :: "mem \<times> fw_spsc \<Rightarrow> u8 list" where
  "spsc_items s = spsc_bytes (fst s) (snd s)"

definition spsc_cap :: "mem \<times> fw_spsc \<Rightarrow> nat" where
  "spsc_cap s = unat (sq_capacity (snd s))"

definition spsc_inv :: "mem \<times> fw_spsc \<Rightarrow> bool" where
  "spsc_inv s = spsc_wf (snd s)"

lemmas spsc_queue_defs = spsc_enq_def spsc_deq_def spsc_items_def spsc_cap_def spsc_inv_def

interpretation spsc_queue: bounded_queue spsc_enq spsc_deq spsc_items spsc_cap spsc_inv
proof unfold_locales
  fix s :: "mem \<times> fw_spsc" and x :: u8 and xs
  obtain m q where s: "s = (m, q)" by (cases s)
  assume inv: "spsc_inv s"
  then have wf: "spsc_wf q" by (simp add: spsc_inv_def s)
  show "length (spsc_items s) \<le> spsc_cap s"
    using wf by (simp add: spsc_queue_defs s spsc_wf_def word_le_nat_alt)
  show "length (spsc_items s) < spsc_cap s \<Longrightarrow>
      \<exists>s'. spsc_enq x s = (FW_OK, s') \<and> spsc_inv s' \<and> spsc_items s' = spsc_items s @ [x]
           \<and> spsc_cap s' = spsc_cap s"
    using spsc_store_bytes(1) [OF wf, of "[x]"] spsc_store_bytes(2) [OF wf, of "[x]" m]
    by (simp add: spsc_queue_defs s fw_spsc_push_def Let_def not_le [symmetric] word_le_nat_alt
        Suc_le_eq)
  show "length (spsc_items s) = spsc_cap s \<Longrightarrow> spsc_enq x s = (FW_ERR_BUFFER_OVERFLOW, s)"
    by (simp add: spsc_queue_defs s fw_spsc_push_def Let_def word_le_nat_alt)
  have len: "length (spsc_items s) = unat (sq_head q - sq_tail q)"
    by (simp add: spsc_queue_defs s)
  show "spsc_items s = [] \<Longrightarrow> spsc_deq s = None"
    using len by (simp add: spsc_deq_def s fw_spsc_pop_def unat_0_iff)
  show "spsc_items s = x # xs \<Longrightarrow>
      \<exists>s'. spsc_deq s = Some (x, s') \<and> spsc_inv s' \<and> spsc_items s' = xs \<and> spsc_cap s' = spsc_cap s"
  proof -
    assume items: "spsc_items s = x # xs"
    then have pos: "Suc 0 \<le> unat (sq_head q - sq_tail q)" using len by simp
    then have ne: "sq_tail q \<noteq> sq_head q" by auto
    have "x = spsc_bytes m q ! 0" using items by (simp add: spsc_items_def s)
    then have x: "x = m (sq_buffer q + (sq_tail q AND sq_mask q))"
      using pos by (simp add: spsc_bytes_def ring_addr_def)
    show ?thesis
      using spsc_drop_bytes(1) [OF wf pos] spsc_drop_bytes(2) [OF wf pos, of m] items x ne
      by (simp add: spsc_queue_defs s fw_spsc_pop_def Let_def)
  qed
qed

text \<open>
  C12: whatever the order of pushes and pops, and however often the counters wrap, the bytes popped
  followed by the bytes still queued are the bytes queued at first followed by the accepted ones:
  nothing is lost, duplicated or reordered, and the ring stays well formed.
\<close>

theorem spsc_fifo:
  assumes "spsc_wf q" and "queue_run spsc_enq spsc_deq ops (m, q) = (accepted, popped, m', q')"
  shows "spsc_bytes m q @ accepted = popped @ spsc_bytes m' q' \<and> spsc_wf q'
    \<and> length (spsc_bytes m' q') \<le> unat (sq_capacity q)"
  using spsc_queue.run_fifo [of "(m, q)" ops] spsc_queue.items_le [of "(m', q')"] assms
  by (auto simp: spsc_items_def spsc_inv_def spsc_cap_def)

theorem spsc_fifo_witness:
  "spsc_wf \<lparr>sq_buffer = 64, sq_capacity = 2, sq_mask = 1, sq_head = 0, sq_tail = 0\<rparr>
   \<and> (\<exists>m' q'. queue_run spsc_enq spsc_deq [Put 5, Put 6, Put 7, Take]
        ((\<lambda>_. 0), \<lparr>sq_buffer = 64, sq_capacity = 2, sq_mask = 1, sq_head = 0, sq_tail = 0\<rparr>)
      = ([5, 6], [5], m', q') \<and> spsc_bytes m' q' = [6])"
proof -
  let ?q = "\<lparr>sq_buffer = 64, sq_capacity = 2, sq_mask = 1, sq_head = 0, sq_tail = 0\<rparr>"
  have wf: "spsc_wf ?q" by (simp add: spsc_wf_def nowrap_def)
  obtain m' q' where run: "queue_run spsc_enq spsc_deq [Put 5, Put 6, Put 7, Take] ((\<lambda>_. 0), ?q)
      = ([5, 6], [5], m', q')"
    by (simp add: spsc_enq_def spsc_deq_def fw_spsc_push_def fw_spsc_pop_def Let_def
        word_le_nat_alt)
  have "spsc_bytes (\<lambda>_. 0) ?q = []" by (simp add: spsc_bytes_def ring_read_def)
  then show ?thesis using wf run spsc_fifo [OF wf run] by auto
qed

section \<open>The bulk operations\<close>

text \<open>The memory a bulk copy touches lies outside the ring's own storage.\<close>

definition spsc_apart :: "fw_spsc \<Rightarrow> ptr \<Rightarrow> usize \<Rightarrow> bool" where
  "spsc_apart q p n \<longleftrightarrow> disjoint_blocks (sq_buffer q) (unat (sq_capacity q)) p (unat n)"

lemma spsc_room:
  assumes "spsc_wf q"
  shows "unat (sq_capacity q - (sq_head q - sq_tail q))
    = unat (sq_capacity q) - unat (sq_head q - sq_tail q)"
  using assms by (simp add: spsc_wf_def unat_sub_le)

lemma mem_read_split:
  "a \<le> n \<Longrightarrow> mem_read m p n = mem_read m p a @ mem_read m (p + of_nat a) (n - a)"
  using mem_read_append [of m p a "n - a"] by simp

lemma unat_if_less: "unat (if (a :: usize) < b then a else b) = min (unat a) (unat b)"
  by (simp add: word_less_nat_alt min_def)

text \<open>The two chunks of a bulk copy at a ring position: up to the end of the storage, and the rest.\<close>

definition first_chunk :: "fw_spsc \<Rightarrow> usize \<Rightarrow> usize \<Rightarrow> usize" where
  "first_chunk q ix tot = (if sq_capacity q - ix > tot then tot else sq_capacity q - ix)"

lemma spsc_chunks:
  fixes pos tot :: usize
  assumes wf: "spsc_wf q"
  defines "ix \<equiv> pos AND sq_mask q"
  shows "unat (first_chunk q ix tot) = min (unat (sq_capacity q) - unat ix) (unat tot)"
    and "unat ix + unat (first_chunk q ix tot) \<le> unat (sq_capacity q)"
    and "unat (first_chunk q ix tot) \<le> unat tot" and "unat (tot - first_chunk q ix tot) = unat tot - unat (first_chunk q ix tot)"
proof -
  obtain k where k: "k < 32" and msk: "sq_mask q = 2 ^ k - 1" and cap: "unat (sq_capacity q) = 2 ^ k"
    using wf by (rule spsc_wfE)
  have ix: "unat ix < unat (sq_capacity q)"
    using unat_ring_index [OF k, of pos 0] by (simp add: ix_def msk cap)
  then have ch: "unat (sq_capacity q - ix) = unat (sq_capacity q) - unat ix"
    by (simp add: unat_sub_le word_le_nat_alt)
  then show c1: "unat (first_chunk q ix tot) = min (unat (sq_capacity q) - unat ix) (unat tot)"
    by (auto simp: first_chunk_def word_less_nat_alt min_def)
  show "unat ix + unat (first_chunk q ix tot) \<le> unat (sq_capacity q)" using ix by (auto simp: c1 min_def)
  show le: "unat (first_chunk q ix tot) \<le> unat tot" by (simp add: c1)
  then show "unat (tot - first_chunk q ix tot) = unat tot - unat (first_chunk q ix tot)"
    by (simp add: unat_sub_le word_le_nat_alt)
qed

lemma spsc_copy_in:
  fixes m :: mem
  assumes wf: "spsc_wf q" and apart: "spsc_apart q src n" and wn: "unat tot \<le> unat n" and wcap: "unat tot \<le> unat (sq_capacity q)"
  defines "ix \<equiv> sq_head q AND sq_mask q"
  defines "c1 \<equiv> first_chunk q ix tot"
  defines "m1 \<equiv> memcpy m (sq_buffer q + ix) src c1"
  shows "(if tot - c1 > 0 then memcpy m1 (sq_buffer q) (src + c1) (tot - c1) else m1)
    = ring_store m (sq_buffer q) (sq_mask q) (sq_head q) (mem_read m src (unat tot))"
proof -
  note C = spsc_chunks [OF wf, where pos = "sq_head q" and tot = tot, folded ix_def, folded c1_def]
  obtain k where k: "k < 32" and msk: "sq_mask q = 2 ^ k - 1" and cap: "unat (sq_capacity q) = 2 ^ k"
    using wf by (rule spsc_wfE)
  let ?bs = "mem_read m src (unat tot)"
  have w32: "unat tot \<le> 2 ^ 32" using unat_le32 [of tot] by simp
  have "mem_read m src (unat c1) = take (unat c1) ?bs"
    by (rule nth_equalityI) (use C(3) in simp_all)
  then have m1: "m1 = mem_write m (sq_buffer q + ix) (take (unat c1) ?bs)" by (simp add: m1_def memcpy_def)
  have same: "m1 x = m x" if "in_block src (unat n) x" for x
    unfolding m1
  proof (rule mem_write_out)
    have "\<not> in_block (sq_buffer q) (unat (sq_capacity q)) x"
      using apart that disjoint_blocks_sym by (metis disjoint_blocks_def spsc_apart_def)
    then show "\<not> in_block (sq_buffer q + ix) (length (take (unat c1) ?bs)) x"
      using in_block_sub [OF C(2), of "sq_buffer q" x] C(3) unat_le32 [of "sq_capacity q"] by (auto simp: min_absorb2)
  qed
  have "mem_read m1 (src + c1) (unat tot - unat c1) = mem_read m (src + c1) (unat tot - unat c1)"
  proof (rule mem_read_cong)
    fix x assume x: "in_block (src + c1) (unat tot - unat c1) x"
    have "in_block src (unat n) x"
      by (rule in_block_sub [OF _ x]) (use C(3) wn unat_le32 [of n] in simp_all)
    then show "m1 x = m x" by (rule same)
  qed (use w32 in simp)
  also have "\<dots> = drop (unat c1) ?bs"
    using mem_read_drop [of m src "unat c1" "unat tot"] by simp
  finally have "(if tot - c1 > 0 then memcpy m1 (sq_buffer q) (src + c1) (tot - c1) else m1)
      = mem_write m1 (sq_buffer q) (drop (unat c1) ?bs)"
    using C(4) by (auto simp: word_gt_0 memcpy_def)
  also have "\<dots> = ring_store m (sq_buffer q) (sq_mask q) (sq_head q) ?bs"
    using chunked_ring_store [OF k, of ?bs "unat ix" "sq_head q" "unat c1" m "sq_buffer q"] wcap C(1)
    by (simp add: m1 ix_def msk cap)
  finally show ?thesis .
qed

lemma spsc_write_store:
  assumes wf: "spsc_wf q" and src: "src \<noteq> FW_NULL" and apart: "spsc_apart q src n"
  defines "w \<equiv> min (unat n) (unat (sq_capacity q) - unat (sq_head q - sq_tail q))"
  shows "fw_spsc_write m (Some q) src n =
    (of_nat w,
     ring_store m (sq_buffer q) (sq_mask q) (sq_head q) (mem_read m src w),
     Some (q\<lparr>sq_head := sq_head q + of_nat w\<rparr>))"
proof -
  let ?av = "sq_capacity q - (sq_head q - sq_tail q)"
  define tw where "tw = (if n < ?av then n else ?av)"
  have utw: "unat tw = w"
    by (simp add: tw_def unat_if_less spsc_room [OF wf] w_def)
  then have tw: "tw = of_nat w" by (metis of_nat_unat_id)
  show ?thesis
  proof (cases "n = 0 \<or> tw = 0")
    case True
    then have "w = 0" using utw by (auto simp: w_def)
    with True src show ?thesis
      by (auto simp: fw_spsc_write_def Let_def tw_def [symmetric])
  next
    case False
    then have "fw_spsc_write m (Some q) src n =
        (tw, ring_store m (sq_buffer q) (sq_mask q) (sq_head q) (mem_read m src (unat tw)),
         Some (q\<lparr>sq_head := sq_head q + tw\<rparr>))"
      using src spsc_copy_in [OF wf apart, of tw m] utw
      unfolding fw_spsc_write_def Let_def option.case tw_def [symmetric] unfolding first_chunk_def [symmetric] by (simp add: w_def min_le_iff_disj)
    then show ?thesis by (simp only: utw) (simp only: tw)
  qed
qed

lemma enq_all_store:
  "spsc_wf q \<Longrightarrow>
   enq_all spsc_enq bs (m, q) =
     (let w = min (length bs) (unat (sq_capacity q) - unat (sq_head q - sq_tail q))
      in (ring_store m (sq_buffer q) (sq_mask q) (sq_head q) (take w bs),
          q\<lparr>sq_head := sq_head q + of_nat w\<rparr>))"
proof (induction bs arbitrary: m q)
  case Nil
  then show ?case by simp
next
  case (Cons b bs)
  show ?case
  proof (cases "unat (sq_head q - sq_tail q) < unat (sq_capacity q)")
    case True
    let ?q' = "q\<lparr>sq_head := sq_head q + 1\<rparr>"
    have wf': "spsc_wf ?q'"
      using spsc_store_bytes(1) [OF Cons.prems, of "[b]"] True by simp
    have e: "sq_head ?q' - sq_tail ?q' = (sq_head q - sq_tail q) + 1" by simp
    have "unat ((sq_head q - sq_tail q) + 1) = unat (sq_head q - sq_tail q) + unat (1 :: usize)"
      using True unat_lt32 [of "sq_capacity q"] by (intro unat_add_nowrap) simp
    then have n': "unat (sq_head ?q' - sq_tail ?q') = Suc (unat (sq_head q - sq_tail q))"
      unfolding e by simp
    have push: "spsc_enq b (m, q) = (FW_OK, m(sq_buffer q + (sq_head q AND sq_mask q) := b), ?q')"
      using True by (simp add: spsc_enq_def fw_spsc_push_def Let_def word_le_nat_alt)
    let ?m' = "m(sq_buffer q + (sq_head q AND sq_mask q) := b)"
    let ?w' = "min (length bs) (unat (sq_capacity q) - Suc (unat (sq_head q - sq_tail q)))"
    have w: "min (length (b # bs)) (unat (sq_capacity q) - unat (sq_head q - sq_tail q)) = Suc ?w'"
      using True by (simp add: min_def Suc_diff_Suc [symmetric])
    have "enq_all spsc_enq bs (?m', ?q') =
        (ring_store ?m' (sq_buffer q) (sq_mask q) (sq_head q + 1) (take ?w' bs),
         q\<lparr>sq_head := sq_head q + 1 + of_nat ?w'\<rparr>)"
      using Cons.IH [OF wf', of ?m'] n' by (simp only: Let_def) simp
    then show ?thesis
      by (simp only: enq_all.simps push snd_conv Let_def w) (simp add: add.assoc)
  next
    case False
    then have full: "spsc_enq b (m, q) = (FW_ERR_BUFFER_OVERFLOW, m, q)"
      by (simp add: spsc_enq_def fw_spsc_push_def Let_def word_le_nat_alt)
    show ?thesis
      using Cons.IH [OF Cons.prems] full False by (simp add: Let_def)
  qed
qed


lemma memcpy_twice:
  assumes "unat c1 + unat c2 \<le> 2 ^ 32"
    and "mem_read (memcpy m dst p1 c1) p2 (unat c2) = mem_read m p2 (unat c2)"
  shows "memcpy (memcpy m dst p1 c1) (dst + c1) p2 c2
    = mem_write m dst (mem_read m p1 (unat c1) @ mem_read m p2 (unat c2))"
  using mem_write_append [of "mem_read m p1 (unat c1)" "mem_read m p2 (unat c2)" m dst] assms
  by (simp add: memcpy_def)

lemma spsc_copy_out:
  fixes m :: mem
  assumes wf: "spsc_wf q" and apart: "spsc_apart q dst n" and rn: "unat tot \<le> unat n"
    and rcap: "unat tot \<le> unat (sq_head q - sq_tail q)"
  defines "ix \<equiv> sq_tail q AND sq_mask q"
  defines "c1 \<equiv> first_chunk q ix tot"
  defines "m1 \<equiv> memcpy m dst (sq_buffer q + ix) c1"
  shows "(if tot - c1 > 0 then memcpy m1 (dst + c1) (sq_buffer q) (tot - c1) else m1)
    = mem_write m dst (take (unat tot) (spsc_bytes m q))"
proof -
  note C = spsc_chunks [OF wf, where pos = "sq_tail q" and tot = tot, folded ix_def, folded c1_def]
  obtain k where k: "k < 32" and msk: "sq_mask q = 2 ^ k - 1" and cap: "unat (sq_capacity q) = 2 ^ k"
    and len: "unat (sq_head q - sq_tail q) \<le> 2 ^ k"
    using wf by (rule spsc_wfE)
  have r32: "unat tot \<le> 2 ^ 32" using unat_le32 [of tot] by simp
  have same: "mem_read m1 (sq_buffer q) (unat tot - unat c1) = mem_read m (sq_buffer q) (unat tot - unat c1)"
  proof (rule mem_read_cong)
    fix x assume "in_block (sq_buffer q) (unat tot - unat c1) x"
    then have "in_block (sq_buffer q) (unat (sq_capacity q)) x"
      using rcap len cap by (simp add: in_block_def)
    then have "\<not> in_block dst (unat n) x"
      using apart by (simp add: spsc_apart_def disjoint_blocks_def)
    then have "\<not> in_block dst (length (mem_read m (sq_buffer q + ix) (unat c1))) x"
      using C(3) rn by (simp add: in_block_def)
    then show "m1 x = m x" by (simp add: m1_def memcpy_def mem_write_out)
  qed (use r32 in simp)
  have "memcpy m1 (dst + c1) (sq_buffer q) (tot - c1)
      = mem_write m dst (mem_read m (sq_buffer q + ix) (unat c1) @ mem_read m (sq_buffer q) (unat tot - unat c1))"
    using memcpy_twice [of c1 "tot - c1" m dst "sq_buffer q + ix" "sq_buffer q"] same C(3,4) r32
    by (simp add: m1_def)
  then have "(if tot - c1 > 0 then memcpy m1 (dst + c1) (sq_buffer q) (tot - c1) else m1)
      = mem_write m dst (mem_read m (sq_buffer q + ix) (unat c1) @ mem_read m (sq_buffer q) (unat tot - unat c1))"
    using C(4) by (auto simp: word_gt_0 memcpy_def m1_def)
  also have "mem_read m (sq_buffer q + ix) (unat c1) @ mem_read m (sq_buffer q) (unat tot - unat c1)
      = ring_read m (sq_buffer q) (sq_mask q) (sq_tail q) (unat tot)"
    using chunked_ring_read [OF k, of "unat tot" "unat ix" "sq_tail q" "unat c1" m "sq_buffer q"] C(1) rcap len
    by (simp add: ix_def msk cap)
  also have "\<dots> = take (unat tot) (spsc_bytes m q)"
    using rcap by (simp add: spsc_bytes_def ring_read_take min_absorb1)
  finally show ?thesis .
qed

lemma spsc_read_store:
  assumes wf: "spsc_wf q" and dst: "dst \<noteq> FW_NULL" and apart: "spsc_apart q dst n"
  defines "r \<equiv> min (unat n) (unat (sq_head q - sq_tail q))"
  shows "fw_spsc_read m (Some q) dst n =
    (of_nat r, mem_write m dst (take r (spsc_bytes m q)),
     Some (q\<lparr>sq_tail := sq_tail q + of_nat r\<rparr>))"
proof -
  define tr where "tr = (if n < sq_head q - sq_tail q then n else sq_head q - sq_tail q)"
  have utr: "unat tr = r" by (simp add: tr_def unat_if_less r_def)
  then have tr: "tr = of_nat r" by (metis of_nat_unat_id)
  show ?thesis
  proof (cases "n = 0 \<or> tr = 0")
    case True
    then have "r = 0" using utr by (auto simp: r_def)
    with True dst show ?thesis by (auto simp: fw_spsc_read_def Let_def tr_def [symmetric])
  next
    case False
    then have "fw_spsc_read m (Some q) dst n =
        (tr, mem_write m dst (take (unat tr) (spsc_bytes m q)), Some (q\<lparr>sq_tail := sq_tail q + tr\<rparr>))"
      using dst spsc_copy_out [OF wf apart, of tr m] utr
      unfolding fw_spsc_read_def Let_def option.case tr_def [symmetric] first_chunk_def [symmetric] by (simp add: r_def)
    then show ?thesis by (simp only: utr) (simp only: tr)
  qed
qed

text \<open>
  The two-chunk bulk write is pushing the source bytes one at a time until the ring is full, and
  its result is the number of bytes accepted.
\<close>

theorem spsc_write_equals_pushes:
  assumes "spsc_wf q" and "src \<noteq> FW_NULL" and "spsc_apart q src n"
  shows "fw_spsc_write m (Some q) src n =
    (let s = enq_all spsc_enq (mem_read m src (unat n)) (m, q)
     in (of_nat (length (spsc_items s) - length (spsc_bytes m q)), fst s, Some (snd s)))"
proof -
  let ?w = "min (unat n) (unat (sq_capacity q) - unat (sq_head q - sq_tail q))"
  let ?s = "(ring_store m (sq_buffer q) (sq_mask q) (sq_head q) (mem_read m src ?w),
      q\<lparr>sq_head := sq_head q + of_nat ?w\<rparr>)"
  have len: "unat (sq_head q - sq_tail q) \<le> unat (sq_capacity q)"
    using assms(1) by (simp add: spsc_wf_def word_le_nat_alt)
  have "spsc_items ?s = spsc_bytes m q @ mem_read m src ?w"
    using spsc_store_bytes(2) [OF assms(1), of "mem_read m src ?w" m] len
    by (simp add: spsc_items_def)
  then have "length (spsc_items ?s) - length (spsc_bytes m q) = ?w" by simp
  moreover have "enq_all spsc_enq (mem_read m src (unat n)) (m, q) = ?s"
    using enq_all_store [OF assms(1), of "mem_read m src (unat n)" m]
    by (simp add: Let_def mem_read_take)
  ultimately show ?thesis
    using spsc_write_store [OF assms, of m] by (simp add: Let_def)
qed

theorem spsc_write_equals_pushes_witness:
  "spsc_wf \<lparr>sq_buffer = 64, sq_capacity = 2, sq_mask = 1, sq_head = 1, sq_tail = 1\<rparr>
   \<and> fst (fw_spsc_write (\<lambda>_. 9) (Some \<lparr>sq_buffer = 64, sq_capacity = 2, sq_mask = 1,
            sq_head = 1, sq_tail = 1\<rparr>) 128 3)
     = of_nat (length (spsc_items (enq_all spsc_enq (mem_read (\<lambda>_. 9) 128 3)
            ((\<lambda>_. 9), \<lparr>sq_buffer = 64, sq_capacity = 2, sq_mask = 1, sq_head = 1, sq_tail = 1\<rparr>))))"
proof -
  let ?q = "\<lparr>sq_buffer = 64, sq_capacity = 2, sq_mask = 1, sq_head = 1, sq_tail = 1\<rparr>"
  have wf: "spsc_wf ?q" by (simp add: spsc_wf_def nowrap_def)
  have ap: "spsc_apart ?q 128 3"
    unfolding spsc_apart_def by (rule disjoint_blocksI) (simp_all add: nowrap_def)
  show ?thesis
    using wf spsc_write_equals_pushes [OF wf _ ap, of "\<lambda>_. 9"] by (simp add: Let_def)
qed

text \<open>
  The bulk read hands out the first queued bytes, as many as fit, writes them to the destination
  and nothing else, and leaves the rest queued.
\<close>

theorem spsc_read_refines:
  assumes "spsc_wf q" and "dst \<noteq> FW_NULL" and "spsc_apart q dst n"
    and "fw_spsc_read m (Some q) dst n = (r, m', Some q')"
  shows "unat r = min (unat n) (length (spsc_bytes m q))
    \<and> m' = mem_write m dst (take (unat r) (spsc_bytes m q))
    \<and> spsc_bytes m' q' = drop (unat r) (spsc_bytes m q) \<and> spsc_wf q'"
proof -
  let ?r = "min (unat n) (unat (sq_head q - sq_tail q))"
  have r32: "?r < 2 ^ 32" using unat_lt32 [of n] by simp
  have res: "r = of_nat ?r" "m' = mem_write m dst (take ?r (spsc_bytes m q))"
      "q' = q\<lparr>sq_tail := sq_tail q + of_nat ?r\<rparr>"
    using spsc_read_store [OF assms(1-3), of m] assms(4) by auto
  then have r: "unat r = ?r" using r32 by (simp add: unat_of_nat_small)
  obtain k where k: "k < 32" and msk: "sq_mask q = 2 ^ k - 1" and cap: "unat (sq_capacity q) = 2 ^ k"
    using assms(1) by (rule spsc_wfE)
  have same: "m' x = m x" if "in_block (sq_buffer q) (2 ^ k) x" for x
  proof -
    have "\<not> in_block dst (unat n) x"
      using assms(3) that cap by (simp add: spsc_apart_def disjoint_blocks_def)
    then show ?thesis by (simp add: res(2) in_block_def mem_write_def)
  qed
  have wf': "spsc_wf q'" and drop: "spsc_bytes m q' = drop ?r (spsc_bytes m q)"
    using spsc_drop_bytes [OF assms(1), of ?r] by (simp_all add: res(3))
  have "spsc_bytes m' q' = spsc_bytes m q'"
    unfolding spsc_bytes_def
    by (rule ring_read_cong) (simp add: res(3) msk same ring_addr_in_block [OF k])
  with res(2) r wf' drop show ?thesis by simp
qed

theorem spsc_read_refines_witness:
  "spsc_wf \<lparr>sq_buffer = 64, sq_capacity = 2, sq_mask = 1, sq_head = 3, sq_tail = 1\<rparr>
   \<and> (\<exists>m' q'. fw_spsc_read (\<lambda>a. ucast a) (Some \<lparr>sq_buffer = 64, sq_capacity = 2, sq_mask = 1,
          sq_head = 3, sq_tail = 1\<rparr>) 128 3 = (2, m', Some q') \<and> spsc_bytes m' q' = [])"
proof -
  let ?q = "\<lparr>sq_buffer = 64, sq_capacity = 2, sq_mask = 1, sq_head = 3, sq_tail = 1\<rparr>"
  have wf: "spsc_wf ?q" by (simp add: spsc_wf_def nowrap_def)
  have ap: "spsc_apart ?q 128 3"
    unfolding spsc_apart_def by (rule disjoint_blocksI) (simp_all add: nowrap_def)
  obtain m' q' where r: "fw_spsc_read (\<lambda>a. ucast a) (Some ?q) 128 3 = (2, m', Some q')"
    by (simp add: fw_spsc_read_def Let_def)
  show ?thesis using wf r spsc_read_refines [OF wf _ ap r] by auto
qed

end
