(* ===== verification/Spsc_Concurrent.thy ===== *)
theory Spsc_Concurrent
  imports Spsc
begin

text \<open>
  The ring used as it is meant to be: one producer (an interrupt handler) and one consumer (the main
  loop) interleaving at every access to the shared control block and buffer.  Each step is one line
  of \<^verbatim>\<open>fw_spsc_push\<close> or \<^verbatim>\<open>fw_spsc_pop\<close>; the locals a call has loaded so far are its program counter.
  The memory barriers of the code are what lets the steps be taken in program order.
\<close>

datatype push_pc =
    Push_Idle
  | Push_Head u8 usize
  | Push_Tail u8 usize usize
  | Push_Stored u8 usize

datatype pop_pc =
    Pop_Idle
  | Pop_Tail usize
  | Pop_Head usize usize
  | Pop_Loaded usize u8

record spsc_system =
  sys_mem :: mem
  sys_ring :: fw_spsc
  sys_push :: push_pc
  sys_pop :: pop_pc
  sys_sent :: "u8 list"
  sys_received :: "u8 list"

text \<open>The slot an index falls into.\<close>

definition ring_slot :: "fw_spsc \<Rightarrow> usize \<Rightarrow> ptr" where
  "ring_slot q i = sq_buffer q + (i AND sq_mask q)"

text \<open>
  \<open>sys_sent\<close> and \<open>sys_received\<close> record the bytes whose call has returned \<^verbatim>\<open>FW_OK\<close>.
\<close>

inductive spsc_step :: "spsc_system \<Rightarrow> spsc_system \<Rightarrow> bool" where
  push_load_head: "sys_push s = Push_Idle \<Longrightarrow>
    spsc_step s (s\<lparr>sys_push := Push_Head b (sq_head (sys_ring s))\<rparr>)"
| push_load_tail: "sys_push s = Push_Head b h \<Longrightarrow>
    spsc_step s (s\<lparr>sys_push := Push_Tail b h (sq_tail (sys_ring s))\<rparr>)"
| push_full: "sys_push s = Push_Tail b h t \<Longrightarrow> h - t \<ge> sq_capacity (sys_ring s) \<Longrightarrow>
    spsc_step s (s\<lparr>sys_push := Push_Idle\<rparr>)"
| push_store: "sys_push s = Push_Tail b h t \<Longrightarrow> \<not> h - t \<ge> sq_capacity (sys_ring s) \<Longrightarrow>
    spsc_step s (s\<lparr>sys_mem := (sys_mem s)(ring_slot (sys_ring s) h := b),
                   sys_push := Push_Stored b h\<rparr>)"
| push_publish: "sys_push s = Push_Stored b h \<Longrightarrow>
    spsc_step s (s\<lparr>sys_ring := (sys_ring s)\<lparr>sq_head := h + 1\<rparr>, sys_push := Push_Idle,
                   sys_sent := sys_sent s @ [b]\<rparr>)"
| pop_load_tail: "sys_pop s = Pop_Idle \<Longrightarrow>
    spsc_step s (s\<lparr>sys_pop := Pop_Tail (sq_tail (sys_ring s))\<rparr>)"
| pop_load_head: "sys_pop s = Pop_Tail t \<Longrightarrow>
    spsc_step s (s\<lparr>sys_pop := Pop_Head t (sq_head (sys_ring s))\<rparr>)"
| pop_empty: "sys_pop s = Pop_Head t h \<Longrightarrow> t = h \<Longrightarrow>
    spsc_step s (s\<lparr>sys_pop := Pop_Idle\<rparr>)"
| pop_load: "sys_pop s = Pop_Head t h \<Longrightarrow> t \<noteq> h \<Longrightarrow>
    spsc_step s (s\<lparr>sys_pop := Pop_Loaded t (sys_mem s (ring_slot (sys_ring s) t))\<rparr>)"
| pop_publish: "sys_pop s = Pop_Loaded t b \<Longrightarrow>
    spsc_step s (s\<lparr>sys_ring := (sys_ring s)\<lparr>sq_tail := t + 1\<rparr>, sys_pop := Pop_Idle,
                   sys_received := sys_received s @ [b]\<rparr>)"

definition spsc_start :: "mem \<Rightarrow> fw_spsc \<Rightarrow> spsc_system" where
  "spsc_start m q = \<lparr>sys_mem = m, sys_ring = q, sys_push = Push_Idle, sys_pop = Pop_Idle,
     sys_sent = [], sys_received = []\<rparr>"

section \<open>The invariant\<close>

text \<open>
  What each side may rely on while the other moves: the producer's room only grows, the consumer's
  head byte stays, and the slot being written is none of the queued ones.
\<close>

fun push_inv :: "mem \<Rightarrow> fw_spsc \<Rightarrow> push_pc \<Rightarrow> bool" where
  "push_inv m q Push_Idle \<longleftrightarrow> True"
| "push_inv m q (Push_Head b h) \<longleftrightarrow> h = sq_head q"
| "push_inv m q (Push_Tail b h t) \<longleftrightarrow> h = sq_head q \<and> sq_head q - sq_tail q \<le> h - t"
| "push_inv m q (Push_Stored b h) \<longleftrightarrow>
     h = sq_head q \<and> sq_head q - sq_tail q < sq_capacity q \<and> m (ring_slot q h) = b"

fun pop_inv :: "mem \<Rightarrow> fw_spsc \<Rightarrow> pop_pc \<Rightarrow> bool" where
  "pop_inv m q Pop_Idle \<longleftrightarrow> True"
| "pop_inv m q (Pop_Tail t) \<longleftrightarrow> t = sq_tail q"
| "pop_inv m q (Pop_Head t h) \<longleftrightarrow> t = sq_tail q \<and> (h = t \<or> sq_head q \<noteq> sq_tail q)"
| "pop_inv m q (Pop_Loaded t b) \<longleftrightarrow>
     t = sq_tail q \<and> sq_head q \<noteq> sq_tail q \<and> b = m (ring_slot q t)"

definition system_inv :: "spsc_system \<Rightarrow> bool" where
  "system_inv s \<longleftrightarrow>
     spsc_wf (sys_ring s)
     \<and> sys_sent s = sys_received s @ spsc_bytes (sys_mem s) (sys_ring s)
     \<and> push_inv (sys_mem s) (sys_ring s) (sys_push s)
     \<and> pop_inv (sys_mem s) (sys_ring s) (sys_pop s)"

lemma spsc_room_less:
  assumes "spsc_wf q" and "sq_head q - sq_tail q < sq_capacity q"
  shows "unat (sq_head q - sq_tail q) + 1 \<le> unat (sq_capacity q)"
    and "unat (sq_head q + 1 - sq_tail q) = unat (sq_head q - sq_tail q) + 1"
proof -
  show a: "unat (sq_head q - sq_tail q) + 1 \<le> unat (sq_capacity q)"
    using assms(2) by (simp add: word_less_nat_alt)
  have e: "sq_head q + 1 - sq_tail q = (sq_head q - sq_tail q) + 1" by simp
  have "unat ((sq_head q - sq_tail q) + 1) = unat (sq_head q - sq_tail q) + unat (1 :: usize)"
    using a unat_lt32 [of "sq_capacity q"] by (intro unat_add_nowrap) simp
  then show "unat (sq_head q + 1 - sq_tail q) = unat (sq_head q - sq_tail q) + 1"
    unfolding e by simp
qed

text \<open>Writing the free slot at the head changes no queued byte.\<close>

lemma spsc_bytes_free_slot:
  assumes wf: "spsc_wf q" and room: "sq_head q - sq_tail q < sq_capacity q"
  shows "spsc_bytes (m(ring_slot q (sq_head q) := b)) q = spsc_bytes m q"
proof -
  let ?m = "m(ring_slot q (sq_head q) := b)" and ?q = "q\<lparr>sq_head := sq_head q + 1\<rparr>"
  have "spsc_bytes ?m ?q = spsc_bytes m q @ [b]"
    using spsc_store_bytes(2) [OF wf, of "[b]" m] spsc_room_less(1) [OF wf room]
    by (simp add: ring_slot_def)
  then have "take (unat (sq_head q - sq_tail q)) (spsc_bytes ?m ?q) = spsc_bytes m q" by simp
  moreover have "take (unat (sq_head q - sq_tail q)) (spsc_bytes ?m ?q) = spsc_bytes ?m q"
    using spsc_room_less(2) [OF wf room] by (simp add: spsc_bytes_def ring_read_take)
  ultimately show ?thesis by simp
qed

lemma spsc_bytes_publish:
  assumes wf: "spsc_wf q" and room: "sq_head q - sq_tail q < sq_capacity q"
    and b: "m (ring_slot q (sq_head q)) = b"
  shows "spsc_wf (q\<lparr>sq_head := sq_head q + 1\<rparr>)"
    and "spsc_bytes m (q\<lparr>sq_head := sq_head q + 1\<rparr>) = spsc_bytes m q @ [b]"
proof -
  have "m(ring_slot q (sq_head q) := b) = m" using b by auto
  then show "spsc_wf (q\<lparr>sq_head := sq_head q + 1\<rparr>)"
    and "spsc_bytes m (q\<lparr>sq_head := sq_head q + 1\<rparr>) = spsc_bytes m q @ [b]"
    using spsc_store_bytes [OF wf, of "[b]"] spsc_store_bytes(2) [OF wf, of "[b]" m]
      spsc_room_less(1) [OF wf room]
    by (simp_all add: ring_slot_def)
qed

lemma spsc_bytes_head:
  assumes "sq_head q \<noteq> sq_tail q"
  shows "spsc_bytes m q = m (ring_slot q (sq_tail q)) # drop 1 (spsc_bytes m q)"
proof -
  have "0 < unat (sq_head q - sq_tail q)" using assms by (simp add: unat_gt_0)
  then have "spsc_bytes m q ! 0 = m (ring_slot q (sq_tail q))"
    by (simp add: spsc_bytes_def ring_addr_def ring_slot_def)
  then show ?thesis
    using \<open>0 < unat (sq_head q - sq_tail q)\<close>
    by (metis Cons_nth_drop_Suc One_nat_def drop0 length_spsc_bytes)
qed

lemma unat_pred_le: "(x :: usize) \<noteq> 0 \<Longrightarrow> x - 1 \<le> x"
  by (simp add: word_le_nat_alt unat_minus_one)

lemma spsc_step_inv:
  "spsc_step s s' \<Longrightarrow> system_inv s \<Longrightarrow> system_inv s'"
proof (induction rule: spsc_step.induct)
  case (push_store s b h t)
  then have wf: "spsc_wf (sys_ring s)" and h: "h = sq_head (sys_ring s)"
    and room: "sq_head (sys_ring s) - sq_tail (sys_ring s) < sq_capacity (sys_ring s)"
    by (auto simp: system_inv_def not_le)
  note same = spsc_bytes_free_slot [OF wf room, of "sys_mem s" b, folded h]
  have "pop_inv ((sys_mem s)(ring_slot (sys_ring s) h := b)) (sys_ring s) (sys_pop s)"
  proof (cases "sys_pop s")
    case (Pop_Loaded t' c)
    with push_store.prems have "sq_head (sys_ring s) \<noteq> sq_tail (sys_ring s)"
      by (simp add: system_inv_def)
    note fst = spsc_bytes_head [OF this]
    have "((sys_mem s)(ring_slot (sys_ring s) h := b)) (ring_slot (sys_ring s) (sq_tail (sys_ring s)))
        = sys_mem s (ring_slot (sys_ring s) (sq_tail (sys_ring s)))"
      using same fst [of "sys_mem s"] fst [of "(sys_mem s)(ring_slot (sys_ring s) h := b)"]
      by (metis list.inject)
    then show ?thesis using push_store.prems Pop_Loaded by (simp add: system_inv_def)
  qed (use push_store.prems in \<open>simp_all add: system_inv_def\<close>)
  then show ?case using push_store.prems wf h room same by (simp add: system_inv_def)
next
  case (push_publish s b h)
  let ?q = "sys_ring s"
  have wf: "spsc_wf ?q" and h: "h = sq_head ?q" and room: "sq_head ?q - sq_tail ?q < sq_capacity ?q"
    and b: "sys_mem s (ring_slot ?q (sq_head ?q)) = b"
    using push_publish by (auto simp: system_inv_def)
  have "sq_head ?q + 1 \<noteq> sq_tail ?q"
    using spsc_room_less(2) [OF wf room] by auto
  then have "pop_inv (sys_mem s) (?q\<lparr>sq_head := h + 1\<rparr>) (sys_pop s)"
    using push_publish.prems h
    by (cases "sys_pop s") (auto simp: system_inv_def ring_slot_def)
  then show ?case
    using push_publish.prems spsc_bytes_publish [where m = "sys_mem s", OF wf room b] h
    by (simp add: system_inv_def)
next
  case (pop_publish s t b)
  let ?q = "sys_ring s"
  have wf: "spsc_wf ?q" and t: "t = sq_tail ?q" and ne: "sq_head ?q \<noteq> sq_tail ?q"
    and b: "b = sys_mem s (ring_slot ?q t)"
    using pop_publish by (auto simp: system_inv_def)
  have pos: "1 \<le> unat (sq_head ?q - sq_tail ?q)" using ne by (simp add: Suc_le_eq unat_gt_0)
  have e: "sq_head ?q - (sq_tail ?q + 1) = (sq_head ?q - sq_tail ?q) - 1" by simp
  have le: "sq_head ?q - (sq_tail ?q + 1) \<le> sq_head ?q - sq_tail ?q"
    unfolding e by (rule unat_pred_le) (use ne in simp)
  have "push_inv (sys_mem s) (?q\<lparr>sq_tail := t + 1\<rparr>) (sys_push s)"
    using pop_publish.prems t le
    by (cases "sys_push s") (auto simp: system_inv_def ring_slot_def)
  moreover have "spsc_wf (?q\<lparr>sq_tail := t + 1\<rparr>)"
    "spsc_bytes (sys_mem s) (?q\<lparr>sq_tail := t + 1\<rparr>) = drop 1 (spsc_bytes (sys_mem s) ?q)"
    using spsc_drop_bytes(1) [OF wf pos] spsc_drop_bytes(2) [OF wf pos, of "sys_mem s"] t by simp_all
  moreover have "spsc_bytes (sys_mem s) ?q = b # drop 1 (spsc_bytes (sys_mem s) ?q)"
    using spsc_bytes_head [OF ne, of "sys_mem s"] b t by simp
  ultimately show ?case
    using pop_publish.prems by (simp add: system_inv_def)
qed (auto simp: system_inv_def)

lemma spsc_reachable_inv:
  "spsc_step\<^sup>*\<^sup>* s s' \<Longrightarrow> system_inv s \<Longrightarrow> system_inv s'"
  by (induction rule: rtranclp_induct) (auto intro: spsc_step_inv)

lemma spsc_start_inv: "spsc_wf q \<Longrightarrow> sq_head q = sq_tail q \<Longrightarrow> system_inv (spsc_start m q)"
  by (simp add: system_inv_def spsc_start_def spsc_bytes_def ring_read_def)

text \<open>
  C2: however the producer's and the consumer's memory accesses interleave, starting from an empty
  ring, the bytes received are a prefix of the bytes sent and the rest is exactly what the ring
  holds: no byte is lost, duplicated, reordered or read before it was written.
\<close>

theorem spsc_interleaved_fifo:
  assumes "spsc_wf q" and "sq_head q = sq_tail q" and "spsc_step\<^sup>*\<^sup>* (spsc_start m q) s"
  shows "sys_sent s = sys_received s @ spsc_bytes (sys_mem s) (sys_ring s)
    \<and> length (sys_sent s) - length (sys_received s) \<le> unat (sq_capacity (sys_ring s))"
proof -
  have inv: "system_inv s"
    by (rule spsc_reachable_inv [OF assms(3) spsc_start_inv [OF assms(1,2)]])
  then have "unat (sq_head (sys_ring s) - sq_tail (sys_ring s)) \<le> unat (sq_capacity (sys_ring s))"
    by (simp add: system_inv_def spsc_wf_def word_le_nat_alt)
  then show ?thesis using inv by (simp add: system_inv_def)
qed

text \<open>
  A witness run: the consumer starts a pop on the empty ring, the producer pushes in the middle of
  it, and the pop still reports an empty ring.
\<close>

theorem spsc_interleaved_fifo_witness:
  "\<exists>s. spsc_step\<^sup>*\<^sup>* (spsc_start (\<lambda>_. 0)
        \<lparr>sq_buffer = 64, sq_capacity = 2, sq_mask = 1, sq_head = 7, sq_tail = 7\<rparr>) s
     \<and> sys_sent s = [42] \<and> spsc_bytes (sys_mem s) (sys_ring s) = [42] \<and> sys_received s = []"
proof -
  let ?q = "\<lparr>sq_buffer = 64, sq_capacity = 2, sq_mask = 1, sq_head = 7, sq_tail = 7\<rparr> :: fw_spsc"
  let ?s = "spsc_start (\<lambda>_. 0) ?q"
  let ?s1 = "?s\<lparr>sys_pop := Pop_Tail 7\<rparr>"
  let ?s2 = "?s1\<lparr>sys_push := Push_Head 42 7\<rparr>"
  let ?s3 = "?s2\<lparr>sys_push := Push_Tail 42 7 7\<rparr>"
  let ?s4 = "?s3\<lparr>sys_mem := (\<lambda>_. 0)(65 := 42), sys_push := Push_Stored 42 7\<rparr>"
  let ?s5 = "?s4\<lparr>sys_ring := ?q\<lparr>sq_head := 8\<rparr>, sys_push := Push_Idle, sys_sent := [42]\<rparr>"
  have "spsc_step ?s ?s1"
    using pop_load_tail [of ?s] by (simp add: spsc_start_def)
  moreover have "spsc_step ?s1 ?s2"
    using push_load_head [of ?s1 42] by (simp add: spsc_start_def)
  moreover have "spsc_step ?s2 ?s3"
    using push_load_tail [of ?s2 42 7] by (simp add: spsc_start_def)
  moreover have "spsc_step ?s3 ?s4"
    using push_store [of ?s3 42 7 7] by (simp add: spsc_start_def ring_slot_def)
  moreover have "spsc_step ?s4 ?s5"
    using push_publish [of ?s4 42 7] by (simp add: spsc_start_def)
  ultimately have reach: "spsc_step\<^sup>*\<^sup>* ?s ?s5"
    by (meson converse_rtranclp_into_rtranclp rtranclp.rtrancl_refl)
  have "spsc_wf ?q" by (simp add: spsc_wf_def nowrap_def)
  from spsc_interleaved_fifo [OF this _ reach] reach show ?thesis
    by (intro exI [of _ ?s5]) (simp add: spsc_start_def)
qed

end
