(* ===== verification/Allocator.thy ===== *)
theory Allocator
  imports Prelude
begin

text \<open>
  The contract a client of a block allocator relies on, whatever is behind it: fresh blocks until the
  capacity is used up, releases accepted exactly for blocks handed out, and no operation touching the
  contents of somebody else's block.  The pool provides it directly and the hub through its function
  pointers.
\<close>

datatype ('p, 'v) heap_op = Alloc | Free 'p | Fill 'p 'v | Look 'p

datatype ('p, 'v) heap_event = Got "'p option" | Freed 'p fw_status | Stored 'p 'v | Loaded 'p 'v

text \<open>A client: any list of operations, run against the four functions.\<close>

fun heap_run ::
  "('s \<Rightarrow> 'p option \<times> 's) \<Rightarrow> ('p \<Rightarrow> 's \<Rightarrow> fw_status \<times> 's) \<Rightarrow> ('p \<Rightarrow> 'v \<Rightarrow> 's \<Rightarrow> 's) \<Rightarrow>
   ('s \<Rightarrow> 'p \<Rightarrow> 'v) \<Rightarrow> ('p, 'v) heap_op list \<Rightarrow> 's \<Rightarrow> ('p, 'v) heap_event list" where
  "heap_run al fr pu ge [] s = []"
| "heap_run al fr pu ge (Alloc # os) s =
     (case al s of (r, s') \<Rightarrow> Got r # heap_run al fr pu ge os s')"
| "heap_run al fr pu ge (Free p # os) s =
     (case fr p s of (st, s') \<Rightarrow> Freed p st # heap_run al fr pu ge os s')"
| "heap_run al fr pu ge (Fill p v # os) s = Stored p v # heap_run al fr pu ge os (pu p v s)"
| "heap_run al fr pu ge (Look p # os) s = Loaded p (ge s p) # heap_run al fr pu ge os s"

text \<open>
  The specification: a map from the blocks handed out to what was last stored in them.  A client that
  stores through a pointer it does not own, or a value that does not fit, is promised nothing more.
\<close>

fun heap_ok :: "nat \<Rightarrow> ('v \<Rightarrow> bool) \<Rightarrow> ('p \<Rightarrow> 'v option option) \<Rightarrow> ('p, 'v) heap_event list \<Rightarrow> bool" where
  "heap_ok c ok M [] \<longleftrightarrow> True"
| "heap_ok c ok M (Got None # es) \<longleftrightarrow> card (dom M) = c \<and> heap_ok c ok M es"
| "heap_ok c ok M (Got (Some p) # es) \<longleftrightarrow>
     p \<notin> dom M \<and> card (dom M) < c \<and> heap_ok c ok (M(p \<mapsto> None)) es"
| "heap_ok c ok M (Freed p st # es) \<longleftrightarrow>
     (if p \<in> dom M then st = FW_OK \<and> heap_ok c ok (M(p := None)) es
      else st = FW_ERR_INVALID_ARG \<and> heap_ok c ok M es)"
| "heap_ok c ok M (Stored p v # es) \<longleftrightarrow>
     (p \<in> dom M \<and> ok v \<longrightarrow> heap_ok c ok (M(p \<mapsto> Some v)) es)"
| "heap_ok c ok M (Loaded p v # es) \<longleftrightarrow>
     (case M p of Some (Some w) \<Rightarrow> v = w | _ \<Rightarrow> True) \<and> heap_ok c ok M es"

locale block_allocator =
  fixes alloc :: "'s \<Rightarrow> 'p option \<times> 's"
    and free :: "'p \<Rightarrow> 's \<Rightarrow> fw_status \<times> 's"
    and put :: "'p \<Rightarrow> 'v \<Rightarrow> 's \<Rightarrow> 's"
    and get :: "'s \<Rightarrow> 'p \<Rightarrow> 'v"
    and live :: "'s \<Rightarrow> 'p set"
    and cap :: "'s \<Rightarrow> nat"
    and fits :: "'s \<Rightarrow> 'v \<Rightarrow> bool"
    and inv :: "'s \<Rightarrow> bool"
  assumes live_finite: "inv s \<Longrightarrow> finite (live s)"
    and live_cap: "inv s \<Longrightarrow> card (live s) \<le> cap s"
    and alloc_full: "inv s \<Longrightarrow> card (live s) = cap s \<Longrightarrow> alloc s = (None, s)"
    and alloc_fresh: "inv s \<Longrightarrow> card (live s) < cap s \<Longrightarrow>
      \<exists>p s'. alloc s = (Some p, s') \<and> p \<notin> live s \<and> live s' = insert p (live s) \<and> inv s'
        \<and> cap s' = cap s \<and> fits s' = fits s \<and> (\<forall>q\<in>live s. get s' q = get s q)"
    and free_live: "inv s \<Longrightarrow> p \<in> live s \<Longrightarrow>
      \<exists>s'. free p s = (FW_OK, s') \<and> live s' = live s - {p} \<and> inv s'
        \<and> cap s' = cap s \<and> fits s' = fits s \<and> (\<forall>q\<in>live s'. get s' q = get s q)"
    and free_other: "inv s \<Longrightarrow> p \<notin> live s \<Longrightarrow> free p s = (FW_ERR_INVALID_ARG, s)"
    and put_live: "inv s \<Longrightarrow> p \<in> live s \<Longrightarrow> fits s v \<Longrightarrow>
      inv (put p v s) \<and> live (put p v s) = live s \<and> cap (put p v s) = cap s
      \<and> fits (put p v s) = fits s \<and> get (put p v s) p = v
      \<and> (\<forall>q\<in>live s. q \<noteq> p \<longrightarrow> get (put p v s) q = get s q)"
begin

text \<open>The abstraction relation: the map knows the live blocks and agrees with their contents.\<close>

definition heap_rel :: "'s \<Rightarrow> ('p \<Rightarrow> 'v option option) \<Rightarrow> bool" where
  "heap_rel s M \<longleftrightarrow> inv s \<and> dom M = live s \<and> (\<forall>p v. M p = Some (Some v) \<longrightarrow> get s p = v)"

lemma heap_rel_init: "inv s \<Longrightarrow> live s = {} \<Longrightarrow> heap_rel s Map.empty"
  by (simp add: heap_rel_def)

lemma heap_run_ok:
  "heap_rel s M \<Longrightarrow> heap_ok (cap s) (fits s) M (heap_run alloc free put get ops s)"
proof (induction ops arbitrary: s M)
  case Nil
  then show ?case by simp
next
  case (Cons op ops)
  have inv: "inv s" and dom: "dom M = live s"
    and val: "\<And>p v. M p = Some (Some v) \<Longrightarrow> get s p = v"
    using Cons.prems by (simp_all add: heap_rel_def)
  have val_live: "q \<in> live s" if "M q = Some (Some v)" for q v
    using that dom by blast
  show ?case
  proof (cases op)
    case Alloc
    show ?thesis
    proof (cases "card (live s) = cap s")
      case True
      then show ?thesis
        using Alloc Cons.IH [OF Cons.prems] alloc_full [OF inv True] dom by simp
    next
      case False
      then have lt: "card (live s) < cap s" using live_cap [OF inv] by simp
      then obtain p s' where s': "alloc s = (Some p, s')" "p \<notin> live s" "live s' = insert p (live s)"
        "inv s'" "cap s' = cap s" "fits s' = fits s" "\<And>q. q \<in> live s \<Longrightarrow> get s' q = get s q"
        using alloc_fresh [OF inv] by blast
      have "heap_rel s' (M(p \<mapsto> None))"
        using s' dom val val_live by (auto simp: heap_rel_def split: if_splits)
      from Cons.IH [OF this] show ?thesis using Alloc s' dom lt by (simp add: fun_upd_def)
    qed
  next
    case (Free p)
    show ?thesis
    proof (cases "p \<in> live s")
      case True
      then obtain s' where s': "free p s = (FW_OK, s')" "live s' = live s - {p}" "inv s'"
        "cap s' = cap s" "fits s' = fits s" "\<And>q. q \<in> live s' \<Longrightarrow> get s' q = get s q"
        using free_live [OF inv] by blast
      have "heap_rel s' (M(p := None))"
        using s' dom val val_live by (auto simp: heap_rel_def split: if_splits)
      from Cons.IH [OF this] show ?thesis using Free s' dom True by (simp add: fun_upd_def)
    next
      case False
      then show ?thesis
        using Free Cons.IH [OF Cons.prems] free_other [OF inv False] dom by simp
    qed
  next
    case (Fill p v)
    show ?thesis
    proof (cases "p \<in> live s \<and> fits s v")
      case True
      note l = put_live [OF inv conjunct1 [OF True] conjunct2 [OF True]]
      have "get (put p v s) q = w" if "(M(p \<mapsto> Some v)) q = Some (Some w)" for q w
      proof (cases "q = p")
        case False
        then have "M q = Some (Some w)" using that by simp
        moreover from this have "q \<in> live s" using dom by blast
        ultimately show ?thesis using l False val by auto
      qed (use that l in auto)
      then have "heap_rel (put p v s) (M(p \<mapsto> Some v))"
        using l dom True by (auto simp: heap_rel_def)
      from Cons.IH [OF this] show ?thesis using Fill l dom True by (simp add: fun_upd_def)
    next
      case False
      then show ?thesis using Fill dom by auto
    qed
  next
    case (Look p)
    then show ?thesis
      using Cons.IH [OF Cons.prems] val by (auto split: option.splits)
  qed
qed

end

end
