(* ===== verification/Pool.thy ===== *)
theory Pool
  imports Memory Allocator
begin

text \<open>
  The fixed-block pool of \<^verbatim>\<open>memory/pool.h\<close> and \<^verbatim>\<open>pool.c\<close>.  The control block is a record; the allocation
  bitmap and the intrusive free list are bytes of the memory, read and written through
  \<^verbatim>\<open>load32\<close> and \<^verbatim>\<open>store32\<close> as the C code does through \<^verbatim>\<open>alloc_bitmap[i]\<close> and \<^verbatim>\<open>node->next\<close>.  A result
  None is undefined behaviour: a division by a zero block size or a shift by 32 or more.
\<close>

record fw_pool =
  po_storage :: ptr
  po_storage_size :: usize
  po_block_size :: usize
  po_alignment :: usize
  po_capacity :: usize
  po_free_count :: usize
  po_free_list :: ptr
  po_alloc_bitmap :: ptr
  po_block_shift :: u8

section \<open>Initialisation\<close>

text \<open>The loop that counts how often the block size can be halved.\<close>

function shift_loop :: "usize \<Rightarrow> u8 \<Rightarrow> u8" where
  "shift_loop temp shift = (if temp > 1 then shift_loop (drop_bit 1 temp) (shift + 1) else shift)"
  by auto
termination
proof (relation "measure (unat \<circ> fst)")
  fix temp :: usize and shift :: u8
  assume "temp > 1"
  then have "1 < unat temp" by (simp add: word_less_nat_alt)
  then show "((drop_bit 1 temp, shift + 1), temp, shift) \<in> measure (unat \<circ> fst)"
    by (simp add: drop_bit_Suc unat_div)
qed simp

declare shift_loop.simps [simp del]

definition pool_block_shift :: "usize \<Rightarrow> u8" where
  "pool_block_shift bsz = (if bsz AND (bsz - 1) = 0 then shift_loop bsz 0 else 0)"

text \<open>
  \<^verbatim>\<open>*link = v\<close>, where \<^verbatim>\<open>link\<close> points at the head field of the control block (None) or at the \<^verbatim>\<open>next\<close>
  field of a node in memory.
\<close>

definition set_link :: "ptr option \<Rightarrow> ptr \<Rightarrow> mem \<times> ptr \<Rightarrow> mem \<times> ptr" where
  "set_link link v s =
     (case link of
        None \<Rightarrow> (fst s, v)
      | Some p \<Rightarrow> (store32 (fst s) p v, snd s))"

fun link_blocks :: "usize \<Rightarrow> nat \<Rightarrow> ptr \<Rightarrow> ptr option \<Rightarrow> mem \<times> ptr \<Rightarrow> mem \<times> ptr" where
  "link_blocks bsz 0 cur link s = set_link link FW_NULL s"
| "link_blocks bsz (Suc n) cur link s =
     link_blocks bsz n (cur + bsz) (Some cur) (set_link link cur s)"

definition fw_pool_init ::
  "mem \<Rightarrow> fw_pool option \<Rightarrow> ptr \<Rightarrow> usize \<Rightarrow> usize \<Rightarrow> usize \<Rightarrow>
   (fw_status \<times> mem \<times> fw_pool option) option" where
  "fw_pool_init m pool buffer buffer_size block_size alignment =
     (case pool of
        None \<Rightarrow> Some (FW_ERR_INVALID_ARG, m, None)
      | Some p \<Rightarrow>
          if buffer = FW_NULL then Some (FW_ERR_INVALID_ARG, m, Some p)
          else if alignment = 0 \<or> alignment AND (alignment - 1) \<noteq> 0
          then Some (FW_ERR_INVALID_ARG, m, Some p)
          else
            let alignment = (if alignment < 4 then 4 else alignment);
                block_size = (if block_size < 4 then 4 else block_size);
                aligned_block_size = align_up block_size alignment;
                aligned_start = align_up buffer alignment;
                overhead = aligned_start - buffer
            in if buffer_size \<le> overhead then Some (FW_ERR_INVALID_ARG, m, Some p)
               else if aligned_block_size = 0 then None
               else
                 let usable_size = buffer_size - overhead;
                     estimated_cap = usable_size div aligned_block_size;
                     bitmap_words = (estimated_cap + 31) div 32;
                     bitmap_bytes = align_up (bitmap_words * 4) alignment
                 in if usable_size \<le> bitmap_bytes then Some (FW_ERR_INVALID_ARG, m, Some p)
                    else
                      let block_space = usable_size - bitmap_bytes;
                          capacity = block_space div aligned_block_size
                      in if capacity = 0 then Some (FW_ERR_INVALID_ARG, m, Some p)
                         else
                           let m1 = memset m aligned_start 0 bitmap_bytes;
                               block_start = align_up (aligned_start + bitmap_bytes) alignment;
                               (m2, head) = link_blocks aligned_block_size (unat capacity)
                                  block_start None (m1, FW_NULL)
                           in Some (FW_OK, m2, Some
                                \<lparr>po_storage = block_start,
                                 po_storage_size = capacity * aligned_block_size,
                                 po_block_size = aligned_block_size,
                                 po_alignment = alignment,
                                 po_capacity = capacity,
                                 po_free_count = capacity,
                                 po_free_list = head,
                                 po_alloc_bitmap = aligned_start,
                                 po_block_shift = pool_block_shift aligned_block_size\<rparr>))"

section \<open>Allocation and release\<close>

text \<open>
  The block index of an offset, a shift where the block size is a power of two.
\<close>

definition pool_index :: "fw_pool \<Rightarrow> usize \<Rightarrow> usize option" where
  "pool_index p offset =
     (if po_block_shift p > 0
      then if po_block_shift p < 32 then Some (drop_bit (unat (po_block_shift p)) offset) else None
      else if po_block_size p = 0 then None else Some (offset div po_block_size p))"

definition bitmap_word :: "fw_pool \<Rightarrow> usize \<Rightarrow> ptr" where
  "bitmap_word p idx = po_alloc_bitmap p + 4 * drop_bit 5 idx"

definition bitmap_mask :: "usize \<Rightarrow> u32" where
  "bitmap_mask idx = push_bit (unat (idx AND 31)) 1"

definition fw_pool_alloc ::
  "mem \<Rightarrow> fw_pool option \<Rightarrow> (ptr \<times> mem \<times> fw_pool option) option" where
  "fw_pool_alloc m pool =
     (case pool of
        None \<Rightarrow> Some (FW_NULL, m, None)
      | Some p \<Rightarrow>
          if po_free_list p = FW_NULL then Some (FW_NULL, m, Some p)
          else
            let node = po_free_list p;
                p' = p\<lparr>po_free_list := load32 m node, po_free_count := po_free_count p - 1\<rparr>;
                offset = node - po_storage p
            in (case pool_index p offset of
                  None \<Rightarrow> None
                | Some idx \<Rightarrow>
                    let a = bitmap_word p idx
                    in Some (node, store32 m a (load32 m a OR bitmap_mask idx), Some p')))"

definition offset_misaligned :: "fw_pool \<Rightarrow> usize \<Rightarrow> bool option" where
  "offset_misaligned p offset =
     (if po_block_shift p > 0
      then if po_block_shift p < 32
           then Some (offset AND (push_bit (unat (po_block_shift p)) 1 - 1) \<noteq> 0) else None
      else if po_block_size p = 0 then None else Some (offset mod po_block_size p \<noteq> 0))"

text \<open>The flag says whether assertions are compiled in, which is when a freed block is poisoned.\<close>

definition fw_pool_free ::
  "bool \<Rightarrow> mem \<Rightarrow> fw_pool option \<Rightarrow> ptr \<Rightarrow> (fw_status \<times> mem \<times> fw_pool option) option" where
  "fw_pool_free dbg m pool block =
     (case pool of
        None \<Rightarrow> Some (FW_ERR_INVALID_ARG, m, None)
      | Some p \<Rightarrow>
          if block = FW_NULL then Some (FW_ERR_INVALID_ARG, m, Some p)
          else if block < po_storage p \<or> block \<ge> po_storage p + po_storage_size p
          then Some (FW_ERR_INVALID_ARG, m, Some p)
          else
            let offset = block - po_storage p
            in (case offset_misaligned p offset of
                  None \<Rightarrow> None
                | Some True \<Rightarrow> Some (FW_ERR_INVALID_ARG, m, Some p)
                | Some False \<Rightarrow>
                    (case pool_index p offset of
                       None \<Rightarrow> None
                     | Some idx \<Rightarrow>
                         let mask = bitmap_mask idx; a = bitmap_word p idx
                         in if load32 m a AND mask = 0 then Some (FW_ERR_INVALID_ARG, m, Some p)
                            else
                              let m1 = store32 m a (load32 m a AND NOT mask);
                                  m2 = (if dbg then memset m1 block 0xDF (po_block_size p) else m1);
                                  m3 = store32 m2 block (po_free_list p)
                              in Some (FW_OK, m3, Some
                                   (p\<lparr>po_free_list := block,
                                      po_free_count := po_free_count p + 1\<rparr>)))))"

definition fw_pool_available :: "fw_pool option \<Rightarrow> usize" where
  "fw_pool_available pool = (case pool of None \<Rightarrow> 0 | Some p \<Rightarrow> po_free_count p)"

definition fw_pool_capacity :: "fw_pool option \<Rightarrow> usize" where
  "fw_pool_capacity pool = (case pool of None \<Rightarrow> 0 | Some p \<Rightarrow> po_capacity p)"

definition fw_pool_is_exhausted :: "fw_pool option \<Rightarrow> bool" where
  "fw_pool_is_exhausted pool = (case pool of None \<Rightarrow> True | Some p \<Rightarrow> po_free_count p = 0)"

section \<open>Geometry of an initialised pool\<close>

definition pool_geom :: "fw_pool \<Rightarrow> bool" where
  "pool_geom p \<longleftrightarrow>
     4 \<le> unat (po_block_size p) \<and> 0 < unat (po_capacity p)
     \<and> unat (po_storage_size p) = unat (po_capacity p) * unat (po_block_size p)
     \<and> unat (po_storage p) + unat (po_capacity p) * unat (po_block_size p) < 2 ^ 32
     \<and> 0 < unat (po_alloc_bitmap p)
     \<and> unat (po_alloc_bitmap p) + 4 * ((unat (po_capacity p) + 31) div 32) \<le> unat (po_storage p)
     \<and> (po_block_shift p > 0 \<longrightarrow>
          po_block_shift p < 32 \<and> po_block_size p = 2 ^ unat (po_block_shift p))"

definition block_addr :: "fw_pool \<Rightarrow> nat \<Rightarrow> ptr" where
  "block_addr p i = po_storage p + of_nat (i * unat (po_block_size p))"

definition block_taken :: "mem \<Rightarrow> fw_pool \<Rightarrow> nat \<Rightarrow> bool" where
  "block_taken m p i \<longleftrightarrow> bit (load32 m (po_alloc_bitmap p + of_nat (4 * (i div 32)))) (i mod 32)"

fun chain :: "mem \<Rightarrow> ptr \<Rightarrow> ptr list \<Rightarrow> bool" where
  "chain m p [] \<longleftrightarrow> p = FW_NULL"
| "chain m p (a # as) \<longleftrightarrow> p = a \<and> a \<noteq> FW_NULL \<and> chain m (load32 m a) as"

definition pool_inv :: "mem \<Rightarrow> fw_pool \<Rightarrow> nat list \<Rightarrow> bool" where
  "pool_inv m p fl \<longleftrightarrow>
     pool_geom p \<and> distinct fl \<and> (\<forall>i\<in>set fl. i < unat (po_capacity p))
     \<and> unat (po_free_count p) = length fl
     \<and> chain m (po_free_list p) (map (block_addr p) fl)
     \<and> (\<forall>i < unat (po_capacity p). block_taken m p i \<longleftrightarrow> i \<notin> set fl)"


subsection \<open>Block addresses and indices\<close>

text \<open>The list head and the free count are the only fields the operations write.\<close>

lemma pool_update_simps [simp]:
  "pool_geom (p\<lparr>po_free_list := l, po_free_count := c\<rparr>) = pool_geom p"
  "block_addr (p\<lparr>po_free_list := l, po_free_count := c\<rparr>) = block_addr p"
  "block_taken m (p\<lparr>po_free_list := l, po_free_count := c\<rparr>) = block_taken m p"
  by (simp_all add: pool_geom_def block_addr_def block_taken_def fun_eq_iff)

lemma pool_geomD:
  assumes "pool_geom p"
  shows "4 \<le> unat (po_block_size p)" "0 < unat (po_capacity p)"
    "unat (po_storage_size p) = unat (po_capacity p) * unat (po_block_size p)"
    "unat (po_storage p) + unat (po_capacity p) * unat (po_block_size p) < 2 ^ 32"
    "0 < unat (po_alloc_bitmap p)"
    "unat (po_alloc_bitmap p) + 4 * ((unat (po_capacity p) + 31) div 32) \<le> unat (po_storage p)"
  using assms by (simp_all add: pool_geom_def)

lemma block_end_le: "i < c \<Longrightarrow> i * b + b \<le> c * (b :: nat)"
  using mult_le_mono1 [of "Suc i" c b] by simp

lemma unat_block_addr:
  assumes g: "pool_geom p" and i: "i < unat (po_capacity p)"
  shows "unat (block_addr p i) = unat (po_storage p) + i * unat (po_block_size p)"
    and "unat (block_addr p i) + unat (po_block_size p) < 2 ^ 32"
    and "unat (block_addr p i - po_storage p) = i * unat (po_block_size p)"
    and "block_addr p i \<noteq> FW_NULL"
proof -
  have le: "i * unat (po_block_size p) + unat (po_block_size p)
      \<le> unat (po_capacity p) * unat (po_block_size p)"
    by (rule block_end_le [OF i])
  with pool_geomD(4) [OF g] have s: "i * unat (po_block_size p) < 2 ^ 32" by linarith
  have o: "unat (of_nat (i * unat (po_block_size p)) :: ptr) = i * unat (po_block_size p)"
    using s unat_of_nat_small [where 'a = 32, of "i * unat (po_block_size p)"]
    by (simp del: of_nat_mult)
  show a: "unat (block_addr p i) = unat (po_storage p) + i * unat (po_block_size p)"
    unfolding block_addr_def
    using unat_add_nowrap [of "po_storage p" "of_nat (i * unat (po_block_size p))"]
      o le pool_geomD(4) [OF g] by (simp del: of_nat_mult)
  show "unat (block_addr p i) + unat (po_block_size p) < 2 ^ 32"
    using a le pool_geomD(4) [OF g] by linarith
  show "unat (block_addr p i - po_storage p) = i * unat (po_block_size p)"
    using o by (simp add: block_addr_def)
  show "block_addr p i \<noteq> FW_NULL"
  proof
    assume "block_addr p i = FW_NULL"
    with a pool_geomD(5,6) [OF g] show False by simp
  qed
qed

lemma block_addr_inj:
  assumes "pool_geom p" and "i < unat (po_capacity p)" and "j < unat (po_capacity p)"
    and "block_addr p i = block_addr p j"
  shows "i = j"
proof -
  have "i * unat (po_block_size p) = j * unat (po_block_size p)"
    using unat_block_addr(3) [OF assms(1,2)] unat_block_addr(3) [OF assms(1,3)] assms(4) by metis
  with pool_geomD(1) [OF assms(1)] show ?thesis by (auto simp del: mult_eq_0_iff)
qed

lemma block_nowrap:
  assumes "pool_geom p" and "i < unat (po_capacity p)"
  shows "nowrap (block_addr p i) (unat (po_block_size p))"
  using unat_block_addr(2) [OF assms] by (simp add: nowrap_def)

lemma blocks_disjoint:
  assumes g: "pool_geom p" and i: "i < unat (po_capacity p)" and j: "j < unat (po_capacity p)"
    and ne: "i \<noteq> j"
  shows "disjoint_blocks (block_addr p i) (unat (po_block_size p))
           (block_addr p j) (unat (po_block_size p))"
proof (rule disjoint_blocksI [OF block_nowrap [OF g i] block_nowrap [OF g j]])
  have "i < j \<or> j < i" using ne by linarith
  then show "unat (block_addr p i) + unat (po_block_size p) \<le> unat (block_addr p j)
      \<or> unat (block_addr p j) + unat (po_block_size p) \<le> unat (block_addr p i)"
    unfolding unat_block_addr(1) [OF g i] unat_block_addr(1) [OF g j]
    using block_end_le [of i j "unat (po_block_size p)"]
      block_end_le [of j i "unat (po_block_size p)"] by linarith
qed

lemma pool_index_block:
  assumes g: "pool_geom p" and i: "i < unat (po_capacity p)"
  shows "pool_index p (block_addr p i - po_storage p) = Some (of_nat i)"
proof -
  let ?b = "unat (po_block_size p)"
  have b: "0 < ?b" using pool_geomD(1) [OF g] by simp
  have o: "unat (block_addr p i - po_storage p) = i * ?b" by (rule unat_block_addr(3) [OF g i])
  show ?thesis
  proof (cases "po_block_shift p > 0")
    case True
    then have k: "po_block_shift p < 32" "po_block_size p = 2 ^ unat (po_block_shift p)"
      using g by (simp_all add: pool_geom_def)
    then have k32: "unat (po_block_shift p) < 32" by (simp add: word_less_nat_alt)
    then have bk: "?b = 2 ^ unat (po_block_shift p)" by (simp add: k(2) unat_pow2)
    have "unat (drop_bit (unat (po_block_shift p)) (block_addr p i - po_storage p)) = i"
      using o b k32 by (simp add: drop_bit_eq_div unat_div unat_pow2 bk)
    then have "drop_bit (unat (po_block_shift p)) (block_addr p i - po_storage p) = of_nat i"
      by (metis of_nat_unat_id)
    with True k show ?thesis by (simp add: pool_index_def)
  next
    case False
    have "unat ((block_addr p i - po_storage p) div po_block_size p) = i"
      using o b by (simp add: unat_div)
    then have "(block_addr p i - po_storage p) div po_block_size p = of_nat i"
      by (metis of_nat_unat_id)
    with False b show ?thesis by (auto simp: pool_index_def)
  qed
qed

lemma offset_misaligned_iff:
  assumes g: "pool_geom p"
  shows "offset_misaligned p off = Some (unat off mod unat (po_block_size p) \<noteq> 0)"
proof (cases "po_block_shift p > 0")
  case True
  then have k: "po_block_shift p < 32" "po_block_size p = 2 ^ unat (po_block_shift p)"
    using g by (simp_all add: pool_geom_def)
  then have k32: "unat (po_block_shift p) < 32" by (simp add: word_less_nat_alt)
  have "(off AND (push_bit (unat (po_block_shift p)) 1 - 1) = 0)
      \<longleftrightarrow> unat (off AND (2 ^ unat (po_block_shift p) - 1)) = 0"
    by (simp add: push_bit_eq_mult unat_eq_0)
  also have "\<dots> \<longleftrightarrow> unat off mod unat (po_block_size p) = 0"
    using k32 by (simp add: unat_and_pow2_minus_one k(2) unat_pow2)
  finally show ?thesis using True k by (simp add: offset_misaligned_def)
next
  case False
  have "po_block_size p \<noteq> 0" using pool_geomD(1) [OF g] by auto
  moreover have "off mod po_block_size p = 0 \<longleftrightarrow> unat off mod unat (po_block_size p) = 0"
    by (metis unat_0 unat_eq_0 unat_mod_distrib)
  ultimately show ?thesis using False by (simp add: offset_misaligned_def)
qed


subsection \<open>The allocation bitmap\<close>

definition bm_addr :: "fw_pool \<Rightarrow> nat \<Rightarrow> ptr" where
  "bm_addr p i = po_alloc_bitmap p + of_nat (4 * (i div 32))"

lemma block_taken_bm: "block_taken m p i \<longleftrightarrow> bit (load32 m (bm_addr p i)) (i mod 32)"
  by (simp only: block_taken_def bm_addr_def)

lemma unat_bm_addr:
  assumes g: "pool_geom p" and i: "i < unat (po_capacity p)"
  shows "unat (bm_addr p i) = unat (po_alloc_bitmap p) + 4 * (i div 32)"
    and "unat (bm_addr p i) + 4 \<le> unat (po_storage p)"
    and "nowrap (bm_addr p i) 4"
proof -
  let ?k = "4 * (i div 32)"
  have "i div 32 < (unat (po_capacity p) + 31) div 32" using i by linarith
  then have le: "unat (po_alloc_bitmap p) + ?k + 4 \<le> unat (po_storage p)"
    using pool_geomD(6) [OF g] by linarith
  have s32: "unat (po_storage p) < 2 ^ 32" using pool_geomD(4) [OF g] by linarith
  have o: "unat (of_nat ?k :: ptr) = ?k"
    using le s32 unat_of_nat_small [where 'a = 32, of ?k] by (simp del: of_nat_mult)
  show a: "unat (bm_addr p i) = unat (po_alloc_bitmap p) + ?k"
    unfolding bm_addr_def using unat_add_nowrap [of "po_alloc_bitmap p" "of_nat ?k"] o le s32
    by (simp del: of_nat_mult)
  show b: "unat (bm_addr p i) + 4 \<le> unat (po_storage p)" using a le by linarith
  show "nowrap (bm_addr p i) 4" using b s32 by (simp add: nowrap_def)
qed

lemma bitmap_word_block:
  assumes "i < unat (po_capacity p)"
  shows "bitmap_word p (of_nat i) = bm_addr p i"
    and "bitmap_mask (of_nat i) = 2 ^ (i mod 32)"
proof -
  have i32: "i < 2 ^ 32" using assms unat_lt32 [of "po_capacity p"] by simp
  then have u: "unat (of_nat i :: usize) = i" by (simp add: unat_of_nat_small)
  have "unat (drop_bit 5 (of_nat i :: usize)) = i div 32"
    using u by (simp add: drop_bit_eq_div unat_div)
  then have "drop_bit 5 (of_nat i :: usize) = of_nat (i div 32)" by (metis of_nat_unat_id)
  then show "bitmap_word p (of_nat i) = bm_addr p i"
    by (simp add: bitmap_word_def bm_addr_def)
  have "unat ((of_nat i :: usize) AND (2 ^ 5 - 1)) = i mod 2 ^ 5"
    by (simp only: unat_and_pow2_minus_one u)
  then show "bitmap_mask (of_nat i) = 2 ^ (i mod 32)"
    by (simp add: bitmap_mask_def)
qed

lemma bit_set_mask:
  "j < 32 \<Longrightarrow> bit ((w :: u32) OR 2 ^ k) j \<longleftrightarrow> bit w j \<or> j = k"
  "j < 32 \<Longrightarrow> bit ((w :: u32) AND NOT (2 ^ k)) j \<longleftrightarrow> bit w j \<and> j \<noteq> k"
  by (auto simp: bit_simps)

lemma and_mask_eq_0: 
  assumes "k < 32"
  shows "(w :: u32) AND 2 ^ k = 0 \<longleftrightarrow> \<not> bit w k"
proof
  note k = assms
  assume "w AND 2 ^ k = 0"
  then have "\<not> bit (w AND 2 ^ k) k" by simp
  with k show "\<not> bit w k" by (simp add: bit_simps)
next
  assume "\<not> bit w k"
  then show "w AND 2 ^ k = 0" by (intro bit_eqI) (auto simp: bit_simps)
qed

lemma block_taken_store:
  assumes g: "pool_geom p" and i: "i < unat (po_capacity p)" and j: "j < unat (po_capacity p)"
  shows "block_taken (store32 m (bm_addr p i) v) p j =
    (if i div 32 = j div 32 then bit v (j mod 32) else block_taken m p j)"
proof (cases "i div 32 = j div 32")
  case True
  then have "bm_addr p j = bm_addr p i" by (simp add: bm_addr_def)
  with True show ?thesis by (simp add: block_taken_bm load32_store32_same)
next
  case False
  have "disjoint_blocks (bm_addr p i) 4 (bm_addr p j) 4"
  proof (rule disjoint_blocksI [OF unat_bm_addr(3) [OF g i] unat_bm_addr(3) [OF g j]])
    show "unat (bm_addr p i) + 4 \<le> unat (bm_addr p j) \<or> unat (bm_addr p j) + 4 \<le> unat (bm_addr p i)"
      using False unat_bm_addr(1) [OF g i] unat_bm_addr(1) [OF g j] by linarith
  qed
  with False show ?thesis by (simp add: block_taken_bm load32_store32_disjoint)
qed

lemma div_mod_eqI: "(i :: nat) div n = j div n \<Longrightarrow> i mod n = j mod n \<Longrightarrow> i = j"
  by (metis div_mult_mod_eq)

lemma block_taken_set:
  assumes "pool_geom p" and "i < unat (po_capacity p)" and "j < unat (po_capacity p)"
  shows "block_taken (store32 m (bm_addr p i) (load32 m (bm_addr p i) OR 2 ^ (i mod 32))) p j
    \<longleftrightarrow> block_taken m p j \<or> j = i"
proof (cases "i div 32 = j div 32")
  case True
  then have "bm_addr p j = bm_addr p i" by (simp add: bm_addr_def)
  with True show ?thesis
    by (auto simp: block_taken_store [OF assms] bit_set_mask block_taken_bm
        load32_store32_same dest: div_mod_eqI)
qed (auto simp: block_taken_store [OF assms])

lemma block_taken_clear:
  assumes "pool_geom p" and "i < unat (po_capacity p)" and "j < unat (po_capacity p)"
  shows "block_taken (store32 m (bm_addr p i)
      (load32 m (bm_addr p i) AND NOT (2 ^ (i mod 32)))) p j
    \<longleftrightarrow> block_taken m p j \<and> j \<noteq> i"
proof (cases "i div 32 = j div 32")
  case True
  then have "bm_addr p j = bm_addr p i" by (simp add: bm_addr_def)
  with True show ?thesis
    by (auto simp: block_taken_store [OF assms] bit_set_mask block_taken_bm
        load32_store32_same dest: div_mod_eqI)
qed (auto simp: block_taken_store [OF assms])

lemma bm_block_disjoint:
  assumes g: "pool_geom p" and i: "i < unat (po_capacity p)" and j: "j < unat (po_capacity p)"
  shows "disjoint_blocks (bm_addr p i) 4 (block_addr p j) (unat (po_block_size p))"
proof (rule disjoint_blocksI [OF unat_bm_addr(3) [OF g i] block_nowrap [OF g j]])
  have "unat (po_storage p) \<le> unat (block_addr p j)"
    unfolding unat_block_addr(1) [OF g j] by (rule le_add1)
  with unat_bm_addr(2) [OF g i] have "unat (bm_addr p i) + 4 \<le> unat (block_addr p j)"
    by (rule order_trans)
  then show "unat (bm_addr p i) + 4 \<le> unat (block_addr p j)
      \<or> unat (block_addr p j) + unat (po_block_size p) \<le> unat (bm_addr p i)" ..
qed

lemma block_taken_cong:
  assumes g: "pool_geom p" and i: "i < unat (po_capacity p)"
    and "\<And>a. in_block (bm_addr p i) 4 a \<Longrightarrow> m a = m' a"
  shows "block_taken m p i = block_taken m' p i"
proof -
  have "mem_read m (bm_addr p i) 4 = mem_read m' (bm_addr p i) 4"
    by (rule mem_read_cong) (simp_all add: assms(3))
  then show ?thesis by (simp only: block_taken_bm load32_cong [OF \<open>mem_read m _ 4 = _\<close>])
qed

subsection \<open>The free list\<close>

lemma chain_cong:
  "(\<And>a. a \<in> set as \<Longrightarrow> load32 m a = load32 m' a) \<Longrightarrow> chain m q as = chain m' q as"
  by (induction as arbitrary: q) auto

lemma chain_head: "chain m q as \<Longrightarrow> q = (case as of [] \<Rightarrow> FW_NULL | a # _ \<Rightarrow> a)"
  by (cases as) auto

text \<open>The first four bytes of a block, which hold the link while it is free.\<close>

lemma in_block_link:
  assumes "pool_geom p" and "in_block (block_addr p i) 4 a"
  shows "in_block (block_addr p i) (unat (po_block_size p)) a"
  using assms pool_geomD(1) [OF assms(1)] by (simp add: in_block_def)

lemma link_cong:
  assumes "pool_geom p" and "\<And>a. in_block (block_addr p i) (unat (po_block_size p)) a \<Longrightarrow> m a = m' a"
  shows "load32 m (block_addr p i) = load32 m' (block_addr p i)"
  by (rule load32_cong, rule mem_read_cong) (use assms in_block_link in auto)

text \<open>A write inside one block, or inside the bitmap, leaves the other free blocks linked.\<close>

lemma chain_outside:
  assumes g: "pool_geom p" and "\<And>i a. i \<in> set is \<Longrightarrow>
      in_block (block_addr p i) (unat (po_block_size p)) a \<Longrightarrow> m a = m' a"
  shows "chain m q (map (block_addr p) is) = chain m' q (map (block_addr p) is)"
  by (rule chain_cong) (auto intro!: link_cong [OF g] assms(2))


section \<open>Every operation keeps the invariant\<close>

lemma pool_invD:
  assumes "pool_inv m p fl"
  shows "pool_geom p" "distinct fl" "\<And>i. i \<in> set fl \<Longrightarrow> i < unat (po_capacity p)"
    "unat (po_free_count p) = length fl" "chain m (po_free_list p) (map (block_addr p) fl)"
    "\<And>i. i < unat (po_capacity p) \<Longrightarrow> block_taken m p i \<longleftrightarrow> i \<notin> set fl"
  using assms by (auto simp: pool_inv_def)

lemma store32_out: "\<not> in_block p 4 a \<Longrightarrow> store32 m p v a = m a"
  by (simp add: store32_def mem_write_out)

lemma bm_store_outside:
  assumes "pool_geom p" and "i < unat (po_capacity p)" and "j < unat (po_capacity p)"
    and "in_block (block_addr p j) (unat (po_block_size p)) a"
  shows "store32 m (bm_addr p i) v a = m a"
  using bm_block_disjoint [OF assms(1-3)] assms(4)
  by (intro store32_out) (auto simp: disjoint_blocks_def)

lemma pool_alloc_none:
  assumes "pool_inv m p []"
  shows "fw_pool_alloc m (Some p) = Some (FW_NULL, m, Some p)"
  using pool_invD(5) [OF assms] by (simp add: fw_pool_alloc_def)

lemma pool_alloc_cons:
  assumes inv: "pool_inv m p (i # fl)"
  defines "m' \<equiv> store32 m (bm_addr p i) (load32 m (bm_addr p i) OR 2 ^ (i mod 32))"
    and "p' \<equiv> p\<lparr>po_free_list := load32 m (block_addr p i), po_free_count := po_free_count p - 1\<rparr>"
  shows "fw_pool_alloc m (Some p) = Some (block_addr p i, m', Some p')"
    and "pool_inv m' p' fl"
    and "\<And>j a. j < unat (po_capacity p) \<Longrightarrow>
          in_block (block_addr p j) (unat (po_block_size p)) a \<Longrightarrow> m' a = m a"
proof -
  have g: "pool_geom p" by (rule pool_invD(1) [OF inv])
  have i: "i < unat (po_capacity p)" by (rule pool_invD(3) [OF inv]) simp
  have head: "po_free_list p = block_addr p i"
    and tl: "chain m (load32 m (block_addr p i)) (map (block_addr p) fl)"
    using pool_invD(5) [OF inv] by auto
  show "fw_pool_alloc m (Some p) = Some (block_addr p i, m', Some p')"
    using head unat_block_addr(4) [OF g i] pool_index_block [OF g i] bitmap_word_block [OF i]
    by (simp add: fw_pool_alloc_def Let_def m'_def p'_def)
  show out: "m' a = m a" if "j < unat (po_capacity p)"
      "in_block (block_addr p j) (unat (po_block_size p)) a" for j a
    using that unfolding m'_def by (rule bm_store_outside [OF g i])
  have same: "block_addr p' = block_addr p" "po_capacity p' = po_capacity p"
    by (simp_all add: block_addr_def p'_def fun_eq_iff)
  have "chain m' (po_free_list p') (map (block_addr p) fl)"
  proof (subst chain_outside [OF g, where m' = m])
    show "chain m (po_free_list p') (map (block_addr p) fl)" using tl by (simp add: p'_def)
  next
    fix j a assume "j \<in> set fl" "in_block (block_addr p j) (unat (po_block_size p)) a"
    then show "m' a = m a" by (intro out [of j a] pool_invD(3) [OF inv]) simp_all
  qed
  moreover have "block_taken m' p' j \<longleftrightarrow> j \<notin> set fl" if j: "j < unat (po_capacity p)" for j
  proof -
    have "block_taken m' p' j = block_taken m' p j" by (simp add: block_taken_def p'_def)
    also have "\<dots> \<longleftrightarrow> block_taken m p j \<or> j = i"
      unfolding m'_def by (rule block_taken_set [OF g i j])
    also have "\<dots> \<longleftrightarrow> j \<notin> set fl"
      using pool_invD(2,6) [OF inv] j by auto
    finally show ?thesis .
  qed
  moreover have "pool_geom p'" using g by (simp add: pool_geom_def p'_def)
  moreover have "unat (po_free_count p') = length fl"
    using pool_invD(4) [OF inv] by (simp add: p'_def unat_sub_le word_le_nat_alt)
  ultimately show "pool_inv m' p' fl"
    using pool_invD(2,3) [OF inv] by (simp add: pool_inv_def same)
qed


text \<open>
  Every pointer the range and alignment checks let through is the address of a block.
\<close>

lemma pool_range_iff:
  assumes g: "pool_geom p"
  shows "(\<not> (block < po_storage p \<or> block \<ge> po_storage p + po_storage_size p)
      \<and> unat (block - po_storage p) mod unat (po_block_size p) = 0)
    \<longleftrightarrow> (\<exists>i < unat (po_capacity p). block = block_addr p i)"
proof -
  let ?b = "unat (po_block_size p)" and ?c = "unat (po_capacity p)" and ?S = "unat (po_storage p)"
  have b: "0 < ?b" using pool_geomD(1) [OF g] by linarith
  have e: "unat (po_storage p + po_storage_size p) = ?S + ?c * ?b"
    using unat_add_nowrap [of "po_storage p" "po_storage_size p"] pool_geomD(3,4) [OF g] by simp
  show ?thesis
  proof (intro iffI conjI)
    assume l: "\<not> (block < po_storage p \<or> block \<ge> po_storage p + po_storage_size p)
      \<and> unat (block - po_storage p) mod ?b = 0"
    let ?i = "unat (block - po_storage p) div ?b"
    have le: "?S \<le> unat block" and lt: "unat block < ?S + ?c * ?b"
      using l e by (auto simp: word_less_nat_alt word_le_nat_alt)
    have d: "unat (block - po_storage p) = unat block - ?S"
      using le by (simp add: unat_sub_le word_le_nat_alt)
    have m: "?i * ?b = unat (block - po_storage p)"
      using l div_mult_mod_eq [of "unat (block - po_storage p)" ?b] by simp
    have "?i * ?b < ?c * ?b" using m d lt le by linarith
    then have i: "?i < ?c" by simp
    have "block - po_storage p = of_nat (?i * ?b)" unfolding m by (simp only: of_nat_unat_id)
    then have "block = block_addr p ?i" unfolding block_addr_def by (metis add_diff_cancel add.commute diff_add_cancel)
    with i show "\<exists>i < ?c. block = block_addr p i" by blast
  next
    assume "\<exists>i < ?c. block = block_addr p i"
    then obtain i where i: "i < ?c" "block = block_addr p i" by blast
    have u: "unat block = ?S + i * ?b" and lt: "i * ?b < ?c * ?b"
      using unat_block_addr(1) [OF g i(1)] i b by simp_all
    show "\<not> (block < po_storage p \<or> block \<ge> po_storage p + po_storage_size p)"
      using u lt e by (simp add: word_less_nat_alt word_le_nat_alt)
    show "unat (block - po_storage p) mod ?b = 0"
      using unat_block_addr(3) [OF g i(1)] i(2) by simp
  qed
qed

lemma pool_free_reject:
  assumes inv: "pool_inv m p fl"
    and bad: "\<not> (\<exists>i < unat (po_capacity p). block = block_addr p i \<and> i \<notin> set fl)"
  shows "fw_pool_free dbg m (Some p) block = Some (FW_ERR_INVALID_ARG, m, Some p)"
proof -
  have g: "pool_geom p" by (rule pool_invD(1) [OF inv])
  show ?thesis
  proof (cases "\<exists>i < unat (po_capacity p). block = block_addr p i")
    case False
    then show ?thesis
      using pool_range_iff [OF g, of block]
      by (auto simp: fw_pool_free_def Let_def offset_misaligned_iff [OF g])
  next
    case True
    then obtain i where i: "i < unat (po_capacity p)" "block = block_addr p i" by blast
    with bad have "\<not> block_taken m p i" using pool_invD(6) [OF inv i(1)] by blast
    then have "load32 m (bm_addr p i) AND 2 ^ (i mod 32) = 0"
      by (simp add: and_mask_eq_0 block_taken_bm)
    with i True show ?thesis
      using pool_range_iff [OF g, of block] pool_index_block [OF g i(1)] bitmap_word_block [OF i(1)]
      by (simp add: fw_pool_free_def Let_def offset_misaligned_iff [OF g])
  qed
qed

lemma chain_push:
  assumes g: "pool_geom p" and i: "i < unat (po_capacity p)" "i \<notin> set fl"
    and fl: "\<And>j. j \<in> set fl \<Longrightarrow> j < unat (po_capacity p)"
    and c: "chain m q (map (block_addr p) fl)"
  shows "chain (store32 m (block_addr p i) q) (block_addr p i) (map (block_addr p) (i # fl))"
proof -
  have "chain (store32 m (block_addr p i) q) q (map (block_addr p) fl)"
  proof (subst chain_outside [OF g, where m' = m])
    fix j a assume j: "j \<in> set fl" "in_block (block_addr p j) (unat (po_block_size p)) a"
    have "\<not> in_block (block_addr p i) 4 a"
      using blocks_disjoint [OF g i(1) fl [OF j(1)]] j i(2) in_block_link [OF g]
      by (metis disjoint_blocks_def)
    then show "store32 m (block_addr p i) q a = m a" by (rule store32_out)
  qed (rule c)
  then show ?thesis
    using unat_block_addr(4) [OF g i(1)] by (simp add: load32_store32_same)
qed

lemma pool_free_accept_frame:
  assumes inv: "pool_inv m p fl" and i: "i < unat (po_capacity p)" "i \<notin> set fl"
  defines "p' \<equiv> p\<lparr>po_free_list := block_addr p i, po_free_count := po_free_count p + 1\<rparr>"
  obtains m' where "fw_pool_free dbg m (Some p) (block_addr p i) = Some (FW_OK, m', Some p')"
    and "pool_inv m' p' (i # fl)"
    and "\<And>j a. j < unat (po_capacity p) \<Longrightarrow> j \<noteq> i \<Longrightarrow>
          in_block (block_addr p j) (unat (po_block_size p)) a \<Longrightarrow> m' a = m a"
    and "\<And>a. \<not> in_block (bm_addr p i) 4 a \<Longrightarrow> \<not> in_block (block_addr p i) (unat (po_block_size p)) a \<Longrightarrow> m' a = m a"
proof -
  have g: "pool_geom p" by (rule pool_invD(1) [OF inv])
  let ?b = "block_addr p i" and ?bs = "unat (po_block_size p)"
  define m1 where "m1 = store32 m (bm_addr p i) (load32 m (bm_addr p i) AND NOT (2 ^ (i mod 32)))"
  define m2 where "m2 = (if dbg then memset m1 ?b 0xDF (po_block_size p) else m1)"
  define m' where "m' = store32 m2 ?b (po_free_list p)"
  have taken: "load32 m (bm_addr p i) AND 2 ^ (i mod 32) \<noteq> 0"
    using pool_invD(6) [OF inv i(1)] i(2) by (simp add: and_mask_eq_0 block_taken_bm)
  have run: "fw_pool_free dbg m (Some p) ?b = Some (FW_OK, m', Some p')"
    using pool_range_iff [OF g, of ?b] pool_index_block [OF g i(1)] bitmap_word_block [OF i(1)]
      unat_block_addr(4) [OF g i(1)] taken i(1)
    by (auto simp: fw_pool_free_def Let_def offset_misaligned_iff [OF g] m1_def m2_def m'_def p'_def)
  have out2: "m2 a = m1 a" if "\<not> in_block ?b ?bs a" for a
    using that by (simp add: m2_def memset_def mem_write_out)
  have out3: "m' a = m1 a" if "\<not> in_block ?b ?bs a" for a
    using that out2 in_block_link [OF g] by (metis m'_def store32_out)
  have frame: "m' a = m a" if "j < unat (po_capacity p)" "j \<noteq> i" "in_block (block_addr p j) ?bs a" for j a
  proof -
    have "\<not> in_block ?b ?bs a"
      using blocks_disjoint [OF g that(1) i(1) that(2)] that(3) by (simp add: disjoint_blocks_def)
    then have "m' a = m1 a" by (rule out3)
    also have "\<dots> = m a" unfolding m1_def by (rule bm_store_outside [OF g i(1) that(1,3)])
    finally show ?thesis .
  qed
  have c2: "chain m2 (po_free_list p) (map (block_addr p) fl)"
  proof (subst chain_outside [OF g, where m' = m])
    fix j a assume j: "j \<in> set fl" "in_block (block_addr p j) ?bs a"
    have jc: "j < unat (po_capacity p)" by (rule pool_invD(3) [OF inv j(1)])
    have "\<not> in_block ?b ?bs a"
      using blocks_disjoint [OF g jc i(1)] j i(2) by (metis disjoint_blocks_def)
    then have "m2 a = m1 a" by (rule out2)
    also have "\<dots> = m a" unfolding m1_def by (rule bm_store_outside [OF g i(1) jc j(2)])
    finally show "m2 a = m a" .
  qed (rule pool_invD(5) [OF inv])
  have taken': "block_taken m' p j \<longleftrightarrow> j \<notin> set (i # fl)" if j: "j < unat (po_capacity p)" for j
  proof -
    have "block_taken m' p j = block_taken m1 p j"
    proof (rule block_taken_cong [OF g j])
      fix a assume "in_block (bm_addr p j) 4 a"
      then show "m' a = m1 a"
        using bm_block_disjoint [OF g j i(1)] by (intro out3) (auto simp: disjoint_blocks_def)
    qed
    also have "\<dots> \<longleftrightarrow> block_taken m p j \<and> j \<noteq> i"
      unfolding m1_def by (rule block_taken_clear [OF g i(1) j])
    finally show ?thesis using pool_invD(6) [OF inv j] by auto
  qed
  have cnt: "length fl < unat (po_capacity p)"
  proof -
    have "card (set (i # fl)) \<le> card {..<unat (po_capacity p)}"
      by (rule card_mono) (use pool_invD(3) [OF inv] i in auto)
    then show ?thesis using distinct_card [OF pool_invD(2) [OF inv]] i(2) by simp
  qed
  have "unat (po_free_count p + 1) = Suc (length fl)"
    using cnt pool_invD(4) [OF inv] unat_lt32 [of "po_capacity p"]
      unat_add_nowrap [of "po_free_count p" 1] by simp
  then have "pool_inv m' p' (i # fl)"
    using g i pool_invD(2,3) [OF inv] taken'
      chain_push [OF g i pool_invD(3) [OF inv] c2]
    by (auto simp: pool_inv_def p'_def m'_def simp del: chain.simps)
  moreover have "m' a = m a" if "\<not> in_block (bm_addr p i) 4 a" "\<not> in_block ?b ?bs a" for a
    using out3 [OF that(2)] store32_out [OF that(1)] by (simp add: m1_def)
  ultimately show thesis using that run frame by blast
qed

lemma pool_free_accept:
  assumes inv: "pool_inv m p fl" and i: "i < unat (po_capacity p)" "i \<notin> set fl"
  defines "p' \<equiv> p\<lparr>po_free_list := block_addr p i, po_free_count := po_free_count p + 1\<rparr>"
  obtains m' where "fw_pool_free dbg m (Some p) (block_addr p i) = Some (FW_OK, m', Some p')"
    and "pool_inv m' p' (i # fl)"
    and "\<And>j a. j < unat (po_capacity p) \<Longrightarrow> j \<noteq> i \<Longrightarrow>
          in_block (block_addr p j) (unat (po_block_size p)) a \<Longrightarrow> m' a = m a"
proof (rule pool_free_accept_frame [OF inv i, of dbg, folded p'_def])
  fix m' assume m': "fw_pool_free dbg m (Some p) (block_addr p i) = Some (FW_OK, m', Some p')" "pool_inv m' p' (i # fl)"
    and frame: "\<And>j a. j < unat (po_capacity p) \<Longrightarrow> j \<noteq> i \<Longrightarrow>
          in_block (block_addr p j) (unat (po_block_size p)) a \<Longrightarrow> m' a = m a"
  show thesis by (rule that [OF m' frame])
qed


section \<open>The pool as a block allocator\<close>

type_synonym pool_state = "mem \<times> fw_pool"

definition pool_take :: "pool_state \<Rightarrow> ptr option \<times> pool_state" where
  "pool_take s =
     (case fw_pool_alloc (fst s) (Some (snd s)) of
        Some (b, m, Some p) \<Rightarrow> (if b = FW_NULL then None else Some b, m, p)
      | _ \<Rightarrow> (Some FW_NULL, s))"

definition pool_give :: "bool \<Rightarrow> ptr \<Rightarrow> pool_state \<Rightarrow> fw_status \<times> pool_state" where
  "pool_give dbg b s =
     (case fw_pool_free dbg (fst s) (Some (snd s)) b of
        Some (st, m, Some p) \<Rightarrow> (st, m, p)
      | _ \<Rightarrow> (FW_ERR_GENERIC, s))"

text \<open>A client filling a whole block, and reading it back.\<close>

definition pool_put :: "ptr \<Rightarrow> u8 list \<Rightarrow> pool_state \<Rightarrow> pool_state" where
  "pool_put b v s = (mem_write (fst s) b v, snd s)"

definition pool_get :: "pool_state \<Rightarrow> ptr \<Rightarrow> u8 list" where
  "pool_get s b = mem_read (fst s) b (unat (po_block_size (snd s)))"

definition pool_live :: "pool_state \<Rightarrow> ptr set" where
  "pool_live s = block_addr (snd s) ` {i. i < unat (po_capacity (snd s)) \<and> block_taken (fst s) (snd s) i}"

definition pool_cap :: "pool_state \<Rightarrow> nat" where
  "pool_cap s = unat (po_capacity (snd s))"

definition pool_fits :: "pool_state \<Rightarrow> u8 list \<Rightarrow> bool" where
  "pool_fits s v \<longleftrightarrow> length v = unat (po_block_size (snd s))"

definition pool_ok :: "pool_state \<Rightarrow> bool" where
  "pool_ok s \<longleftrightarrow> (\<exists>fl. pool_inv (fst s) (snd s) fl)"

lemma pool_live_inv:
  assumes "pool_inv m p fl"
  shows "pool_live (m, p) = block_addr p ` ({..<unat (po_capacity p)} - set fl)"
  using pool_invD(6) [OF assms] by (auto simp: pool_live_def)

lemma pool_live_card:
  assumes inv: "pool_inv m p fl"
  shows "card (pool_live (m, p)) + length fl = unat (po_capacity p)"
proof -
  have "inj_on (block_addr p) ({..<unat (po_capacity p)} - set fl)"
    by (rule inj_onI) (auto intro: block_addr_inj [OF pool_invD(1) [OF inv]])
  then have "card (pool_live (m, p)) = card ({..<unat (po_capacity p)} - set fl)"
    by (simp add: pool_live_inv [OF inv] card_image)
  also have "\<dots> = unat (po_capacity p) - length fl"
    using pool_invD(3) [OF inv] distinct_card [OF pool_invD(2) [OF inv]]
    by (subst card_Diff_subset) auto
  moreover have "card (set fl) \<le> card {..<unat (po_capacity p)}"
    by (rule card_mono) (use pool_invD(3) [OF inv] in auto)
  ultimately show ?thesis using distinct_card [OF pool_invD(2) [OF inv]] by simp
qed

lemma pool_live_iff:
  assumes inv: "pool_inv m p fl" and i: "i < unat (po_capacity p)"
  shows "block_addr p i \<in> pool_live (m, p) \<longleftrightarrow> i \<notin> set fl"
  using i by (auto simp: pool_live_inv [OF inv] dest: block_addr_inj [OF pool_invD(1) [OF inv], rotated 2])

lemma pool_get_cong:
  assumes "\<And>a. in_block b (unat (po_block_size p)) a \<Longrightarrow> m' a = m a"
    and "po_block_size p' = po_block_size p"
  shows "pool_get (m', p') b = pool_get (m, p) b"
  using mem_read_cong [of b "unat (po_block_size p)" m' m] assms unat_le32 [of "po_block_size p"]
  by (simp add: pool_get_def)

text \<open>The invariant reads the free blocks and the bitmap only.\<close>

lemma pool_inv_cong:
  assumes inv: "pool_inv m p fl"
    and "\<And>i a. i \<in> set fl \<Longrightarrow> in_block (block_addr p i) (unat (po_block_size p)) a \<Longrightarrow> m' a = m a"
    and "\<And>i a. i < unat (po_capacity p) \<Longrightarrow> in_block (bm_addr p i) 4 a \<Longrightarrow> m' a = m a"
  shows "pool_inv m' p fl"
proof -
  have g: "pool_geom p" by (rule pool_invD(1) [OF inv])
  have "chain m' (po_free_list p) (map (block_addr p) fl)"
    using chain_outside [OF g, of fl m' m] assms(2) pool_invD(5) [OF inv] by metis
  moreover have "block_taken m' p j = block_taken m p j" if "j < unat (po_capacity p)" for j
    by (rule block_taken_cong [OF g that]) (rule assms(3) [OF that])
  ultimately show ?thesis using inv by (simp add: pool_inv_def)
qed

lemma pool_inv_put:
  assumes inv: "pool_inv m p fl" and i: "i < unat (po_capacity p)" "i \<notin> set fl"
    and len: "length v \<le> unat (po_block_size p)"
  shows "pool_inv (mem_write m (block_addr p i) v) p fl"
proof (rule pool_inv_cong [OF inv])
  have g: "pool_geom p" by (rule pool_invD(1) [OF inv])
  have out: "mem_write m (block_addr p i) v a = m a" if "\<not> in_block (block_addr p i) (unat (po_block_size p)) a" for a
    using that len by (intro mem_write_out) (simp add: in_block_def)
  show "mem_write m (block_addr p i) v a = m a"
    if "j \<in> set fl" "in_block (block_addr p j) (unat (po_block_size p)) a" for j a
    using blocks_disjoint [OF g i(1) pool_invD(3) [OF inv that(1)]] i(2) that
    by (intro out) (auto simp: disjoint_blocks_def)
  show "mem_write m (block_addr p i) v a = m a" if "j < unat (po_capacity p)" "in_block (bm_addr p j) 4 a" for j a
    using bm_block_disjoint [OF g that(1) i(1)] that(2) by (intro out) (auto simp: disjoint_blocks_def)
qed

text \<open>A pool and its bitmap in a block of memory; what changes outside the block leaves it intact.\<close>

definition pool_in :: "ptr \<Rightarrow> nat \<Rightarrow> fw_pool \<Rightarrow> bool" where
  "pool_in b n p \<longleftrightarrow> unat b \<le> unat (po_alloc_bitmap p)
     \<and> unat (po_storage p) + unat (po_capacity p) * unat (po_block_size p) \<le> unat b + n"

lemma pool_in_update [simp]: "pool_in b n (p\<lparr>po_free_list := l, po_free_count := c\<rparr>) = pool_in b n p"
  by (simp add: pool_in_def)

lemma pool_in_block:
  assumes g: "pool_geom p" and w: "pool_in b n p" and nw: "nowrap b n" and i: "i < unat (po_capacity p)"
  shows "in_block (block_addr p i) (unat (po_block_size p)) a \<Longrightarrow> in_block b n a"
    and "in_block (bm_addr p i) 4 a \<Longrightarrow> in_block b n a"
proof -
  have st: "unat (po_alloc_bitmap p) \<le> unat (po_storage p)" using g by (simp add: pool_geom_def)
  have w': "unat b \<le> unat (po_alloc_bitmap p)"
      "unat (po_storage p) + unat (po_capacity p) * unat (po_block_size p) \<le> unat b + n"
    using w by (simp_all add: pool_in_def)
  have "Suc i * unat (po_block_size p) \<le> unat (po_capacity p) * unat (po_block_size p)"
    by (rule mult_le_mono1) (use i in simp)
  then show "in_block b n a" if "in_block (block_addr p i) (unat (po_block_size p)) a"
    using in_block_within [OF nw block_nowrap [OF g i] _ _ that] unat_block_addr(1) [OF g i] w' st by simp
  show "in_block b n a" if "in_block (bm_addr p i) 4 a"
    using in_block_within [OF nw unat_bm_addr(3) [OF g i] _ _ that] unat_bm_addr(1,2) [OF g i] w' by linarith
qed

lemma pool_inv_outside:
  assumes inv: "pool_inv m p fl" and w: "pool_in b n p" and nw: "nowrap b n"
    and eq: "\<And>a. in_block b n a \<Longrightarrow> m' a = m a"
  shows "pool_inv m' p fl"
proof (rule pool_inv_cong [OF inv])
  note within = pool_in_block [OF pool_invD(1) [OF inv] w nw]
  show "m' a = m a" if "i \<in> set fl" "in_block (block_addr p i) (unat (po_block_size p)) a" for i a
    by (rule eq) (rule within(1) [OF pool_invD(3) [OF inv that(1)] that(2)])
  show "m' a = m a" if "i < unat (po_capacity p)" "in_block (bm_addr p i) 4 a" for i a
    by (rule eq) (rule within(2) [OF that])
qed

text \<open>A block taken, written and given back: what a client in the same memory relies on.\<close>

lemma pool_alloc_in:
  assumes inv: "pool_inv m p (i # fl)" and w: "pool_in b n p" and nw: "nowrap b n"
  shows "\<exists>m' p'. fw_pool_alloc m (Some p) = Some (block_addr p i, m', Some p') \<and> pool_inv m' p' fl \<and> pool_in b n p'
    \<and> po_capacity p' = po_capacity p \<and> po_block_size p' = po_block_size p \<and> block_addr p' = block_addr p
    \<and> i < unat (po_capacity p) \<and> i \<notin> set fl \<and> block_addr p i \<noteq> FW_NULL \<and> (\<forall>a. \<not> in_block b n a \<longrightarrow> m' a = m a)"
proof -
  have g: "pool_geom p" by (rule pool_invD(1) [OF inv])
  have i: "i < unat (po_capacity p)" by (rule pool_invD(3) [OF inv]) simp
  define m' where "m' = store32 m (bm_addr p i) (load32 m (bm_addr p i) OR 2 ^ (i mod 32))"
  define p' where "p' = p\<lparr>po_free_list := load32 m (block_addr p i), po_free_count := po_free_count p - 1\<rparr>"
  note al = pool_alloc_cons [OF inv, folded m'_def p'_def]
  have "m' a = m a" if "\<not> in_block b n a" for a
    using that pool_in_block(2) [OF g w nw i] unfolding m'_def by (intro store32_out) blast
  then show ?thesis
    using al(1,2) i w unat_block_addr(4) [OF g i] pool_invD(2) [OF inv]
    by (intro exI [of _ m'] exI [of _ p']) (simp, simp add: p'_def)
qed

lemma pool_write_in:
  assumes inv: "pool_inv m p fl" and w: "pool_in b n p" and nw: "nowrap b n"
    and i: "i < unat (po_capacity p)" "i \<notin> set fl" and len: "length bs \<le> unat (po_block_size p)"
  shows "pool_inv (mem_write m (block_addr p i) bs) p fl" and "\<not> in_block b n a \<Longrightarrow> mem_write m (block_addr p i) bs a = m a"
proof -
  show "pool_inv (mem_write m (block_addr p i) bs) p fl" by (rule pool_inv_put [OF inv i len])
  assume "\<not> in_block b n a"
  then have "\<not> in_block (block_addr p i) (unat (po_block_size p)) a"
    using pool_in_block(1) [OF pool_invD(1) [OF inv] w nw i(1), of a] by blast
  then show "mem_write m (block_addr p i) bs a = m a" using len by (intro mem_write_out) (simp add: in_block_def)
qed

lemma pool_free_in:
  assumes inv: "pool_inv m p fl" and w: "pool_in b n p" and nw: "nowrap b n" and i: "i < unat (po_capacity p)" "i \<notin> set fl"
  shows "\<exists>m' p'. fw_pool_free dbg m (Some p) (block_addr p i) = Some (FW_OK, m', Some p') \<and> pool_inv m' p' (i # fl) \<and> pool_in b n p'
    \<and> po_capacity p' = po_capacity p \<and> po_block_size p' = po_block_size p \<and> block_addr p' = block_addr p
    \<and> (\<forall>a. \<not> in_block b n a \<longrightarrow> m' a = m a)"
proof -
  define p' where "p' = p\<lparr>po_free_list := block_addr p i, po_free_count := po_free_count p + 1\<rparr>"
  note within = pool_in_block [OF pool_invD(1) [OF inv] w nw i(1)]
  obtain m' where "fw_pool_free dbg m (Some p) (block_addr p i) = Some (FW_OK, m', Some p')" "pool_inv m' p' (i # fl)"
      "\<And>a. \<not> in_block (bm_addr p i) 4 a \<Longrightarrow> \<not> in_block (block_addr p i) (unat (po_block_size p)) a \<Longrightarrow> m' a = m a"
    by (rule pool_free_accept_frame [OF inv i, of dbg, folded p'_def]) (rule that)
  then show ?thesis
    using within w by (intro exI [of _ m'] exI [of _ p']) (simp, auto simp: p'_def)
qed

lemma pool_take_fresh:
  assumes inv: "pool_inv m p (i # fl)"
  obtains m' p' where "pool_take (m, p) = (Some (block_addr p i), m', p')" and "pool_inv m' p' fl"
    and "pool_live (m', p') = insert (block_addr p i) (pool_live (m, p))"
    and "po_capacity p' = po_capacity p" and "po_block_size p' = po_block_size p"
    and "\<And>b. b \<in> pool_live (m, p) \<Longrightarrow> pool_get (m', p') b = pool_get (m, p) b"
proof -
  note al = pool_alloc_cons [OF inv]
  define m' where "m' = store32 m (bm_addr p i) (load32 m (bm_addr p i) OR 2 ^ (i mod 32))"
  define p' where "p' = p\<lparr>po_free_list := load32 m (block_addr p i), po_free_count := po_free_count p - 1\<rparr>"
  note al = al [folded m'_def p'_def]
  have g: "pool_geom p" by (rule pool_invD(1) [OF inv])
  have i: "i < unat (po_capacity p)" by (rule pool_invD(3) [OF inv]) simp
  have "pool_take (m, p) = (Some (block_addr p i), m', p')"
    using al(1) unat_block_addr(4) [OF g i] by (simp add: pool_take_def)
  moreover have same: "po_capacity p' = po_capacity p" "po_block_size p' = po_block_size p"
      "block_addr p' = block_addr p"
    by (simp_all add: p'_def)
  moreover have "{..<unat (po_capacity p)} - set fl
      = insert i ({..<unat (po_capacity p)} - set (i # fl))"
    using i pool_invD(2) [OF inv] by auto
  then have "pool_live (m', p') = insert (block_addr p i) (pool_live (m, p))"
    by (simp only: pool_live_inv [OF inv] pool_live_inv [OF al(2)] same image_insert)
  moreover have "pool_get (m', p') b = pool_get (m, p) b" if "b \<in> pool_live (m, p)" for b
    using that al(3) same(2) by (intro pool_get_cong) (auto simp: pool_live_def)
  ultimately show thesis using that al(2) by blast
qed

lemma pool_give_live:
  assumes inv: "pool_inv m p fl" and i: "i < unat (po_capacity p)" "i \<notin> set fl"
  obtains m' p' where "pool_give dbg (block_addr p i) (m, p) = (FW_OK, m', p')"
    and "pool_inv m' p' (i # fl)"
    and "pool_live (m', p') = pool_live (m, p) - {block_addr p i}"
    and "po_capacity p' = po_capacity p" and "po_block_size p' = po_block_size p"
    and "\<And>b. b \<in> pool_live (m', p') \<Longrightarrow> pool_get (m', p') b = pool_get (m, p) b"
proof -
  define p' where "p' = p\<lparr>po_free_list := block_addr p i, po_free_count := po_free_count p + 1\<rparr>"
  obtain m' where m': "fw_pool_free dbg m (Some p) (block_addr p i) = Some (FW_OK, m', Some p')"
    "pool_inv m' p' (i # fl)"
    "\<And>j a. j < unat (po_capacity p) \<Longrightarrow> j \<noteq> i \<Longrightarrow>
        in_block (block_addr p j) (unat (po_block_size p)) a \<Longrightarrow> m' a = m a"
    using pool_free_accept [OF inv i, of dbg, folded p'_def] by blast
  have same: "po_capacity p' = po_capacity p" "po_block_size p' = po_block_size p"
      "block_addr p' = block_addr p"
    by (simp_all add: p'_def)
  have inj: "inj_on (block_addr p) {..<unat (po_capacity p)}"
    by (rule inj_onI) (auto intro: block_addr_inj [OF pool_invD(1) [OF inv]])
  have live: "pool_live (m', p') = block_addr p ` ({..<unat (po_capacity p)} - set (i # fl))"
    by (simp only: pool_live_inv [OF m'(2)] same)
  have "{..<unat (po_capacity p)} - set (i # fl) = ({..<unat (po_capacity p)} - set fl) - {i}"
    by auto
  then have "pool_live (m', p') = pool_live (m, p) - {block_addr p i}"
    unfolding live pool_live_inv [OF inv]
    using inj_on_image_set_diff [OF inj, of "{..<unat (po_capacity p)} - set fl" "{i}"] i(1) by auto
  moreover have "pool_get (m', p') b = pool_get (m, p) b" if "b \<in> pool_live (m', p')" for b
    using that m'(3) same(2) unfolding live by (intro pool_get_cong) auto
  moreover have "pool_give dbg (block_addr p i) (m, p) = (FW_OK, m', p')"
    using m'(1) by (simp add: pool_give_def)
  ultimately show thesis using that m'(2) same by blast
qed

interpretation pool_heap: block_allocator pool_take "pool_give dbg" pool_put pool_get pool_live
  pool_cap pool_fits pool_ok for dbg
proof (unfold_locales, goal_cases)
  case (1 s)
  show ?case by (simp add: pool_live_def)
next
  case (2 s)
  then show ?case
    using pool_live_card [of "fst s" "snd s"] by (force simp: pool_ok_def pool_cap_def)
next
  case (3 s)
  then obtain fl where inv: "pool_inv (fst s) (snd s) fl" by (auto simp: pool_ok_def)
  then have "fl = []" using pool_live_card [OF inv] 3(2) by (simp add: pool_cap_def)
  then show ?case using pool_alloc_none [of "fst s" "snd s"] inv by (simp add: pool_take_def)
next
  case (4 s)
  then obtain fl where inv: "pool_inv (fst s) (snd s) fl" by (auto simp: pool_ok_def)
  obtain i fl' where fl: "fl = i # fl'"
    using pool_live_card [OF inv] 4(2) by (cases fl) (simp_all add: pool_cap_def)
  note inv = inv [unfolded fl]
  have i: "i < unat (po_capacity (snd s))" by (rule pool_invD(3) [OF inv]) simp
  obtain m' p' where t: "pool_take (fst s, snd s) = (Some (block_addr (snd s) i), m', p')"
    "pool_inv m' p' fl'"
    "pool_live (m', p') = insert (block_addr (snd s) i) (pool_live (fst s, snd s))"
    "po_capacity p' = po_capacity (snd s)" "po_block_size p' = po_block_size (snd s)"
    "\<And>b. b \<in> pool_live (fst s, snd s) \<Longrightarrow> pool_get (m', p') b = pool_get (fst s, snd s) b"
    using pool_take_fresh [OF inv] by blast
  have "block_addr (snd s) i \<notin> pool_live s"
    using pool_live_iff [OF inv i] by simp
  then show ?case
    using t by (intro exI [of _ "block_addr (snd s) i"] exI [of _ "(m', p')"])
      (auto simp: pool_ok_def pool_cap_def pool_fits_def fun_eq_iff)
next
  case (5 s b)
  then obtain fl where inv: "pool_inv (fst s) (snd s) fl" by (auto simp: pool_ok_def)
  have "b \<in> pool_live (fst s, snd s)" using 5(2) by simp
  then obtain i where i: "i < unat (po_capacity (snd s))" "i \<notin> set fl" "b = block_addr (snd s) i"
    by (auto simp: pool_live_inv [OF inv, simplified])
  obtain m' p' where t: "pool_give dbg b (fst s, snd s) = (FW_OK, m', p')"
    "pool_inv m' p' (i # fl)" "pool_live (m', p') = pool_live (fst s, snd s) - {b}"
    "po_capacity p' = po_capacity (snd s)" "po_block_size p' = po_block_size (snd s)"
    "\<And>c. c \<in> pool_live (m', p') \<Longrightarrow> pool_get (m', p') c = pool_get (fst s, snd s) c"
    using pool_give_live [OF inv i(1,2), of dbg] i(3) by blast
  then show ?case
    by (intro exI [of _ "(m', p')"]) (auto simp: pool_ok_def pool_cap_def pool_fits_def fun_eq_iff)
next
  case (6 s b)
  then obtain fl where inv: "pool_inv (fst s) (snd s) fl" by (auto simp: pool_ok_def)
  have "\<not> (\<exists>i < unat (po_capacity (snd s)). b = block_addr (snd s) i \<and> i \<notin> set fl)"
    using 6(2) pool_live_iff [OF inv] by (auto simp: prod.collapse)
  from pool_free_reject [OF inv this] show ?case by (simp add: pool_give_def)
next
  case (7 s b v)
  then obtain fl where inv: "pool_inv (fst s) (snd s) fl" by (auto simp: pool_ok_def)
  have g: "pool_geom (snd s)" by (rule pool_invD(1) [OF inv])
  have "b \<in> pool_live (fst s, snd s)" using 7(2) by simp
  then obtain i where i: "i < unat (po_capacity (snd s))" "i \<notin> set fl" and b: "b = block_addr (snd s) i"
    by (auto simp: pool_live_inv [OF inv, simplified])
  have len: "length v = unat (po_block_size (snd s))" using 7(3) by (simp add: pool_fits_def)
  have inv': "pool_inv (mem_write (fst s) b v) (snd s) fl"
    unfolding b by (rule pool_inv_put [OF inv i eq_imp_le [OF len]])
  have live: "pool_live (pool_put b v s) = pool_live s"
    using pool_live_inv [OF inv, simplified] pool_live_inv [OF inv'] by (simp add: pool_put_def)
  have "pool_get (pool_put b v s) b = v"
    using mem_read_write_same [of v "fst s" b] len unat_le32 [of "po_block_size (snd s)"]
    by (simp add: pool_get_def pool_put_def)
  moreover have "pool_get (pool_put b v s) c = pool_get s c" if c: "c \<in> pool_live s" "c \<noteq> b" for c
  proof -
    have "c \<in> pool_live (fst s, snd s)" using c by simp
    then obtain j where j: "j < unat (po_capacity (snd s))" "c = block_addr (snd s) j"
      by (auto simp: pool_live_def)
    with c(2) b have "i \<noteq> j" by auto
    from blocks_disjoint [OF g i(1) j(1) this] show ?thesis
      using len unat_le32 [of "po_block_size (snd s)"]
      by (simp add: pool_get_def pool_put_def b j(2) mem_read_write_disjoint)
  qed
  ultimately show ?case
    using inv' live by (auto simp: pool_ok_def pool_put_def pool_cap_def pool_fits_def)
qed


text \<open>
  C11: a release is accepted exactly for the address of a block that is handed out; then the block goes
  to the head of the free list.  Every other pointer (NULL, foreign, misaligned, already free) is
  rejected without a change, and neither case divides by zero or shifts too far.
\<close>

theorem pool_free_exact:
  assumes "pool_inv m p fl"
  shows "if block \<in> pool_live (m, p)
    then \<exists>i m' p'. block = block_addr p i \<and> i \<notin> set fl
      \<and> fw_pool_free dbg m (Some p) block = Some (FW_OK, m', Some p') \<and> pool_inv m' p' (i # fl)
    else fw_pool_free dbg m (Some p) block = Some (FW_ERR_INVALID_ARG, m, Some p)"
proof (cases "block \<in> pool_live (m, p)")
  case True
  then obtain i where i: "i < unat (po_capacity p)" "i \<notin> set fl" "block = block_addr p i"
    by (auto simp: pool_live_inv [OF assms])
  then show ?thesis using True pool_free_accept [OF assms i(1,2), of dbg] by metis
next
  case False
  then have "\<not> (\<exists>i < unat (po_capacity p). block = block_addr p i \<and> i \<notin> set fl)"
    using pool_live_iff [OF assms] by auto
  from pool_free_reject [OF assms this] False show ?thesis by simp
qed

theorem pool_free_exact_witness:
  "fw_pool_free False (\<lambda>_. 0) (Some \<lparr>po_storage = 8, po_storage_size = 4, po_block_size = 4,
      po_alignment = 4, po_capacity = 1, po_free_count = 1, po_free_list = 8,
      po_alloc_bitmap = 4, po_block_shift = 2\<rparr>) 8
   = Some (FW_ERR_INVALID_ARG, \<lambda>_. 0, Some \<lparr>po_storage = 8, po_storage_size = 4,
      po_block_size = 4, po_alignment = 4, po_capacity = 1, po_free_count = 1, po_free_list = 8,
      po_alloc_bitmap = 4, po_block_shift = 2\<rparr>)"
proof -
  let ?p = "\<lparr>po_storage = 8, po_storage_size = 4, po_block_size = 4, po_alignment = 4,
    po_capacity = 1, po_free_count = 1, po_free_list = 8, po_alloc_bitmap = 4,
    po_block_shift = 2\<rparr> :: fw_pool"
  have "pool_inv (\<lambda>_. 0) ?p [0]"
    by (simp add: pool_inv_def pool_geom_def block_addr_def block_taken_def load32_def of_le32_def)
  moreover have "8 \<notin> pool_live (\<lambda>_. 0, ?p)"
    by (simp add: pool_live_def block_taken_def load32_def of_le32_def)
  ultimately show ?thesis using pool_free_exact [of "\<lambda>_. 0" ?p "[0]" 8 False] by simp
qed

end
