(* ===== verification/Pool_Init.thy ===== *)
theory Pool_Init
  imports Pool
begin

text \<open>
  What \<^verbatim>\<open>fw_pool_init\<close> establishes: the layout it carves out of the caller's buffer, computed on the
  naturals, and the invariant of the pool with every block on the free list in address order.
\<close>

section \<open>The shift of a power-of-two block size\<close>

lemma shift_loop_pow2:
  "j < 32 \<Longrightarrow> shift_loop (2 ^ j) s = s + of_nat j"
proof (induction j arbitrary: s)
  case 0
  then show ?case by (simp add: shift_loop.simps)
next
  case (Suc j)
  have u: "unat ((2 :: usize) ^ Suc j) = 2 ^ Suc j" by (rule unat_pow2) (use Suc.prems in simp)
  have "1 < (2 :: nat) ^ Suc j" by (rule one_less_power) simp_all
  then have gt: "(2 :: usize) ^ Suc j > 1" using u by (simp only: word_less_nat_alt unat_1)
  have "unat (drop_bit 1 ((2 :: usize) ^ Suc j)) = 2 ^ j"
    unfolding drop_bit_eq_div unat_div u by (simp add: unat_div)
  also have "\<dots> = unat ((2 :: usize) ^ j)"
    using unat_pow2 [where 'a = 32, of j] Suc.prems by simp
  finally have d: "drop_bit 1 ((2 :: usize) ^ Suc j) = 2 ^ j"
    by (simp only: word_unat_eq_iff)
  have "shift_loop (2 ^ Suc j) s = shift_loop (2 ^ j) (s + 1)"
    by (subst shift_loop.simps) (simp only: gt d if_True)
  also have "\<dots> = s + 1 + of_nat j" using Suc.IH Suc.prems by simp
  finally show ?case by simp
qed

lemma pool_block_shift_correct:
  assumes "b \<noteq> 0" and "pool_block_shift b > 0"
  shows "pool_block_shift b < 32 \<and> b = 2 ^ unat (pool_block_shift b)"
proof -
  have z: "b AND (b - 1) = 0" using assms(2) by (auto simp: pool_block_shift_def split: if_splits)
  with assms(1) obtain j where j: "j < 32" "b = 2 ^ j" using pow2_test_iff [of b] by auto
  then have "pool_block_shift b = of_nat j"
    using shift_loop_pow2 [of j 0] z by (simp add: pool_block_shift_def)
  moreover have "unat (of_nat j :: u8) = j" using j by (simp add: unat_of_nat_small)
  ultimately show ?thesis using j by (simp add: word_less_nat_alt)
qed

section \<open>Linking the blocks\<close>

lemma block_addr_Suc: "block_addr p i + po_block_size p = block_addr p (Suc i)"
  by (simp add: block_addr_def algebra_simps)

lemma load32_frame:
  assumes "\<And>a. in_block q 4 a \<Longrightarrow> m a = m' a"
  shows "load32 m q = load32 m' q"
  by (rule load32_cong, rule mem_read_cong) (simp_all add: assms)

lemma links_disjoint:
  assumes "pool_geom p" and "i < unat (po_capacity p)" and "j < unat (po_capacity p)" and "i \<noteq> j"
    and "in_block (block_addr p i) 4 a"
  shows "\<not> in_block (block_addr p j) 4 a"
  using blocks_disjoint [OF assms(1-4)] assms(1,5) in_block_link
  by (metis disjoint_blocks_def)

lemma link_blocks_chain:
  assumes g: "pool_geom p"
  shows "i + n = unat (po_capacity p) \<Longrightarrow> j < i \<Longrightarrow>
    \<exists>m'. link_blocks (po_block_size p) n (block_addr p i) (Some (block_addr p j)) (m, h) = (m', h)
      \<and> chain m' (load32 m' (block_addr p j)) (map (block_addr p) [i..<unat (po_capacity p)])
      \<and> (\<forall>a. (\<forall>l. l = j \<or> i \<le> l \<and> l < unat (po_capacity p)
                  \<longrightarrow> \<not> in_block (block_addr p l) 4 a) \<longrightarrow> m' a = m a)"
proof (induction n arbitrary: i j m)
  case 0
  then show ?case by (auto simp: set_link_def load32_store32_same intro: store32_out)
next
  case (Suc n)
  let ?c = "unat (po_capacity p)" and ?m1 = "store32 m (block_addr p j) (block_addr p i)"
  have i: "i < ?c" "Suc i + n = ?c" and j: "j < ?c" using Suc.prems by auto
  obtain m' where run: "link_blocks (po_block_size p) n (block_addr p (Suc i))
        (Some (block_addr p i)) (?m1, h) = (m', h)"
    and ch: "chain m' (load32 m' (block_addr p i)) (map (block_addr p) [Suc i..<?c])"
    and fr: "\<And>a. (\<And>l. l = i \<or> Suc i \<le> l \<and> l < ?c \<Longrightarrow> \<not> in_block (block_addr p l) 4 a)
      \<Longrightarrow> m' a = ?m1 a"
    using Suc.IH [OF i(2), of i ?m1] by blast
  have "load32 m' (block_addr p j) = load32 ?m1 (block_addr p j)"
  proof (rule load32_frame)
    fix a assume a: "in_block (block_addr p j) 4 a"
    show "m' a = ?m1 a"
      by (rule fr, rule links_disjoint [OF g j _ _ a]) (use Suc.prems(2) i in auto)
  qed
  then have head: "load32 m' (block_addr p j) = block_addr p i" by (simp add: load32_store32_same)
  have "m' a = m a"
    if "\<forall>l. l = j \<or> i \<le> l \<and> l < ?c \<longrightarrow> \<not> in_block (block_addr p l) 4 a" for a
  proof -
    have "m' a = ?m1 a" by (rule fr) (use that i in auto)
    also have "\<dots> = m a" by (rule store32_out) (use that in blast)
    finally show ?thesis .
  qed
  with run ch head unat_block_addr(4) [OF g i(1)] show ?case
    by (auto simp: set_link_def block_addr_Suc upt_conv_Cons [OF i(1)])
qed

lemma link_blocks_all:
  assumes g: "pool_geom p"
  obtains m' h where
    "link_blocks (po_block_size p) (unat (po_capacity p)) (po_storage p) None (m, h0) = (m', h)"
    and "chain m' h (map (block_addr p) [0..<unat (po_capacity p)])"
    and "\<And>a. (\<And>l. l < unat (po_capacity p) \<Longrightarrow> \<not> in_block (block_addr p l) 4 a) \<Longrightarrow> m' a = m a"
proof -
  let ?c = "unat (po_capacity p)"
  obtain n where n: "?c = Suc n" using pool_geomD(2) [OF g] gr0_conv_Suc by blast
  have a0: "block_addr p 0 = po_storage p" by (simp add: block_addr_def)
  obtain m' where run: "link_blocks (po_block_size p) n (block_addr p 1) (Some (block_addr p 0))
        (m, block_addr p 0) = (m', block_addr p 0)"
    and ch: "chain m' (load32 m' (block_addr p 0)) (map (block_addr p) [1..<?c])"
    and fr: "\<And>a. (\<And>l. l = 0 \<or> 1 \<le> l \<and> l < ?c \<Longrightarrow> \<not> in_block (block_addr p l) 4 a) \<Longrightarrow> m' a = m a"
    using link_blocks_chain [OF g, of 1 n 0 m "block_addr p 0"] n by (auto simp del: link_blocks.simps)
  have "link_blocks (po_block_size p) ?c (po_storage p) None (m, h0) = (m', block_addr p 0)"
    using run block_addr_Suc [of p 0] by (simp add: n set_link_def a0)
  moreover have "chain m' (block_addr p 0) (map (block_addr p) [0..<?c])"
    using ch unat_block_addr(4) [OF g, of 0] n by (simp add: upt_conv_Cons del: upt_Suc)
  moreover have "m' a = m a" if "\<And>l. l < ?c \<Longrightarrow> \<not> in_block (block_addr p l) 4 a" for a
    by (rule fr) (use that n in auto)
  ultimately show ?thesis using that by blast
qed


section \<open>The layout\<close>

lemma pow2_le_31: "k < 32 \<Longrightarrow> (2 :: nat) ^ k \<le> 2 ^ 31"
  by (rule power_increasing) simp_all

lemma aligned_start:
  assumes nz: "unat buffer + unat sz < 2 ^ 32" and k: "k < 32"
  shows "sz \<le> align_up buffer (2 ^ k) - buffer \<longleftrightarrow> unat buffer + unat sz \<le> round_up k (unat buffer)"
    and "round_up k (unat buffer) < unat buffer + unat sz \<Longrightarrow>
      unat (align_up buffer (2 ^ k)) = round_up k (unat buffer)
      \<and> unat (align_up buffer (2 ^ k) - buffer) = round_up k (unat buffer) - unat buffer"
proof -
  let ?A = "align_up buffer (2 ^ k)"
  have "(sz \<le> ?A - buffer \<longleftrightarrow> unat buffer + unat sz \<le> round_up k (unat buffer))
    \<and> (round_up k (unat buffer) < unat buffer + unat sz \<longrightarrow>
      unat ?A = round_up k (unat buffer) \<and> unat (?A - buffer) = round_up k (unat buffer) - unat buffer)"
  proof (cases "unat buffer + 2 ^ k - 1 < 2 ^ 32")
    case True
    have a: "unat ?A = round_up k (unat buffer)" by (rule align_up_round [OF k True])
    have "unat (?A - buffer) = unat ?A - unat buffer"
      by (rule unat_sub_le) (simp add: word_le_nat_alt a round_up_ge)
    then show ?thesis using a round_up_ge [of "unat buffer" k] by (auto simp: word_le_nat_alt)
  next
    case False
    then have z: "?A = 0" by (intro align_up_wrap [OF refl k]) simp
    have ge: "(2 :: nat) ^ 32 \<le> round_up k (unat buffer)"
    proof -
      have "(2 :: nat) ^ 32 div 2 ^ k * 2 ^ k \<le> round_up k (unat buffer)"
        unfolding round_up_def using False by (intro mult_le_mono1 div_le_mono) simp
      moreover have "(2 :: nat) ^ 32 div 2 ^ k * 2 ^ k = 2 ^ 32"
        using k by (intro dvd_div_mult_self le_imp_power_dvd) simp
      ultimately show ?thesis by simp
    qed
    have bp: "0 < unat buffer"
    proof (rule ccontr)
      assume "\<not> 0 < unat buffer"
      then have "unat buffer + 2 ^ k - 1 < 2 ^ 32" using pow2_le_31 [OF k] by simp
      with False show False ..
    qed
    have "unat (0 - buffer) = 2 ^ 32 - unat buffer"
      using unat_sub_wrap [of 0 buffer] bp by simp
    then have "sz \<le> ?A - buffer"
      using nz by (simp add: z word_le_nat_alt)
    with ge nz show ?thesis by simp
  qed
  then show "sz \<le> ?A - buffer \<longleftrightarrow> unat buffer + unat sz \<le> round_up k (unat buffer)"
    and "round_up k (unat buffer) < unat buffer + unat sz \<Longrightarrow>
      unat ?A = round_up k (unat buffer) \<and> unat (?A - buffer) = round_up k (unat buffer) - unat buffer"
    by blast+
qed

text \<open>The bytes reserved for the bitmap.\<close>

lemma bitmap_bytes:
  assumes b: "4 \<le> unat b" and k: "k < 32"
  shows "unat (align_up ((u div b + 31) div 32 * 4) (2 ^ k))
    = round_up k (4 * ((unat u div unat b + 31) div 32))"
proof -
  have "unat u div unat b \<le> unat u div 4" using b by (intro div_le_mono2) simp_all
  then have est: "unat u div unat b < 2 ^ 30" using unat_lt32 [of u] by simp
  have e: "unat (u div b) = unat u div unat b" by (rule unat_div)
  have "unat (u div b + 31) = unat u div unat b + 31"
    using unat_add_nowrap [of "u div b" 31] est by (simp add: e)
  then have w: "unat ((u div b + 31) div 32) = (unat u div unat b + 31) div 32"
    by (simp add: unat_div)
  have small: "(unat u div unat b + 31) div 32 < 2 ^ 26" using est by simp
  have "unat ((u div b + 31) div 32 * 4) = (unat u div unat b + 31) div 32 * 4"
    using small w by (simp add: unat_word_ariths)
  moreover have "unat ((u div b + 31) div 32 * 4) + 2 ^ k - 1 < 2 ^ 32"
    using small pow2_le_31 [OF k] unfolding calculation by simp
  ultimately show ?thesis using align_up_round [OF k] by (simp add: mult.commute)
qed

lemma round_up_add: "2 ^ k dvd a \<Longrightarrow> 2 ^ k dvd b \<Longrightarrow> round_up k (a + b) = a + b"
  by (rule round_up_id) simp

lemma memset_out: "\<not> in_block p (unat n) a \<Longrightarrow> memset m p v n a = m a"
  by (simp add: memset_def mem_write_out)

lemma memset_zero_load32:
  assumes "unat off + 4 \<le> unat n"
  shows "load32 (memset m p 0 n) (p + off) = 0"
proof -
  have z: "memset m p 0 n (p + off + of_nat i) = 0" if "i < 4" for i
  proof -
    have "in_block (p + off) 4 (p + off + of_nat i)" using that by (simp add: in_block_offset)
    then have "in_block p (unat n) (p + off + of_nat i)"
      using in_block_sub [of off 4 "unat n" p] assms unat_le32 [of n] by simp
    then show ?thesis
      by (simp add: memset_def mem_write_def in_block_def)
  qed
  show ?thesis using z [of 0] z [of 1] z [of 2] z [of 3] by (simp add: load32_def of_le32_def)
qed


lemma pool_init_inv:
  assumes g: "pool_geom p"
    and bm: "\<And>i. i < unat (po_capacity p) \<Longrightarrow> load32 m1 (bm_addr p i) = 0"
    and lk: "link_blocks (po_block_size p) (unat (po_capacity p)) (po_storage p) None (m1, h0)
      = (m', po_free_list p)"
    and cnt: "po_free_count p = po_capacity p"
  shows "pool_inv m' p [0..<unat (po_capacity p)]"
    and "\<And>a. (\<And>l. l < unat (po_capacity p) \<Longrightarrow>
            \<not> in_block (block_addr p l) (unat (po_block_size p)) a) \<Longrightarrow> m' a = m1 a"
proof -
  let ?c = "unat (po_capacity p)"
  have ch: "chain m' (po_free_list p) (map (block_addr p) [0..<?c])"
    and fr: "\<And>a. (\<And>l. l < ?c \<Longrightarrow> \<not> in_block (block_addr p l) 4 a) \<Longrightarrow> m' a = m1 a"
    using link_blocks_all [OF g, of m1 h0] lk by auto
  show out: "m' a = m1 a"
    if "\<And>l. l < ?c \<Longrightarrow> \<not> in_block (block_addr p l) (unat (po_block_size p)) a" for a
    by (rule fr) (use that in_block_link [OF g] in blast)
  have "\<not> block_taken m' p i" if i: "i < ?c" for i
  proof -
    have "load32 m' (bm_addr p i) = load32 m1 (bm_addr p i)"
    proof (rule load32_frame)
      fix a assume "in_block (bm_addr p i) 4 a"
      then show "m' a = m1 a"
        using bm_block_disjoint [OF g i] by (intro out) (auto simp: disjoint_blocks_def)
    qed
    then show ?thesis by (simp add: block_taken_bm bm [OF i])
  qed
  then show "pool_inv m' p [0..<?c]" using g cnt ch by (simp add: pool_inv_def)
qed

text \<open>The layout: start of the bitmap, block size, bitmap bytes and capacity.\<close>

definition pool_layout :: "nat \<Rightarrow> nat \<Rightarrow> nat \<Rightarrow> nat \<Rightarrow> nat \<times> nat \<times> nat \<times> nat" where
  "pool_layout k buf sz bs =
     (let start = round_up k buf; b = round_up k (max 4 bs); u = buf + sz - start;
          bytes = round_up k (4 * ((u div b + 31) div 32))
      in (start, b, bytes, (u - bytes) div b))"

lemma pred_less: "x + y \<le> z \<Longrightarrow> 0 < y \<Longrightarrow> x + y - 1 < (z :: nat)"
  by linarith

lemma max4_word: "unat (if x < 4 then 4 else x :: usize) = max 4 (unat x)"
  by (simp add: word_less_nat_alt max_def)

lemma pool_geom_layout:
  assumes k: "k < 32" and b: "4 \<le> unat b" and A0: "0 < unat A"
    and end32: "unat A + unat u < 2 ^ 32"
    and dvd: "2 ^ k dvd unat A" "2 ^ k dvd unat bytes"
    and bytes: "4 * ((unat u div unat b + 31) div 32) \<le> unat bytes" "unat bytes < unat u"
    and c: "c = (u - bytes) div b" "c \<noteq> 0"
  shows "pool_geom \<lparr>po_storage = align_up (A + bytes) (2 ^ k), po_storage_size = c * b,
      po_block_size = b, po_alignment = al, po_capacity = c, po_free_count = n,
      po_free_list = h, po_alloc_bitmap = A, po_block_shift = pool_block_shift b\<rparr>"
    and "unat (align_up (A + bytes) (2 ^ k)) = unat A + unat bytes"
    and "unat c = (unat u - unat bytes) div unat b"
proof -
  have uc: "unat c = (unat u - unat bytes) div unat b"
    using bytes(2) by (simp add: c(1) unat_div unat_sub_le word_le_nat_alt)
  then show "unat c = (unat u - unat bytes) div unat b" .
  have cb: "unat c * unat b \<le> unat u - unat bytes"
    unfolding uc by (rule div_times_less_eq_dividend)
  have sum: "unat (A + bytes) = unat A + unat bytes"
    using bytes(2) end32 by (intro unat_add_nowrap) simp
  have d: "2 ^ k dvd unat A + unat bytes" using dvd by simp
  have "unat A + unat bytes + 2 ^ k - 1 < 2 ^ 32"
  proof -
    obtain q where q: "unat A + unat bytes = 2 ^ k * q" using d ..
    have e: "(2 :: nat) ^ 32 = 2 ^ k * 2 ^ (32 - k)" using k by (simp flip: power_add)
    have "2 ^ k * q < 2 ^ k * 2 ^ (32 - k)" using q e end32 bytes(2) by linarith
    then have "Suc q \<le> 2 ^ (32 - k)" by simp
    then have "2 ^ k * Suc q \<le> 2 ^ k * 2 ^ (32 - k)" by (rule mult_le_mono2)
    then show ?thesis using q e by simp
  qed
  then have st: "unat (align_up (A + bytes) (2 ^ k)) = unat A + unat bytes"
    using align_up_round [OF k, of "A + bytes"] sum d by (simp add: round_up_id)
  then show "unat (align_up (A + bytes) (2 ^ k)) = unat A + unat bytes" .
  have ss: "unat (c * b) = unat c * unat b"
    using cb end32 by (simp add: unat_word_ariths)
  have "unat c \<le> unat u div unat b" unfolding uc by (rule div_le_mono) simp
  then have "4 * ((unat c + 31) div 32) \<le> unat bytes"
    using bytes(1) by (meson add_le_mono1 div_le_mono le_trans mult_le_mono2)
  moreover have "b \<noteq> 0" using b by auto
  moreover have "unat c \<noteq> 0" using c(2) by (simp add: unat_eq_0)
  ultimately show "pool_geom \<lparr>po_storage = align_up (A + bytes) (2 ^ k), po_storage_size = c * b,
      po_block_size = b, po_alignment = al, po_capacity = c, po_free_count = n,
      po_free_list = h, po_alloc_bitmap = A, po_block_shift = pool_block_shift b\<rparr>"
    using b A0 cb st ss end32 bytes(2) pool_block_shift_correct [of b]
    by (auto simp: pool_geom_def)
qed


text \<open>An uninitialised control block, for the witnesses.\<close>

definition blank_pool :: fw_pool where
  "blank_pool = \<lparr>po_storage = 0, po_storage_size = 0, po_block_size = 0, po_alignment = 0,
     po_capacity = 0, po_free_count = 0, po_free_list = 0, po_alloc_bitmap = 0,
     po_block_shift = 0\<rparr>"

lemma pool_init_bitmap:
  "fw_pool_init m (Some p0) buf sz bs al = Some (FW_OK, m', Some p) \<Longrightarrow>
     po_alloc_bitmap p = align_up buf (if al < 4 then 4 else al)"
  by (auto simp: fw_pool_init_def Let_def split: if_splits prod.splits)

text \<open>The start of the function, up to the layout: everything the guards establish.\<close>

lemma pool_init_unfold:
  fixes buffer al bs sz :: usize and m :: mem
  assumes buf: "buffer \<noteq> FW_NULL" and k0: "al = 2 ^ k0" "k0 < 32"
  defines "k \<equiv> max 2 k0"
  defines "b \<equiv> align_up (if bs < 4 then 4 else bs) (2 ^ k)" and "A \<equiv> align_up buffer (2 ^ k)"
  defines "u \<equiv> sz - (A - buffer)"
  defines "bytes \<equiv> align_up ((u div b + 31) div 32 * 4) (2 ^ k)"
  defines "c \<equiv> (u - bytes) div b" and "st \<equiv> align_up (A + bytes) (2 ^ k)"
  defines "r \<equiv> link_blocks b (unat c) st None (memset m A 0 bytes, FW_NULL)"
  shows "fw_pool_init m (Some p0) buffer sz bs al =
    (if sz \<le> A - buffer then Some (FW_ERR_INVALID_ARG, m, Some p0)
     else if b = 0 then None
     else if u \<le> bytes \<or> c = 0 then Some (FW_ERR_INVALID_ARG, m, Some p0)
     else Some (FW_OK, fst r, Some
       \<lparr>po_storage = st, po_storage_size = c * b, po_block_size = b, po_alignment = 2 ^ k,
        po_capacity = c, po_free_count = c, po_free_list = snd r, po_alloc_bitmap = A,
        po_block_shift = pool_block_shift b\<rparr>))"
proof -
  have p2: "al \<noteq> 0 \<and> al AND (al - 1) = 0"
    using pow2_test_iff [of al] k0 by auto
  have al: "(if al < 4 then 4 else al) = 2 ^ k"
  proof (cases "2 \<le> k0")
    case True
    then have "(2 :: nat) ^ 2 \<le> 2 ^ k0" by (intro power_increasing) simp_all
    moreover have "unat al = 2 ^ k0" using k0 by (simp add: unat_pow2)
    ultimately show ?thesis using True k0 by (simp add: k_def max_def word_less_nat_alt)
  next
    case False
    then have "k0 = 0 \<or> k0 = 1" by linarith
    then show ?thesis using k0 by (auto simp: k_def)
  qed
  show ?thesis
    using buf p2
    unfolding fw_pool_init_def Let_def option.case al r_def c_def st_def bytes_def u_def A_def b_def
    by (simp split: prod.split)
qed

text \<open>The words the function computes are the numbers of the layout.\<close>

lemma pool_layout_words:
  fixes buffer bs sz :: usize
  assumes nz: "unat buffer + unat sz < 2 ^ 32" and k: "k < 32" and big: "max 4 (unat bs) + 2 ^ k \<le> 2 ^ 32"
    and layout: "pool_layout k (unat buffer) (unat sz) (unat bs) = (start, b, bytes, c)"
  defines "bw \<equiv> align_up (if bs < 4 then 4 else bs) (2 ^ k)" and "A \<equiv> align_up buffer (2 ^ k)"
  defines "u \<equiv> sz - (A - buffer)"
  defines "bytesw \<equiv> align_up ((u div bw + 31) div 32 * 4) (2 ^ k)"
  shows "sz \<le> A - buffer \<longleftrightarrow> unat buffer + unat sz \<le> start"
    and "unat bw = b" and "4 \<le> b" and "unat buffer \<le> start" and "2 ^ k dvd start" and "2 ^ k dvd bytes"
    and "\<not> unat buffer + unat sz \<le> start \<Longrightarrow>
      unat A = start \<and> unat u = unat buffer + unat sz - start \<and> unat bytesw = bytes
      \<and> 4 * ((unat u div unat bw + 31) div 32) \<le> bytes"
    and "\<not> unat buffer + unat sz \<le> start \<Longrightarrow> \<not> unat u \<le> bytes \<Longrightarrow> unat ((u - bytesw) div bw) = c"
proof -
  have "unat (if bs < 4 then 4 else bs) + 2 ^ k - 1 < 2 ^ 32"
    unfolding max4_word by (rule pred_less [OF big]) simp
  then have bw: "unat bw = round_up k (max 4 (unat bs))"
    unfolding bw_def max4_word [symmetric] by (rule align_up_round [OF k])
  have lay: "start = round_up k (unat buffer)" "unat bw = b"
      "bytes = round_up k (4 * (((unat buffer + unat sz - start) div b + 31) div 32))"
      "c = (unat buffer + unat sz - start - bytes) div b"
    using layout unfolding pool_layout_def Let_def prod.inject bw [symmetric] by (elim conjE; simp only:)+
  show "unat bw = b" by (rule lay(2))
  show b4: "4 \<le> b"
    using round_up_ge [of "max 4 (unat bs)" k] max.cobounded1 [of 4 "unat bs"] bw lay(2) by (metis le_trans)
  show ge: "unat buffer \<le> start" unfolding lay(1) by (rule round_up_ge)
  show "2 ^ k dvd start" "2 ^ k dvd bytes" by (simp_all only: lay(1,3) round_up_dvd)
  show guard: "sz \<le> A - buffer \<longleftrightarrow> unat buffer + unat sz \<le> start"
    unfolding A_def lay(1) by (rule aligned_start(1) [OF nz k])
  have nums: "unat A = start \<and> unat u = unat buffer + unat sz - start \<and> unat bytesw = bytes"
    if start: "\<not> unat buffer + unat sz \<le> start"
  proof -
    have A: "unat A = start" "unat (A - buffer) = start - unat buffer"
      using aligned_start(2) [OF nz k] start by (simp_all add: A_def lay(1))
    have u: "unat u = unat buffer + unat sz - start"
      unfolding u_def using guard start A(2) ge by (subst unat_sub_le) (simp_all add: not_le order_less_imp_le)
    moreover have "unat bytesw = bytes"
      using bitmap_bytes [of bw k u] b4 k by (simp add: bytesw_def lay(2,3) u)
    ultimately show ?thesis using A(1) by blast
  qed
  show "unat A = start \<and> unat u = unat buffer + unat sz - start \<and> unat bytesw = bytes
      \<and> 4 * ((unat u div unat bw + 31) div 32) \<le> bytes" if "\<not> unat buffer + unat sz \<le> start"
    using nums [OF that] round_up_ge [of "4 * ((unat u div unat bw + 31) div 32)" k] by (simp add: lay(2,3))
  show "unat ((u - bytesw) div bw) = c" if "\<not> unat buffer + unat sz \<le> start" "\<not> unat u \<le> bytes"
    using nums [OF that(1)] that(2) by (simp add: unat_div unat_sub_le word_le_nat_alt lay(2,4))
qed

text \<open>The memory the initialisation leaves: the bitmap cleared, the blocks linked, the rest untouched.\<close>

lemma bitmap_cleared:
  assumes g: "pool_geom p" and i: "i < unat (po_capacity p)"
    and "unat (po_alloc_bitmap p) + unat bytes = unat (po_storage p)"
  shows "load32 (memset m (po_alloc_bitmap p) 0 bytes) (bm_addr p i) = 0"
proof -
  let ?A = "po_alloc_bitmap p"
  have "unat (bm_addr p i - ?A) = 4 * (i div 32)"
    using unat_bm_addr(1) [OF g i] by (simp add: unat_sub_le word_le_nat_alt)
  then have "unat (bm_addr p i - ?A) + 4 \<le> unat bytes"
    using unat_bm_addr(1,2) [OF g i] assms(3) by simp
  then have "load32 (memset m ?A 0 bytes) (?A + (bm_addr p i - ?A)) = 0"
    by (rule memset_zero_load32)
  then show ?thesis by simp
qed

lemma pool_init_memory:
  assumes g: "pool_geom p" and st: "unat (po_alloc_bitmap p) + unat bytes = unat (po_storage p)"
    and buf: "unat buffer \<le> unat (po_alloc_bitmap p)" and nz: "unat buffer + unat sz < 2 ^ 32"
    and fits: "unat (po_storage p) + unat (po_capacity p) * unat (po_block_size p) \<le> unat buffer + unat sz"
    and lk: "link_blocks (po_block_size p) (unat (po_capacity p)) (po_storage p) None
      (memset m (po_alloc_bitmap p) 0 bytes, FW_NULL) = (m', po_free_list p)"
    and cnt: "po_free_count p = po_capacity p"
  shows "pool_inv m' p [0..<unat (po_capacity p)]"
    and "\<not> in_block buffer (unat sz) a \<Longrightarrow> m' a = m a"
proof -
  let ?m1 = "memset m (po_alloc_bitmap p) 0 bytes"
  note I = pool_init_inv [OF g bitmap_cleared [OF g _ st] lk cnt]
  show "pool_inv m' p [0..<unat (po_capacity p)]" by (rule I(1))
  assume a: "\<not> in_block buffer (unat sz) a"
  have nb: "nowrap buffer (unat sz)" using nz by (simp add: nowrap_def)
  have "m' a = ?m1 a"
  proof (rule I(2))
    fix l assume l: "l < unat (po_capacity p)"
    have "l * unat (po_block_size p) + unat (po_block_size p) \<le> unat (po_capacity p) * unat (po_block_size p)"
      using l by (intro block_end_le) simp
    then show "\<not> in_block (block_addr p l) (unat (po_block_size p)) a"
      using in_block_within [OF nb block_nowrap [OF g l], of a] a unat_block_addr(1) [OF g l] st buf fits by linarith
  qed
  also have "\<dots> = m a"
  proof (rule memset_out)
    have "unat (po_storage p) \<le> unat buffer + unat sz" using fits by linarith
    then show "\<not> in_block (po_alloc_bitmap p) (unat bytes) a"
      using a in_block_within [OF nb, of "po_alloc_bitmap p" "unat bytes" a] st buf nz by (auto simp: nowrap_def)
  qed
  finally show "m' a = m a" .
qed

lemma pool_init_layout:
  assumes "buffer \<noteq> FW_NULL" and "unat buffer + unat sz < 2 ^ 32"
    and "al = 2 ^ k0" and "k0 < 32" and "max 4 (unat bs) + 2 ^ max 2 k0 \<le> 2 ^ 32"
    and "pool_layout (max 2 k0) (unat buffer) (unat sz) (unat bs) = (start, b, bytes, c)"
  shows "if unat buffer + unat sz \<le> start + bytes \<or> c = 0
    then fw_pool_init m (Some p0) buffer sz bs al = Some (FW_ERR_INVALID_ARG, m, Some p0)
    else \<exists>m' p. fw_pool_init m (Some p0) buffer sz bs al = Some (FW_OK, m', Some p)
      \<and> pool_inv m' p [0..<c] \<and> unat (po_capacity p) = c \<and> unat (po_block_size p) = b
      \<and> unat (po_storage p) = start + bytes \<and> 2 ^ max 2 k0 dvd unat (po_storage p)
      \<and> unat (po_storage p) + c * b \<le> unat buffer + unat sz
      \<and> (\<forall>a. \<not> in_block buffer (unat sz) a \<longrightarrow> m' a = m a)"
proof -
  define k where "k = max 2 k0"
  have k: "k < 32" using assms(4) by (simp add: k_def)
  define bw where "bw = align_up (if bs < 4 then 4 else bs) (2 ^ k)"
  define A where "A = align_up buffer (2 ^ k)"
  define u where "u = sz - (A - buffer)"
  define bytesw where "bytesw = align_up ((u div bw + 31) div 32 * 4) (2 ^ k)"
  define cw where "cw = (u - bytesw) div bw"
  define st where "st = align_up (A + bytesw) (2 ^ k)"
  define r where "r = link_blocks bw (unat cw) st None (memset m A 0 bytesw, FW_NULL)"
  define p where "p = \<lparr>po_storage = st, po_storage_size = cw * bw, po_block_size = bw,
    po_alignment = 2 ^ k, po_capacity = cw, po_free_count = cw, po_free_list = snd r,
    po_alloc_bitmap = A, po_block_shift = pool_block_shift bw\<rparr>"
  have run: "fw_pool_init m (Some p0) buffer sz bs al =
    (if sz \<le> A - buffer then Some (FW_ERR_INVALID_ARG, m, Some p0)
     else if bw = 0 then None
     else if u \<le> bytesw \<or> cw = 0 then Some (FW_ERR_INVALID_ARG, m, Some p0)
     else Some (FW_OK, fst r, Some p))"
    using pool_init_unfold [OF assms(1,3,4), of m p0 sz bs, folded k_def, folded bw_def A_def,
        folded u_def, folded bytesw_def, folded cw_def st_def, folded r_def, folded p_def] .
  note W = pool_layout_words [OF assms(2) k assms(5,6) [folded k_def], folded bw_def A_def, folded u_def,
      folded bytesw_def, folded cw_def]
  have bw0: "bw \<noteq> 0" using W(2,3) by auto
  show ?thesis
  proof (cases "unat buffer + unat sz \<le> start")
    case True
    then show ?thesis using run W(1) by simp
  next
    case start: False
    note N = W(7) [OF start]
    show ?thesis
    proof (cases "unat u \<le> bytes \<or> c = 0")
      case True
      then have "u \<le> bytesw \<or> cw = 0"
        using N W(8) [OF start] by (cases "unat u \<le> bytes") (auto simp: word_le_nat_alt simp flip: unat_eq_0)
      moreover have "unat buffer + unat sz \<le> start + bytes \<or> c = 0" using True N start by auto
      ultimately show ?thesis using run W(1) start bw0 by auto
    next
      case False
      then have lt: "unat bytesw < unat u" and c0: "cw \<noteq> 0" and cw: "unat cw = c"
        using N W(8) [OF start] by (auto simp: unat_eq_0)
      have A0: "0 < unat A"
        using W(4) N assms(1) unat_eq_0 [of buffer] by (cases "unat buffer") auto
      have pre: "4 \<le> unat bw" "unat A + unat u < 2 ^ 32" "2 ^ k dvd unat A" "2 ^ k dvd unat bytesw"
          "4 * ((unat u div unat bw + 31) div 32) \<le> unat bytesw"
        using W(2,3,5,6) N assms(2) start by auto
      note geom = pool_geom_layout [OF k pre(1) A0 pre(2-5) _ cw_def c0, folded st_def]
      have g: "pool_geom p" unfolding p_def by (rule geom(1) [OF lt])
      have st: "unat st = start + bytes" using geom(2) [OF lt] N by simp
      have pf: "po_storage p = st" "po_capacity p = cw" "po_block_size p = bw"
        "po_alloc_bitmap p = A" "po_free_list p = snd r" "po_free_count p = cw"
        by (simp_all add: p_def)
      have "c * b \<le> unat u - unat bytesw"
        using lt cw W(2) by (metis cw_def div_times_less_eq_dividend unat_div unat_sub_le word_le_nat_alt less_imp_le)
      then have fits: "start + bytes + c * b \<le> unat buffer + unat sz" using N lt start by linarith
      note M = pool_init_memory [OF g, unfolded pf, of bytesw buffer sz m "fst r"]
      have "pool_inv (fst r) p [0..<c]" "\<And>a. \<not> in_block buffer (unat sz) a \<Longrightarrow> fst r a = m a"
        using M N W(2,4) st cw fits assms(2) by (simp_all add: r_def)
      moreover have "fw_pool_init m (Some p0) buffer sz bs al = Some (FW_OK, fst r, Some p)"
        using run W(1) start bw0 c0 lt by (simp add: word_le_nat_alt)
      moreover have "2 ^ k dvd start + bytes" using W(5,6) by simp
      moreover have "\<not> (unat buffer + unat sz \<le> start + bytes)" using lt N start by linarith
      ultimately show ?thesis
        using False fits st cw W(2) by (auto simp: pf k_def)
    qed
  qed
qed

text \<open>
  C10: with a power-of-two alignment and a buffer that does not reach the last address,
  \<^verbatim>\<open>fw_pool_init\<close> never divides by zero.  It succeeds exactly when the layout has room for a block,
  and then the pool has the computed geometry, all its blocks are on the free list in address order
  and marked free, and no byte outside the caller's buffer changed; otherwise it fails and changes
  nothing.
\<close>

theorem pool_init_correct:
  assumes "buffer \<noteq> FW_NULL" and "unat buffer + unat sz < 2 ^ 32"
    and "al = 2 ^ k0" and "k0 < 32" and "max 4 (unat bs) + 2 ^ max 2 k0 \<le> 2 ^ 32"
    and "pool_layout (max 2 k0) (unat buffer) (unat sz) (unat bs) = (start, b, bytes, c)"
  shows "if unat buffer + unat sz \<le> start + bytes \<or> c = 0
    then fw_pool_init m (Some p0) buffer sz bs al = Some (FW_ERR_INVALID_ARG, m, Some p0)
    else \<exists>m' p. fw_pool_init m (Some p0) buffer sz bs al = Some (FW_OK, m', Some p)
      \<and> pool_inv m' p [0..<c] \<and> unat (po_capacity p) = c \<and> unat (po_block_size p) = b
      \<and> unat (po_storage p) = start + bytes \<and> 2 ^ max 2 k0 dvd unat (po_storage p)
      \<and> unat (po_storage p) + c * b \<le> unat buffer + unat sz
      \<and> (\<forall>a. \<not> in_block buffer (unat sz) a \<longrightarrow> m' a = m a)"
  by (rule pool_init_layout [OF assms])

theorem pool_init_correct_witness:
  "\<exists>m' p. fw_pool_init (\<lambda>_. 255) (Some blank_pool) 4097 256 12 8 = Some (FW_OK, m', Some p)
     \<and> pool_inv m' p [0..<15] \<and> unat (po_storage p) = 4112"
proof -
  have lay: "pool_layout (max 2 3) (unat (4097 :: ptr)) (unat (256 :: usize)) (unat (12 :: usize))
      = (4104, 16, 8, 15)"
    by (simp add: pool_layout_def round_up_def Let_def)
  show ?thesis
    using pool_init_correct [OF _ _ _ _ _ lay, of 8 "\<lambda>_. 255" blank_pool] by auto
qed

text \<open>
  C1: whatever a client does with a freshly initialised pool, it is handed distinct blocks until the
  capacity is used up and then none, a release succeeds exactly for blocks it holds (a double free is
  refused), and a block it filled reads back unchanged until it is overwritten or released, although
  free list and bitmap live in the same buffer.
\<close>

theorem pool_client_safe:
  assumes "buffer \<noteq> FW_NULL" and "unat buffer + unat sz < 2 ^ 32"
    and "al = 2 ^ k0" and "k0 < 32" and "max 4 (unat bs) + 2 ^ max 2 k0 \<le> 2 ^ 32"
    and "fw_pool_init m0 (Some p0) buffer sz bs al = Some (FW_OK, m, Some p)"
  shows "heap_ok (unat (po_capacity p)) (\<lambda>v. length v = unat (po_block_size p)) Map.empty
    (heap_run pool_take (pool_give dbg) pool_put pool_get ops (m, p))"
proof -
  obtain start b bytes c where lay: "pool_layout (max 2 k0) (unat buffer) (unat sz) (unat bs)
      = (start, b, bytes, c)"
    by (cases "pool_layout (max 2 k0) (unat buffer) (unat sz) (unat bs)")
  have "pool_inv m p [0..<c] \<and> unat (po_capacity p) = c"
    using pool_init_layout [OF assms(1-5) lay, of m0 p0] assms(6) by (auto split: if_splits)
  then have inv: "pool_inv m p [0..<unat (po_capacity p)]" by simp
  then have "pool_heap.heap_rel (m, p) Map.empty"
    by (intro pool_heap.heap_rel_init) (auto simp: pool_ok_def pool_live_inv [OF inv])
  from pool_heap.heap_run_ok [OF this, of dbg ops] show ?thesis
    by (simp add: pool_cap_def pool_fits_def [abs_def])
qed

theorem pool_client_safe_witness:
  "\<exists>m p. fw_pool_init (\<lambda>_. 255) (Some blank_pool) 4097 256 12 8 = Some (FW_OK, m, Some p)
     \<and> heap_ok 15 (\<lambda>v. length v = 16) Map.empty
         (heap_run pool_take (pool_give True) pool_put pool_get
            [Alloc, Alloc, Fill 4112 (replicate 16 7), Free 4128, Free 4128, Look 4112] (m, p))"
proof -
  have lay: "pool_layout (max 2 3) (unat (4097 :: ptr)) (unat (256 :: usize)) (unat (12 :: usize))
      = (4104, 16, 8, 15)"
    by (simp add: pool_layout_def round_up_def Let_def)
  obtain m p where r: "fw_pool_init (\<lambda>_. 255) (Some blank_pool) 4097 256 12 8 = Some (FW_OK, m, Some p)"
    "unat (po_capacity p) = 15" "unat (po_block_size p) = 16"
    using pool_init_layout [OF _ _ _ _ _ lay, of 8 "\<lambda>_. 255" blank_pool] by auto
  show ?thesis
    using pool_client_safe [OF _ _ _ _ _ r(1), of 3 True
        "[Alloc, Alloc, Fill 4112 (replicate 16 7), Free 4128, Free 4128, Look 4112]"] r
    by auto
qed

end
