(* ===== verification/Span.thy ===== *)
theory Span
  imports Memory
begin

text \<open>
  Memory spans (\<^verbatim>\<open>include/zero/span.h\<close>) and string views (\<^verbatim>\<open>include/zero/string_view.h\<close>).  An out
  parameter that may be \<^verbatim>\<open>NULL\<close> is an option; a failed \<^verbatim>\<open>FW_ASSERT\<close> never returns, which is the
  result \<^verbatim>\<open>None\<close> of the asserting functions; the argument \<open>dbg\<close> is \<^verbatim>\<open>ZERO_ENABLE_ASSERT\<close>.
\<close>

unbundle bit_operations_syntax

section \<open>Spans\<close>

record fw_span =
  span_data :: ptr
  span_length :: usize

record fw_cspan =
  cspan_data :: ptr
  cspan_length :: usize

definition fw_span_make :: "ptr \<Rightarrow> usize \<Rightarrow> fw_span" where
  "fw_span_make d n = \<lparr>span_data = d, span_length = n\<rparr>"

definition fw_cspan_make :: "ptr \<Rightarrow> usize \<Rightarrow> fw_cspan" where
  "fw_cspan_make d n = \<lparr>cspan_data = d, cspan_length = n\<rparr>"

definition fw_span_to_cspan :: "fw_span \<Rightarrow> fw_cspan" where
  "fw_span_to_cspan s = \<lparr>cspan_data = span_data s, cspan_length = span_length s\<rparr>"

definition fw_span_is_empty :: "fw_span \<Rightarrow> bool" where
  "fw_span_is_empty s \<longleftrightarrow> span_data s = FW_NULL \<or> span_length s = 0"

definition fw_cspan_is_empty :: "fw_cspan \<Rightarrow> bool" where
  "fw_cspan_is_empty s \<longleftrightarrow> cspan_data s = FW_NULL \<or> cspan_length s = 0"

definition fw_assert :: "bool \<Rightarrow> bool \<Rightarrow> unit option" where
  "fw_assert dbg c = (if dbg \<and> \<not> c then None else Some ())"

definition fw_span_sub :: "bool \<Rightarrow> fw_span \<Rightarrow> usize \<Rightarrow> usize \<Rightarrow> fw_span option" where
  "fw_span_sub dbg s offset n =
     (case fw_assert dbg (offset \<le> span_length s) of None \<Rightarrow> None | Some _ \<Rightarrow>
      case fw_assert dbg (n \<le> span_length s - offset) of None \<Rightarrow> None | Some _ \<Rightarrow>
      Some \<lparr>span_data = span_data s + offset, span_length = n\<rparr>)"

definition fw_cspan_sub :: "bool \<Rightarrow> fw_cspan \<Rightarrow> usize \<Rightarrow> usize \<Rightarrow> fw_cspan option" where
  "fw_cspan_sub dbg s offset n =
     (case fw_assert dbg (offset \<le> cspan_length s) of None \<Rightarrow> None | Some _ \<Rightarrow>
      case fw_assert dbg (n \<le> cspan_length s - offset) of None \<Rightarrow> None | Some _ \<Rightarrow>
      Some \<lparr>cspan_data = cspan_data s + offset, cspan_length = n\<rparr>)"

definition fw_span_sub_safe ::
  "fw_span \<Rightarrow> usize \<Rightarrow> usize \<Rightarrow> fw_span option \<Rightarrow> fw_status \<times> fw_span option" where
  "fw_span_sub_safe s offset n out =
     (case out of
        None \<Rightarrow> (FW_ERR_INVALID_ARG, None)
      | Some _ \<Rightarrow>
          if offset > span_length s \<or> n > span_length s - offset
          then (FW_ERR_BUFFER_OVERFLOW, Some (fw_span_make FW_NULL 0))
          else (FW_OK, Some \<lparr>span_data = span_data s + offset, span_length = n\<rparr>))"

definition fw_cspan_sub_safe ::
  "fw_cspan \<Rightarrow> usize \<Rightarrow> usize \<Rightarrow> fw_cspan option \<Rightarrow> fw_status \<times> fw_cspan option" where
  "fw_cspan_sub_safe s offset n out =
     (case out of
        None \<Rightarrow> (FW_ERR_INVALID_ARG, None)
      | Some _ \<Rightarrow>
          if offset > cspan_length s \<or> n > cspan_length s - offset
          then (FW_ERR_BUFFER_OVERFLOW, Some (fw_cspan_make FW_NULL 0))
          else (FW_OK, Some \<lparr>cspan_data = cspan_data s + offset, cspan_length = n\<rparr>))"

definition fw_span_copy :: "mem \<Rightarrow> fw_span \<Rightarrow> fw_cspan \<Rightarrow> usize \<times> mem" where
  "fw_span_copy m dst src =
     (if span_data dst = FW_NULL \<or> cspan_data src = FW_NULL then (0, m)
      else let to_copy = (if span_length dst < cspan_length src then span_length dst
                          else cspan_length src)
           in (to_copy, if to_copy > 0 then memcpy m (span_data dst) (cspan_data src) to_copy
                        else m))"

definition fw_span_fill :: "mem \<Rightarrow> fw_span \<Rightarrow> u8 \<Rightarrow> mem" where
  "fw_span_fill m dst v =
     (if span_data dst \<noteq> FW_NULL \<and> span_length dst > 0
      then memset m (span_data dst) v (span_length dst) else m)"

text \<open>The bounds test of the safe sub-span never overflows: it is the test on the naturals.\<close>

lemma sub_bounds_iff:
  "\<not> ((n :: usize) < off \<or> n - off < k) \<longleftrightarrow> unat off + unat k \<le> unat n"
proof (cases "off \<le> n")
  case True
  then have "unat off \<le> unat n" and "unat (n - off) = unat n - unat off"
    by (simp_all add: word_le_nat_alt unat_sub_le)
  then show ?thesis
    by (auto simp: word_less_nat_alt)
next
  case False
  then have "unat n < unat off" by (simp add: word_le_nat_alt)
  then show ?thesis by (auto simp: word_less_nat_alt)
qed

text \<open>
  \<^verbatim>\<open>fw_span_sub_safe\<close> succeeds exactly when the requested window fits in the span, whatever the
  operands (no wrap-around in the test), and then every byte of the sub-span is a byte of the span;
  otherwise it hands out the empty span and reports an overflow.
\<close>

theorem span_sub_safe_correct:
  "fw_span_sub_safe s off n (Some out) =
     (if unat off + unat n \<le> unat (span_length s)
      then (FW_OK, Some (fw_span_make (span_data s + off) n))
      else (FW_ERR_BUFFER_OVERFLOW, Some (fw_span_make FW_NULL 0)))
   \<and> (fst (fw_span_sub_safe s off n (Some out)) = FW_OK \<longrightarrow>
      (\<forall>a. in_block (span_data s + off) (unat n) a \<longrightarrow>
           in_block (span_data s) (unat (span_length s)) a))"
  using sub_bounds_iff [of "span_length s" off n]
  by (auto simp: fw_span_sub_safe_def fw_span_make_def unat_le32 intro: in_block_sub)

theorem span_sub_safe_correct_witness:
  "fst (fw_span_sub_safe (fw_span_make 100 16) 4 8 (Some (fw_span_make 0 0))) = FW_OK
   \<and> in_block 100 16 111"
  using span_sub_safe_correct [of "fw_span_make 100 16" 4 8 "fw_span_make 0 0"]
  by (simp add: fw_span_make_def in_block_def)

text \<open>The asserting variant agrees with the safe one wherever it returns in a debug build.\<close>

lemma span_sub_debug_iff:
  "fw_span_sub True s off n =
     (case fw_span_sub_safe s off n (Some out) of
        (FW_OK, r) \<Rightarrow> r | _ \<Rightarrow> None)"
  by (auto simp: fw_span_sub_def fw_span_sub_safe_def fw_assert_def not_less)

lemma span_copy_bytes:
  assumes "span_data dst \<noteq> FW_NULL" and "cspan_data src \<noteq> FW_NULL"
    and "fw_span_copy m dst src = (k, m')"
  shows "k = min (span_length dst) (cspan_length src)
    \<and> mem_read m' (span_data dst) (unat k) = mem_read m (cspan_data src) (unat k)
    \<and> (\<forall>a. \<not> in_block (span_data dst) (unat (span_length dst)) a \<longrightarrow> m' a = m a)"
proof -
  have k: "k = min (span_length dst) (cspan_length src)"
    using assms by (auto simp: fw_span_copy_def Let_def min_def split: if_splits)
  have m': "m' = mem_write m (span_data dst) (mem_read m (cspan_data src) (unat k))"
    using assms by (auto simp: fw_span_copy_def Let_def memcpy_def word_gt_0 split: if_splits)
  have "unat k \<le> unat (span_length dst)" by (simp add: k word_le_nat_alt min_def)
  moreover have "unat k \<le> 2 ^ 32" using unat_lt32 [of k] by simp
  ultimately show ?thesis
    using k m' mem_read_write_same [of "mem_read m (cspan_data src) (unat k)" m "span_data dst"]
    by (auto simp: mem_write_def in_block_def)
qed

section \<open>String views\<close>

record fw_string_view =
  sv_data :: ptr
  sv_length :: usize

definition fw_sv_make :: "ptr \<Rightarrow> usize \<Rightarrow> fw_string_view" where
  "fw_sv_make d n = \<lparr>sv_data = d, sv_length = n\<rparr>"

text \<open>\<^verbatim>\<open>strlen\<close> walks the memory to the first zero byte; it may not return.\<close>

partial_function (option) strlen :: "mem \<Rightarrow> ptr \<Rightarrow> usize \<Rightarrow> usize option" where
  "strlen m p n = (if m p = 0 then Some n else strlen m (p + 1) (n + 1))"

definition fw_sv_from_cstr :: "mem \<Rightarrow> ptr \<Rightarrow> fw_string_view option" where
  "fw_sv_from_cstr m cstr =
     (if cstr = FW_NULL then Some (fw_sv_make FW_NULL 0)
      else map_option (fw_sv_make cstr) (strlen m cstr 0))"

definition fw_sv_is_empty :: "fw_string_view \<Rightarrow> bool" where
  "fw_sv_is_empty sv \<longleftrightarrow> sv_data sv = FW_NULL \<or> sv_length sv = 0"

definition fw_sv_equals :: "mem \<Rightarrow> fw_string_view \<Rightarrow> fw_string_view \<Rightarrow> bool" where
  "fw_sv_equals m a b =
     (if sv_length a \<noteq> sv_length b then False
      else if sv_data a = sv_data b then True
      else if sv_data a = FW_NULL \<or> sv_data b = FW_NULL then False
      else mem_read m (sv_data a) (unat (sv_length a)) = mem_read m (sv_data b) (unat (sv_length a)))"

definition fw_sv_starts_with :: "mem \<Rightarrow> fw_string_view \<Rightarrow> fw_string_view \<Rightarrow> bool" where
  "fw_sv_starts_with m sv pre =
     (if sv_length pre = 0 then True
      else if sv_length sv < sv_length pre then False
      else if sv_data sv = FW_NULL \<or> sv_data pre = FW_NULL then False
      else mem_read m (sv_data sv) (unat (sv_length pre)) = mem_read m (sv_data pre) (unat (sv_length pre)))"

definition fw_sv_sub :: "fw_string_view \<Rightarrow> usize \<Rightarrow> usize \<Rightarrow> fw_string_view" where
  "fw_sv_sub sv offset n =
     (if sv_data sv = FW_NULL \<or> offset \<ge> sv_length sv then fw_sv_make FW_NULL 0
      else let available = sv_length sv - offset;
               sub_len = (if n < available then n else available)
           in fw_sv_make (sv_data sv + offset) sub_len)"

definition sv_bytes :: "mem \<Rightarrow> fw_string_view \<Rightarrow> u8 list" where
  "sv_bytes m sv = mem_read m (sv_data sv) (unat (sv_length sv))"

lemma sv_equals_bytes:
  assumes "sv_data a \<noteq> FW_NULL" and "sv_data b \<noteq> FW_NULL"
  shows "fw_sv_equals m a b \<longleftrightarrow> sv_bytes m a = sv_bytes m b"
proof (cases "sv_length a = sv_length b")
  case True
  then show ?thesis using assms by (auto simp: fw_sv_equals_def sv_bytes_def)
next
  case False
  then have "length (sv_bytes m a) \<noteq> length (sv_bytes m b)"
    by (metis length_mem_read sv_bytes_def unsigned_word_eqI)
  with False show ?thesis by (auto simp: fw_sv_equals_def)
qed

lemma sv_starts_with_take:
  assumes "sv_data a \<noteq> FW_NULL" and "sv_data b \<noteq> FW_NULL"
  shows "fw_sv_starts_with m a b \<longleftrightarrow>
    length (sv_bytes m b) \<le> length (sv_bytes m a)
    \<and> take (length (sv_bytes m b)) (sv_bytes m a) = sv_bytes m b"
  using assms
  by (auto simp: fw_sv_starts_with_def sv_bytes_def mem_read_take word_less_nat_alt
      word_le_nat_alt unat_0_iff not_less)

lemma sv_sub_bytes:
  assumes "sv_data sv \<noteq> FW_NULL"
  shows "sv_bytes m (fw_sv_sub sv off n) = take (unat n) (drop (unat off) (sv_bytes m sv))"
proof (cases "sv_length sv \<le> off")
  case True
  then show ?thesis
    by (simp add: fw_sv_sub_def fw_sv_make_def sv_bytes_def word_le_nat_alt)
next
  case False
  let ?av = "sv_length sv - off"
  have av: "unat ?av = unat (sv_length sv) - unat off"
    using False by (simp add: unat_sub_le)
  have drop: "drop (unat off) (sv_bytes m sv) = mem_read m (sv_data sv + off) (unat ?av)"
    using mem_read_drop [of m "sv_data sv" "unat off" "unat (sv_length sv)"] av
    by (simp add: sv_bytes_def)
  have len: "unat (if n < ?av then n else ?av) = min (unat n) (unat ?av)"
    by (simp add: word_less_nat_alt min_def)
  have "take (unat n) (mem_read m (sv_data sv + off) (unat ?av))
      = mem_read m (sv_data sv + off) (min (unat n) (unat ?av))"
    by (rule nth_equalityI) simp_all
  then show ?thesis
    using False assms drop len by (simp add: fw_sv_sub_def Let_def fw_sv_make_def sv_bytes_def)
qed

text \<open>
  For views that are not \<^verbatim>\<open>NULL\<close>, comparison, prefix test and sub-view are the list operations on
  the bytes the views denote.
\<close>

theorem string_view_denotation:
  assumes "sv_data a \<noteq> FW_NULL" and "sv_data b \<noteq> FW_NULL"
  shows "(fw_sv_equals m a b \<longleftrightarrow> sv_bytes m a = sv_bytes m b)
    \<and> (fw_sv_starts_with m a b \<longleftrightarrow> (\<exists>rest. sv_bytes m a = sv_bytes m b @ rest))
    \<and> sv_bytes m (fw_sv_sub a off n) = take (unat n) (drop (unat off) (sv_bytes m a))"
proof -
  have "(length (sv_bytes m b) \<le> length (sv_bytes m a)
      \<and> take (length (sv_bytes m b)) (sv_bytes m a) = sv_bytes m b)
      \<longleftrightarrow> (\<exists>rest. sv_bytes m a = sv_bytes m b @ rest)"
    by (metis append_eq_conv_conj append_take_drop_id length_append le_add1)
  then show ?thesis
    using assms by (simp add: sv_equals_bytes sv_starts_with_take sv_sub_bytes)
qed

theorem string_view_denotation_witness:
  "(fw_sv_equals (\<lambda>_. 7) (fw_sv_make 16 2) (fw_sv_make 32 2) \<longleftrightarrow>
     sv_bytes (\<lambda>_. 7) (fw_sv_make 16 2) = sv_bytes (\<lambda>_. 7) (fw_sv_make 32 2))
   \<and> sv_bytes (\<lambda>_. 7) (fw_sv_make 16 2) = [7, 7]"
  using string_view_denotation [of "fw_sv_make 16 2" "fw_sv_make 32 2" "\<lambda>_. 7" 0 0]
  by (simp add: fw_sv_make_def sv_bytes_def mem_read_def upt_rec)

end
