(* ===== verification/Buffer.thy ===== *)
theory Buffer
  imports Span
begin

text \<open>
  The bounded byte buffer (\<^verbatim>\<open>include/zero/memory/buffer.h\<close>, \<^verbatim>\<open>src/buffer.c\<close>).  The control block is the
  record \<open>fw_buffer\<close>, the storage is in the memory.  A \<^verbatim>\<open>NULL\<close> control block is \<open>None\<close>; an out
  parameter is \<open>None\<close> when it is \<^verbatim>\<open>NULL\<close> and holds its new content otherwise.
\<close>

unbundle bit_operations_syntax

record fw_buffer =
  buf_data :: ptr
  buf_capacity :: usize
  buf_length :: usize

definition fw_buffer_init :: "fw_buffer option \<Rightarrow> ptr \<Rightarrow> usize \<Rightarrow> fw_status \<times> fw_buffer option" where
  "fw_buffer_init buf storage capacity =
     (if buf = None \<or> storage = FW_NULL \<or> capacity = 0 then (FW_ERR_INVALID_ARG, buf)
      else (FW_OK, Some \<lparr>buf_data = storage, buf_capacity = capacity, buf_length = 0\<rparr>))"

definition fw_buffer_append ::
  "mem \<Rightarrow> fw_buffer option \<Rightarrow> ptr \<Rightarrow> usize \<Rightarrow> fw_status \<times> mem \<times> fw_buffer option" where
  "fw_buffer_append m buf src n =
     (case buf of
        None \<Rightarrow> (FW_ERR_INVALID_ARG, m, None)
      | Some b \<Rightarrow>
          if src = FW_NULL then (FW_ERR_INVALID_ARG, m, Some b)
          else if n = 0 then (FW_OK, m, Some b)
          else if n > buf_capacity b - buf_length b then (FW_ERR_BUFFER_OVERFLOW, m, Some b)
          else (FW_OK, memcpy m (buf_data b + buf_length b) src n,
                Some (b\<lparr>buf_length := buf_length b + n\<rparr>)))"

definition fw_buffer_append_byte ::
  "mem \<Rightarrow> fw_buffer option \<Rightarrow> u8 \<Rightarrow> fw_status \<times> mem \<times> fw_buffer option" where
  "fw_buffer_append_byte m buf byte =
     (case buf of
        None \<Rightarrow> (FW_ERR_INVALID_ARG, m, None)
      | Some b \<Rightarrow>
          if buf_length b \<ge> buf_capacity b then (FW_ERR_BUFFER_OVERFLOW, m, Some b)
          else (FW_OK, m(buf_data b + buf_length b := byte),
                Some (b\<lparr>buf_length := buf_length b + 1\<rparr>)))"

definition fw_buffer_append_span ::
  "mem \<Rightarrow> fw_buffer option \<Rightarrow> fw_cspan \<Rightarrow> fw_status \<times> mem \<times> fw_buffer option" where
  "fw_buffer_append_span m buf s = fw_buffer_append m buf (cspan_data s) (cspan_length s)"

definition fw_buffer_append_sv ::
  "mem \<Rightarrow> fw_buffer option \<Rightarrow> fw_string_view \<Rightarrow> fw_status \<times> mem \<times> fw_buffer option" where
  "fw_buffer_append_sv m buf sv = fw_buffer_append m buf (sv_data sv) (sv_length sv)"

definition fw_buffer_peek_byte ::
  "mem \<Rightarrow> fw_buffer option \<Rightarrow> usize \<Rightarrow> u8 option \<Rightarrow> fw_status \<times> u8 option" where
  "fw_buffer_peek_byte m buf index out =
     (case (buf, out) of
        (Some b, Some _) \<Rightarrow>
          if index \<ge> buf_length b then (FW_ERR_INVALID_ARG, out)
          else (FW_OK, Some (m (buf_data b + index)))
      | _ \<Rightarrow> (FW_ERR_INVALID_ARG, out))"

definition fw_buffer_pop_byte ::
  "mem \<Rightarrow> fw_buffer option \<Rightarrow> u8 option \<Rightarrow> fw_status \<times> fw_buffer option \<times> u8 option" where
  "fw_buffer_pop_byte m buf out =
     (case buf of
        None \<Rightarrow> (FW_ERR_NOT_FOUND, None, out)
      | Some b \<Rightarrow>
          if buf_length b = 0 then (FW_ERR_NOT_FOUND, Some b, out)
          else let b' = b\<lparr>buf_length := buf_length b - 1\<rparr>
               in (FW_OK, Some b',
                   map_option (\<lambda>_. m (buf_data b' + buf_length b')) out))"

definition fw_buffer_as_span :: "fw_buffer option \<Rightarrow> fw_span" where
  "fw_buffer_as_span buf =
     (case buf of None \<Rightarrow> fw_span_make FW_NULL 0
      | Some b \<Rightarrow> if buf_data b = FW_NULL then fw_span_make FW_NULL 0
                 else fw_span_make (buf_data b) (buf_length b))"

definition fw_buffer_as_cspan :: "fw_buffer option \<Rightarrow> fw_cspan" where
  "fw_buffer_as_cspan buf =
     (case buf of None \<Rightarrow> fw_cspan_make FW_NULL 0
      | Some b \<Rightarrow> if buf_data b = FW_NULL then fw_cspan_make FW_NULL 0
                 else fw_cspan_make (buf_data b) (buf_length b))"

definition fw_buffer_clear :: "fw_buffer option \<Rightarrow> fw_buffer option" where
  "fw_buffer_clear buf = map_option (\<lambda>b. b\<lparr>buf_length := 0\<rparr>) buf"

definition fw_buffer_remaining :: "fw_buffer option \<Rightarrow> usize" where
  "fw_buffer_remaining buf =
     (case buf of None \<Rightarrow> 0
      | Some b \<Rightarrow> if buf_capacity b \<ge> buf_length b then buf_capacity b - buf_length b else 0)"

definition fw_buffer_is_full :: "fw_buffer option \<Rightarrow> bool" where
  "fw_buffer_is_full buf = (case buf of None \<Rightarrow> True | Some b \<Rightarrow> buf_length b \<ge> buf_capacity b)"

definition fw_buffer_is_empty :: "fw_buffer option \<Rightarrow> bool" where
  "fw_buffer_is_empty buf = (case buf of None \<Rightarrow> True | Some b \<Rightarrow> buf_length b = 0)"

section \<open>Invariant and abstraction\<close>

definition buf_wf :: "fw_buffer \<Rightarrow> bool" where
  "buf_wf b \<longleftrightarrow> buf_data b \<noteq> FW_NULL \<and> nowrap (buf_data b) (unat (buf_capacity b))
     \<and> buf_length b \<le> buf_capacity b"

definition buf_bytes :: "mem \<Rightarrow> fw_buffer \<Rightarrow> u8 list" where
  "buf_bytes m b = mem_read m (buf_data b) (unat (buf_length b))"

lemma buf_init_wf:
  assumes "fw_buffer_init (Some b0) storage cap = (FW_OK, Some b)"
    and "nowrap storage (unat cap)"
  shows "buf_wf b \<and> buf_bytes m b = []"
  using assms by (auto simp: fw_buffer_init_def buf_wf_def buf_bytes_def split: if_splits)

lemma buf_room:
  assumes "buf_wf b"
  shows "n > buf_capacity b - buf_length b \<longleftrightarrow>
    unat (buf_capacity b) < unat (buf_length b) + unat n"
  using assms by (auto simp: buf_wf_def word_less_nat_alt word_le_nat_alt unat_sub_le)

lemma mem_read_extend:
  assumes "k + length bs \<le> 2 ^ 32" and "k < 2 ^ 32"
  shows "mem_read (mem_write m (p + of_nat k) bs) p (k + length bs) = mem_read m p k @ bs"
proof (rule nth_equalityI)
  fix i assume "i < length (mem_read (mem_write m (p + of_nat k) bs) p (k + length bs))"
  then have i: "i < k + length bs" by simp
  show "mem_read (mem_write m (p + of_nat k) bs) p (k + length bs) ! i = (mem_read m p k @ bs) ! i"
  proof (cases "i < k")
    case True
    then have "unat (of_nat i - of_nat k :: ptr) = 2 ^ 32 + i - k"
      using assms by (subst unat_sub_wrap) (simp_all add: unat_of_nat_small)
    then have "\<not> in_block (p + of_nat k) (length bs) (p + of_nat i)"
      using assms True by (simp add: in_block_def)
    with True i show ?thesis by (simp add: nth_append mem_write_out)
  next
    case False
    then have "p + of_nat i = (p + of_nat k) + of_nat (i - k)" by simp
    moreover have "i - k < length bs" using False i by simp
    ultimately have "mem_write m (p + of_nat k) bs (p + of_nat i) = bs ! (i - k)"
      using assms mem_write_offset by (metis add_leD2)
    with False i show ?thesis by (simp add: nth_append)
  qed
qed simp

lemma buf_append_spec:
  assumes wf: "buf_wf b" and src: "src \<noteq> FW_NULL"
  shows "fw_buffer_append m (Some b) src n =
    (if unat (buf_capacity b) < unat (buf_length b) + unat n
     then (FW_ERR_BUFFER_OVERFLOW, m, Some b)
     else (FW_OK, memcpy m (buf_data b + buf_length b) src n,
           Some (b\<lparr>buf_length := buf_length b + n\<rparr>)))"
proof (cases "n = 0")
  case True
  moreover have "unat (buf_length b) \<le> unat (buf_capacity b)"
    using wf by (simp add: buf_wf_def word_le_nat_alt)
  ultimately show ?thesis using src by (simp add: fw_buffer_append_def memcpy_def)
next
  case False
  then show ?thesis using src buf_room [OF wf, of n] by (simp add: fw_buffer_append_def)
qed

text \<open>
  Appending to a well-formed buffer is list append on its bytes when the bytes fit, and leaves
  buffer and memory untouched with an overflow error when they do not; only the storage is written
  and the buffer stays well formed.
\<close>

theorem buffer_append_refines:
  assumes "buf_wf b" and "src \<noteq> FW_NULL"
  shows "case fw_buffer_append m (Some b) src n of
      (FW_OK, m', Some b') \<Rightarrow>
        buf_wf b' \<and> buf_bytes m' b' = buf_bytes m b @ mem_read m src (unat n)
        \<and> length (buf_bytes m' b') \<le> unat (buf_capacity b)
        \<and> (\<forall>a. \<not> in_block (buf_data b) (unat (buf_capacity b)) a \<longrightarrow> m' a = m a)
    | (st, m', b') \<Rightarrow>
        st = FW_ERR_BUFFER_OVERFLOW \<and> m' = m \<and> b' = Some b
        \<and> unat (buf_capacity b) < length (buf_bytes m b) + unat n"
proof (cases "unat (buf_capacity b) < unat (buf_length b) + unat n")
  case True
  then show ?thesis using buf_append_spec [OF assms] by (simp add: buf_bytes_def)
next
  case False
  let ?b' = "b\<lparr>buf_length := buf_length b + n\<rparr>"
  have cap: "unat (buf_capacity b) < 4294967296" by (rule unat_lt32)
  then have len: "unat (buf_length b + n) = unat (buf_length b) + unat n"
    using False cap by (intro unat_add_nowrap) simp
  then have wf': "buf_wf ?b'"
    using assms(1) False by (simp add: buf_wf_def word_le_nat_alt)
  have bytes: "buf_bytes (memcpy m (buf_data b + buf_length b) src n) ?b'
      = buf_bytes m b @ mem_read m src (unat n)"
    using mem_read_extend [of "unat (buf_length b)" "mem_read m src (unat n)" m "buf_data b"]
      False cap by (simp add: buf_bytes_def memcpy_def len)
  have frame: "\<not> in_block (buf_data b) (unat (buf_capacity b)) a \<Longrightarrow>
      memcpy m (buf_data b + buf_length b) src n a = m a" for a
    using in_block_sub [of "buf_length b" "unat n" "unat (buf_capacity b)" "buf_data b" a]
      False cap unfolding memcpy_def by (subst mem_write_out) auto
  show ?thesis
    using False wf' bytes frame buf_append_spec [OF assms, of m n]
    by (simp add: buf_bytes_def len)
qed

theorem buffer_append_refines_witness:
  "buf_wf \<lparr>buf_data = 256, buf_capacity = 8, buf_length = 2\<rparr>
   \<and> fst (fw_buffer_append (\<lambda>_. 7) (Some \<lparr>buf_data = 256, buf_capacity = 8, buf_length = 2\<rparr>) 512 9)
       = FW_ERR_BUFFER_OVERFLOW"
proof -
  have wf: "buf_wf \<lparr>buf_data = 256, buf_capacity = 8, buf_length = 2\<rparr>"
    by (simp add: buf_wf_def nowrap_def)
  show ?thesis
    using wf buffer_append_refines [OF wf, of 512 "\<lambda>_. 7" 9]
    by (simp add: fw_buffer_append_def)
qed

lemma buf_pop_append_byte:
  assumes "buf_wf b" and "buf_length b < buf_capacity b"
  shows "(case fw_buffer_append_byte m (Some b) x of
      (st, m', b') \<Rightarrow> st = FW_OK \<and> fw_buffer_pop_byte m' b' (Some y) = (FW_OK, Some b, Some x))"
proof -
  have "unat (buf_length b + 1) = unat (buf_length b) + 1"
    using assms(2) unat_lt32 [of "buf_capacity b"]
    by (simp add: word_less_nat_alt unat_add_nowrap)
  then have "buf_length b + 1 \<noteq> 0" by (metis add_is_0 one_neq_zero unat_0)
  with assms(2) show ?thesis
    by (simp add: fw_buffer_append_byte_def fw_buffer_pop_byte_def not_le [symmetric])
qed

lemma buf_append_byte_bytes:
  assumes "buf_wf b"
  shows "case fw_buffer_append_byte m (Some b) x of
      (FW_OK, m', Some b') \<Rightarrow> buf_wf b' \<and> buf_bytes m' b' = buf_bytes m b @ [x]
    | (st, m', b') \<Rightarrow> st = FW_ERR_BUFFER_OVERFLOW \<and> m' = m \<and> b' = Some b
        \<and> length (buf_bytes m b) = unat (buf_capacity b)"
proof (cases "buf_length b < buf_capacity b")
  case True
  then have len: "unat (buf_length b + 1) = unat (buf_length b) + 1"
    using unat_lt32 [of "buf_capacity b"]
    by (simp add: word_less_nat_alt unat_add_nowrap)
  have upd: "m(buf_data b + buf_length b := x) = mem_write m (buf_data b + buf_length b) [x]"
    by (rule ext) (auto simp: mem_write_def unat_0_iff)
  have "mem_read (m(buf_data b + buf_length b := x)) (buf_data b) (Suc (unat (buf_length b)))
      = buf_bytes m b @ [x]"
    using mem_read_extend [of "unat (buf_length b)" "[x]" m "buf_data b"] len
      unat_lt32 [of "buf_length b"]
    by (simp add: upd buf_bytes_def)
  with True len assms show ?thesis
    by (auto simp: fw_buffer_append_byte_def buf_wf_def buf_bytes_def word_less_nat_alt
        word_le_nat_alt)
next
  case False
  with assms show ?thesis
    by (auto simp: fw_buffer_append_byte_def buf_wf_def buf_bytes_def)
qed

end
