(* ===== verification/Tasklet.thy ===== *)
theory Tasklet
  imports Ring
begin

text \<open>
  The deferred-work queue of \<^verbatim>\<open>tasklet.h\<close> and \<^verbatim>\<open>tasklet.c\<close>.  The storage array is a list of items; a
  handler is a value of a type \<open>'h\<close> (None is \<^verbatim>\<open>NULL\<close>) whose execution is a parameter, because the
  handlers are the application's: it may change the rest of the world and the queue itself, for
  instance by posting again.
\<close>

record ('h, 'c) fw_tasklet_item =
  ti_handler :: "'h option"
  ti_context :: 'c
  ti_arg :: u32

record ('h, 'c) fw_tasklet_queue =
  tq_storage :: "('h, 'c) fw_tasklet_item list"
  tq_capacity :: usize
  tq_mask :: usize
  tq_head :: usize
  tq_tail :: usize

definition fw_tasklet_queue_init ::
  "('h, 'c) fw_tasklet_queue option \<Rightarrow> ('h, 'c) fw_tasklet_item list option \<Rightarrow> usize \<Rightarrow>
   fw_status \<times> ('h, 'c) fw_tasklet_queue option" where
  "fw_tasklet_queue_init q storage capacity =
     (case (q, storage) of
        (Some _, Some st) \<Rightarrow>
          if capacity = 0 then (FW_ERR_INVALID_ARG, q)
          else if capacity AND (capacity - 1) \<noteq> 0 then (FW_ERR_INVALID_ARG, q)
          else (FW_OK, Some \<lparr>tq_storage = st, tq_capacity = capacity, tq_mask = capacity - 1,
                             tq_head = 0, tq_tail = 0\<rparr>)
      | _ \<Rightarrow> (FW_ERR_INVALID_ARG, q))"

definition fw_tasklet_post ::
  "('h, 'c) fw_tasklet_queue option \<Rightarrow> 'h option \<Rightarrow> 'c \<Rightarrow> u32 \<Rightarrow>
   fw_status \<times> ('h, 'c) fw_tasklet_queue option" where
  "fw_tasklet_post queue handler ctxt arg =
     (case queue of
        None \<Rightarrow> (FW_ERR_INVALID_ARG, None)
      | Some q \<Rightarrow>
          if handler = None then (FW_ERR_INVALID_ARG, Some q)
          else
            let head = tq_head q; tail = tq_tail q
            in if head - tail \<ge> tq_capacity q then (FW_ERR_BUFFER_OVERFLOW, Some q)
               else
                 let idx = head AND tq_mask q;
                     item = \<lparr>ti_handler = handler, ti_context = ctxt, ti_arg = arg\<rparr>
                 in (FW_OK, Some (q\<lparr>tq_storage := (tq_storage q)[unat idx := item],
                                    tq_head := head + 1\<rparr>)))"

text \<open>What running a handler does to the world and the queue.\<close>

type_synonym ('h, 'c, 'w) handler_sem =
  "'h \<Rightarrow> 'c \<Rightarrow> u32 \<Rightarrow> 'w \<times> ('h, 'c) fw_tasklet_queue \<Rightarrow> 'w \<times> ('h, 'c) fw_tasklet_queue"

definition fw_tasklet_dispatch_one ::
  "('h, 'c, 'w) handler_sem \<Rightarrow> 'w \<Rightarrow> ('h, 'c) fw_tasklet_queue option \<Rightarrow>
   bool \<times> 'w \<times> ('h, 'c) fw_tasklet_queue option" where
  "fw_tasklet_dispatch_one call w queue =
     (case queue of
        None \<Rightarrow> (False, w, None)
      | Some q \<Rightarrow>
          let tail = tq_tail q; head = tq_head q
          in if tail = head then (False, w, Some q)
             else
               let item = tq_storage q ! unat (tail AND tq_mask q);
                   q1 = q\<lparr>tq_tail := tail + 1\<rparr>
               in (case ti_handler item of
                     None \<Rightarrow> (True, w, Some q1)
                   | Some h \<Rightarrow>
                       (case call h (ti_context item) (ti_arg item) (w, q1) of
                          (w', q2) \<Rightarrow> (True, w', Some q2))))"

partial_function (option) dispatch_loop ::
  "('h, 'c, 'w) handler_sem \<Rightarrow> usize \<Rightarrow> 'w \<Rightarrow> ('h, 'c) fw_tasklet_queue option \<Rightarrow>
   (usize \<times> 'w \<times> ('h, 'c) fw_tasklet_queue option) option" where
  "dispatch_loop call count w q =
     (case fw_tasklet_dispatch_one call w q of
        (again, w', q') \<Rightarrow>
          if again then dispatch_loop call (count + 1) w' q' else Some (count, w', q'))"

text \<open>None is a loop that never ends: handlers that keep posting.\<close>

definition fw_tasklet_dispatch_all ::
  "('h, 'c, 'w) handler_sem \<Rightarrow> 'w \<Rightarrow> ('h, 'c) fw_tasklet_queue option \<Rightarrow>
   (usize \<times> 'w \<times> ('h, 'c) fw_tasklet_queue option) option" where
  "fw_tasklet_dispatch_all call w q =
     (if q = None then Some (0, w, None) else dispatch_loop call 0 w q)"

definition fw_tasklet_count :: "('h, 'c) fw_tasklet_queue option \<Rightarrow> usize" where
  "fw_tasklet_count queue = (case queue of None \<Rightarrow> 0 | Some q \<Rightarrow> tq_head q - tq_tail q)"

definition fw_tasklet_is_empty :: "('h, 'c) fw_tasklet_queue option \<Rightarrow> bool" where
  "fw_tasklet_is_empty queue = (case queue of None \<Rightarrow> True | Some q \<Rightarrow> tq_head q = tq_tail q)"

section \<open>Invariant and abstraction\<close>

definition tasklet_wf :: "('h, 'c) fw_tasklet_queue \<Rightarrow> bool" where
  "tasklet_wf q \<longleftrightarrow> tq_capacity q \<noteq> 0 \<and> tq_capacity q AND (tq_capacity q - 1) = 0
     \<and> tq_mask q = tq_capacity q - 1 \<and> length (tq_storage q) = unat (tq_capacity q)
     \<and> tq_head q - tq_tail q \<le> tq_capacity q"

definition tasklet_items :: "('h, 'c) fw_tasklet_queue \<Rightarrow> ('h, 'c) fw_tasklet_item list" where
  "tasklet_items q =
     map (\<lambda>i. tq_storage q ! unat ((tq_tail q + of_nat i) AND tq_mask q))
       [0..<unat (tq_head q - tq_tail q)]"

lemma tasklet_init_wf:
  "fw_tasklet_queue_init (Some q0) (Some st) n = (FW_OK, Some q) \<Longrightarrow> length st = unat n \<Longrightarrow>
     tasklet_wf q \<and> tasklet_items q = []"
  by (auto simp: fw_tasklet_queue_init_def tasklet_wf_def tasklet_items_def split: if_splits)

lemma length_tasklet_items [simp]: "length (tasklet_items q) = unat (tq_head q - tq_tail q)"
  by (simp add: tasklet_items_def)

lemma tasklet_wfE:
  assumes "tasklet_wf q"
  obtains k where "k < 32" and "tq_mask q = 2 ^ k - 1" and "unat (tq_capacity q) = 2 ^ k"
    and "length (tq_storage q) = 2 ^ k" and "unat (tq_head q - tq_tail q) \<le> 2 ^ k"
proof -
  have "\<exists>k < LENGTH(32). tq_capacity q = 2 ^ k"
    using assms by (intro word_pow2_of_and) (simp_all add: tasklet_wf_def)
  then obtain k where k: "k < 32" "tq_capacity q = 2 ^ k" by auto
  moreover have "unat (tq_capacity q) = 2 ^ k" using k by (simp add: unat_pow2)
  ultimately show ?thesis using that assms by (simp add: tasklet_wf_def word_le_nat_alt)
qed

lemma tasklet_push_items:
  fixes q :: "('h, 'c) fw_tasklet_queue" and x :: "('h, 'c) fw_tasklet_item"
  assumes wf: "tasklet_wf q" and room: "unat (tq_head q - tq_tail q) < unat (tq_capacity q)"
  defines "q' \<equiv> q\<lparr>tq_storage := (tq_storage q)[unat (tq_head q AND tq_mask q) := x],
                   tq_head := tq_head q + 1\<rparr>"
  shows "tasklet_wf q'" and "tasklet_items q' = tasklet_items q @ [x]"
proof -
  obtain k where k: "k < 32" and msk: "tq_mask q = 2 ^ k - 1" and cap: "unat (tq_capacity q) = 2 ^ k"
    and st: "length (tq_storage q) = 2 ^ k"
    using wf by (rule tasklet_wfE)
  let ?n = "unat (tq_head q - tq_tail q)"
  have e: "tq_head q' - tq_tail q' = (tq_head q - tq_tail q) + 1" by (simp add: q'_def)
  have "unat ((tq_head q - tq_tail q) + 1) = ?n + unat (1 :: usize)"
    using room unat_lt32 [of "tq_capacity q"] by (intro unat_add_nowrap) simp
  then have n': "unat (tq_head q' - tq_tail q') = Suc ?n" unfolding e by simp
  then show "tasklet_wf q'"
    using wf room by (simp add: tasklet_wf_def q'_def word_le_nat_alt)
  let ?h = "unat (tq_head q AND tq_mask q)"
  have h: "tq_head q = tq_tail q + of_nat ?n" by simp
  have lt: "?h < 2 ^ k" using unat_ring_index [OF k, of "tq_head q" 0] by (simp add: msk)
  have "unat ((tq_tail q + of_nat i) AND tq_mask q) \<noteq> ?h" if "i < ?n" for i
    using ring_index_inj [OF k, of i ?n "tq_tail q"] that room cap h
    by (auto simp: msk word_unat_eq_iff simp del: of_nat_unat_id)
  then have "tq_storage q' ! unat ((tq_tail q' + of_nat i) AND tq_mask q')
      = tq_storage q ! unat ((tq_tail q + of_nat i) AND tq_mask q)" if "i < ?n" for i
    using that by (auto simp: q'_def dest: nth_list_update_neq [OF not_sym])
  moreover have "tq_storage q' ! unat ((tq_tail q' + of_nat ?n) AND tq_mask q') = x"
    using lt st by (simp add: q'_def)
  ultimately show "tasklet_items q' = tasklet_items q @ [x]"
    unfolding tasklet_items_def n' by simp
qed

lemma tasklet_pop_items:
  assumes wf: "tasklet_wf q" and items: "tasklet_items q = x # xs"
  defines "q' \<equiv> q\<lparr>tq_tail := tq_tail q + 1\<rparr>"
  shows "tasklet_wf q'" and "tasklet_items q' = xs"
    and "tq_storage q ! unat (tq_tail q AND tq_mask q) = x" and "tq_tail q \<noteq> tq_head q"
proof -
  let ?n = "unat (tq_head q - tq_tail q)"
  have n: "?n = Suc (length xs)" using length_tasklet_items [of q] by (simp add: items)
  then show ne: "tq_tail q \<noteq> tq_head q" by auto
  have e: "tq_head q' - tq_tail q' = (tq_head q - tq_tail q) - 1" by (simp add: q'_def)
  have n': "unat (tq_head q' - tq_tail q') = length xs"
    unfolding e using n by (simp add: unat_sub_le word_le_nat_alt)
  show "tasklet_wf q'"
    using wf n n' by (simp add: tasklet_wf_def q'_def word_le_nat_alt)
  show "tq_storage q ! unat (tq_tail q AND tq_mask q) = x"
    using arg_cong [OF items, of "\<lambda>l. l ! 0"] n by (simp add: tasklet_items_def del: upt_Suc)
  show "tasklet_items q' = xs"
  proof (rule nth_equalityI)
    show "length (tasklet_items q') = length xs" using n' by simp
    fix i assume "i < length (tasklet_items q')"
    then have i: "i < length xs" using n' by simp
    have "tasklet_items q' ! i = tasklet_items q ! Suc i"
      using i n n' by (simp add: tasklet_items_def q'_def add.assoc del: upt_Suc)
    then show "tasklet_items q' ! i = xs ! i" by (simp add: items)
  qed
qed

section \<open>The bounded FIFO interface\<close>

type_synonym ('h, 'c) work = "'h \<times> 'c \<times> u32"

definition tasklet_enq ::
  "('h, 'c) work \<Rightarrow> ('h, 'c) fw_tasklet_queue \<Rightarrow> fw_status \<times> ('h, 'c) fw_tasklet_queue" where
  "tasklet_enq x q =
     (case x of (h, c, a) \<Rightarrow>
        case fw_tasklet_post (Some q) (Some h) c a of (st, q') \<Rightarrow> (st, the q'))"

text \<open>Taking an item out is dispatching it to a handler that records its arguments.\<close>

definition tasklet_deq ::
  "('h, 'c) fw_tasklet_queue \<Rightarrow> (('h, 'c) work \<times> ('h, 'c) fw_tasklet_queue) option" where
  "tasklet_deq q =
     (case fw_tasklet_dispatch_one (\<lambda>h c a (w, q'). (Some (h, c, a), q')) None (Some q) of
        (True, Some x, Some q') \<Rightarrow> Some (x, q')
      | _ \<Rightarrow> None)"

definition tasklet_work :: "('h, 'c) fw_tasklet_item \<Rightarrow> ('h, 'c) work" where
  "tasklet_work x = (the (ti_handler x), ti_context x, ti_arg x)"

definition tasklet_pending :: "('h, 'c) fw_tasklet_queue \<Rightarrow> ('h, 'c) work list" where
  "tasklet_pending q = map tasklet_work (tasklet_items q)"

definition tasklet_cap :: "('h, 'c) fw_tasklet_queue \<Rightarrow> nat" where
  "tasklet_cap q = unat (tq_capacity q)"

definition tasklet_inv :: "('h, 'c) fw_tasklet_queue \<Rightarrow> bool" where
  "tasklet_inv q \<longleftrightarrow> tasklet_wf q \<and> (\<forall>x\<in>set (tasklet_items q). ti_handler x \<noteq> None)"

text \<open>One dispatch, on the abstract queue.\<close>

lemma dispatch_one_empty:
  "tasklet_inv q \<Longrightarrow> tasklet_pending q = [] \<Longrightarrow> fw_tasklet_dispatch_one call w (Some q) = (False, w, Some q)"
  using length_tasklet_items [of q]
  by (simp add: tasklet_pending_def fw_tasklet_dispatch_one_def unat_eq_0)

definition tasklet_popped :: "('h, 'c) fw_tasklet_queue \<Rightarrow> ('h, 'c) fw_tasklet_queue" where
  "tasklet_popped q = q\<lparr>tq_tail := tq_tail q + 1\<rparr>"

lemma tasklet_pendingE:
  assumes "tasklet_inv q" and "tasklet_pending q = (h, c, a) # xs"
  obtains x ys where "tasklet_items q = x # ys" and "ti_handler x = Some h" and "ti_context x = c"
    and "ti_arg x = a" and "map tasklet_work ys = xs"
  using assms by (auto simp: tasklet_pending_def tasklet_inv_def tasklet_work_def)

lemma popped_pending:
  assumes inv: "tasklet_inv q" and p: "tasklet_pending q = (h, c, a) # xs"
  shows "tasklet_inv (tasklet_popped q)" and "tasklet_pending (tasklet_popped q) = xs"
    and "tq_capacity (tasklet_popped q) = tq_capacity q"
proof -
  obtain x ys where it: "tasklet_items q = x # ys" and ys: "map tasklet_work ys = xs"
    using tasklet_pendingE [OF inv p] by metis
  have wf: "tasklet_wf q" using inv by (simp add: tasklet_inv_def)
  note pop = tasklet_pop_items [OF wf it]
  show "tasklet_inv (tasklet_popped q)"
    using pop(1,2) inv it by (auto simp: tasklet_inv_def tasklet_popped_def)
  show "tasklet_pending (tasklet_popped q) = xs"
    using pop(2) ys by (simp add: tasklet_pending_def tasklet_popped_def)
qed (simp add: tasklet_popped_def)

lemma dispatch_one_call:
  assumes inv: "tasklet_inv q" and p: "tasklet_pending q = (h, c, a) # xs"
    and call: "call h c a (w, tasklet_popped q) = (w', q2)"
  shows "fw_tasklet_dispatch_one call w (Some q) = (True, w', Some q2)"
proof -
  obtain x ys where it: "tasklet_items q = x # ys" and x: "ti_handler x = Some h" "ti_context x = c"
    "ti_arg x = a"
    using tasklet_pendingE [OF inv p] by metis
  have wf: "tasklet_wf q" using inv by (simp add: tasklet_inv_def)
  show ?thesis
    using tasklet_pop_items(3,4) [OF wf it] call x
    by (simp add: fw_tasklet_dispatch_one_def Let_def tasklet_popped_def)
qed

interpretation tasklet_queue:
  bounded_queue tasklet_enq tasklet_deq tasklet_pending tasklet_cap tasklet_inv
proof (unfold_locales, goal_cases)
  case (1 q)
  then show ?case by (simp add: tasklet_inv_def tasklet_wf_def tasklet_pending_def tasklet_cap_def word_le_nat_alt)
next
  case (2 q x)
  obtain h c a where x: "x = (h, c, a)" by (cases x)
  have room: "unat (tq_head q - tq_tail q) < unat (tq_capacity q)"
    using 2(2) by (simp add: tasklet_pending_def tasklet_cap_def)
  have wf: "tasklet_wf q" using 2(1) by (simp add: tasklet_inv_def)
  note push = tasklet_push_items [OF wf room, of "\<lparr>ti_handler = Some h, ti_context = c, ti_arg = a\<rparr>"]
  show ?case
    using push 2(1) room
    by (simp add: x tasklet_enq_def fw_tasklet_post_def Let_def word_le_nat_alt tasklet_inv_def
        tasklet_pending_def tasklet_cap_def tasklet_work_def)
next
  case (3 q x)
  then show ?case
    by (cases x) (simp add: tasklet_enq_def fw_tasklet_post_def Let_def word_le_nat_alt
        tasklet_pending_def tasklet_cap_def)
next
  case (4 q)
  then show ?case by (simp add: tasklet_deq_def dispatch_one_empty)
next
  case (5 q x xs)
  obtain h c a where x: "x = (h, c, a)" by (cases x)
  note q1 = popped_pending [OF 5(1) 5(2) [unfolded x]]
  have "tasklet_deq q = Some (x, tasklet_popped q)"
    using dispatch_one_call [OF 5(1) 5(2) [unfolded x],
        of "\<lambda>h c a (w, q'). (Some (h, c, a), q')" None "Some (h, c, a)" "tasklet_popped q"]
    by (simp add: tasklet_deq_def x)
  then show ?case using q1 by (simp add: tasklet_cap_def)
qed

text \<open>
  Posts and dispatches in any order run the accepted work items exactly once each and in the
  order they were posted, across any wrap-around of the counters.
\<close>

theorem tasklet_fifo:
  assumes "tasklet_inv q" and "queue_run tasklet_enq tasklet_deq ops q = (accepted, run, q')"
  shows "tasklet_pending q @ accepted = run @ tasklet_pending q' \<and> tasklet_inv q'"
  using tasklet_queue.run_fifo [OF assms] by simp

theorem tasklet_fifo_witness:
  "queue_run tasklet_enq tasklet_deq [Put (''a'', True, 1), Take, Put (''b'', False, 2)]
      \<lparr>tq_storage = [\<lparr>ti_handler = None, ti_context = True, ti_arg = 0\<rparr>], tq_capacity = 1,
       tq_mask = 0, tq_head = 4294967295, tq_tail = 4294967295\<rparr>
    = ([(''a'', True, 1), (''b'', False, 2)], [(''a'', True, 1)],
       \<lparr>tq_storage = [\<lparr>ti_handler = Some ''b'', ti_context = False, ti_arg = 2\<rparr>], tq_capacity = 1,
        tq_mask = 0, tq_head = 1, tq_tail = 0\<rparr>)
    \<and> tasklet_inv \<lparr>tq_storage = [\<lparr>ti_handler = Some ''b'', ti_context = False, ti_arg = 2\<rparr>],
        tq_capacity = 1, tq_mask = 0, tq_head = 1, tq_tail = 0\<rparr>"
proof -
  let ?q = "\<lparr>tq_storage = [\<lparr>ti_handler = None, ti_context = True, ti_arg = 0\<rparr>], tq_capacity = 1,
       tq_mask = 0, tq_head = 4294967295, tq_tail = 4294967295\<rparr> :: (string, bool) fw_tasklet_queue"
  have inv: "tasklet_inv ?q" by (simp add: tasklet_inv_def tasklet_wf_def tasklet_items_def)
  have run: "queue_run tasklet_enq tasklet_deq [Put (''a'', True, 1), Take, Put (''b'', False, 2)] ?q
    = ([(''a'', True, 1), (''b'', False, 2)], [(''a'', True, 1)],
       \<lparr>tq_storage = [\<lparr>ti_handler = Some ''b'', ti_context = False, ti_arg = 2\<rparr>], tq_capacity = 1,
        tq_mask = 0, tq_head = 1, tq_tail = 0\<rparr>)"
    by (simp add: tasklet_enq_def tasklet_deq_def fw_tasklet_post_def fw_tasklet_dispatch_one_def
        Let_def word_le_nat_alt)
  show ?thesis using run tasklet_fifo [OF inv run] by simp
qed

section \<open>Draining the queue\<close>

text \<open>
  \<open>\<mu>\<close> bounds the work left, over the world and the pending items; each handler run must lower it, posts
  included.
\<close>

lemma dispatch_loop_terminates:
  fixes \<mu> :: "'w \<Rightarrow> ('h, 'c) work list \<Rightarrow> nat"
  assumes dec: "\<And>h c a w q xs w' q'. tasklet_inv q \<Longrightarrow> call h c a (w, q) = (w', q') \<Longrightarrow>
      tasklet_inv q' \<and> \<mu> w' (tasklet_pending q') < \<mu> w ((h, c, a) # tasklet_pending q)"
  shows "tasklet_inv q \<Longrightarrow> \<exists>n w' q'. dispatch_loop call n0 w (Some q) = Some (n, w', Some q')
      \<and> tasklet_inv q' \<and> tasklet_pending q' = []"
proof (induction "\<mu> w (tasklet_pending q)" arbitrary: n0 w q rule: less_induct)
  case less
  show ?case
  proof (cases "tasklet_pending q")
    case Nil
    then show ?thesis
      using less.prems by (subst dispatch_loop.simps) (simp add: dispatch_one_empty)
  next
    case (Cons x xs)
    obtain h c a where x: "x = (h, c, a)" by (cases x)
    note q1 = popped_pending [OF less.prems Cons [unfolded x]]
    obtain w' q2 where c: "call h c a (w, tasklet_popped q) = (w', q2)"
      by (cases "call h c a (w, tasklet_popped q)")
    have "tasklet_inv q2" "\<mu> w' (tasklet_pending q2) < \<mu> w (tasklet_pending q)"
      using dec [OF q1(1) c] q1(2) Cons x by auto
    from less.hyps [OF this(2,1), of "n0 + 1"] show ?thesis
      by (subst dispatch_loop.simps)
        (simp add: dispatch_one_call [where call = call, OF less.prems Cons [unfolded x] c])
  qed
qed

lemma dispatch_loop_drain:
  assumes pure: "\<And>h c a w q. call h c a (w, q) = (act h c a w, q)"
  shows "tasklet_inv q \<Longrightarrow> \<exists>q'. dispatch_loop call n w (Some q) =
      Some (n + of_nat (length (tasklet_pending q)),
            fold (\<lambda>(h, c, a). act h c a) (tasklet_pending q) w, Some q')
      \<and> tasklet_inv q' \<and> tasklet_pending q' = []"
proof (induction "tasklet_pending q" arbitrary: n w q)
  case Nil
  then show ?case by (subst dispatch_loop.simps) (simp add: dispatch_one_empty)
next
  case (Cons x xs)
  obtain h c a where x: "x = (h, c, a)" by (cases x)
  note p = Cons.hyps(2) [symmetric, unfolded x]
  note q1 = popped_pending [OF Cons.prems p]
  from Cons.hyps(1) [OF q1(2) [symmetric] q1(1), of "n + 1" "act h c a w"] show ?case
    by (subst dispatch_loop.simps)
      (simp add: dispatch_one_call [where call = call, OF Cons.prems p pure] q1(2) p add.assoc)
qed

text \<open>
  C13: dispatching everything runs every pending item once, oldest first, reports their number and
  leaves the queue empty, when the handlers do not post; and with handlers that do post it still
  returns with an empty queue whenever each run lowers some measure of the work left.
\<close>

theorem tasklet_dispatch_all_drains:
  assumes "tasklet_inv q"
  shows "((\<forall>h c a w q. call h c a (w, q) = (act h c a w, q)) \<longrightarrow>
      (\<exists>q'. fw_tasklet_dispatch_all call w (Some q) =
        Some (of_nat (length (tasklet_pending q)),
              fold (\<lambda>(h, c, a). act h c a) (tasklet_pending q) w, Some q') \<and> tasklet_pending q' = []))
    \<and> ((\<forall>h c a w q w' q'. tasklet_inv q \<longrightarrow> call h c a (w, q) = (w', q') \<longrightarrow>
        tasklet_inv q' \<and> \<mu> w' (tasklet_pending q') < (\<mu> w ((h, c, a) # tasklet_pending q) :: nat)) \<longrightarrow>
      (\<exists>n w' q'. fw_tasklet_dispatch_all call w (Some q) = Some (n, w', Some q')
        \<and> tasklet_pending q' = []))"
  using dispatch_loop_drain [of call act q 0 w] dispatch_loop_terminates [of call \<mu> q 0 w] assms
  by (auto simp: fw_tasklet_dispatch_all_def)

text \<open>The witness is a handler that posts itself again until its argument reaches 0.\<close>

theorem tasklet_dispatch_all_drains_witness:
  "\<exists>n w' q'. fw_tasklet_dispatch_all
      (\<lambda>h c a (w, q). (w + 1 :: nat,
          if a = 0 then q else snd (tasklet_enq (h, c, a - 1) q))) 0
      (Some \<lparr>tq_storage = [\<lparr>ti_handler = Some (), ti_context = (), ti_arg = 3\<rparr>], tq_capacity = 1,
             tq_mask = 0, tq_head = 1, tq_tail = 0\<rparr>) = Some (n, w', Some q')
    \<and> tasklet_pending q' = []"
proof -
  let ?call = "\<lambda>h c a (w, q). (w + 1 :: nat, if a = 0 then q else snd (tasklet_enq (h, c, a - 1) q))"
  let ?q = "\<lparr>tq_storage = [\<lparr>ti_handler = Some (), ti_context = (), ti_arg = 3\<rparr>], tq_capacity = 1,
             tq_mask = 0, tq_head = 1, tq_tail = 0\<rparr> :: (unit, unit) fw_tasklet_queue"
  let ?m = "\<lambda>(w :: nat) (xs :: (unit, unit) work list). sum_list (map (\<lambda>(h, c, a). Suc (unat a)) xs)"
  have inv: "tasklet_inv ?q" by (simp add: tasklet_inv_def tasklet_wf_def tasklet_items_def)
  have dec: "tasklet_inv q' \<and> ?m w' (tasklet_pending q') < ?m w ((h, c, a) # tasklet_pending q)"
    if q: "tasklet_inv q" and r: "?call h c a (w, q) = (w', q')" for h c a w w' and q q' :: "(unit, unit) fw_tasklet_queue"
  proof (cases "a = 0")
    case False
    then have lt: "unat (a - 1) < unat a" using unat_gt_0 [of a] by (simp add: unat_minus_one)
    from q show ?thesis
    proof (cases rule: tasklet_queue.enq_cases [where x = "(h, c, a - 1)"])
      case (room q1)
      then show ?thesis using r False lt by auto
    next
      case full
      then show ?thesis using r False q by auto
    qed
  qed (use q r in auto)
  show ?thesis
    using tasklet_dispatch_all_drains [OF inv, of ?call "\<lambda>h c a w. w" 0 ?m] dec by blast
qed

end
