(* ===== verification/Crc.thy ===== *)
theory Crc
  imports Memory
begin

text \<open>
  The checksums of the library: the table-driven CRC-16 of \<^verbatim>\<open>zerowire.c\<close>, the bit-by-bit CRC-16 of
  \<^verbatim>\<open>nvs.c\<close> and the CRC-32 of \<^verbatim>\<open>ota.c\<close>.  The two CRC-16 routines are proved equal, and each checksum is
  proved to notice every corruption confined to one byte.
\<close>

unbundle bit_operations_syntax

section \<open>CRC-16, bit by bit (nvs.c)\<close>

text \<open>The body of the inner loop.\<close>

definition crc16_bit :: "u16 \<Rightarrow> u16" where
  "crc16_bit crc = (if crc AND 0x8000 \<noteq> 0 then push_bit 1 crc XOR 0x1021 else push_bit 1 crc)"

fun crc16_step :: "u16 \<Rightarrow> u8 list \<Rightarrow> u16" where
  "crc16_step crc [] = crc"
| "crc16_step crc (b # bs) = crc16_step ((crc16_bit ^^ 8) (crc XOR push_bit 8 (ucast b))) bs"

section \<open>CRC-16, table driven (zerowire.c)\<close>

definition crc16_table :: "u16 list" where
  "crc16_table = [
    0x0000, 0x1021, 0x2042, 0x3063, 0x4084, 0x50A5, 0x60C6, 0x70E7,
    0x8108, 0x9129, 0xA14A, 0xB16B, 0xC18C, 0xD1AD, 0xE1CE, 0xF1EF,
    0x1231, 0x0210, 0x3273, 0x2252, 0x52B5, 0x4294, 0x72F7, 0x62D6,
    0x9339, 0x8318, 0xB37B, 0xA35A, 0xD3BD, 0xC39C, 0xF3FF, 0xE3DE,
    0x2462, 0x3443, 0x0420, 0x1401, 0x64E6, 0x74C7, 0x44A4, 0x5485,
    0xA56A, 0xB54B, 0x8528, 0x9509, 0xE5EE, 0xF5CF, 0xC5AC, 0xD58D,
    0x3653, 0x2672, 0x1611, 0x0630, 0x76D7, 0x66F6, 0x5695, 0x46B4,
    0xB75B, 0xA77A, 0x9719, 0x8738, 0xF7DF, 0xE7FE, 0xD79D, 0xC7BC,
    0x48C4, 0x58E5, 0x6886, 0x78A7, 0x0840, 0x1861, 0x2802, 0x3823,
    0xC9CC, 0xD9ED, 0xE98E, 0xF9AF, 0x8948, 0x9969, 0xA90A, 0xB92B,
    0x5AF5, 0x4AD4, 0x7AB7, 0x6A96, 0x1A71, 0x0A50, 0x3A33, 0x2A12,
    0xDBFD, 0xCBDC, 0xFBBF, 0xEB9E, 0x9B79, 0x8B58, 0xBB3B, 0xAB1A,
    0x6CA6, 0x7C87, 0x4CE4, 0x5CC5, 0x2C22, 0x3C03, 0x0C60, 0x1C41,
    0xEDAE, 0xFD8F, 0xCDEC, 0xDDCD, 0xAD2A, 0xBD0B, 0x8D68, 0x9D49,
    0x7E97, 0x6EB6, 0x5ED5, 0x4EF4, 0x3E13, 0x2E32, 0x1E51, 0x0E70,
    0xFF9F, 0xEFBE, 0xDFDD, 0xCFFC, 0xBF1B, 0xAF3A, 0x9F59, 0x8F78,
    0x9188, 0x81A9, 0xB1CA, 0xA1EB, 0xD10C, 0xC12D, 0xF14E, 0xE16F,
    0x1080, 0x00A1, 0x30C2, 0x20E3, 0x5004, 0x4025, 0x7046, 0x6067,
    0x83B9, 0x9398, 0xA3FB, 0xB3DA, 0xC33D, 0xD31C, 0xE37F, 0xF35E,
    0x02B1, 0x1290, 0x22F3, 0x32D2, 0x4235, 0x5214, 0x6277, 0x7256,
    0xB5EA, 0xA5CB, 0x95A8, 0x8589, 0xF56E, 0xE54F, 0xD52C, 0xC50D,
    0x34E2, 0x24C3, 0x14A0, 0x0481, 0x7466, 0x6447, 0x5424, 0x4405,
    0xA7DB, 0xB7FA, 0x8799, 0x97B8, 0xE75F, 0xF77E, 0xC71D, 0xD73C,
    0x26D3, 0x36F2, 0x0691, 0x16B0, 0x6657, 0x7676, 0x4615, 0x5634,
    0xD94C, 0xC96D, 0xF90E, 0xE92F, 0x99C8, 0x89E9, 0xB98A, 0xA9AB,
    0x5844, 0x4865, 0x7806, 0x6827, 0x18C0, 0x08E1, 0x3882, 0x28A3,
    0xCB7D, 0xDB5C, 0xEB3F, 0xFB1E, 0x8BF9, 0x9BD8, 0xABBB, 0xBB9A,
    0x4A75, 0x5A54, 0x6A37, 0x7A16, 0x0AF1, 0x1AD0, 0x2AB3, 0x3A92,
    0xFD2E, 0xED0F, 0xDD6C, 0xCD4D, 0xBDAA, 0xAD8B, 0x9DE8, 0x8DC9,
    0x7C26, 0x6C07, 0x5C64, 0x4C45, 0x3CA2, 0x2C83, 0x1CE0, 0x0CC1,
    0xEF1F, 0xFF3E, 0xCF5D, 0xDF7C, 0xAF9B, 0xBFBA, 0x8FD9, 0x9FF8,
    0x6E17, 0x7E36, 0x4E55, 0x5E74, 0x2E93, 0x3EB2, 0x0ED1, 0x1EF0  ]"

definition crc16_table_step :: "u16 \<Rightarrow> u8 \<Rightarrow> u16" where
  "crc16_table_step crc b =
     push_bit 8 crc XOR (crc16_table ! unat ((drop_bit 8 crc XOR ucast b) AND 0xFF))"

fun crc16_table_loop :: "u16 \<Rightarrow> u8 list \<Rightarrow> u16" where
  "crc16_table_loop crc [] = crc"
| "crc16_table_loop crc (b # bs) = crc16_table_loop (crc16_table_step crc b) bs"

definition fw_crc16_ccitt :: "mem \<Rightarrow> ptr \<Rightarrow> usize \<Rightarrow> u16" where
  "fw_crc16_ccitt m data n =
     (if data = FW_NULL \<or> n = 0 then 0 else crc16_table_loop 0xFFFF (mem_read m data (unat n)))"

section \<open>CRC-32 (ota.c)\<close>

definition crc32_bit :: "u32 \<Rightarrow> u32" where
  "crc32_bit crc = drop_bit 1 crc XOR (0xEDB88320 AND (- (crc AND 1)))"

fun crc32_step :: "u32 \<Rightarrow> u8 list \<Rightarrow> u32" where
  "crc32_step crc [] = crc"
| "crc32_step crc (b # bs) = crc32_step ((crc32_bit ^^ 8) (crc XOR ucast b)) bs"

definition fw_crc32_compute :: "mem \<Rightarrow> ptr \<Rightarrow> usize \<Rightarrow> u32" where
  "fw_crc32_compute m data n =
     (if data = FW_NULL \<or> n = 0 then 0 else NOT (crc32_step 0xFFFFFFFF (mem_read m data (unat n))))"

section \<open>The table is the bit loop\<close>

lemma and_top16_iff: "(x :: u16) AND 0x8000 \<noteq> 0 \<longleftrightarrow> bit x 15"
  using word_and_pow2_iff [of 15 x] by simp

lemma crc16_bit_conv: "crc16_bit x = push_bit 1 x XOR (if bit x 15 then 0x1021 else 0)"
  unfolding crc16_bit_def and_top16_iff by simp

lemma crc16_bit_xor: "crc16_bit (x XOR y) = crc16_bit x XOR crc16_bit y"
  by (simp add: crc16_bit_conv bit_xor_iff push_bit_xor xor.assoc xor.left_commute)

lemma crc16_bits_xor: "(crc16_bit ^^ n) (x XOR y) = (crc16_bit ^^ n) x XOR (crc16_bit ^^ n) y"
  by (induction n) (simp_all add: crc16_bit_xor)

lemma crc16_bits_low:
  assumes "\<And>n. 8 \<le> n \<Longrightarrow> \<not> bit x n"
  shows "k \<le> 8 \<Longrightarrow> (crc16_bit ^^ k) x = push_bit k x"
proof (induction k)
  case (Suc k)
  have "\<not> bit (push_bit k x) 15" using assms [of "15 - k"] Suc.prems by (simp add: bit_push_bit_iff)
  then have "crc16_bit (push_bit k x) = push_bit 1 (push_bit k x)"
    by (simp only: crc16_bit_conv if_False xor.right_neutral)
  also have "\<dots> = push_bit (Suc k) x" by (simp only: push_bit_push_bit) simp
  finally show ?case using Suc by simp
qed simp

fun table_ok :: "u16 \<Rightarrow> u16 list \<Rightarrow> bool" where
  "table_ok i [] \<longleftrightarrow> True"
| "table_ok i (t # ts) \<longleftrightarrow> (crc16_bit ^^ 8) (push_bit 8 i) = t \<and> table_ok (i + 1) ts"

lemma crc16_bits_8:
  "(crc16_bit ^^ 8) x =
     crc16_bit (crc16_bit (crc16_bit (crc16_bit (crc16_bit (crc16_bit (crc16_bit (crc16_bit x)))))))"
  by (simp add: eval_nat_numeral)

lemma crc16_table_ok: "table_ok 0 crc16_table"
  by (simp add: crc16_table_def crc16_bits_8 crc16_bit_def)

lemma table_ok_nth: "table_ok i ts \<Longrightarrow> n < length ts \<Longrightarrow> ts ! n = (crc16_bit ^^ 8) (push_bit 8 (i + of_nat n))"
proof (induction ts arbitrary: i n)
  case (Cons t ts)
  then show ?case by (cases n) (auto simp: add.assoc)
qed simp

lemma crc16_table_nth: "n < 256 \<Longrightarrow> crc16_table ! n = (crc16_bit ^^ 8) (push_bit 8 (of_nat n))"
  using table_ok_nth [OF crc16_table_ok, of n] by (simp add: crc16_table_def)

lemma and_FF_take_bit: "(x :: u16) AND 0xFF = take_bit 8 x"
  using and_pow2_minus_one [of x 8] by simp

lemma crc16_table_step_eq: "crc16_table_step crc b = (crc16_bit ^^ 8) (crc XOR push_bit 8 (ucast b))"
proof -
  let ?lo = "take_bit 8 crc" and ?hi = "take_bit 8 (drop_bit 8 crc XOR ucast b) :: u16"
  have lt: "unat ?hi < 256" using unat_take_bit_mod [of 8 "drop_bit 8 crc XOR ucast b :: u16"] by simp
  have split: "crc XOR push_bit 8 (ucast b) = push_bit 8 ?hi XOR ?lo"
    by (rule bit_eqI) (auto simp: bit_simps)
  have "(crc16_bit ^^ 8) ?lo = push_bit 8 ?lo"
    by (rule crc16_bits_low) (simp_all add: bit_take_bit_iff)
  also have "\<dots> = push_bit 8 crc"
    by (rule bit_eqI) (auto simp: bit_simps)
  finally have lo: "(crc16_bit ^^ 8) ?lo = push_bit 8 crc" .
  have "crc16_table ! unat ?hi = (crc16_bit ^^ 8) (push_bit 8 ?hi)"
    using crc16_table_nth [OF lt] by simp
  then show ?thesis
    unfolding crc16_table_step_def and_FF_take_bit split crc16_bits_xor lo by (simp add: xor.commute)
qed

lemma crc16_table_loop_eq: "crc16_table_loop crc bs = crc16_step crc bs"
  by (induction bs arbitrary: crc) (simp_all add: crc16_table_step_eq)

text \<open>
  C39: the table-driven CRC-16 of the wire protocol and the bit-by-bit CRC-16 of the flash store are
  the same function on every non-empty message (all 256 table entries included).
\<close>

theorem crc16_table_equals_bitwise:
  "fw_crc16_ccitt m data n =
     (if data = FW_NULL \<or> n = 0 then 0 else crc16_step 0xFFFF (mem_read m data (unat n)))"
  by (simp add: fw_crc16_ccitt_def crc16_table_loop_eq)

section \<open>Error detection\<close>

lemma crc16_bit_inj: "crc16_bit x = crc16_bit y \<Longrightarrow> x = y"
proof -
  assume eq: "crc16_bit x = crc16_bit y"
  have low: "bit (crc16_bit z) 0 \<longleftrightarrow> bit z 15" for z
    by (simp only: crc16_bit_conv) (simp add: bit_xor_iff bit_push_bit_iff del: push_bit_Suc)
  have top: "bit x 15 \<longleftrightarrow> bit y 15" using eq low by metis
  then have sh: "push_bit 1 x = push_bit 1 y"
    using eq unfolding crc16_bit_conv top by (simp only: xor_right_cancel)
  show "x = y"
  proof (rule bit_eqI)
    fix n assume "possible_bit TYPE(u16) n"
    then have n: "n < 16" by (simp add: possible_bit_def)
    show "bit x n \<longleftrightarrow> bit y n"
    proof (cases "n = 15")
      case False
      then have "bit (push_bit 1 z) (Suc n) \<longleftrightarrow> bit z n" for z :: u16
        using n False by (simp only: bit_push_bit_iff) simp
      then show ?thesis using sh by metis
    qed (use top in simp)
  qed
qed

lemma crc16_bits_inj: "(crc16_bit ^^ n) x = (crc16_bit ^^ n) y \<Longrightarrow> x = y"
  by (induction n) (auto dest: crc16_bit_inj)

lemma crc16_step_inj: "crc16_step c bs = crc16_step d bs \<Longrightarrow> c = d"
proof (induction bs arbitrary: c d)
  case (Cons b bs)
  then have "(crc16_bit ^^ 8) (c XOR push_bit 8 (ucast b)) = (crc16_bit ^^ 8) (d XOR push_bit 8 (ucast b))"
    by simp
  then have "c XOR push_bit 8 (ucast b) = d XOR push_bit 8 (ucast b)" by (rule crc16_bits_inj)
  then show ?case by (simp only: xor_right_cancel)
qed simp

lemma crc16_step_append: "crc16_step c (xs @ ys) = crc16_step (crc16_step c xs) ys"
  by (induction xs arbitrary: c) simp_all

lemma crc32_step_append: "crc32_step c (xs @ ys) = crc32_step (crc32_step c xs) ys"
  by (induction xs arbitrary: c) simp_all


lemma crc32_bit_conv: "crc32_bit x = drop_bit 1 x XOR (if bit x 0 then 0xEDB88320 else 0)"
proof (cases "bit x 0")
  case True
  then have "x AND 1 = 1" by (simp add: and_one_eq bit_0 odd_iff_mod_2_eq_one)
  then show ?thesis using True by (simp add: crc32_bit_def)
next
  case False
  then have "x AND 1 = 0" by (simp add: and_one_eq bit_0 even_iff_mod_2_eq_zero)
  then show ?thesis using False by (simp add: crc32_bit_def)
qed

lemma crc32_bit_xor: "crc32_bit (x XOR y) = crc32_bit x XOR crc32_bit y"
  by (simp add: crc32_bit_conv bit_xor_iff drop_bit_xor xor.assoc xor.left_commute)

lemma crc32_bits_xor: "(crc32_bit ^^ n) (x XOR y) = (crc32_bit ^^ n) x XOR (crc32_bit ^^ n) y"
  by (induction n) (simp_all add: crc32_bit_xor)

lemma crc32_bits_high: "k \<le> 24 \<Longrightarrow> (crc32_bit ^^ k) (push_bit k (ucast (b :: u8))) = ucast b"
proof (induction k)
  case (Suc k)
  have "drop_bit 1 (push_bit (Suc k) (ucast b)) = push_bit k (ucast b :: u32)"
    by (rule bit_word_eqI) (use Suc.prems in \<open>auto simp: bit_simps simp del: push_bit_Suc dest: bit_imp_le_length\<close>)
  moreover have "\<not> bit (push_bit (Suc k) (ucast b) :: u32) 0" by (simp only: bit_push_bit_iff) simp
  ultimately have "crc32_bit (push_bit (Suc k) (ucast b)) = push_bit k (ucast b)"
    by (simp only: crc32_bit_conv if_False xor.right_neutral)
  then show ?case using Suc by (simp only: funpow_Suc_right o_apply)
qed simp

lemma crc32_bit_inj: "crc32_bit x = crc32_bit y \<Longrightarrow> x = y"
proof -
  assume eq: "crc32_bit x = crc32_bit y"
  have top: "bit (crc32_bit z) 31 \<longleftrightarrow> bit z 0" for z
  proof -
    have "\<not> bit (drop_bit 1 z) 31"
      using bit_imp_le_length [of z 32] by (auto simp only: bit_drop_bit_eq o_def) auto
    moreover have "bit (0xEDB88320 :: u32) 31" by simp
    ultimately show ?thesis unfolding crc32_bit_conv by (simp only: bit_xor_iff split: if_split) simp
  qed
  have low: "bit x 0 \<longleftrightarrow> bit y 0" using eq top by metis
  then have sh: "drop_bit 1 x = drop_bit 1 y"
    using eq unfolding crc32_bit_conv low by (simp only: xor_right_cancel)
  show "x = y"
  proof (rule bit_eqI)
    fix n
    show "bit x n \<longleftrightarrow> bit y n"
    proof (cases n)
      case (Suc k)
      have "bit (drop_bit 1 z) k \<longleftrightarrow> bit z n" for z :: u32
        using Suc by (simp only: bit_drop_bit_eq o_def) simp
      then show ?thesis using sh by metis
    qed (use low in simp)
  qed
qed

lemma crc32_bits_inj: "(crc32_bit ^^ n) x = (crc32_bit ^^ n) y \<Longrightarrow> x = y"
  by (induction n) (auto dest: crc32_bit_inj)

lemma crc32_step_inj: "crc32_step c bs = crc32_step d bs \<Longrightarrow> c = d"
proof (induction bs arbitrary: c d)
  case (Cons b bs)
  then have "(crc32_bit ^^ 8) (c XOR ucast b) = (crc32_bit ^^ 8) (d XOR ucast b)" by simp
  then have "c XOR ucast b = d XOR ucast b" by (rule crc32_bits_inj)
  then show ?case by (simp only: xor_right_cancel)
qed simp

text \<open>Bytes up to the width of the checksum act as one word XORed in, so they can be told apart.\<close>

lemma crc16_two_bytes:
  "crc16_step c [x, y] = (crc16_bit ^^ 8) ((crc16_bit ^^ 8) (c XOR push_bit 8 (ucast x) XOR ucast y))"
proof -
  have "(crc16_bit ^^ 8) (ucast y) = push_bit 8 (ucast y)"
    by (rule crc16_bits_low) (auto simp: bit_simps dest: bit_imp_le_length)
  then show ?thesis by (simp only: crc16_step.simps crc16_bits_xor xor.assoc)
qed

lemma crc16_two_bytes_inj:
  assumes "crc16_step c [x, y] = crc16_step c [x', y']"
  shows "x = x' \<and> y = y'"
proof -
  have "c XOR push_bit 8 (ucast x) XOR ucast y = c XOR push_bit 8 (ucast x') XOR ucast y'"
    using assms unfolding crc16_two_bytes by (blast dest: crc16_bits_inj)
  then have eq: "push_bit 8 (ucast x) XOR ucast y = (push_bit 8 (ucast x') XOR ucast y' :: u16)"
    by (simp only: xor.assoc xor_left_cancel)
  have "ucast (push_bit 8 (ucast x) XOR ucast y :: u16) = y" for x y :: u8
    by (rule bit_word_eqI) (auto simp: bit_simps)
  moreover have "ucast (drop_bit 8 (push_bit 8 (ucast x) XOR ucast y :: u16)) = x" for x y :: u8
    by (rule bit_word_eqI) (auto simp: bit_simps dest: bit_imp_le_length)
  ultimately show ?thesis using eq by metis
qed

lemma crc32_four_bytes:
  "crc32_step c [x, y, z, w] = (crc32_bit ^^ 32)
     (c XOR ucast x XOR push_bit 8 (ucast y) XOR push_bit 16 (ucast z) XOR push_bit 24 (ucast w))"
proof -
  have add: "(crc32_bit ^^ (8 + n)) v = (crc32_bit ^^ 8) ((crc32_bit ^^ n) v)" for n v
    by (simp only: funpow_add o_apply)
  have split: "(crc32_bit ^^ 32) v = (crc32_bit ^^ 8) ((crc32_bit ^^ 8) ((crc32_bit ^^ 8) ((crc32_bit ^^ 8) v)))"
      "(crc32_bit ^^ 16) v = (crc32_bit ^^ 8) ((crc32_bit ^^ 8) v)"
      "(crc32_bit ^^ 24) v = (crc32_bit ^^ 8) ((crc32_bit ^^ 8) ((crc32_bit ^^ 8) v))" for v
    using add [of 8 v] add [of 16 v] add [of 24 v] by simp_all
  have "(crc32_bit ^^ 8) (push_bit 8 (ucast y)) = ucast y" "(crc32_bit ^^ 16) (push_bit 16 (ucast z)) = ucast z"
      "(crc32_bit ^^ 24) (push_bit 24 (ucast w)) = ucast w"
    by (rule crc32_bits_high; simp)+
  then show ?thesis by (simp only: crc32_step.simps split crc32_bits_xor xor.assoc)
qed

lemma crc32_four_bytes_inj:
  assumes "crc32_step c [x, y, z, w] = crc32_step c [x', y', z', w']"
  shows "x = x' \<and> y = y' \<and> z = z' \<and> w = w'"
proof -
  let ?v = "\<lambda>(x :: u8) (y :: u8) (z :: u8) (w :: u8). (ucast x XOR push_bit 8 (ucast y) XOR push_bit 16 (ucast z) XOR push_bit 24 (ucast w) :: u32)"
  have "c XOR ucast x XOR push_bit 8 (ucast y) XOR push_bit 16 (ucast z) XOR push_bit 24 (ucast w)
      = c XOR ucast x' XOR push_bit 8 (ucast y') XOR push_bit 16 (ucast z') XOR push_bit 24 (ucast w')"
    using assms unfolding crc32_four_bytes by (rule crc32_bits_inj)
  then have eq: "?v x y z w = ?v x' y' z' w'" by (simp only: xor.assoc xor_left_cancel)
  have above: "\<not> bit b n" if "8 \<le> n" for b :: u8 and n using that by (auto dest: bit_imp_le_length)
  have "ucast (?v x y z w) = x" "ucast (drop_bit 8 (?v x y z w)) = y"
      "ucast (drop_bit 16 (?v x y z w)) = z" "ucast (drop_bit 24 (?v x y z w)) = w" for x y z w
    by (rule bit_word_eqI; simp add: bit_simps above)+
  then show ?thesis using eq by metis
qed

lemma crc16_burst:
  assumes "length e = length e'" and "length e \<le> 2" and "crc16_step c (xs @ e @ ys) = crc16_step c (xs @ e' @ ys)"
  shows "e = e'"
proof -
  let ?z = "replicate (2 - length e) 0"
  have "crc16_step (crc16_step c xs) e = crc16_step (crc16_step c xs) e'"
    using assms(3) by (auto simp: crc16_step_append dest: crc16_step_inj)
  then have "crc16_step (crc16_step c xs) (e @ ?z) = crc16_step (crc16_step c xs) (e' @ ?z)"
    by (simp add: crc16_step_append)
  moreover obtain x y x' y' where "e @ ?z = [x, y]" "e' @ ?z = [x', y']"
    using assms(1,2) by (auto simp: length_Suc_conv numeral_2_eq_2 le_Suc_eq)
  ultimately have "e @ ?z = e' @ ?z" using crc16_two_bytes_inj by metis
  then show ?thesis by simp
qed

lemma crc32_burst:
  assumes "length e = length e'" and "length e \<le> 4" and "crc32_step c (xs @ e @ ys) = crc32_step c (xs @ e' @ ys)"
  shows "e = e'"
proof -
  let ?z = "replicate (4 - length e) 0"
  have four: "\<exists>x y z w. l = [x, y, z, w]" if "length l = 4" for l :: "u8 list"
    using that by (auto simp: eval_nat_numeral length_Suc_conv)
  have "crc32_step (crc32_step c xs) e = crc32_step (crc32_step c xs) e'"
    using assms(3) by (auto simp: crc32_step_append dest: crc32_step_inj)
  then have "crc32_step (crc32_step c xs) (e @ ?z) = crc32_step (crc32_step c xs) (e' @ ?z)"
    by (simp add: crc32_step_append)
  moreover obtain x y z w x' y' z' w' where "e @ ?z = [x, y, z, w]" "e' @ ?z = [x', y', z', w']"
    using assms(1,2) four [of "e @ ?z"] four [of "e' @ ?z"] by auto
  ultimately have "e @ ?z = e' @ ?z" using crc32_four_bytes_inj by metis
  then show ?thesis by simp
qed

text \<open>
  Both checksums change whenever the message changes within as many consecutive bytes as the checksum
  has, two for CRC-16 and four for CRC-32, whatever the bits that flip, the position, and the bytes before
  and after.
\<close>

theorem crc_detects_bursts:
  assumes "length e = length e'" and "e \<noteq> e'"
  shows "(length e \<le> 2 \<longrightarrow> crc16_step 0xFFFF (xs @ e @ ys) \<noteq> crc16_step 0xFFFF (xs @ e' @ ys))
    \<and> (length e \<le> 4 \<longrightarrow> NOT (crc32_step 0xFFFFFFFF (xs @ e @ ys)) \<noteq> NOT (crc32_step 0xFFFFFFFF (xs @ e' @ ys)))"
  using crc16_burst [OF assms(1)] crc32_burst [OF assms(1)] assms(2) by auto

theorem crc_detects_bursts_witness:
  "crc16_step 0xFFFF ([1, 2] @ [3, 9] @ [4]) \<noteq> crc16_step 0xFFFF ([1, 2] @ [7, 8] @ [4])"
  using crc_detects_bursts [of "[3, 9]" "[7, 8]" "[1, 2]" "[4]"] by simp

end
