(* ===== verification/Zerowire.thy ===== *)
theory Zerowire
  imports Crc Span
begin

text \<open>
  The framed wire protocol of \<^verbatim>\<open>zerowire.h\<close> and \<^verbatim>\<open>zerowire.c\<close>: encoder, decoder and the scanner that finds
  the next frame in a noisy stream.  A frame is a record whose payload is the 256-byte array; the
  buffers are in the byte memory.
\<close>

unbundle bit_operations_syntax

record fw_zerowire_frame =
  zf_seq :: u8
  zf_msg_id :: u8
  zf_length :: u16
  zf_payload :: "u8 list"

definition fw_zerowire_encode ::
  "mem \<Rightarrow> fw_zerowire_frame option \<Rightarrow> fw_span \<Rightarrow> usize \<times> mem" where
  "fw_zerowire_encode m frame out_buf =
     (case frame of
        None \<Rightarrow> (0, m)
      | Some f \<Rightarrow>
          if span_data out_buf = FW_NULL then (0, m)
          else if zf_length f > 256 then (0, m)
          else
            let total_size = 6 + ucast (zf_length f) + 2
            in if span_length out_buf < total_size then (0, m)
               else
                 let dst = span_data out_buf;
                     m1 = mem_write m dst [0xAA, 0x55, zf_seq f, zf_msg_id f,
                       ucast (zf_length f AND 0xFF), ucast (drop_bit 8 (zf_length f) AND 0xFF)];
                     m2 = (if zf_length f > 0
                           then mem_write m1 (dst + 6) (take (unat (zf_length f)) (zf_payload f))
                           else m1);
                     crc = fw_crc16_ccitt m2 dst (6 + ucast (zf_length f));
                     m3 = m2(dst + (total_size - 2) := ucast (crc AND 0xFF));
                     m4 = m3(dst + (total_size - 1) := ucast (drop_bit 8 crc AND 0xFF))
                 in (total_size, m4))"

definition fw_zerowire_decode ::
  "mem \<Rightarrow> fw_cspan \<Rightarrow> fw_zerowire_frame option \<Rightarrow> fw_status \<times> fw_zerowire_frame option" where
  "fw_zerowire_decode m raw_data out_frame =
     (if cspan_data raw_data = FW_NULL \<or> out_frame = None then (FW_ERR_INVALID_ARG, out_frame)
      else if cspan_length raw_data < 6 + 2 then (FW_ERR_NOT_FOUND, out_frame)
      else
        let src = cspan_data raw_data
        in if m src \<noteq> 0xAA \<or> m (src + 1) \<noteq> 0x55 then (FW_ERR_CORRUPTED, out_frame)
           else
             let payload_len = of_le16 (m (src + 4)) (m (src + 5))
             in if payload_len > 256 then (FW_ERR_BUFFER_OVERFLOW, out_frame)
                else
                  let total_expected = 6 + ucast payload_len + 2
                  in if cspan_length raw_data < total_expected then (FW_ERR_NOT_FOUND, out_frame)
                     else
                       let expected_crc = fw_crc16_ccitt m src (6 + ucast payload_len);
                           actual_crc = of_le16 (m (src + (total_expected - 2)))
                                                (m (src + (total_expected - 1)))
                       in if expected_crc \<noteq> actual_crc then (FW_ERR_CORRUPTED, out_frame)
                          else (FW_OK, Some
                            \<lparr>zf_seq = m (src + 2), zf_msg_id = m (src + 3), zf_length = payload_len,
                             zf_payload = (if payload_len > 0
                               then mem_read m (src + 6) (unat payload_len)
                                    @ drop (unat payload_len) (zf_payload (the out_frame))
                               else zf_payload (the out_frame))\<rparr>))"

text \<open>The scan loop from index \<open>i\<close>: the status, the frame and the bytes consumed.\<close>

function sync_loop ::
  "mem \<Rightarrow> ptr \<Rightarrow> usize \<Rightarrow> nat \<Rightarrow> fw_zerowire_frame option \<Rightarrow>
   fw_status \<times> fw_zerowire_frame option \<times> usize" where
  "sync_loop m bytes len i out_frame =
     (if i + 1 < unat len then
        if m (bytes + of_nat i) = 0xAA \<and> m (bytes + of_nat (i + 1)) = 0x55 then
          let candidate = fw_cspan_make (bytes + of_nat i) (len - of_nat i);
              (st, out') = fw_zerowire_decode m candidate out_frame
          in if st = FW_OK
             then (FW_OK, out', of_nat i + 6 + ucast (zf_length (the out')) + 2)
             else if st = FW_ERR_NOT_FOUND then (FW_ERR_NOT_FOUND, out', of_nat i)
             else sync_loop m bytes len (i + 1) out'
        else sync_loop m bytes len (i + 1) out_frame
      else (FW_ERR_NOT_FOUND, out_frame, if len > 0 then len - 1 else 0))"
  by auto
termination by (relation "measure (\<lambda>(m, bytes, len, i, f). unat len - i)") auto

declare sync_loop.simps [simp del]

definition fw_zerowire_stream_sync ::
  "mem \<Rightarrow> fw_cspan \<Rightarrow> fw_zerowire_frame option \<Rightarrow> usize option \<Rightarrow>
   fw_status \<times> fw_zerowire_frame option \<times> usize option" where
  "fw_zerowire_stream_sync m stream_data out_frame out_consumed =
     (if cspan_data stream_data = FW_NULL \<or> out_frame = None \<or> out_consumed = None
      then (FW_ERR_INVALID_ARG, out_frame, out_consumed)
      else case sync_loop m (cspan_data stream_data) (cspan_length stream_data) 0 out_frame of
             (st, f, n) \<Rightarrow> (st, f, Some n))"

section \<open>The byte-level meaning\<close>

definition frame_body :: "fw_zerowire_frame \<Rightarrow> u8 list" where
  "frame_body f = [0xAA, 0x55, zf_seq f, zf_msg_id f] @ le16 (zf_length f)
     @ take (unat (zf_length f)) (zf_payload f)"

definition frame_bytes :: "fw_zerowire_frame \<Rightarrow> u8 list" where
  "frame_bytes f = frame_body f @ le16 (crc16_step 0xFFFF (frame_body f))"

text \<open>The C array has 256 bytes and a valid length indexes into it.\<close>

definition frame_wf :: "fw_zerowire_frame \<Rightarrow> bool" where
  "frame_wf f \<longleftrightarrow> length (zf_payload f) = 256 \<and> zf_length f \<le> 256"

definition decode_bytes :: "u8 list \<Rightarrow> fw_zerowire_frame \<Rightarrow> fw_status \<times> fw_zerowire_frame" where
  "decode_bytes bs f0 =
     (if length bs < 8 then (FW_ERR_NOT_FOUND, f0)
      else if bs ! 0 \<noteq> 0xAA \<or> bs ! 1 \<noteq> 0x55 then (FW_ERR_CORRUPTED, f0)
      else let n = unat (of_le16 (bs ! 4) (bs ! 5))
           in if n > 256 then (FW_ERR_BUFFER_OVERFLOW, f0)
              else if length bs < n + 8 then (FW_ERR_NOT_FOUND, f0)
              else if crc16_step 0xFFFF (take (n + 6) bs) \<noteq> of_le16 (bs ! (n + 6)) (bs ! (n + 7))
              then (FW_ERR_CORRUPTED, f0)
              else (FW_OK, \<lparr>zf_seq = bs ! 2, zf_msg_id = bs ! 3, zf_length = of_le16 (bs ! 4) (bs ! 5),
                            zf_payload = take n (drop 6 bs) @ drop n (zf_payload f0)\<rparr>))"

lemma u16_le256: "(x :: u16) \<le> 256 \<longleftrightarrow> unat x \<le> 256"
  by (simp add: word_le_nat_alt)

lemma and_FF16: "ucast ((x :: u16) AND 0xFF) = (ucast x :: u8)"
  by (rule bit_word_eqI) (use and_pow2_minus_one [of x 8] in \<open>auto simp: bit_simps\<close>)

lemma unat_ucast_len [simp]: "unat (ucast (x :: u16) :: usize) = unat x"
proof -
  have "unat x < 2 ^ LENGTH(16)" by (rule unsigned_less)
  then show ?thesis by (simp add: unsigned_ucast_eq take_bit_nat_eq_self)
qed

lemma length_frame_body: "frame_wf f \<Longrightarrow> length (frame_body f) = unat (zf_length f) + 6"
  by (simp add: frame_body_def frame_wf_def u16_le256)

lemma length_frame_bytes: "frame_wf f \<Longrightarrow> length (frame_bytes f) = unat (zf_length f) + 8"
  by (simp add: frame_bytes_def length_frame_body)


lemma mem_write_two: "mem_write m p [a, b] = m(p := a, p + 1 := b)"
proof
  fix x
  have u: "unat (x - p) = 0 \<longleftrightarrow> x = p" "unat (x - p) = 1 \<longleftrightarrow> x = p + 1"
    by (auto simp: unat_eq_0 word_unat_eq_iff [of "x - p" 1, simplified, symmetric] algebra_simps)
  consider "x = p" | "x = p + 1" | "x \<noteq> p \<and> x \<noteq> p + 1" by blast
  then show "mem_write m p [a, b] x = (m(p := a, p + 1 := b)) x"
  proof cases
    case 3
    then have "\<not> unat (x - p) < 2" using u by (auto simp: less_2_cases_iff)
    then show ?thesis using 3 by (simp add: mem_write_def)
  qed (simp_all add: mem_write_def)
qed

text \<open>The word arithmetic of the sizes stays on the naturals.\<close>

lemma unat_frame_size:
  assumes "(n :: u16) \<le> 256"
  shows "unat (6 + ucast n + 2 :: usize) = unat n + 8" and "unat (6 + ucast n :: usize) = unat n + 6"
    and "(6 + ucast n + 2 :: usize) - 2 = of_nat (unat n + 6)"
    and "(6 + ucast n + 2 :: usize) - 1 = of_nat (unat n + 6) + 1"
proof -
  have n: "unat n \<le> 256" using assms by (simp add: u16_le256)
  show a: "unat (6 + ucast n :: usize) = unat n + 6"
    using unat_add_nowrap [of "6 :: usize" "ucast n"] n by simp
  show "unat (6 + ucast n + 2 :: usize) = unat n + 8"
    using unat_add_nowrap [of "6 + ucast n :: usize" 2] a n by simp
  have "(of_nat (unat n) :: usize) = ucast n" by (metis of_nat_unat_id unat_ucast_len)
  then show "(6 + ucast n + 2 :: usize) - 2 = of_nat (unat n + 6)"
    and "(6 + ucast n + 2 :: usize) - 1 = of_nat (unat n + 6) + 1"
    by (simp_all add: algebra_simps)
qed

lemma encode_bytes:
  assumes wf: "frame_wf f" and dst: "span_data out \<noteq> FW_NULL"
    and room: "unat (zf_length f) + 8 \<le> unat (span_length out)"
  shows "fw_zerowire_encode m (Some f) out
    = (of_nat (length (frame_bytes f)), mem_write m (span_data out) (frame_bytes f))"
proof -
  let ?d = "span_data out" and ?n = "zf_length f" and ?b = "frame_body f"
  have n: "?n \<le> 256" and pl: "length (zf_payload f) = 256" using wf by (simp_all add: frame_wf_def)
  note sz = unat_frame_size [OF n]
  have lb: "length ?b = unat ?n + 6" by (rule length_frame_body [OF wf])
  have n256: "unat ?n \<le> 256" using n by (simp add: u16_le256)
  let ?h = "[0xAA, 0x55, zf_seq f, zf_msg_id f, ucast ?n, ucast (drop_bit 8 ?n)] :: u8 list"
  let ?m2 = "mem_write m ?d ?b"
  have body: "?b = ?h @ take (unat ?n) (zf_payload f)" by (simp add: frame_body_def le16_def)
  have m2: "(if ?n > 0 then mem_write (mem_write m ?d ?h) (?d + 6) (take (unat ?n) (zf_payload f))
      else mem_write m ?d ?h) = ?m2"
  proof (cases "?n > 0")
    case True
    then show ?thesis
      using mem_write_append [of ?h "take (unat ?n) (zf_payload f)" m ?d] n256 pl body by simp
  next
    case False
    then show ?thesis using body by (simp add: word_gt_0)
  qed
  have "fw_crc16_ccitt ?m2 ?d (6 + ucast ?n) = crc16_step 0xFFFF (mem_read ?m2 ?d (length ?b))"
    using dst sz(2) lb n256 by (auto simp: fw_crc16_ccitt_def crc16_table_loop_eq)
  also have "mem_read ?m2 ?d (length ?b) = ?b"
    by (rule mem_read_write_same) (use lb n256 in simp)
  finally have crc: "fw_crc16_ccitt ?m2 ?d (6 + ucast ?n) = crc16_step 0xFFFF ?b" .
  let ?c = "crc16_step 0xFFFF ?b"
  have m4: "?m2(?d + of_nat (length ?b) := ucast ?c, ?d + of_nat (length ?b) + 1 := ucast (drop_bit 8 ?c))
      = mem_write m ?d (frame_bytes f)"
    unfolding mem_write_two [symmetric]
    using mem_write_append [of ?b "le16 ?c" m ?d] lb n256
    by (simp only: frame_bytes_def le16_def) simp
  have "unat (6 + ucast ?n + 2 :: usize) = length (frame_bytes f)"
    by (simp only: sz(1) length_frame_bytes [OF wf])
  then have tot: "6 + ucast ?n + 2 = (of_nat (length (frame_bytes f)) :: usize)"
    by (metis of_nat_unat_id)
  have guards: "(?d = FW_NULL) = False" "(?n > 256) = False" "(span_length out < 6 + ucast ?n + 2) = False"
    using dst n room sz(1) by (auto simp: word_less_nat_alt word_le_nat_alt)
  have m4': "?m2(?d + of_nat (unat ?n + 6) := ucast ?c,
      ?d + (of_nat (unat ?n + 6) + 1) := ucast (drop_bit 8 ?c)) = mem_write m ?d (frame_bytes f)"
    using m4 unfolding lb add.assoc .
  show ?thesis
    unfolding fw_zerowire_encode_def option.case Let_def sz(3,4) and_FF16 guards if_False m2 crc m4'
    by (simp only: tot)
qed

lemma decode_eq:
  assumes src: "cspan_data raw \<noteq> FW_NULL"
  shows "fw_zerowire_decode m raw (Some f0) =
    (case decode_bytes (mem_read m (cspan_data raw) (unat (cspan_length raw))) f0 of
       (st, f) \<Rightarrow> (st, Some f))"
proof (cases "cspan_length raw < 8")
  case True
  then show ?thesis
    using src by (simp add: fw_zerowire_decode_def decode_bytes_def word_less_nat_alt)
next
  case False
  let ?p = "cspan_data raw" and ?n = "unat (cspan_length raw)"
  let ?bs = "mem_read m ?p ?n"
  have n8: "8 \<le> ?n" using False by (simp add: word_less_nat_alt)
  then have bs: "?bs ! 0 = m ?p" "?bs ! 1 = m (?p + 1)" "?bs ! 2 = m (?p + 2)" "?bs ! 3 = m (?p + 3)"
    "?bs ! 4 = m (?p + 4)" "?bs ! 5 = m (?p + 5)"
    by simp_all
  let ?l = "of_le16 (m (?p + 4)) (m (?p + 5))"
  show ?thesis
  proof (cases "m ?p = 0xAA \<and> m (?p + 1) = 0x55 \<and> ?l \<le> 256 \<and> unat ?l + 8 \<le> ?n")
    case True
    then have l: "?l \<le> 256" and room: "unat ?l + 8 \<le> ?n" by simp_all
    note sz = unat_frame_size [OF l]
    have tail: "?bs ! (unat ?l + 6) = m (?p + of_nat (unat ?l + 6))"
      "?bs ! (unat ?l + 7) = m (?p + (of_nat (unat ?l + 6) + 1))"
      using room by (simp_all add: add.commute add.left_commute)
    have crc: "fw_crc16_ccitt m ?p (6 + ucast ?l) = crc16_step 0xFFFF (take (unat ?l + 6) ?bs)"
      using src sz(2) room by (auto simp: fw_crc16_ccitt_def crc16_table_loop_eq mem_read_take)
    have pl: "take (unat ?l) (drop 6 ?bs) = mem_read m (?p + 6) (unat ?l)"
      using mem_read_drop [of m ?p 6 ?n] mem_read_take [of "unat ?l" "?n - 6" m "?p + 6"] room by simp
    have guards: "(cspan_length raw < 6 + ucast ?l + 2) = False" "(cspan_length raw < 6 + 2) = False"
      "(?p = FW_NULL \<or> Some f0 = None) = False" "(m ?p \<noteq> 0xAA \<or> m (?p + 1) \<noteq> 0x55) = False"
      "(?l > 256) = False"
      using room sz(1) True False src by (auto simp: word_less_nat_alt word_le_nat_alt)
    have lguards: "(length ?bs < 8) = False" "(unat ?l > 256) = False" "(length ?bs < unat ?l + 8) = False"
      using n8 room l by (auto simp: u16_le256)
    have pay: "(if ?l > 0 then mem_read m (?p + 6) (unat ?l) @ drop (unat ?l) (zf_payload (the (Some f0)))
        else zf_payload (the (Some f0))) = mem_read m (?p + 6) (unat ?l) @ drop (unat ?l) (zf_payload f0)"
      by (simp add: word_gt_0)
    show ?thesis
      unfolding fw_zerowire_decode_def Let_def guards if_False sz(3,4) crc pay
        decode_bytes_def bs lguards tail pl by simp
  next
    case bad: False
    then show ?thesis
      using False src bs n8 unat_frame_size(1) [of ?l]
      by (auto simp: fw_zerowire_decode_def decode_bytes_def Let_def u16_le256 word_less_nat_alt
          word_le_nat_alt simp del: nth_mem_read)
  qed
qed

section \<open>Decoding inverts encoding, and accepts nothing else\<close>

lemma nth_frame_bytes:
  "frame_bytes f = 0xAA # 0x55 # zf_seq f # zf_msg_id f # ucast (zf_length f)
     # ucast (drop_bit 8 (zf_length f)) # take (unat (zf_length f)) (zf_payload f)
     @ le16 (crc16_step 0xFFFF (frame_body f))"
  by (simp add: frame_bytes_def frame_body_def le16_def)

lemma decode_frame_bytes:
  assumes wf: "frame_wf f"
  shows "decode_bytes (frame_bytes f @ rest) f0 =
    (FW_OK, f\<lparr>zf_payload := take (unat (zf_length f)) (zf_payload f)
                          @ drop (unat (zf_length f)) (zf_payload f0)\<rparr>)"
proof -
  let ?n = "unat (zf_length f)" and ?bs = "frame_bytes f @ rest"
  have n: "?n \<le> 256" and pl: "length (zf_payload f) = 256"
    using wf by (simp_all add: frame_wf_def u16_le256)
  have len: "length (frame_bytes f) = ?n + 8" by (rule length_frame_bytes [OF wf])
  have lb: "length (frame_body f) = ?n + 6" by (rule length_frame_body [OF wf])
  have hd: "?bs ! 0 = 0xAA" "?bs ! 1 = 0x55" "?bs ! 2 = zf_seq f" "?bs ! 3 = zf_msg_id f"
    "?bs ! 4 = ucast (zf_length f)" "?bs ! 5 = ucast (drop_bit 8 (zf_length f))"
    by (simp_all add: nth_frame_bytes numeral_eq_Suc)
  have l: "of_le16 (?bs ! 4) (?bs ! 5) = zf_length f" by (simp add: hd of_le16_le16)
  have body: "take (?n + 6) ?bs = frame_body f"
    using lb by (simp add: frame_bytes_def)
  have payload: "take ?n (drop 6 ?bs) = take ?n (zf_payload f)"
    using n pl by (simp add: nth_frame_bytes)
  have "?bs ! (?n + 6) = le16 (crc16_step 0xFFFF (frame_body f)) ! 0"
    "?bs ! (?n + 7) = le16 (crc16_step 0xFFFF (frame_body f)) ! 1"
    using lb by (simp_all add: frame_bytes_def nth_append)
  then have crc: "of_le16 (?bs ! (?n + 6)) (?bs ! (?n + 7)) = crc16_step 0xFFFF (frame_body f)"
    by (simp only: of_le16_le16_nth)
  show ?thesis
    using len n unfolding decode_bytes_def Let_def l body payload crc hd(1-4)
    by simp
qed


lemma of_le16_inj: "of_le16 a b = of_le16 c d \<longleftrightarrow> a = c \<and> b = d"
proof
  assume eq: "of_le16 a b = of_le16 c d"
  have lo: "bit (of_le16 x y) n \<longleftrightarrow> bit x n" if "n < 8" for x y n
    using that by (simp add: of_le16_def bit_simps)
  have hi: "bit (of_le16 x y) (n + 8) \<longleftrightarrow> bit y n" if "n < 8" for x y n
    using that by (auto simp: of_le16_def bit_simps dest: bit_imp_le_length)
  have "bit a n \<longleftrightarrow> bit c n" if "n < LENGTH(8)" for n
    using lo [of n a b] lo [of n c d] that eq by simp
  moreover have "bit b n \<longleftrightarrow> bit d n" if "n < LENGTH(8)" for n
    using hi [of n a b] hi [of n c d] that eq by simp
  ultimately show "a = c \<and> b = d" by (auto intro: bit_word_eqI)
qed simp

lemma le16_of_le16: "le16 (of_le16 a b) = [a, b]"
proof -
  have "of_le16 (ucast (of_le16 a b)) (ucast (drop_bit 8 (of_le16 a b))) = of_le16 a b"
    by (rule of_le16_le16)
  then show ?thesis by (simp add: of_le16_inj le16_def)
qed

lemma decode_bytes_ok:
  assumes ok: "decode_bytes bs f0 = (FW_OK, f)" and f0: "length (zf_payload f0) = 256"
  shows "frame_wf f" and "take (unat (zf_length f) + 8) bs = frame_bytes f"
    and "unat (zf_length f) + 8 \<le> length bs"
proof -
  let ?l = "of_le16 (bs ! 4) (bs ! 5)"
  let ?n = "unat ?l"
  have g: "8 \<le> length bs" "bs ! 0 = 0xAA" "bs ! 1 = 0x55" "?n \<le> 256" "?n + 8 \<le> length bs"
    "crc16_step 0xFFFF (take (?n + 6) bs) = of_le16 (bs ! (?n + 6)) (bs ! (?n + 7))"
    and f: "f = \<lparr>zf_seq = bs ! 2, zf_msg_id = bs ! 3, zf_length = ?l,
      zf_payload = take ?n (drop 6 bs) @ drop ?n (zf_payload f0)\<rparr>"
    using ok by (auto simp: decode_bytes_def Let_def split: if_splits)
  show wf: "frame_wf f" using g f0 by (simp add: f frame_wf_def u16_le256)
  show len: "unat (zf_length f) + 8 \<le> length bs" using g by (simp add: f)
  have hd6: "take 6 bs = [0xAA, 0x55, bs ! 2, bs ! 3, bs ! 4, bs ! 5]"
    using g(1-3) by (intro nth_equalityI) (auto simp: less_Suc_eq numeral_eq_Suc)
  have "take (?n + 6) bs = take 6 bs @ take ?n (drop 6 bs)"
    using take_add [of 6 ?n bs] by (simp add: add.commute)
  also have "\<dots> = frame_body f"
    using g(5) by (simp add: hd6 f frame_body_def le16_of_le16)
  finally have body: "take (?n + 6) bs = frame_body f" .
  have "take (?n + 8) bs = take (?n + 6) bs @ [bs ! (?n + 6), bs ! (?n + 7)]"
    using g(5) by (simp add: take_Suc_conv_app_nth numeral_eq_Suc)
  also have "\<dots> = frame_bytes f"
    using g(6) by (simp only: body frame_bytes_def le16_of_le16)
  finally show "take (unat (zf_length f) + 8) bs = frame_bytes f" by (simp add: f)
qed

text \<open>
  C7: encoding a frame and decoding the buffer, whatever follows the frame in it, gives the frame
  back; and decoding succeeds on nothing but encoded frames: the bytes it accepts are the encoding
  of the frame it returns.
\<close>

theorem zerowire_roundtrip:
  assumes "length (zf_payload f0) = 256" and "d \<noteq> FW_NULL"
  shows "(frame_wf f \<and> unat (zf_length f) + 8 \<le> unat k \<and> unat k \<le> unat n \<longrightarrow>
      (case fw_zerowire_encode m (Some f) (fw_span_make d n) of
         (sz, m') \<Rightarrow> unat sz = unat (zf_length f) + 8
           \<and> fw_zerowire_decode m' (fw_cspan_make d k) (Some f0)
             = (FW_OK, Some (f\<lparr>zf_payload := take (unat (zf_length f)) (zf_payload f)
                                         @ drop (unat (zf_length f)) (zf_payload f0)\<rparr>))))
    \<and> (fw_zerowire_decode m (fw_cspan_make d k) (Some f0) = (FW_OK, Some g) \<longrightarrow>
      frame_wf g \<and> unat (zf_length g) + 8 \<le> unat k
      \<and> mem_read m d (unat (zf_length g) + 8) = frame_bytes g)"
proof (intro conjI impI)
  assume a: "frame_wf f \<and> unat (zf_length f) + 8 \<le> unat k \<and> unat k \<le> unat n"
  let ?fb = "frame_bytes f"
  let ?m' = "mem_write m d ?fb"
  have len: "length ?fb = unat (zf_length f) + 8" using length_frame_bytes a by blast
  have kb: "length ?fb \<le> unat k" using a len by simp
  then have fb32: "length ?fb < 2 ^ 32" using unat_lt32 [of k] by simp
  have enc: "fw_zerowire_encode m (Some f) (fw_span_make d n) = (of_nat (length ?fb), ?m')"
    using encode_bytes [of f "fw_span_make d n" m] a assms(2) by (simp add: fw_span_make_def)
  have usz: "unat (of_nat (length ?fb) :: usize) = length ?fb"
    using fb32 unat_of_nat_small [where 'a = 32, of "length ?fb"] by simp
  have "mem_read ?m' d (unat k) = ?fb @ mem_read ?m' (d + of_nat (length ?fb)) (unat k - length ?fb)"
    using mem_read_append [of ?m' d "length ?fb" "unat k - length ?fb"] kb fb32
    by (simp add: mem_read_write_same)
  then have dec: "fw_zerowire_decode ?m' (fw_cspan_make d k) (Some f0)
      = (FW_OK, Some (f\<lparr>zf_payload := take (unat (zf_length f)) (zf_payload f)
                                  @ drop (unat (zf_length f)) (zf_payload f0)\<rparr>))"
    using decode_eq [of "fw_cspan_make d k" ?m' f0] decode_frame_bytes [of f _ f0] a assms(2)
    by (simp add: fw_cspan_make_def)
  show "case fw_zerowire_encode m (Some f) (fw_span_make d n) of
         (sz, m') \<Rightarrow> unat sz = unat (zf_length f) + 8
           \<and> fw_zerowire_decode m' (fw_cspan_make d k) (Some f0)
             = (FW_OK, Some (f\<lparr>zf_payload := take (unat (zf_length f)) (zf_payload f)
                                         @ drop (unat (zf_length f)) (zf_payload f0)\<rparr>))"
    unfolding enc prod.case usz using len dec by (simp only: simp_thms)
next
  assume "fw_zerowire_decode m (fw_cspan_make d k) (Some f0) = (FW_OK, Some g)"
  then have "decode_bytes (mem_read m d (unat k)) f0 = (FW_OK, g)"
    using decode_eq [of "fw_cspan_make d k" m f0] assms(2)
    by (simp add: fw_cspan_make_def split: prod.splits)
  note ok = decode_bytes_ok [OF this assms(1)]
  show "frame_wf g" "unat (zf_length g) + 8 \<le> unat k"
    "mem_read m d (unat (zf_length g) + 8) = frame_bytes g"
    using ok by (simp_all add: mem_read_take)
qed

definition sample_frame :: fw_zerowire_frame where
  "sample_frame = \<lparr>zf_seq = 1, zf_msg_id = 2, zf_length = 3, zf_payload = replicate 256 7\<rparr>"

theorem zerowire_roundtrip_witness:
  "\<exists>m'. fw_zerowire_encode (\<lambda>_. 0) (Some sample_frame) (fw_span_make 64 32) = (11, m')
     \<and> fw_zerowire_decode m' (fw_cspan_make 64 20) (Some sample_frame) = (FW_OK, Some sample_frame)"
proof -
  have wf: "frame_wf sample_frame" by (simp add: frame_wf_def sample_frame_def)
  obtain sz m' where e: "fw_zerowire_encode (\<lambda>_. 0) (Some sample_frame) (fw_span_make 64 32) = (sz, m')"
    by (cases "fw_zerowire_encode (\<lambda>_. 0) (Some sample_frame) (fw_span_make 64 32)")
  have "unat sz = 11 \<and> fw_zerowire_decode m' (fw_cspan_make 64 20) (Some sample_frame)
      = (FW_OK, Some sample_frame)"
    using zerowire_roundtrip [of sample_frame 64 sample_frame 20 32 "\<lambda>_. 0" sample_frame] wf e
    by (simp add: sample_frame_def flip: replicate_add)
  moreover from this have "sz = 11" by (metis of_nat_numeral of_nat_unat_id)
  ultimately show ?thesis using e by simp
qed


section \<open>Corruption\<close>

lemma decode_corrupted:
  assumes wf: "frame_wf f" and i: "i < length (frame_bytes f)" "i \<noteq> 4" "i \<noteq> 5"
    and b: "b \<noteq> frame_bytes f ! i"
  shows "decode_bytes ((frame_bytes f)[i := b] @ rest) f0 = (FW_ERR_CORRUPTED, f0)"
proof -
  let ?n = "unat (zf_length f)" and ?fb = "frame_bytes f" and ?body = "frame_body f"
  let ?bs = "?fb[i := b] @ rest" and ?c = "crc16_step 0xFFFF (frame_body f)"
  have n: "?n \<le> 256" using wf by (simp add: frame_wf_def u16_le256)
  have len: "length ?fb = ?n + 8" by (rule length_frame_bytes [OF wf])
  have lb: "length ?body = ?n + 6" by (rule length_frame_body [OF wf])
  have keep: "?bs ! j = ?fb ! j" if "j \<noteq> i" "j < ?n + 8" for j
    using that len by (simp add: nth_append)
  have hd: "?fb ! 0 = 0xAA" "?fb ! 1 = 0x55" "?fb ! 4 = ucast (zf_length f)"
    "?fb ! 5 = ucast (drop_bit 8 (zf_length f))"
    by (simp_all add: nth_frame_bytes numeral_eq_Suc)
  have at: "?bs ! i = b" using i len by (simp add: nth_append)
  have l: "of_le16 (?bs ! 4) (?bs ! 5) = zf_length f"
    using keep [of 4] keep [of 5] i by (simp add: hd of_le16_le16)
  show ?thesis
  proof (cases "i = 0 \<or> i = 1")
    case True
    then have "?bs ! 0 \<noteq> 0xAA \<or> ?bs ! 1 \<noteq> 0x55" using at b hd(1,2) by auto
    moreover have "\<not> length ?bs < 8" using len by simp
    ultimately show ?thesis by (auto simp: decode_bytes_def)
  next
    case False
    have crc_tail: "?fb ! (?n + 6) = le16 ?c ! 0" "?fb ! (?n + 7) = le16 ?c ! 1"
      using lb by (simp_all add: frame_bytes_def nth_append)
    have ne: "crc16_step 0xFFFF (take (?n + 6) ?bs) \<noteq> of_le16 (?bs ! (?n + 6)) (?bs ! (?n + 7))"
    proof (cases "i < ?n + 6")
      case True
      then have "take (?n + 6) ?bs = ?body[i := b]"
        using lb len by (simp add: frame_bytes_def list_update_append take_update_swap)
      also have "\<dots> = take i ?body @ b # drop (Suc i) ?body"
        using True lb by (simp add: upd_conv_take_nth_drop)
      finally have t: "take (?n + 6) ?bs = take i ?body @ b # drop (Suc i) ?body" .
      have "?body = take i ?body @ ?body ! i # drop (Suc i) ?body"
        using True lb by (simp add: id_take_nth_drop)
      moreover have "b \<noteq> ?body ! i" using b True lb by (simp add: frame_bytes_def nth_append)
      ultimately have "crc16_step 0xFFFF (take (?n + 6) ?bs) \<noteq> ?c"
        unfolding t using crc16_burst [of "[b]" "[?body ! i]" "0xFFFF" "take i ?body" "drop (Suc i) ?body"] by auto
      moreover have "of_le16 (?bs ! (?n + 6)) (?bs ! (?n + 7)) = ?c"
        using True keep [of "?n + 6"] keep [of "?n + 7"] crc_tail
        by (simp add: of_le16_le16_nth [unfolded One_nat_def])
      ultimately show ?thesis by simp
    next
      case False
      then have "take (?n + 6) ?bs = ?body"
        using lb len by (simp add: frame_bytes_def list_update_append)
      moreover have "of_le16 (?bs ! (?n + 6)) (?bs ! (?n + 7)) \<noteq> of_le16 (le16 ?c ! 0) (le16 ?c ! 1)"
      proof -
        have "i = ?n + 6 \<or> i = ?n + 7" using False i(1) len by linarith
        then show ?thesis
          using at b crc_tail keep [of "?n + 6"] keep [of "?n + 7"] by (auto simp: of_le16_inj)
      qed
      ultimately show ?thesis by (simp add: of_le16_le16_nth [unfolded One_nat_def])
    qed
    have "?bs ! 0 = 0xAA" "?bs ! 1 = 0x55"
      using False keep [of 0] keep [of 1] hd(1,2) by simp_all
    then show ?thesis
      using len n ne unfolding decode_bytes_def Let_def l by simp
  qed
qed

text \<open>
  C29: a frame in which any one byte was changed in transit, the length field excepted, is rejected as
  corrupted: a changed start-of-frame byte by the header test, any other by the checksum.
\<close>

theorem zerowire_detects_corruption:
  assumes "frame_wf f" and "i < unat (zf_length f) + 8" and "i \<noteq> 4" and "i \<noteq> 5"
    and "b \<noteq> frame_bytes f ! i" and "p \<noteq> FW_NULL"
    and "mem_read m p (unat n) = (frame_bytes f)[i := b] @ rest"
  shows "fw_zerowire_decode m (fw_cspan_make p n) (Some f0) = (FW_ERR_CORRUPTED, Some f0)"
  using decode_corrupted [of f i b rest f0] decode_eq [of "fw_cspan_make p n" m f0] assms
  by (simp add: fw_cspan_make_def length_frame_bytes)

theorem zerowire_detects_corruption_witness:
  "fw_zerowire_decode (mem_write (\<lambda>_. 0) 64 ((frame_bytes sample_frame)[7 := 8])) (fw_cspan_make 64 11)
     (Some sample_frame) = (FW_ERR_CORRUPTED, Some sample_frame)"
proof -
  have wf: "frame_wf sample_frame" by (simp add: frame_wf_def sample_frame_def)
  have len: "length (frame_bytes sample_frame) = 11"
    using length_frame_bytes [OF wf] by (simp add: sample_frame_def)
  have nth: "frame_bytes sample_frame ! 7 = 7"
    by (simp add: nth_frame_bytes sample_frame_def nth_append)
  have "mem_read (mem_write (\<lambda>_. 0) 64 ((frame_bytes sample_frame)[7 := 8])) 64 (unat (11 :: usize))
      = (frame_bytes sample_frame)[7 := 8] @ []"
    using mem_read_write_same [of "(frame_bytes sample_frame)[7 := 8]" "\<lambda>_. 0" 64] len by simp
  note bytes = this
  have "(8 :: u8) \<noteq> frame_bytes sample_frame ! 7" and "7 < unat (zf_length sample_frame) + 8"
    using nth by (simp_all add: sample_frame_def)
  then show ?thesis
    using zerowire_detects_corruption [OF wf _ _ _ _ _ bytes, of sample_frame] by simp
qed


section \<open>Finding frames in a stream\<close>

lemma decode_bytes_status:
  "decode_bytes bs f0 = (st, f) \<Longrightarrow> st \<noteq> FW_OK \<Longrightarrow> f = f0"
  by (auto simp: decode_bytes_def Let_def split: if_splits)

text \<open>The positions at which a scan comes to an end.\<close>

definition frame_at :: "u8 list \<Rightarrow> nat \<Rightarrow> fw_zerowire_frame \<Rightarrow> bool" where
  "frame_at bs i f \<longleftrightarrow> frame_wf f \<and> (\<exists>rest. drop i bs = frame_bytes f @ rest)"

definition incomplete_at :: "u8 list \<Rightarrow> nat \<Rightarrow> bool" where
  "incomplete_at bs i \<longleftrightarrow> i + 1 < length bs \<and> bs ! i = 0xAA \<and> bs ! (i + 1) = 0x55
     \<and> (length bs < i + 8
        \<or> (let n = unat (of_le16 (bs ! (i + 4)) (bs ! (i + 5))) in n \<le> 256 \<and> length bs < i + n + 8))"

definition settles :: "u8 list \<Rightarrow> nat \<Rightarrow> bool" where
  "settles bs i \<longleftrightarrow> incomplete_at bs i \<or> (\<exists>f. frame_at bs i f)"

lemma frame_at_le: "frame_at bs i f \<Longrightarrow> i + unat (zf_length f) + 8 \<le> length bs"
proof -
  assume "frame_at bs i f"
  then obtain rest where "frame_wf f" "drop i bs = frame_bytes f @ rest" by (auto simp: frame_at_def)
  then have "length bs - i = unat (zf_length f) + 8 + length rest"
    using length_frame_bytes [of f] by (metis length_append length_drop)
  then show ?thesis by simp
qed

lemma frame_at_sof: "frame_at bs i f \<Longrightarrow> bs ! i = 0xAA \<and> bs ! (i + 1) = 0x55"
proof -
  assume at: "frame_at bs i f"
  then obtain rest where d: "drop i bs = frame_bytes f @ rest" by (auto simp: frame_at_def)
  have "bs ! i = drop i bs ! 0" "bs ! (i + 1) = drop i bs ! 1" using frame_at_le [OF at] by simp_all
  then show ?thesis by (simp add: d frame_bytes_def frame_body_def)
qed

lemma settles_sof: "settles bs i \<Longrightarrow> bs ! i = 0xAA \<and> bs ! (i + 1) = 0x55"
  using frame_at_sof by (auto simp: settles_def incomplete_at_def)

lemma decode_incomplete:
  "incomplete_at bs i \<Longrightarrow> decode_bytes (drop i bs) f0 = (FW_ERR_NOT_FOUND, f0)"
  by (auto simp: incomplete_at_def decode_bytes_def Let_def)

lemma decode_unsettled:
  assumes "\<not> settles bs i" and "i + 1 < length bs" and "bs ! i = 0xAA" and "bs ! (i + 1) = 0x55"
    and f0: "length (zf_payload f0) = 256"
  shows "\<exists>st. decode_bytes (drop i bs) f0 = (st, f0) \<and> st \<noteq> FW_OK \<and> st \<noteq> FW_ERR_NOT_FOUND"
proof -
  obtain st f where d: "decode_bytes (drop i bs) f0 = (st, f)" by (cases "decode_bytes (drop i bs) f0")
  have "st \<noteq> FW_OK"
  proof
    assume "st = FW_OK"
    with d have ok: "decode_bytes (drop i bs) f0 = (FW_OK, f)" by simp
    have "drop i bs = frame_bytes f @ drop (unat (zf_length f) + 8) (drop i bs)"
      using decode_bytes_ok(2) [OF ok f0] by (metis append_take_drop_id)
    then have "frame_at bs i f" using decode_bytes_ok(1) [OF ok f0] unfolding frame_at_def by blast
    then show False using assms(1) by (auto simp: settles_def)
  qed
  moreover have "st \<noteq> FW_ERR_NOT_FOUND"
    using assms d by (auto simp: settles_def incomplete_at_def decode_bytes_def Let_def split: if_splits)
  ultimately show ?thesis using d decode_bytes_status [OF d] by auto
qed

text \<open>The scan, on the bytes.\<close>

lemma sync_candidate:
  assumes p: "p \<noteq> FW_NULL" and nw: "nowrap p (unat len)" and i: "i < unat len"
  shows "fw_zerowire_decode m (fw_cspan_make (p + of_nat i) (len - of_nat i)) (Some f0) =
    (case decode_bytes (drop i (mem_read m p (unat len))) f0 of (st, f) \<Rightarrow> (st, Some f))"
proof -
  have i32: "i < 2 ^ 32" using i unat_lt32 [of len] by simp
  have u: "unat (of_nat i :: usize) = i" using i32 by (simp add: unat_of_nat_small)
  have "unat (p + of_nat i) = unat p + i"
    using unat_add_nowrap [of p "of_nat i"] u nw i by (simp add: nowrap_def)
  moreover have "0 < unat p" using p by (simp add: unat_gt_0)
  ultimately have "p + of_nat i \<noteq> FW_NULL" by auto
  moreover have "unat (len - of_nat i) = unat len - i"
    using u i by (simp add: unat_sub_le word_le_nat_alt)
  moreover have "drop i (mem_read m p (unat len)) = mem_read m (p + of_nat i) (unat len - i)"
    by (simp add: mem_read_drop)
  ultimately show ?thesis
    using decode_eq [of "fw_cspan_make (p + of_nat i) (len - of_nat i)" m f0]
    by (simp add: fw_cspan_make_def)
qed

lemma sync_loop_found:
  fixes m :: mem
  assumes p: "p \<noteq> FW_NULL" and nw: "nowrap p (unat len)"
  defines "bs \<equiv> mem_read m p (unat len)"
  assumes at: "frame_at bs k f"
  shows "sync_loop m p len k (Some f0) = (FW_OK,
      Some (f\<lparr>zf_payload := take (unat (zf_length f)) (zf_payload f)
                            @ drop (unat (zf_length f)) (zf_payload f0)\<rparr>),
      of_nat (k + unat (zf_length f) + 8))"
    and "k + unat (zf_length f) + 8 \<le> unat len"
proof -
  obtain rest where wf: "frame_wf f" and d: "drop k bs = frame_bytes f @ rest"
    using at by (auto simp: frame_at_def)
  show le: "k + unat (zf_length f) + 8 \<le> unat len"
    using frame_at_le [OF at] by (simp add: bs_def)
  then have k: "k < unat len" "k + 1 < unat len" by simp_all
  have sof: "m (p + of_nat k) = 0xAA" "m (p + of_nat (k + 1)) = 0x55"
    using frame_at_sof [OF at] k by (simp_all add: bs_def add.assoc)
  have "(of_nat k + 6 + ucast (zf_length f) + 2 :: usize) = of_nat (k + unat (zf_length f) + 8)"
    using of_nat_unat_id [where 'a = 32, of "ucast (zf_length f)"] by simp
  then show "sync_loop m p len k (Some f0) = (FW_OK,
      Some (f\<lparr>zf_payload := take (unat (zf_length f)) (zf_payload f)
                            @ drop (unat (zf_length f)) (zf_payload f0)\<rparr>),
      of_nat (k + unat (zf_length f) + 8))"
    using k sof sync_candidate [OF p nw k(1), of m f0, folded bs_def] decode_frame_bytes [OF wf, of rest f0]
    by (subst sync_loop.simps) (simp add: Let_def d)
qed

lemma sync_loop_incomplete:
  fixes m :: mem
  assumes p: "p \<noteq> FW_NULL" and nw: "nowrap p (unat len)"
  defines "bs \<equiv> mem_read m p (unat len)"
  assumes at: "incomplete_at bs k"
  shows "sync_loop m p len k (Some f0) = (FW_ERR_NOT_FOUND, Some f0, of_nat k)"
proof -
  have k: "k < unat len" "k + 1 < unat len" using at by (simp_all add: incomplete_at_def bs_def)
  have sof: "m (p + of_nat k) = 0xAA" "m (p + of_nat (k + 1)) = 0x55"
    using at k by (simp_all add: incomplete_at_def bs_def add.assoc)
  show ?thesis
    using k sof sync_candidate [OF p nw k(1), of m f0, folded bs_def] decode_incomplete [OF at, of f0]
    by (subst sync_loop.simps) (simp add: Let_def)
qed

lemma sync_loop_next:
  fixes m :: mem
  assumes p: "p \<noteq> FW_NULL" and nw: "nowrap p (unat len)" and f0: "length (zf_payload f0) = 256"
  defines "bs \<equiv> mem_read m p (unat len)"
  assumes no: "\<not> settles bs i" and i: "i + 1 < unat len"
  shows "sync_loop m p len i (Some f0) = sync_loop m p len (i + 1) (Some f0)"
proof (cases "bs ! i = 0xAA \<and> bs ! (i + 1) = 0x55")
  case False
  then show ?thesis
    using i by (subst sync_loop.simps) (auto simp: bs_def add.assoc)
next
  case True
  have il: "i < unat len" and sof: "m (p + of_nat i) = 0xAA" "m (p + of_nat (i + 1)) = 0x55"
    using True i by (simp_all add: bs_def add.assoc)
  obtain st where d: "decode_bytes (drop i bs) f0 = (st, f0)" "st \<noteq> FW_OK" "st \<noteq> FW_ERR_NOT_FOUND"
    using decode_unsettled [OF no _ _ _ f0] True i by (auto simp: bs_def)
  show ?thesis
    using i sof d sync_candidate [OF p nw il, of m f0, folded bs_def]
    by (subst sync_loop.simps) (simp add: Let_def)
qed

lemma sync_loop_skips:
  fixes m :: mem
  assumes "p \<noteq> FW_NULL" and "nowrap p (unat len)" and "length (zf_payload f0) = 256"
    and "\<forall>j<k. \<not> settles (mem_read m p (unat len)) j" and "k = 0 \<or> k < unat len"
  shows "sync_loop m p len 0 (Some f0) = sync_loop m p len k (Some f0)"
  using assms(4,5)
proof (induction k)
  case (Suc k)
  then show ?case using sync_loop_next [OF assms(1-3), where i = k and m = m] by simp
qed simp

lemma sync_loop_end:
  "unat len \<le> k + 1 \<Longrightarrow>
   sync_loop m p len k (Some f0) = (FW_ERR_NOT_FOUND, Some f0, of_nat (unat len - 1))"
proof -
  assume le: "unat len \<le> k + 1"
  have "(if len > 0 then len - 1 else 0) = of_nat (unat len - 1)"
  proof (cases "len = 0")
    case False
    then have "unat (len - 1) = unat len - 1" by (simp add: unat_minus_one)
    then show ?thesis using False by (metis of_nat_unat_id word_gt_0)
  qed simp
  then show ?thesis using le by (subst sync_loop.simps) simp
qed

text \<open>
  C9: what the stream scanner returns, for every stream. A position settles the scan when a valid frame
  starts there or when a start-of-frame mark stands there whose announced frame does not end inside the
  stream. At the first settling position, a valid frame is returned with FW_OK, the rest of the payload
  buffer unchanged, and the bytes up to its end are consumed; an incomplete frame gives FW_ERR_NOT_FOUND
  and consumes the bytes before it, whatever follows (so that a false mark with a large length field
  holds back a valid frame behind it until enough bytes have come). With no settling position the result
  is FW_ERR_NOT_FOUND and all bytes but the last are consumed. No valid frame is ever skipped.
\<close>

theorem zerowire_sync_first_frame:
  assumes "p \<noteq> FW_NULL" and "nowrap p (unat len)" and "length (zf_payload f0) = 256"
    and "bs = mem_read m p (unat len)"
    and "res = fw_zerowire_stream_sync m (fw_cspan_make p len) (Some f0) (Some c0)"
  shows "(\<forall>k f. frame_at bs k f \<and> (\<forall>j<k. \<not> settles bs j) \<longrightarrow>
        res = (FW_OK, Some (f\<lparr>zf_payload := take (unat (zf_length f)) (zf_payload f)
                                             @ drop (unat (zf_length f)) (zf_payload f0)\<rparr>),
               Some (of_nat (k + unat (zf_length f) + 8)))
        \<and> k + unat (zf_length f) + 8 \<le> unat len)
    \<and> (\<forall>k. incomplete_at bs k \<and> (\<forall>j<k. \<not> settles bs j) \<longrightarrow>
        res = (FW_ERR_NOT_FOUND, Some f0, Some (of_nat k)) \<and> k < unat len)
    \<and> ((\<forall>k. \<not> settles bs k) \<longrightarrow>
        res = (FW_ERR_NOT_FOUND, Some f0, Some (of_nat (unat len - 1))))"
proof -
  have res: "res = (case sync_loop m p len 0 (Some f0) of (st, f, n) \<Rightarrow> (st, f, Some n))"
    using assms(1,5) by (simp add: fw_zerowire_stream_sync_def fw_cspan_make_def)
  note skip = sync_loop_skips [OF assms(1-3), of _ m, folded assms(4)]
  note found = sync_loop_found [OF assms(1,2), of m, folded assms(4)]
  note inc = sync_loop_incomplete [OF assms(1,2), of m, folded assms(4)]
  have lb: "length bs = unat len" using assms(4) by simp
  show ?thesis
  proof (intro conjI allI impI; (elim conjE)?)
    fix k f assume at: "frame_at bs k f" and no: "\<forall>j<k. \<not> settles bs j"
    show le: "k + unat (zf_length f) + 8 \<le> unat len" using found(2) [OF at] .
    show "res = (FW_OK, Some (f\<lparr>zf_payload := take (unat (zf_length f)) (zf_payload f)
                                             @ drop (unat (zf_length f)) (zf_payload f0)\<rparr>),
               Some (of_nat (k + unat (zf_length f) + 8)))"
      using res skip [OF no] le found(1) [OF at, of f0] by simp
  next
    fix k assume at: "incomplete_at bs k" and no: "\<forall>j<k. \<not> settles bs j"
    show k: "k < unat len" using at lb by (simp add: incomplete_at_def)
    show "res = (FW_ERR_NOT_FOUND, Some f0, Some (of_nat k))"
      using res skip [OF no] k inc [OF at, of f0] by simp
  next
    assume no: "\<forall>k. \<not> settles bs k"
    have "\<forall>j<unat len - 1. \<not> settles bs j" and "unat len - 1 = 0 \<or> unat len - 1 < unat len"
      using no by auto
    from skip [OF this] have "sync_loop m p len 0 (Some f0) = sync_loop m p len (unat len - 1) (Some f0)" .
    also have "\<dots> = (FW_ERR_NOT_FOUND, Some f0, of_nat (unat len - 1))"
      by (rule sync_loop_end) simp
    finally show "res = (FW_ERR_NOT_FOUND, Some f0, Some (of_nat (unat len - 1)))" using res by simp
  qed
qed

definition noisy_stream :: "u8 list" where
  "noisy_stream = [1, 0xAA, 2] @ frame_bytes sample_frame @ [9]"

definition held_back_stream :: "u8 list" where
  "held_back_stream = [0xAA, 0x55, 0, 0, 100, 0] @ frame_bytes sample_frame"

theorem zerowire_sync_first_frame_witness:
  "fw_zerowire_stream_sync (mem_write (\<lambda>_. 0) 64 noisy_stream) (fw_cspan_make 64 15) (Some sample_frame) (Some 0)
       = (FW_OK, Some sample_frame, Some 14)
   \<and> fw_zerowire_stream_sync (mem_write (\<lambda>_. 0) 64 held_back_stream) (fw_cspan_make 64 17) (Some sample_frame)
       (Some 0) = (FW_ERR_NOT_FOUND, Some sample_frame, Some 0)"
proof -
  have wf: "frame_wf sample_frame" and zl: "unat (zf_length sample_frame) = 3"
    and pay: "length (zf_payload sample_frame) = 256"
    by (simp_all add: frame_wf_def sample_frame_def)
  have len: "length (frame_bytes sample_frame) = 11" using length_frame_bytes [OF wf] zl by simp
  have "\<not> settles noisy_stream 0" "\<not> settles noisy_stream 1" "\<not> settles noisy_stream 2"
    using settles_sof [of noisy_stream 0] settles_sof [of noisy_stream 1] settles_sof [of noisy_stream 2]
    by (auto simp: noisy_stream_def)
  then have no: "\<forall>j<3. \<not> settles noisy_stream j" by (simp add: numeral_3_eq_3 less_Suc_eq numeral_2_eq_2)
  have at: "frame_at noisy_stream 3 sample_frame" using wf by (simp add: frame_at_def noisy_stream_def)
  have bs: "noisy_stream = mem_read (mem_write (\<lambda>_. 0) 64 noisy_stream) 64 (unat (15 :: usize))"
    using mem_read_write_same [of noisy_stream "\<lambda>_. 0" 64] len by (simp add: noisy_stream_def)
  have inc: "incomplete_at held_back_stream 0"
    using len by (simp add: incomplete_at_def held_back_stream_def of_le16_def)
  have hb: "held_back_stream = mem_read (mem_write (\<lambda>_. 0) 64 held_back_stream) 64 (unat (17 :: usize))"
    using mem_read_write_same [of held_back_stream "\<lambda>_. 0" 64] len by (simp add: held_back_stream_def)
  have nw: "nowrap 64 (unat (15 :: usize))" "nowrap 64 (unat (17 :: usize))" "(64 :: ptr) \<noteq> FW_NULL"
    by (simp_all add: nowrap_def)
  from zerowire_sync_first_frame [OF nw(3,1) pay bs refl, THEN conjunct1, rule_format, OF conjI [OF at no]]
  have "fw_zerowire_stream_sync (mem_write (\<lambda>_. 0) 64 noisy_stream) (fw_cspan_make 64 15) (Some sample_frame)
      (Some 0) = (FW_OK, Some sample_frame, Some 14)"
    by (simp add: zl)
  moreover from zerowire_sync_first_frame [OF nw(3,2) pay hb refl, THEN conjunct2, THEN conjunct1,
      rule_format, of 0] inc
  have "fw_zerowire_stream_sync (mem_write (\<lambda>_. 0) 64 held_back_stream) (fw_cspan_make 64 17)
      (Some sample_frame) (Some 0) = (FW_ERR_NOT_FOUND, Some sample_frame, Some 0)"
    by simp
  ultimately show ?thesis ..
qed

end
