(* ===== verification/Dispatcher.thy ===== *)
theory Dispatcher
  imports Zerowire
begin

text \<open>
  The command dispatcher of \<^verbatim>\<open>dispatcher.h\<close> and \<^verbatim>\<open>dispatcher.c\<close>.  A handler is the application's: what it
  does is a parameter \<open>call\<close> that maps the sequence number and the request bytes to a status, the
  contents it leaves in the 256-byte response buffer, the length it reports and the new state of the
  world.  A result None is undefined behaviour: a reported length beyond the response buffer makes
  the copy into the response frame run past both arrays.
\<close>

record 'h fw_cmd_entry =
  ce_msg_id :: u8
  ce_min_payload_len :: u16
  ce_handler :: "'h option"

record 'h fw_cmd_table =
  ct_entries :: "'h fw_cmd_entry list"
  ct_entry_count :: usize

type_synonym ('h, 'w) cmd_sem = "'h \<Rightarrow> u8 \<Rightarrow> u8 list \<Rightarrow> 'w \<Rightarrow> fw_status \<times> u8 list \<times> usize \<times> 'w"

definition fw_cmd_table_init ::
  "'h fw_cmd_table option \<Rightarrow> 'h fw_cmd_entry list option \<Rightarrow> usize \<Rightarrow>
   fw_status \<times> 'h fw_cmd_table option" where
  "fw_cmd_table_init table entries entry_count =
     (case (table, entries) of
        (Some _, Some es) \<Rightarrow>
          if entry_count = 0 then (FW_ERR_INVALID_ARG, table)
          else (FW_OK, Some \<lparr>ct_entries = es, ct_entry_count = entry_count\<rparr>)
      | _ \<Rightarrow> (FW_ERR_INVALID_ARG, table))"

text \<open>The search loop: the index of the first entry with the message id.\<close>

function find_entry :: "'h fw_cmd_entry list \<Rightarrow> nat \<Rightarrow> u8 \<Rightarrow> nat \<Rightarrow> 'h fw_cmd_entry option" where
  "find_entry es count mid i =
     (if i < count then if ce_msg_id (es ! i) = mid then Some (es ! i)
                        else find_entry es count mid (i + 1)
      else None)"
  by auto
termination by (relation "measure (\<lambda>(es, count, mid, i). count - i)") auto

declare find_entry.simps [simp del]

text \<open>
  The results: the status, the world, the response frame and the response flag.
\<close>

definition fw_cmd_dispatch ::
  "('h, 'w) cmd_sem \<Rightarrow> 'w \<Rightarrow> 'h fw_cmd_table option \<Rightarrow> fw_zerowire_frame option \<Rightarrow>
   fw_zerowire_frame option \<Rightarrow> bool option \<Rightarrow>
   (fw_status \<times> 'w \<times> fw_zerowire_frame option \<times> bool option) option" where
  "fw_cmd_dispatch call w table req out_resp out_has_response =
     (case (table, req) of
        (Some t, Some rq) \<Rightarrow>
          let has = map_option (\<lambda>_. False) out_has_response
          in (case find_entry (ct_entries t) (unat (ct_entry_count t)) (zf_msg_id rq) 0 of
                None \<Rightarrow> Some (FW_ERR_NOT_FOUND, w, out_resp, has)
              | Some entry \<Rightarrow>
                  if zf_length rq < ce_min_payload_len entry
                  then Some (FW_ERR_INVALID_ARG, w, out_resp, has)
                  else (case ce_handler entry of
                          None \<Rightarrow> Some (FW_OK, w, out_resp, has)
                        | Some h \<Rightarrow>
                            (case call h (zf_seq rq) (take (unat (zf_length rq)) (zf_payload rq)) w of
                               (st, buf, resp_len, w') \<Rightarrow>
                                 if st \<noteq> FW_OK then Some (st, w', out_resp, has)
                                 else (case out_resp of
                                         None \<Rightarrow> Some (FW_OK, w', None, has)
                                       | Some r \<Rightarrow>
                                           if resp_len = 0 then Some (FW_OK, w', Some r, has)
                                           else if resp_len > 256 then None
                                           else Some (FW_OK, w',
                                             Some \<lparr>zf_seq = zf_seq rq, zf_msg_id = zf_msg_id rq OR 0x80,
                                                   zf_length = ucast resp_len,
                                                   zf_payload = take (unat resp_len) buf
                                                     @ drop (unat resp_len) (zf_payload r)\<rparr>,
                                             map_option (\<lambda>_. True) out_has_response)))))
      | _ \<Rightarrow> Some (FW_ERR_INVALID_ARG, w, out_resp, out_has_response))"

text \<open>
  One step of the stream loop; \<open>scratch\<close> is what the two frames on the stack hold before they are
  written.  The results: the status, the world, the memory, the bytes consumed and the bytes to send.
\<close>

definition fw_cmd_process_stream ::
  "('h, 'w) cmd_sem \<Rightarrow> fw_zerowire_frame \<Rightarrow> 'w \<Rightarrow> mem \<Rightarrow> 'h fw_cmd_table option \<Rightarrow> fw_cspan \<Rightarrow>
   usize option \<Rightarrow> fw_span \<Rightarrow> usize option \<Rightarrow>
   (fw_status \<times> 'w \<times> mem \<times> usize option \<times> usize option) option" where
  "fw_cmd_process_stream call scratch w m table rx_stream out_consumed tx_out_buf out_tx_len =
     (let tx0 = map_option (\<lambda>_. 0) out_tx_len
      in (case fw_zerowire_stream_sync m rx_stream (Some scratch) out_consumed of
            (sync_st, req, consumed) \<Rightarrow>
              if sync_st \<noteq> FW_OK then Some (sync_st, w, m, consumed, tx0)
              else (case fw_cmd_dispatch call w table req (Some scratch) (Some False) of
                      None \<Rightarrow> None
                    | Some (st, w', resp, has) \<Rightarrow>
                        if st \<noteq> FW_OK then Some (st, w', m, consumed, tx0)
                        else if has = Some True \<and> span_data tx_out_buf \<noteq> FW_NULL \<and> tx0 \<noteq> None
                        then (case fw_zerowire_encode m resp tx_out_buf of
                                (n, m') \<Rightarrow> Some (FW_OK, w', m', consumed, Some n))
                        else Some (FW_OK, w', m, consumed, tx0))))"

section \<open>The search\<close>

lemma find_entry_from:
  "i \<le> j \<Longrightarrow> j < count \<Longrightarrow> ce_msg_id (es ! j) = mid \<Longrightarrow>
     (\<And>k. i \<le> k \<Longrightarrow> k < j \<Longrightarrow> ce_msg_id (es ! k) \<noteq> mid) \<Longrightarrow>
     find_entry es count mid i = Some (es ! j)"
proof (induction es count mid i rule: find_entry.induct)
  case (1 es count mid i)
  show ?case
  proof (cases "i = j")
    case True
    then show ?thesis using 1 by (subst find_entry.simps) simp
  next
    case False
    then show ?thesis using 1 by (subst find_entry.simps) auto
  qed
qed

lemma find_entry_first:
  assumes "j < count" and "ce_msg_id (es ! j) = mid" and "\<And>i. i < j \<Longrightarrow> ce_msg_id (es ! i) \<noteq> mid"
  shows "find_entry es count mid 0 = Some (es ! j)"
  by (rule find_entry_from) (use assms in auto)

lemma find_entry_none:
  "(\<And>j. i \<le> j \<Longrightarrow> j < count \<Longrightarrow> ce_msg_id (es ! j) \<noteq> mid) \<Longrightarrow> find_entry es count mid i = None"
proof (induction es count mid i rule: find_entry.induct)
  case (1 es count mid i)
  then show ?case by (subst find_entry.simps) auto
qed

lemma unat_ucast_resp:
  assumes "(n :: usize) \<le> 256"
  shows "unat (ucast n :: u16) = unat n"
proof -
  have "unat n < 2 ^ LENGTH(16)" using assms by (simp add: word_le_nat_alt)
  then show ?thesis by (simp add: unsigned_ucast_eq take_bit_nat_eq_self)
qed

text \<open>
  C28: a request whose id is in the table, long enough for its entry, runs the handler of the first
  such entry on exactly the request's payload bytes; when the handler succeeds with a reply of at most
  256 bytes the response frame carries the request's sequence number, the id with the response bit
  set and the reply, and a reply that claims more than the buffer holds is undefined behaviour.
\<close>

theorem dispatch_first_match:
  assumes "j < unat (ct_entry_count t)" and "ce_msg_id (ct_entries t ! j) = zf_msg_id rq"
    and "\<And>i. i < j \<Longrightarrow> ce_msg_id (ct_entries t ! i) \<noteq> zf_msg_id rq"
    and "ce_min_payload_len (ct_entries t ! j) \<le> zf_length rq"
    and "ce_handler (ct_entries t ! j) = Some h"
    and "call h (zf_seq rq) (take (unat (zf_length rq)) (zf_payload rq)) w = (st, buf, n, w')"
  shows "fw_cmd_dispatch call w (Some t) (Some rq) (Some r) (Some b) =
    (if st \<noteq> FW_OK then Some (st, w', Some r, Some False)
     else if n = 0 then Some (FW_OK, w', Some r, Some False)
     else if unat n > 256 then None
     else Some (FW_OK, w', Some \<lparr>zf_seq = zf_seq rq, zf_msg_id = zf_msg_id rq OR 0x80,
            zf_length = ucast n,
            zf_payload = take (unat n) buf @ drop (unat n) (zf_payload r)\<rparr>, Some True))"
  using find_entry_first [OF assms(1-3)] assms(4-6)
  by (simp add: fw_cmd_dispatch_def Let_def word_less_nat_alt word_le_nat_alt)

theorem dispatch_first_match_witness:
  "fw_cmd_dispatch (\<lambda>h seq req w. (FW_OK, req @ replicate 255 0, 1, w @ [h])) [''boot'']
      (Some \<lparr>ct_entries = [\<lparr>ce_msg_id = 9, ce_min_payload_len = 0, ce_handler = None\<rparr>,
                           \<lparr>ce_msg_id = 2, ce_min_payload_len = 1, ce_handler = Some ''echo''\<rparr>],
             ct_entry_count = 2\<rparr>)
      (Some \<lparr>zf_seq = 5, zf_msg_id = 2, zf_length = 1, zf_payload = [7]\<rparr>)
      (Some \<lparr>zf_seq = 0, zf_msg_id = 0, zf_length = 0, zf_payload = [1, 2]\<rparr>) (Some False)
   = Some (FW_OK, [''boot'', ''echo''],
       Some \<lparr>zf_seq = 5, zf_msg_id = 0x82, zf_length = 1, zf_payload = [7, 2]\<rparr>, Some True)"
  by (subst dispatch_first_match [where j = 1 and h = "''echo''" and st = FW_OK and n = 1
        and buf = "[7] @ replicate 255 0" and w' = "[''boot'', ''echo'']"])
    (auto simp: less_Suc_eq)

end
