(* ===== verification/Fsm.thy ===== *)
theory Fsm
  imports Prelude
begin

text \<open>
  The table-driven state machine of \<^verbatim>\<open>fsm.h\<close> and \<^verbatim>\<open>fsm.c\<close>.  Guards, actions and entry/exit hooks are the
  application's: a guard is a predicate on the world and the event, an action or hook changes the
  world and may change the machine itself, as a callback that holds a pointer to it can.
\<close>

type_synonym fw_fsm_state = u8
type_synonym fw_fsm_event = u8

definition FW_FSM_STATE_ANY :: fw_fsm_state where "FW_FSM_STATE_ANY = 0xFF"

record ('g, 'a) fw_fsm_transition =
  tr_from_state :: fw_fsm_state
  tr_event :: fw_fsm_event
  tr_guard :: "'g option"
  tr_action :: "'a option"
  tr_to_state :: fw_fsm_state

record 'h fw_fsm_state_desc =
  sd_state :: fw_fsm_state
  sd_on_enter :: "'h option"
  sd_on_exit :: "'h option"

text \<open>The tables are lists of which the code reads the first \<^verbatim>\<open>count\<close> entries; None is \<^verbatim>\<open>NULL\<close>.\<close>

record ('g, 'a, 'h) fw_fsm =
  fs_current_state :: fw_fsm_state
  fs_previous_state :: fw_fsm_state
  fs_transitions :: "('g, 'a) fw_fsm_transition list option"
  fs_transition_count :: usize
  fs_state_descs :: "'h fw_fsm_state_desc list option"
  fs_state_desc_count :: usize

text \<open>The meaning of the application's functions.\<close>

record ('g, 'a, 'h, 'w) fsm_app =
  app_guard :: "'g \<Rightarrow> 'w \<Rightarrow> fw_fsm_event \<Rightarrow> bool"
  app_action :: "'a \<Rightarrow> fw_fsm_event \<Rightarrow> ('g, 'a, 'h) fw_fsm \<times> 'w \<Rightarrow> ('g, 'a, 'h) fw_fsm \<times> 'w"
  app_hook :: "'h \<Rightarrow> ('g, 'a, 'h) fw_fsm \<times> 'w \<Rightarrow> ('g, 'a, 'h) fw_fsm \<times> 'w"

fun find_desc_loop :: "'h fw_fsm_state_desc list \<Rightarrow> fw_fsm_state \<Rightarrow> 'h fw_fsm_state_desc option" where
  "find_desc_loop [] s = None"
| "find_desc_loop (d # ds) s = (if sd_state d = s then Some d else find_desc_loop ds s)"

definition find_state_desc ::
  "('g, 'a, 'h) fw_fsm \<Rightarrow> fw_fsm_state \<Rightarrow> 'h fw_fsm_state_desc option" where
  "find_state_desc fsm s =
     (case fs_state_descs fsm of
        None \<Rightarrow> None
      | Some ds \<Rightarrow> if fs_state_desc_count fsm = 0 then None
                  else find_desc_loop (take (unat (fs_state_desc_count fsm)) ds) s)"

definition run_hook ::
  "('g, 'a, 'h, 'w) fsm_app \<Rightarrow> 'h option \<Rightarrow> ('g, 'a, 'h) fw_fsm \<times> 'w \<Rightarrow> ('g, 'a, 'h) fw_fsm \<times> 'w" where
  "run_hook app h s = (case h of None \<Rightarrow> s | Some f \<Rightarrow> app_hook app f s)"

definition desc_enter :: "'h fw_fsm_state_desc option \<Rightarrow> 'h option" where
  "desc_enter d = (case d of None \<Rightarrow> None | Some x \<Rightarrow> sd_on_enter x)"

definition desc_exit :: "'h fw_fsm_state_desc option \<Rightarrow> 'h option" where
  "desc_exit d = (case d of None \<Rightarrow> None | Some x \<Rightarrow> sd_on_exit x)"

definition fw_fsm_init ::
  "('g, 'a, 'h, 'w) fsm_app \<Rightarrow> ('g, 'a, 'h) fw_fsm option \<Rightarrow> fw_fsm_state \<Rightarrow>
   ('g, 'a) fw_fsm_transition list option \<Rightarrow> usize \<Rightarrow> 'h fw_fsm_state_desc list option \<Rightarrow> usize \<Rightarrow> 'w \<Rightarrow>
   fw_status \<times> ('g, 'a, 'h) fw_fsm option \<times> 'w" where
  "fw_fsm_init app fsm initial ts nt ds nd w =
     (case fsm of
        None \<Rightarrow> (FW_ERR_INVALID_ARG, None, w)
      | Some _ \<Rightarrow>
          let f = \<lparr>fs_current_state = initial, fs_previous_state = initial, fs_transitions = ts,
                   fs_transition_count = nt, fs_state_descs = ds, fs_state_desc_count = nd\<rparr>;
              (f', w') = run_hook app (desc_enter (find_state_desc f initial)) (f, w)
          in (FW_OK, Some f', w'))"

definition fire ::
  "('g, 'a, 'h, 'w) fsm_app \<Rightarrow> ('g, 'a) fw_fsm_transition \<Rightarrow> fw_fsm_event \<Rightarrow>
   ('g, 'a, 'h) fw_fsm \<times> 'w \<Rightarrow> ('g, 'a, 'h) fw_fsm \<times> 'w" where
  "fire app t event s0 =
     (let state_changing = (fs_current_state (fst s0) \<noteq> tr_to_state t);
          s1 = (if state_changing
                then run_hook app (desc_exit (find_state_desc (fst s0) (fs_current_state (fst s0)))) s0
                else s0);
          s2 = (case tr_action t of None \<Rightarrow> s1 | Some a \<Rightarrow> app_action app a event s1);
          s3 = ((fst s2)\<lparr>fs_previous_state := fs_current_state (fst s2),
                         fs_current_state := tr_to_state t\<rparr>, snd s2)
      in if state_changing
         then run_hook app (desc_enter (find_state_desc (fst s3) (fs_current_state (fst s3)))) s3
         else s3)"

fun dispatch_scan ::
  "('g, 'a, 'h, 'w) fsm_app \<Rightarrow> ('g, 'a) fw_fsm_transition list \<Rightarrow> fw_fsm_event \<Rightarrow>
   ('g, 'a, 'h) fw_fsm \<times> 'w \<Rightarrow> fw_status \<times> ('g, 'a, 'h) fw_fsm \<times> 'w" where
  "dispatch_scan app [] event s = (FW_ERR_NOT_FOUND, s)"
| "dispatch_scan app (t # ts) event s =
     (if tr_event t \<noteq> event then dispatch_scan app ts event s
      else if tr_from_state t \<noteq> fs_current_state (fst s) \<and> tr_from_state t \<noteq> FW_FSM_STATE_ANY
      then dispatch_scan app ts event s
      else if (case tr_guard t of None \<Rightarrow> False | Some g \<Rightarrow> \<not> app_guard app g (snd s) event)
      then dispatch_scan app ts event s
      else (FW_OK, fire app t event s))"

definition fw_fsm_dispatch ::
  "('g, 'a, 'h, 'w) fsm_app \<Rightarrow> ('g, 'a, 'h) fw_fsm option \<Rightarrow> fw_fsm_event \<Rightarrow> 'w \<Rightarrow>
   fw_status \<times> ('g, 'a, 'h) fw_fsm option \<times> 'w" where
  "fw_fsm_dispatch app fsm event w =
     (case fsm of
        None \<Rightarrow> (FW_ERR_INVALID_ARG, None, w)
      | Some f \<Rightarrow>
          (case fs_transitions f of
             None \<Rightarrow> (FW_ERR_NOT_FOUND, Some f, w)
           | Some ts \<Rightarrow>
               if fs_transition_count f = 0 then (FW_ERR_NOT_FOUND, Some f, w)
               else (case dispatch_scan app (take (unat (fs_transition_count f)) ts) event (f, w) of
                       (st, f', w') \<Rightarrow> (st, Some f', w'))))"

definition fw_fsm_get_state :: "('g, 'a, 'h) fw_fsm option \<Rightarrow> fw_fsm_state" where
  "fw_fsm_get_state fsm = (case fsm of None \<Rightarrow> FW_FSM_STATE_ANY | Some f \<Rightarrow> fs_current_state f)"

definition fw_fsm_get_previous_state :: "('g, 'a, 'h) fw_fsm option \<Rightarrow> fw_fsm_state" where
  "fw_fsm_get_previous_state fsm =
     (case fsm of None \<Rightarrow> FW_FSM_STATE_ANY | Some f \<Rightarrow> fs_previous_state f)"

section \<open>The first enabled transition fires\<close>

text \<open>When a transition may be taken.\<close>

definition enabled ::
  "('g, 'a, 'h, 'w) fsm_app \<Rightarrow> fw_fsm_state \<Rightarrow> 'w \<Rightarrow> fw_fsm_event \<Rightarrow> ('g, 'a) fw_fsm_transition \<Rightarrow> bool" where
  "enabled app cur w event t \<longleftrightarrow>
     tr_event t = event \<and> (tr_from_state t = cur \<or> tr_from_state t = FW_FSM_STATE_ANY)
     \<and> (case tr_guard t of None \<Rightarrow> True | Some g \<Rightarrow> app_guard app g w event)"

lemma dispatch_scan_find:
  "dispatch_scan app ts event s =
     (case find (enabled app (fs_current_state (fst s)) (snd s) event) ts of
        None \<Rightarrow> (FW_ERR_NOT_FOUND, s) | Some t \<Rightarrow> (FW_OK, fire app t event s))"
  by (induction ts) (auto simp: enabled_def split: option.splits)

text \<open>Callbacks that leave the machine alone.\<close>

definition app_passive :: "('g, 'a, 'h, 'w) fsm_app \<Rightarrow> bool" where
  "app_passive app \<longleftrightarrow> (\<forall>a e f w. fst (app_action app a e (f, w)) = f) \<and> (\<forall>h f w. fst (app_hook app h (f, w)) = f)"

lemma passive_hook: "app_passive app \<Longrightarrow> fst (run_hook app h (f, w)) = f"
  by (cases h) (auto simp: app_passive_def run_hook_def)

text \<open>What the world sees of a transition, in order: exit hook, action, entry hook.\<close>

definition hook_effect ::
  "('g, 'a, 'h, 'w) fsm_app \<Rightarrow> ('g, 'a, 'h) fw_fsm \<Rightarrow> 'h option \<Rightarrow> 'w \<Rightarrow> 'w" where
  "hook_effect app f h w = snd (run_hook app h (f, w))"

definition action_effect ::
  "('g, 'a, 'h, 'w) fsm_app \<Rightarrow> ('g, 'a, 'h) fw_fsm \<Rightarrow> ('g, 'a) fw_fsm_transition \<Rightarrow> fw_fsm_event \<Rightarrow> 'w \<Rightarrow> 'w" where
  "action_effect app f t event w =
     (case tr_action t of None \<Rightarrow> w | Some a \<Rightarrow> snd (app_action app a event (f, w)))"

lemma fire_passive:
  assumes p: "app_passive app"
  defines "f' \<equiv> \<lambda>f t. f\<lparr>fs_previous_state := fs_current_state f, fs_current_state := tr_to_state t\<rparr>"
  shows "fire app t event (f, w) =
    (f' f t,
     if fs_current_state f = tr_to_state t then action_effect app f t event w
     else hook_effect app (f' f t) (desc_enter (find_state_desc f (tr_to_state t)))
       (action_effect app f t event
         (hook_effect app f (desc_exit (find_state_desc f (fs_current_state f))) w)))"
proof -
  have act: "(case tr_action t of None \<Rightarrow> (f, v) | Some a \<Rightarrow> app_action app a event (f, v))
      = (f, action_effect app f t event v)" for v
    using p by (auto simp: app_passive_def action_effect_def prod_eq_iff split: option.splits)
  have hook: "run_hook app h (g, v) = (g, hook_effect app g h v)" for h g v
    using passive_hook [OF p, of h g v] by (simp add: hook_effect_def prod_eq_iff)
  have desc: "find_state_desc (f' f t) s = find_state_desc f s" for s
    by (cases "fs_state_descs f") (simp_all add: f'_def find_state_desc_def)
  have cur: "fs_current_state (f' f t) = tr_to_state t" by (simp add: f'_def)
  show ?thesis
    using desc [unfolded f'_def] cur [unfolded f'_def]
    by (simp add: fire_def Let_def hook act f'_def cong: option.case_cong)
qed

text \<open>
  C38: an event fires the first transition in the table whose event, origin (or the wildcard) and guard
  match, and no other: the machine moves to its destination remembering the old state, and the world
  sees the exit hook of the old state, the action and the entry hook of the new one in that order, or
  the action alone on a self-transition.  With no match the event is ignored.
\<close>

theorem fsm_first_match:
  assumes "app_passive app" and "fs_transitions f = Some ts"
    and "unat (fs_transition_count f) = length ts" and "ts \<noteq> []"
  shows "fw_fsm_dispatch app (Some f) event w =
    (case find (enabled app (fs_current_state f) w event) ts of
       None \<Rightarrow> (FW_ERR_NOT_FOUND, Some f, w)
     | Some t \<Rightarrow>
         let f' = f\<lparr>fs_previous_state := fs_current_state f, fs_current_state := tr_to_state t\<rparr>
         in (FW_OK, Some f',
           if fs_current_state f = tr_to_state t then action_effect app f t event w
           else hook_effect app f' (desc_enter (find_state_desc f (tr_to_state t)))
             (action_effect app f t event
               (hook_effect app f (desc_exit (find_state_desc f (fs_current_state f))) w))))"
proof -
  have "fs_transition_count f \<noteq> 0" using assms(3,4) by auto
  then show ?thesis
    using assms(2,3)
    by (simp add: fw_fsm_dispatch_def dispatch_scan_find fire_passive [OF assms(1)] Let_def
        split: option.split)
qed

definition demo_app :: "(unit, string, string, string list) fsm_app" where
  "demo_app = \<lparr>app_guard = \<lambda>_ w _. w \<noteq> [], app_action = \<lambda>a e (f, w). (f, w @ [a]),
     app_hook = \<lambda>h (f, w). (f, w @ [h])\<rparr>"

definition demo_fsm :: "(unit, string, string) fw_fsm" where
  "demo_fsm = \<lparr>fs_current_state = 1, fs_previous_state = 1,
     fs_transitions = Some [
       \<lparr>tr_from_state = 1, tr_event = 7, tr_guard = Some (), tr_action = None, tr_to_state = 3\<rparr>,
       \<lparr>tr_from_state = 0xFF, tr_event = 7, tr_guard = None, tr_action = Some ''act'', tr_to_state = 2\<rparr>],
     fs_transition_count = 2,
     fs_state_descs = Some [\<lparr>sd_state = 1, sd_on_enter = None, sd_on_exit = Some ''bye''\<rparr>,
       \<lparr>sd_state = 2, sd_on_enter = Some ''hi'', sd_on_exit = None\<rparr>],
     fs_state_desc_count = 2\<rparr>"

theorem fsm_first_match_witness:
  "fw_fsm_dispatch demo_app (Some demo_fsm) 7 []
    = (FW_OK, Some (demo_fsm\<lparr>fs_previous_state := 1, fs_current_state := 2\<rparr>), [''bye'', ''act'', ''hi''])"
proof -
  have "app_passive demo_app" by (auto simp: app_passive_def demo_app_def)
  from fsm_first_match [OF this, of demo_fsm _ 7 "[]"] show ?thesis
    by (simp add: demo_fsm_def enabled_def demo_app_def FW_FSM_STATE_ANY_def Let_def hook_effect_def
        action_effect_def run_hook_def find_state_desc_def desc_enter_def desc_exit_def)
qed

end
