(* ===== verification/Dsp_Filter.thy ===== *)
theory Dsp_Filter
  imports Prelude "HOL-Library.Multiset"
begin

text \<open>
  The signal filters of \<^verbatim>\<open>dsp/filter.h\<close> and \<^verbatim>\<open>filter.c\<close>: exponential moving averages by arithmetic
  shifts, the median filters (a comparison chain and a sorting network) and the debouncer.  A shift by
  the width of the operand or more is undefined behaviour, the result None.
\<close>

unbundle bit_operations_syntax

section \<open>Moving averages\<close>

definition fw_filter_ema_u16 :: "u16 \<Rightarrow> u16 \<Rightarrow> u8 \<Rightarrow> u16 option" where
  "fw_filter_ema_u16 current_ema new_sample alpha_shift =
     (let diff = uint new_sample - uint current_ema
      in if alpha_shift < 32
         then Some (word_of_int (uint current_ema + drop_bit (unat alpha_shift) diff)) else None)"

definition fw_filter_ema_i32 :: "u32 \<Rightarrow> u32 \<Rightarrow> u8 \<Rightarrow> u32 option" where
  "fw_filter_ema_i32 current_ema new_sample alpha_shift =
     (let diff = sint new_sample - sint current_ema
      in if alpha_shift < 64
         then Some (word_of_int (sint current_ema + drop_bit (unat alpha_shift) diff)) else None)"

lemma shift_between:
  fixes d :: int
  shows "0 \<le> d \<Longrightarrow> 0 \<le> drop_bit k d \<and> drop_bit k d \<le> d"
    and "d < 0 \<Longrightarrow> d \<le> drop_bit k d \<and> drop_bit k d < 0"
proof -
  have p: "(1 :: int) \<le> 2 ^ k" by simp
  assume d: "0 \<le> d"
  then show "0 \<le> drop_bit k d \<and> drop_bit k d \<le> d"
    using p zdiv_mono2 [of d 1 "2 ^ k"] by (simp add: drop_bit_eq_div pos_imp_zdiv_nonneg_iff)
next
  assume d: "d < 0"
  have "d * 2 ^ k \<le> d * 1" using d by (intro mult_left_mono_neg) simp_all
  then have "d * 2 ^ k div 2 ^ k \<le> d div 2 ^ k" by (intro zdiv_mono1) simp_all
  then show "d \<le> drop_bit k d \<and> drop_bit k d < 0"
    using d by (simp add: drop_bit_eq_div pos_imp_zdiv_neg_iff)
qed

lemma shift_zero_iff: "0 \<le> (d :: int) \<Longrightarrow> drop_bit k d = 0 \<longleftrightarrow> d < 2 ^ k"
  using zero_less_power [of "2 :: int" k] by (auto simp: drop_bit_eq_div zdiv_eq_0_iff)

lemma shift_neg_nonzero: "d < 0 \<Longrightarrow> drop_bit k d \<noteq> (0 :: int)"
  using shift_between(2) [of d k] by linarith

text \<open>
  Neither average ever overshoots: the new value lies between the old one and the sample (so the
  cast back never truncates), it moves strictly towards a smaller sample, and it stays put exactly
  when the sample is above it by less than the filter's dead band \<open>2 ^ alpha_shift\<close>.
\<close>

theorem ema_between:
  "(alpha < 32 \<longrightarrow> (\<exists>y'. fw_filter_ema_u16 y x alpha = Some y' \<and>
      (if y \<le> x then y \<le> y' \<and> y' \<le> x else x \<le> y' \<and> y' < y)
      \<and> (y' = y \<longleftrightarrow> y \<le> x \<and> uint x - uint y < 2 ^ unat alpha)))
   \<and> (alpha < 64 \<longrightarrow> (\<exists>z'. fw_filter_ema_i32 z v alpha = Some z' \<and>
      (if sint z \<le> sint v then sint z \<le> sint z' \<and> sint z' \<le> sint v
       else sint v \<le> sint z' \<and> sint z' < sint z)
      \<and> (z' = z \<longleftrightarrow> sint z \<le> sint v \<and> sint v - sint z < 2 ^ unat alpha)))"
proof (intro conjI impI)
  assume a: "alpha < 32"
  let ?d = "uint x - uint y" and ?k = "unat alpha"
  define s where "s = uint y + drop_bit ?k ?d"
  have rng: "0 \<le> uint y" "uint y < 2 ^ 16" "0 \<le> uint x" "uint x < 2 ^ 16"
    using uint_bounded [of y] uint_bounded [of x] by simp_all
  have btw: "if uint y \<le> uint x then uint y \<le> s \<and> s \<le> uint x else uint x \<le> s \<and> s < uint y"
    using shift_between [of ?d ?k] by (auto simp: s_def)
  then have "0 \<le> s \<and> s < 2 ^ 16"
    using rng by (cases "uint y \<le> uint x") (simp_all only: if_True if_False, linarith+)
  then have u: "uint (word_of_int s :: u16) = s" by (simp add: unsigned_of_int take_bit_int_eq_self)
  have stay: "s = uint y \<longleftrightarrow> uint y \<le> uint x \<and> uint x - uint y < 2 ^ ?k"
    using shift_neg_nonzero [of ?d ?k] shift_zero_iff [of ?d ?k]
    by (cases "uint y \<le> uint x") (simp_all add: s_def)
  have r: "fw_filter_ema_u16 y x alpha = Some (word_of_int s)"
    using a by (simp add: fw_filter_ema_u16_def s_def)
  show "\<exists>y'. fw_filter_ema_u16 y x alpha = Some y' \<and>
      (if y \<le> x then y \<le> y' \<and> y' \<le> x else x \<le> y' \<and> y' < y)
      \<and> (y' = y \<longleftrightarrow> y \<le> x \<and> uint x - uint y < 2 ^ unat alpha)"
    using btw stay u r
    by (intro exI [of _ "word_of_int s"])
      (auto simp: word_le_def word_less_def word_uint_eq_iff split: if_splits)
next
  assume a: "alpha < 64"
  let ?d = "sint v - sint z" and ?k = "unat alpha"
  define s where "s = sint z + drop_bit ?k ?d"
  have rng: "- (2 ^ 31) \<le> sint z" "sint z < 2 ^ 31" "- (2 ^ 31) \<le> sint v" "sint v < 2 ^ 31"
    using sint_ge [of z] sint_lt [of z] sint_ge [of v] sint_lt [of v] by simp_all
  have btw: "if sint z \<le> sint v then sint z \<le> s \<and> s \<le> sint v else sint v \<le> s \<and> s < sint z"
    using shift_between [of ?d ?k] by (auto simp: s_def)
  then have "- (2 ^ 31) \<le> s \<and> s < 2 ^ 31" using rng by (auto split: if_splits)
  then have u: "sint (word_of_int s :: u32) = s"
    by (simp add: signed_of_int signed_take_bit_int_eq_self)
  have stay: "s = sint z \<longleftrightarrow> sint z \<le> sint v \<and> sint v - sint z < 2 ^ ?k"
    using shift_neg_nonzero [of ?d ?k] shift_zero_iff [of ?d ?k]
    by (cases "sint z \<le> sint v") (simp_all add: s_def)
  have "word_of_int (sint z) = z" by simp
  then have eq: "(word_of_int s = z) = (s = sint z)" using u by metis
  show "\<exists>z'. fw_filter_ema_i32 z v alpha = Some z' \<and>
      (if sint z \<le> sint v then sint z \<le> sint z' \<and> sint z' \<le> sint v
       else sint v \<le> sint z' \<and> sint z' < sint z)
      \<and> (z' = z \<longleftrightarrow> sint z \<le> sint v \<and> sint v - sint z < 2 ^ unat alpha)"
    using a btw stay u eq
    by (intro exI [of _ "word_of_int s"])
      (auto simp: fw_filter_ema_i32_def s_def simp del: of_int_add split: if_splits)
qed

theorem ema_between_witness:
  "\<exists>y'. fw_filter_ema_u16 10 250 2 = Some y' \<and> 10 \<le> y' \<and> y' \<le> 250 \<and> y' \<noteq> 10"
  using ema_between [of 2 10 250 0 0] by auto


section \<open>Median filters\<close>

definition fw_filter_median3_u16 :: "u16 \<Rightarrow> u16 \<Rightarrow> u16 \<Rightarrow> u16" where
  "fw_filter_median3_u16 a b c =
     (if a \<le> b \<and> b \<le> c then b
      else if a \<le> c \<and> c \<le> b then c
      else if b \<le> a \<and> a \<le> c then a
      else if b \<le> c \<and> c \<le> a then c
      else if c \<le> a \<and> a \<le> b then a
      else b)"

definition SWAP_IF_GREATER :: "u16 \<Rightarrow> u16 \<Rightarrow> u16 \<times> u16" where
  "SWAP_IF_GREATER a b = (if a > b then (b, a) else (a, b))"

definition fw_filter_median5_u16 :: "u16 \<Rightarrow> u16 \<Rightarrow> u16 \<Rightarrow> u16 \<Rightarrow> u16 \<Rightarrow> u16" where
  "fw_filter_median5_u16 s0 s1 s2 s3 s4 =
     (let (s0, s1) = SWAP_IF_GREATER s0 s1;
          (s2, s3) = SWAP_IF_GREATER s2 s3;
          (s0, s2) = SWAP_IF_GREATER s0 s2;
          (s1, s3) = SWAP_IF_GREATER s1 s3;
          (s1, s2) = SWAP_IF_GREATER s1 s2;
          (s0, s4) = SWAP_IF_GREATER s0 s4;
          (s1, s4) = SWAP_IF_GREATER s1 s4;
          (s2, s4) = SWAP_IF_GREATER s2 s4;
          (s2, s3) = SWAP_IF_GREATER s2 s3
      in s2)"

lemma swap_greater: "SWAP_IF_GREATER a b = (min a b, max a b)"
  by (auto simp: SWAP_IF_GREATER_def min_def max_def)

text \<open>The first five exchanges sort four samples.\<close>

lemma network4:
  fixes a b c d :: u16
  assumes "(a1, b1) = (min a b, max a b)" and "(c1, d1) = (min c d, max c d)"
    and "(a2, c2) = (min a1 c1, max a1 c1)" and "(b2, d2) = (min b1 d1, max b1 d1)"
    and "(b3, c3) = (min b2 c2, max b2 c2)"
  shows "a2 \<le> b3" and "b3 \<le> c3" and "c3 \<le> d2" and "{#a2, b3, c3, d2#} = {#a, b, c, d#}"
  using assms by (auto simp: min_def max_def split: if_splits)

text \<open>The next three insert the fifth sample below them.\<close>

lemma network5:
  fixes a b c d e :: u16
  assumes "a \<le> b" and "b \<le> c" and "c \<le> d"
    and "(a1, e1) = (min a e, max a e)" and "(b1, e2) = (min b e1, max b e1)"
    and "(c1, e3) = (min c e2, max c e2)"
  shows "a1 \<le> b1" and "b1 \<le> c1" and "c1 \<le> d" and "c1 \<le> e3"
    and "{#a1, b1, c1, d, e3#} = {#a, b, c, d, e#}"
  using assms by (auto simp: min_def max_def split: if_splits)

lemma third_of_sort:
  assumes "mset [a, b, c, d, e] = mset xs" and "a \<le> b" and "b \<le> c" and "c \<le> d" and "c \<le> e"
  shows "sort xs ! 2 = (c :: u16)"
proof (cases "d \<le> e")
  case True
  have t: "a \<le> c" "a \<le> d" "a \<le> e" "b \<le> d" "b \<le> e" using assms(2-5) by order+
  from True have "sort xs = [a, b, c, d, e]"
    using assms t by (intro properties_for_sort) simp_all
  then show ?thesis by simp
next
  case False
  have t: "a \<le> c" "a \<le> d" "a \<le> e" "b \<le> d" "b \<le> e" using assms(2-5) by order+
  from False have "sort xs = [a, b, c, e, d]"
    using assms t by (intro properties_for_sort) (simp_all add: add_mset_commute)
  then show ?thesis by simp
qed

lemma second_of_sort:
  assumes "mset [a, b, c] = mset xs" and "a \<le> b" and "b \<le> c"
  shows "sort xs ! 1 = (b :: u16)"
proof -
  have "sort xs = [a, b, c]" using assms by (intro properties_for_sort) simp_all
  then show ?thesis by simp
qed

lemma median3_correct: "fw_filter_median3_u16 a b c = sort [a, b, c] ! 1"
  by (auto simp: fw_filter_median3_u16_def)

lemma median5_correct: "fw_filter_median5_u16 a b c d e = sort [a, b, c, d, e] ! 2"
proof -
  define a1 b1 c1 d1 where n1: "a1 = min a b" "b1 = max a b" "c1 = min c d" "d1 = max c d"
  define a2 c2 b2 d2 where n2: "a2 = min a1 c1" "c2 = max a1 c1" "b2 = min b1 d1" "d2 = max b1 d1"
  define b3 c3 where n3: "b3 = min b2 c2" "c3 = max b2 c2"
  define a4 e4 b4 e5 c4 e6 where n4: "a4 = min a2 e" "e4 = max a2 e" "b4 = min b3 e4"
    "e5 = max b3 e4" "c4 = min c3 e5" "e6 = max c3 e5"
  have s4: "a2 \<le> b3" "b3 \<le> c3" "c3 \<le> d2" "{#a2, b3, c3, d2#} = {#a, b, c, d#}"
    using network4 [of a1 b1 a b c1 d1 c d a2 c2 b2 d2 b3 c3] by (simp_all add: n1 n2 n3)
  have s5: "a4 \<le> b4" "b4 \<le> c4" "c4 \<le> d2" "c4 \<le> e6"
    "{#a4, b4, c4, d2, e6#} = {#a2, b3, c3, d2, e#}"
    using network5 [OF s4(1-3), of a4 e4 e b4 e5 c4 e6] by (simp_all add: n4)
  have "{#a4, b4, c4, d2, e6#} = add_mset e {#a2, b3, c3, d2#}"
    unfolding s5(5) by (simp add: add_mset_commute)
  also have "\<dots> = add_mset e {#a, b, c, d#}" by (simp only: s4(4))
  finally have "mset [a4, b4, c4, d2, e6] = mset [a, b, c, d, e]" by (simp add: add_mset_commute)
  then have "sort [a, b, c, d, e] ! 2 = c4"
    by (rule third_of_sort) (use s5 in simp_all)
  moreover have "fw_filter_median5_u16 a b c d e = min c4 d2"
    unfolding fw_filter_median5_u16_def swap_greater Let_def prod.case n1 n2 n3 n4 by (rule refl)
  ultimately show ?thesis using s5(3) by (simp add: min_absorb1)
qed

text \<open>
  Both median filters return the middle element of the sorted samples: the comparison chain of
  the three-sample filter covers every order and the nine-exchange network of the five-sample one
  leaves the median in its middle wire.
\<close>

theorem median_filters_correct:
  "fw_filter_median3_u16 a b c = sort [a, b, c] ! 1
   \<and> fw_filter_median5_u16 s0 s1 s2 s3 s4 = sort [s0, s1, s2, s3, s4] ! 2"
  by (rule conjI [OF median3_correct median5_correct])

section \<open>The debouncer\<close>

record fw_debounce =
  db_counter :: u16
  db_threshold :: u16
  db_debounced_state :: bool

definition fw_debounce_init :: "fw_debounce option \<Rightarrow> u16 \<Rightarrow> bool \<Rightarrow> fw_debounce option" where
  "fw_debounce_init db threshold initial_state =
     (case db of
        None \<Rightarrow> None
      | Some _ \<Rightarrow> Some \<lparr>db_counter = 0, db_threshold = (if threshold > 0 then threshold else 1),
                       db_debounced_state = initial_state\<rparr>)"

definition fw_debounce_update :: "fw_debounce option \<Rightarrow> bool \<Rightarrow> bool \<times> fw_debounce option" where
  "fw_debounce_update db raw_sample =
     (case db of
        None \<Rightarrow> (False, None)
      | Some d \<Rightarrow>
          if raw_sample = db_debounced_state d then (False, Some (d\<lparr>db_counter := 0\<rparr>))
          else
            let d1 = d\<lparr>db_counter := db_counter d + 1\<rparr>
            in if db_counter d1 \<ge> db_threshold d1
               then (True, Some (d1\<lparr>db_debounced_state := raw_sample, db_counter := 0\<rparr>))
               else (False, Some d1))"

definition fw_debounce_is_active :: "fw_debounce option \<Rightarrow> bool" where
  "fw_debounce_is_active db = (case db of None \<Rightarrow> False | Some d \<Rightarrow> db_debounced_state d)"

definition debounce_step :: "bool \<Rightarrow> fw_debounce \<Rightarrow> fw_debounce" where
  "debounce_step x d = the (snd (fw_debounce_update (Some d) x))"

lemma debounce_step_same: "x = db_debounced_state d \<Longrightarrow> debounce_step x d = d\<lparr>db_counter := 0\<rparr>"
  by (simp add: debounce_step_def fw_debounce_update_def)

lemma debounce_step_differs:
  "x \<noteq> db_debounced_state d \<Longrightarrow> debounce_step x d =
     (if db_threshold d \<le> db_counter d + 1 then d\<lparr>db_debounced_state := x, db_counter := 0\<rparr>
      else d\<lparr>db_counter := db_counter d + 1\<rparr>)"
  by (simp add: debounce_step_def fw_debounce_update_def Let_def)

text \<open>How many of the last samples differ from \<open>s\<close>.\<close>

definition run_length :: "bool \<Rightarrow> bool list \<Rightarrow> nat" where
  "run_length s xs = length (takeWhile (\<lambda>x. x \<noteq> s) (rev xs))"

lemma run_length_window:
  assumes "n \<le> run_length s xs"
  shows "\<exists>ys. xs = ys @ replicate n (\<not> s)"
proof -
  let ?t = "takeWhile (\<lambda>x. x \<noteq> s) (rev xs)"
  have "take n (rev xs) = replicate n (\<not> s)"
  proof (rule replicate_eqI)
    show "length (take n (rev xs)) = n"
      using assms length_takeWhile_le [of "\<lambda>x. x \<noteq> s" "rev xs"] by (simp add: run_length_def)
    fix y assume "y \<in> set (take n (rev xs))"
    moreover have "take n (rev xs) = take n ?t"
      using assms by (metis run_length_def takeWhile_eq_take take_take min.absorb2 min.commute)
    ultimately have "y \<in> set ?t" by (metis in_set_takeD)
    then show "y = (\<not> s)" using set_takeWhileD by fastforce
  qed
  then have "rev xs = replicate n (\<not> s) @ drop n (rev xs)" by (metis append_take_drop_id)
  then have "xs = rev (drop n (rev xs)) @ replicate n (\<not> s)"
    by (metis rev_append rev_rev_ident rev_replicate)
  then show ?thesis by blast
qed

text \<open>Without a window of \<open>threshold\<close> equal samples the state stays and the counter is the run length.\<close>

lemma debounce_no_window:
  fixes d :: fw_debounce
  assumes thr: "0 < db_threshold d" and c0: "db_counter d = 0"
    and none: "\<And>ys zs. xs \<noteq> ys @ replicate (unat (db_threshold d)) (\<not> db_debounced_state d) @ zs"
  shows "fold debounce_step xs d = d\<lparr>db_counter := of_nat (run_length (db_debounced_state d) xs)\<rparr>
    \<and> run_length (db_debounced_state d) xs < unat (db_threshold d)"
  using none
proof (induction xs rule: rev_induct)
  case Nil
  then show ?case using thr c0 by (simp add: run_length_def unat_gt_0 word_gt_0)
next
  case (snoc x xs)
  let ?s = "db_debounced_state d" and ?n = "run_length (db_debounced_state d) xs"
  have IH: "fold debounce_step xs d = d\<lparr>db_counter := of_nat ?n\<rparr>" "?n < unat (db_threshold d)"
    using snoc.IH snoc.prems by (metis append.assoc)+
  have lt: "run_length ?s (xs @ [x]) < unat (db_threshold d)"
  proof (rule ccontr)
    assume "\<not> ?thesis"
    then have "\<exists>ys. xs @ [x] = ys @ replicate (unat (db_threshold d)) (\<not> ?s)"
      by (intro run_length_window) simp
    then show False using snoc.prems [of _ "[]"] by auto
  qed
  show ?case
  proof (cases "x = ?s")
    case True
    then show ?thesis
      using IH lt by (simp add: debounce_step_same run_length_def)
  next
    case False
    then have r: "run_length ?s (xs @ [x]) = Suc ?n" by (simp add: run_length_def)
    have "Suc ?n < 2 ^ LENGTH(16)"
      using lt r unsigned_less [of "db_threshold d", where 'a = nat] by simp
    then have "unat (of_nat (Suc ?n) :: u16) = Suc ?n" by (rule unat_of_nat_small)
    then have "\<not> db_threshold d \<le> of_nat ?n + 1"
      using lt r by (simp add: word_le_nat_alt add.commute)
    then show ?thesis
      using IH lt r False by (simp add: debounce_step_differs add.commute)
  qed
qed

lemma debounce_window:
  assumes "db_counter d = of_nat n" and "n + Suc k = unat (db_threshold d)"
  shows "fold debounce_step (replicate (Suc k) (\<not> db_debounced_state d)) d
    = d\<lparr>db_debounced_state := \<not> db_debounced_state d, db_counter := 0\<rparr>"
  using assms
proof (induction k arbitrary: n d)
  case 0
  have "db_threshold d = of_nat n + 1"
    using 0 of_nat_unat_id [of "db_threshold d"] by (metis of_nat_Suc add.commute add_Suc_right add_0_right)
  then show ?case using 0 by (simp add: debounce_step_differs)
next
  case (Suc k)
  have "Suc n < 2 ^ LENGTH(16)"
    using Suc.prems(2) unsigned_less [of "db_threshold d", where 'a = nat] by simp
  then have "unat (of_nat (Suc n) :: u16) = Suc n" by (rule unat_of_nat_small)
  then have "\<not> db_threshold d \<le> of_nat n + 1"
    using Suc.prems(2) by (simp add: word_le_nat_alt add.commute)
  then have step: "debounce_step (\<not> db_debounced_state d) d = d\<lparr>db_counter := of_nat (Suc n)\<rparr>"
    using Suc.prems(1) by (simp add: debounce_step_differs add.commute)
  show ?case
    using Suc.IH [of "d\<lparr>db_counter := of_nat (Suc n)\<rparr>" "Suc n"] Suc.prems(2) step by simp
qed

text \<open>
  From a reset debouncer, no sequence of samples without a window of \<open>threshold\<close> consecutive
  samples against the current state changes the state, however long it bounces, and such a window
  flips it exactly at its last sample.
\<close>

theorem debounce_needs_window:
  assumes "0 < db_threshold d" and "db_counter d = 0"
    and "\<And>ys zs. xs \<noteq> ys @ replicate (unat (db_threshold d)) (\<not> db_debounced_state d) @ zs"
  shows "db_debounced_state (fold debounce_step xs d) = db_debounced_state d
    \<and> fold debounce_step (replicate (unat (db_threshold d)) (\<not> db_debounced_state d)) d
      = d\<lparr>db_debounced_state := \<not> db_debounced_state d\<rparr>"
proof -
  obtain k where k: "unat (db_threshold d) = Suc k"
    using assms(1) gr0_conv_Suc [of "unat (db_threshold d)"] by (auto simp: word_gt_0 unat_gt_0)
  have "d\<lparr>db_debounced_state := b, db_counter := 0\<rparr> = d\<lparr>db_debounced_state := b\<rparr>" for b
    using assms(2) by (cases d) simp
  then show ?thesis
    using debounce_no_window [OF assms] debounce_window [of d 0 k] assms(2) k by simp
qed

theorem debounce_needs_window_witness:
  "fold debounce_step [True, True, True] \<lparr>db_counter = 0, db_threshold = 3, db_debounced_state = False\<rparr>
     = \<lparr>db_counter = 0, db_threshold = 3, db_debounced_state = True\<rparr>
   \<and> db_debounced_state (fold debounce_step [True, True, False]
      \<lparr>db_counter = 0, db_threshold = 3, db_debounced_state = False\<rparr>) = False"
proof -
  let ?d = "\<lparr>db_counter = 0, db_threshold = 3, db_debounced_state = False\<rparr>"
  have "[True, True, False] \<noteq> ys @ replicate 3 True @ zs" for ys zs
  proof
    assume eq: "[True, True, False] = ys @ replicate 3 True @ zs"
    then have "length ys + 3 + length zs = 3" by (auto dest: arg_cong [of _ _ length])
    with eq show False by (simp add: numeral_3_eq_3)
  qed
  moreover have "replicate 3 True = [True, True, True]" by (simp add: numeral_3_eq_3)
  ultimately show ?thesis
    using debounce_needs_window [of ?d "[True, True, False]"] by (simp del: fold_replicate)
qed

end
