(* ===== verification/Exchange.thy ===== *)
theory Exchange
  imports Prelude "HOL-Library.Multiset"
begin

text \<open>
  The exchange sort that \<^verbatim>\<open>hook.c\<close> (over the matched hook entries) and \<^verbatim>\<open>init.c\<close> (over the entries of
  one level, those of the other levels staying where they are) both contain: two nested loops that
  swap whenever the earlier element is greater.  The locale states what such a loop owes to its
  comparison; the two components interpret it on their own.
\<close>

definition exchange_step :: "('a \<Rightarrow> 'a \<Rightarrow> bool) \<Rightarrow> nat \<Rightarrow> nat \<Rightarrow> 'a list \<Rightarrow> 'a list" where
  "exchange_step gt i j xs = (if gt (xs ! i) (xs ! j) then xs[i := xs ! j, j := xs ! i] else xs)"

text \<open>The inner loop over j from \<open>i + 1\<close> and the outer loop over i, both below n.\<close>

definition exchange_inner :: "('a \<Rightarrow> 'a \<Rightarrow> bool) \<Rightarrow> nat \<Rightarrow> nat \<Rightarrow> 'a list \<Rightarrow> 'a list" where
  "exchange_inner gt n i xs = fold (exchange_step gt i) [i + 1..<n] xs"

definition exchange_sort :: "('a \<Rightarrow> 'a \<Rightarrow> bool) \<Rightarrow> nat \<Rightarrow> 'a list \<Rightarrow> 'a list" where
  "exchange_sort gt n xs = fold (exchange_inner gt n) [0..<n] xs"

text \<open>Invariant rule for a counting loop.\<close>

lemma fold_upt_inv:
  assumes "a \<le> b" and "P a s" and "\<And>i s. a \<le> i \<Longrightarrow> i < b \<Longrightarrow> P i s \<Longrightarrow> P (Suc i) (f i s)"
  shows "P b (fold f [a..<b] s)"
  using assms
proof (induction b)
  case (Suc b)
  show ?case
  proof (cases "a \<le> b")
    case True
    then have "P b (fold f [a..<b] s)" using Suc by simp
    then show ?thesis using True Suc.prems(3) by simp
  next
    case False
    then show ?thesis using Suc.prems by (simp add: le_Suc_eq)
  qed
qed simp

lemma mset_swap_upd:
  "i < length xs \<Longrightarrow> j < length xs \<Longrightarrow> mset (xs[i := xs ! j, j := xs ! i]) = mset xs"
  by (rule mset_swap)

lemma exchange_step_length [simp]: "length (exchange_step gt i j xs) = length xs"
  by (simp add: exchange_step_def)

lemma exchange_step_mset:
  "i < length xs \<Longrightarrow> j < length xs \<Longrightarrow> mset (exchange_step gt i j xs) = mset xs"
  by (simp add: exchange_step_def mset_swap_upd)

locale exchange =
  fixes gt :: "'a \<Rightarrow> 'a \<Rightarrow> bool"
    and sel :: "'a \<Rightarrow> bool"
    and key :: "'a \<Rightarrow> 'k::linorder"
  assumes gt_iff: "gt x y \<longleftrightarrow> sel x \<and> sel y \<and> key y < key x"
begin

text \<open>The selected elements of the first i positions are in their final place.\<close>

definition settled :: "nat \<Rightarrow> nat \<Rightarrow> 'a list \<Rightarrow> bool" where
  "settled n i xs \<longleftrightarrow>
     (\<forall>a<i. \<forall>b. a < b \<longrightarrow> b < n \<longrightarrow> sel (xs ! a) \<longrightarrow> sel (xs ! b) \<longrightarrow> key (xs ! a) \<le> key (xs ! b))"

text \<open>What the loops preserve: the elements, the positions not selected, everything from n on.\<close>

definition same_elems :: "nat \<Rightarrow> 'a list \<Rightarrow> 'a list \<Rightarrow> bool" where
  "same_elems n xs ys \<longleftrightarrow> length ys = length xs \<and> mset (take n ys) = mset (take n xs)
     \<and> drop n ys = drop n xs
     \<and> (\<forall>k<length xs. sel (ys ! k) = sel (xs ! k) \<and> (\<not> sel (xs ! k) \<longrightarrow> ys ! k = xs ! k))"

lemma same_elems_refl [simp]: "same_elems n xs xs"
  by (simp add: same_elems_def)

lemma same_elems_trans: "same_elems n xs ys \<Longrightarrow> same_elems n ys zs \<Longrightarrow> same_elems n xs zs"
  by (auto simp: same_elems_def)

lemma step_same_elems:
  assumes "i < n" "j < n" "n \<le> length xs"
  shows "same_elems n xs (exchange_step gt i j xs)"
proof -
  have "take n (exchange_step gt i j xs) = exchange_step gt i j (take n xs)"
    using assms by (simp add: exchange_step_def take_update_swap)
  then have "mset (take n (exchange_step gt i j xs)) = mset (take n xs)"
    using assms by (simp add: exchange_step_mset)
  then show ?thesis
    using assms by (auto simp: same_elems_def exchange_step_def gt_iff nth_list_update)
qed

lemma step_settled:
  assumes "i < j" "j < n" "n \<le> length xs" "settled n i xs"
  shows "settled n i (exchange_step gt i j xs)"
  using assms unfolding settled_def exchange_step_def
  by (auto simp: nth_list_update split: if_splits)

definition least_upto :: "nat \<Rightarrow> nat \<Rightarrow> 'a list \<Rightarrow> bool" where
  "least_upto i j xs \<longleftrightarrow>
     (\<forall>b. i < b \<longrightarrow> b < j \<longrightarrow> sel (xs ! i) \<longrightarrow> sel (xs ! b) \<longrightarrow> key (xs ! i) \<le> key (xs ! b))"

lemma step_least:
  assumes "i < j" "j < length xs" "least_upto i j xs"
  shows "least_upto i (Suc j) (exchange_step gt i j xs)"
  using assms unfolding least_upto_def exchange_step_def gt_iff
  by (auto simp: nth_list_update less_Suc_eq not_less)

lemma inner_inv:
  assumes "i < n" "n \<le> length xs" "settled n i xs"
  shows "same_elems n xs (exchange_inner gt n i xs) \<and> settled n (Suc i) (exchange_inner gt n i xs)"
proof -
  let ?I = "\<lambda>j ys. same_elems n xs ys \<and> settled n i ys \<and> least_upto i j ys"
  have "?I n (exchange_inner gt n i xs)"
    unfolding exchange_inner_def
  proof (rule fold_upt_inv [where P = ?I])
    show "?I (i + 1) xs" using assms by (simp add: least_upto_def)
    fix j s assume j: "i + 1 \<le> j" "j < n" and I: "?I j s"
    have len: "length s = length xs" using I by (simp add: same_elems_def)
    have "same_elems n s (exchange_step gt i j s)" "settled n i (exchange_step gt i j s)"
        "least_upto i (Suc j) (exchange_step gt i j s)"
      using j I len assms by (simp_all add: step_same_elems step_settled step_least)
    then show "?I (Suc j) (exchange_step gt i j s)" using I same_elems_trans by blast
  qed (use assms in simp)
  then show ?thesis by (auto simp: settled_def least_upto_def less_Suc_eq)
qed

lemma sort_inv:
  assumes "n \<le> length xs"
  shows "same_elems n xs (exchange_sort gt n xs) \<and> settled n n (exchange_sort gt n xs)"
  unfolding exchange_sort_def
proof (rule fold_upt_inv [where P = "\<lambda>i ys. same_elems n xs ys \<and> settled n i ys"])
  show "same_elems n xs xs \<and> settled n 0 xs" by (simp add: settled_def)
  fix i s assume "0 \<le> i" "i < n" and I: "same_elems n xs s \<and> settled n i s"
  then have "n \<le> length s" using assms by (simp add: same_elems_def)
  then have "same_elems n s (exchange_inner gt n i s) \<and> settled n (Suc i) (exchange_inner gt n i s)"
    using \<open>i < n\<close> I inner_inv by blast
  then show "same_elems n xs (exchange_inner gt n i s) \<and> settled n (Suc i) (exchange_inner gt n i s)"
    using I same_elems_trans by blast
qed simp

lemma sort_selected:
  assumes "n \<le> length xs"
  shows "sorted (map key (filter sel (take n (exchange_sort gt n xs))))"
    and "mset (filter sel (take n (exchange_sort gt n xs))) = mset (filter sel (take n xs))"
proof -
  let ?ys = "exchange_sort gt n xs"
  have ys: "same_elems n xs ?ys" "settled n n ?ys" using sort_inv [OF assms] by blast+
  have "sorted_wrt (\<lambda>x y. sel x \<longrightarrow> sel y \<longrightarrow> key x \<le> key y) (take n ?ys)"
    using ys assms by (simp add: sorted_wrt_iff_nth_less settled_def same_elems_def)
  then have "sorted_wrt (\<lambda>x y. sel x \<longrightarrow> sel y \<longrightarrow> key x \<le> key y) (filter sel (take n ?ys))"
    by (rule sorted_wrt_filter)
  then show "sorted (map key (filter sel (take n ?ys)))"
    by (auto simp: sorted_map elim!: sorted_wrt_mono_rel [rotated])
  show "mset (filter sel (take n ?ys)) = mset (filter sel (take n xs))"
    using ys(1) by (simp add: same_elems_def)
qed

lemma sort_elems:
  assumes "n \<le> length xs"
  shows "length (exchange_sort gt n xs) = length xs"
    and "mset (take n (exchange_sort gt n xs)) = mset (take n xs)"
    and "drop n (exchange_sort gt n xs) = drop n xs"
    and "k < length xs \<Longrightarrow> \<not> sel (xs ! k) \<Longrightarrow> exchange_sort gt n xs ! k = xs ! k"
    and "k < length xs \<Longrightarrow> sel (exchange_sort gt n xs ! k) = sel (xs ! k)"
  using sort_inv [OF assms] by (auto simp: same_elems_def)

end

end
