(* ===== verification/Hook.thy ===== *)
theory Hook
  imports Exchange
begin

text \<open>
  The priority-ordered event hooks of \<^verbatim>\<open>hook.h\<close> and \<^verbatim>\<open>hook.c\<close>.  A callback is a value of a type
  \<open>'f\<close> (None is \<^verbatim>\<open>NULL\<close>), a cookie one of \<open>'c\<close>; what running a callback does is a parameter, since
  callbacks are the application's: it may change the world and the table it was called from.
  The refinement reads a table as a map from (event, callback) to (priority, cookie).
\<close>

datatype fw_hook_action = FW_HOOK_STOP | FW_HOOK_CONTINUE

record ('f, 'c) fw_hook_entry =
  he_event_id :: u32
  he_callback :: "'f option"
  he_cookie :: 'c
  he_priority :: u8
  he_active :: bool

definition FW_HOOK_MAX_ENTRIES :: nat where "FW_HOOK_MAX_ENTRIES = 32"

record ('f, 'c) fw_hook_table =
  ht_entries :: "('f, 'c) fw_hook_entry list"
  ht_count :: usize
  ht_total_dispatches :: usize
  ht_total_intercepts :: usize

text \<open>The all-zero entry \<^verbatim>\<open>memset\<close> leaves; \<open>c0\<close> is the NULL cookie.\<close>

definition zero_hook_entry :: "'c \<Rightarrow> ('f, 'c) fw_hook_entry" where
  "zero_hook_entry c0 = \<lparr>he_event_id = 0, he_callback = None, he_cookie = c0, he_priority = 0, he_active = False\<rparr>"

definition fw_hook_table_init ::
  "'c \<Rightarrow> ('f, 'c) fw_hook_table option \<Rightarrow> fw_status \<times> ('f, 'c) fw_hook_table option" where
  "fw_hook_table_init c0 table =
     (case table of
        None \<Rightarrow> (FW_ERR_INVALID_ARG, None)
      | Some _ \<Rightarrow> (FW_OK, Some \<lparr>ht_entries = replicate FW_HOOK_MAX_ENTRIES (zero_hook_entry c0), ht_count = 0,
                             ht_total_dispatches = 0, ht_total_intercepts = 0\<rparr>))"

definition hook_matches :: "u32 \<Rightarrow> ('f, 'c) fw_hook_entry \<Rightarrow> bool" where
  "hook_matches ev e \<longleftrightarrow> he_active e \<and> he_event_id e = ev"

definition hook_is :: "u32 \<Rightarrow> 'f \<Rightarrow> ('f, 'c) fw_hook_entry \<Rightarrow> bool" where
  "hook_is ev cb e \<longleftrightarrow> he_active e \<and> he_event_id e = ev \<and> he_callback e = Some cb"

text \<open>The registration loop: \<^verbatim>\<open>Inl i\<close> returns at the entry already registered, \<^verbatim>\<open>Inr\<close> the free slot.\<close>

fun register_scan ::
  "('f, 'c) fw_hook_entry list \<Rightarrow> u32 \<Rightarrow> 'f \<Rightarrow> nat \<Rightarrow> nat option \<Rightarrow> nat + nat option" where
  "register_scan [] ev cb i free_slot = Inr free_slot"
| "register_scan (e # es) ev cb i free_slot =
     (if he_active e then
        (if he_event_id e = ev \<and> he_callback e = Some cb then Inl i
         else register_scan es ev cb (i + 1) free_slot)
      else register_scan es ev cb (i + 1) (if free_slot = None then Some i else free_slot))"

definition fw_hook_register ::
  "('f, 'c) fw_hook_table option \<Rightarrow> u32 \<Rightarrow> 'f option \<Rightarrow> u8 \<Rightarrow> 'c \<Rightarrow>
   fw_status \<times> ('f, 'c) fw_hook_table option" where
  "fw_hook_register table event_id callback priority cookie =
     (case (table, callback) of
        (Some t, Some cb) \<Rightarrow>
          (case register_scan (ht_entries t) event_id cb 0 None of
             Inl i \<Rightarrow>
               (FW_OK, Some (t\<lparr>ht_entries := (ht_entries t)[i :=
                  (ht_entries t ! i)\<lparr>he_priority := priority, he_cookie := cookie\<rparr>]\<rparr>))
           | Inr None \<Rightarrow> (FW_ERR_BUFFER_OVERFLOW, Some t)
           | Inr (Some i) \<Rightarrow>
               (FW_OK, Some (t\<lparr>ht_entries := (ht_entries t)[i :=
                    \<lparr>he_event_id = event_id, he_callback = Some cb, he_cookie = cookie,
                     he_priority = priority, he_active = True\<rparr>],
                  ht_count := ht_count t + 1\<rparr>)))
      | _ \<Rightarrow> (FW_ERR_INVALID_ARG, table))"

definition fw_hook_unregister ::
  "('f, 'c) fw_hook_table option \<Rightarrow> u32 \<Rightarrow> 'f option \<Rightarrow> fw_status \<times> ('f, 'c) fw_hook_table option" where
  "fw_hook_unregister table event_id callback =
     (case (table, callback) of
        (Some t, Some cb) \<Rightarrow>
          (case find_idx (hook_is event_id cb) (ht_entries t) of
             None \<Rightarrow> (FW_ERR_NOT_FOUND, Some t)
           | Some i \<Rightarrow>
               (FW_OK, Some (t\<lparr>ht_entries := (ht_entries t)[i := (ht_entries t ! i)\<lparr>he_active := False\<rparr>],
                  ht_count := (if ht_count t > 0 then ht_count t - 1 else ht_count t)\<rparr>)))
      | _ \<Rightarrow> (FW_ERR_INVALID_ARG, table))"

text \<open>What running a callback does: action, table and world.\<close>

type_synonym ('f, 'd, 'c, 'w) hook_sem =
  "'f \<Rightarrow> u32 \<Rightarrow> 'd \<Rightarrow> 'c \<Rightarrow> ('f, 'c) fw_hook_table \<times> 'w \<Rightarrow>
   fw_hook_action \<times> ('f, 'c) fw_hook_table \<times> 'w"

text \<open>\<^verbatim>\<open>matched\<close> holds pointers into the table: indices, whose entries are read when they are used.\<close>

definition matched_entries :: "('f, 'c) fw_hook_table \<Rightarrow> u32 \<Rightarrow> nat list" where
  "matched_entries t ev = filter (\<lambda>i. hook_matches ev (ht_entries t ! i)) [0..<FW_HOOK_MAX_ENTRIES]"

definition hook_gt :: "('f, 'c) fw_hook_table \<Rightarrow> nat \<Rightarrow> nat \<Rightarrow> bool" where
  "hook_gt t a b \<longleftrightarrow> he_priority (ht_entries t ! a) > he_priority (ht_entries t ! b)"

fun execute_hooks ::
  "('f, 'd, 'c, 'w) hook_sem \<Rightarrow> u32 \<Rightarrow> 'd \<Rightarrow> nat list \<Rightarrow> ('f, 'c) fw_hook_table \<Rightarrow> 'w \<Rightarrow>
   fw_hook_action \<times> ('f, 'c) fw_hook_table \<times> 'w" where
  "execute_hooks call ev d [] t w = (FW_HOOK_CONTINUE, t, w)"
| "execute_hooks call ev d (i # is) t w =
     (case he_callback (ht_entries t ! i) of
        None \<Rightarrow> execute_hooks call ev d is t w
      | Some cb \<Rightarrow>
          (case call cb ev d (he_cookie (ht_entries t ! i)) (t, w) of
             (action, t', w') \<Rightarrow>
               if action = FW_HOOK_STOP
               then (FW_HOOK_STOP, t'\<lparr>ht_total_intercepts := ht_total_intercepts t' + 1\<rparr>, w')
               else execute_hooks call ev d is t' w'))"

definition fw_hook_dispatch ::
  "('f, 'd, 'c, 'w) hook_sem \<Rightarrow> ('f, 'c) fw_hook_table option \<Rightarrow> u32 \<Rightarrow> 'd \<Rightarrow> 'w \<Rightarrow>
   fw_hook_action \<times> ('f, 'c) fw_hook_table option \<times> 'w" where
  "fw_hook_dispatch call table ev d w =
     (case table of
        None \<Rightarrow> (FW_HOOK_CONTINUE, None, w)
      | Some t0 \<Rightarrow>
          let t = t0\<lparr>ht_total_dispatches := ht_total_dispatches t0 + 1\<rparr>;
              matched = matched_entries t ev
          in if matched = [] then (FW_HOOK_CONTINUE, Some t, w)
             else
               (case execute_hooks call ev d (exchange_sort (hook_gt t) (length matched) matched) t w of
                  (a, t', w') \<Rightarrow> (a, Some t', w')))"

definition fw_hook_count :: "('f, 'c) fw_hook_table option \<Rightarrow> u32 \<Rightarrow> usize" where
  "fw_hook_count table ev =
     (case table of None \<Rightarrow> 0 | Some t \<Rightarrow> fold (\<lambda>e c. if hook_matches ev e then c + 1 else c) (ht_entries t) 0)"

section \<open>A table as a finite map\<close>

definition hook_key :: "('f, 'c) fw_hook_entry \<Rightarrow> u32 \<times> 'f" where
  "hook_key e = (he_event_id e, the (he_callback e))"

definition active_hooks :: "('f, 'c) fw_hook_table \<Rightarrow> ('f, 'c) fw_hook_entry list" where
  "active_hooks t = filter he_active (ht_entries t)"

definition hook_wf :: "('f, 'c) fw_hook_table \<Rightarrow> bool" where
  "hook_wf t \<longleftrightarrow> length (ht_entries t) = FW_HOOK_MAX_ENTRIES
     \<and> ht_count t = of_nat (length (active_hooks t))
     \<and> (\<forall>e\<in>set (active_hooks t). he_callback e \<noteq> None)
     \<and> distinct (map hook_key (active_hooks t))"

definition hook_map :: "('f, 'c) fw_hook_table \<Rightarrow> u32 \<times> 'f \<Rightarrow> (u8 \<times> 'c) option" where
  "hook_map t = map_of (map (\<lambda>e. (hook_key e, he_priority e, he_cookie e)) (active_hooks t))"

lemma register_scan_eq:
  "register_scan es ev cb i free =
     (case find_idx (hook_is ev cb) es of
        Some k \<Rightarrow> Inl (i + k)
      | None \<Rightarrow> Inr (if free = None then map_option ((+) i) (find_idx (\<lambda>e. \<not> he_active e) es) else free))"
proof (induction es arbitrary: i free)
  case (Cons e es)
  have "map_option ((+) i) (map_option Suc z) = map_option ((+) (i + 1)) z" for z :: "nat option"
    by (cases z) simp_all
  then show ?case
    by (cases "he_active e"; cases free) (simp_all add: Cons.IH hook_is_def split: option.splits)
qed simp

lemma hook_is_key:
  "he_active e \<Longrightarrow> he_callback e \<noteq> None \<Longrightarrow> hook_is ev cb e \<longleftrightarrow> hook_key e = (ev, cb)"
  by (auto simp: hook_is_def hook_key_def)

lemma hook_map_None:
  assumes "hook_wf t"
  shows "hook_map t (ev, cb) = None \<longleftrightarrow> find_idx (hook_is ev cb) (ht_entries t) = None"
  using assms unfolding hook_map_def hook_wf_def map_of_eq_None_iff find_idx_None_iff
  by (auto simp: active_hooks_def hook_is_key image_iff) (auto simp: hook_is_def hook_key_def)

lemma dom_hook_map: "dom (hook_map t) = hook_key ` set (active_hooks t)"
  by (simp add: hook_map_def dom_map_of_conv_image_fst image_image)

lemma card_hook_map: "hook_wf t \<Longrightarrow> card (dom (hook_map t)) = length (active_hooks t)"
  unfolding dom_hook_map hook_wf_def by (metis distinct_card length_map set_map)

lemma active_hooks_le: "hook_wf t \<Longrightarrow> length (active_hooks t) \<le> 32"
  unfolding hook_wf_def active_hooks_def FW_HOOK_MAX_ENTRIES_def by (metis length_filter_le)

lemma no_inactive_iff:
  assumes "hook_wf t"
  shows "find_idx (\<lambda>e. \<not> he_active e) (ht_entries t) = None \<longleftrightarrow> card (dom (hook_map t)) = 32"
proof -
  have "find_idx (\<lambda>e. \<not> he_active e) (ht_entries t) = None \<longleftrightarrow> filter he_active (ht_entries t) = ht_entries t"
    unfolding find_idx_None_iff by (auto simp: filter_id_conv)
  also have "\<dots> \<longleftrightarrow> length (active_hooks t) = 32"
    using assms unfolding hook_wf_def active_hooks_def FW_HOOK_MAX_ENTRIES_def
    by (metis length_filter_less less_irrefl filter_id_conv)
  finally show ?thesis using card_hook_map [OF assms] by simp
qed

lemma hook_table_init_wf:
  "fw_hook_table_init c0 (Some t0) = (FW_OK, Some t) \<Longrightarrow> hook_wf t \<and> hook_map t = Map.empty"
  by (auto simp: fw_hook_table_init_def hook_wf_def hook_map_def active_hooks_def zero_hook_entry_def)

text \<open>Replacing the entry at one slot, seen on the active entries.\<close>

lemma active_hooks_simps [simp]:
  "active_hooks (t\<lparr>ht_count := n\<rparr>) = active_hooks t"
  "active_hooks (t\<lparr>ht_total_dispatches := d\<rparr>) = active_hooks t"
  "active_hooks (t\<lparr>ht_total_intercepts := d\<rparr>) = active_hooks t"
  by (simp_all add: active_hooks_def)

lemma hook_slot:
  assumes "i < length (ht_entries t)"
  defines "A \<equiv> filter he_active (take i (ht_entries t))" and "B \<equiv> filter he_active (drop (Suc i) (ht_entries t))"
  shows "active_hooks (t\<lparr>ht_entries := (ht_entries t)[i := e], ht_count := n\<rparr>) =
      A @ (if he_active e then [e] else []) @ B"
    and "active_hooks (t\<lparr>ht_entries := (ht_entries t)[i := e]\<rparr>) = A @ (if he_active e then [e] else []) @ B"
    and "active_hooks t = A @ (if he_active (ht_entries t ! i) then [ht_entries t ! i] else []) @ B"
  using assms by (simp_all add: active_hooks_def filter_list_update filter_split_nth [OF assms(1)])

lemma register_known:
  assumes "hook_wf t" and "find_idx (hook_is ev cb) (ht_entries t) = Some i"
  and t': "t' = t\<lparr>ht_entries := (ht_entries t)[i := (ht_entries t ! i)\<lparr>he_priority := p, he_cookie := c\<rparr>]\<rparr>"
  shows "hook_wf t' \<and> hook_map t' = (hook_map t)((ev, cb) \<mapsto> (p, c))"
proof -
  let ?e = "ht_entries t ! i"
  have i: "i < length (ht_entries t)" and e: "hook_is ev cb ?e" using find_idx_SomeD [OF assms(2)] by blast+
  have act: "he_active ?e" using e by (simp add: hook_is_def)
  define A where "A = filter he_active (take i (ht_entries t))"
  define B where "B = filter he_active (drop (Suc i) (ht_entries t))"
  note S = hook_slot [OF i, folded A_def B_def]
  have AB: "active_hooks t' = A @ [?e\<lparr>he_priority := p, he_cookie := c\<rparr>] @ B"
      "active_hooks t = A @ [?e] @ B"
    unfolding t' S(1,2) using S(3) act by simp_all
  have k: "hook_key (?e\<lparr>he_priority := p, he_cookie := c\<rparr>) = (ev, cb)" "hook_key ?e = (ev, cb)"
    using e by (simp_all add: hook_key_def hook_is_def)
  have notA: "(ev, cb) \<notin> hook_key ` set A" using assms(1) AB(2) k by (auto simp: hook_wf_def)
  have "ht_count t' = ht_count t" "length (ht_entries t') = length (ht_entries t)" by (simp_all add: t')
  then have "hook_wf t'"
    using assms(1) AB k e by (auto simp: hook_wf_def hook_is_def)
  moreover have "hook_map t' = (hook_map t)((ev, cb) \<mapsto> (p, c))"
    using notA by (simp add: hook_map_def AB k map_of_insert_mid image_image del: map_of_append)
  ultimately show ?thesis by blast
qed

lemma register_new:
  assumes "hook_wf t" and "find_idx (hook_is ev cb) (ht_entries t) = None"
    and "find_idx (\<lambda>e. \<not> he_active e) (ht_entries t) = Some i"
    and e: "hook_is ev cb e" "he_priority e = p" "he_cookie e = c"
  and t': "t' = t\<lparr>ht_entries := (ht_entries t)[i := e], ht_count := ht_count t + 1\<rparr>"
  shows "hook_wf t' \<and> hook_map t' = (hook_map t)((ev, cb) \<mapsto> (p, c))"
proof -
  have i: "i < length (ht_entries t)" "\<not> he_active (ht_entries t ! i)"
    using find_idx_SomeD [OF assms(3)] by blast+
  have act: "he_active e" and k: "hook_key e = (ev, cb)" and cb: "he_callback e \<noteq> None"
    using e by (simp_all add: hook_is_def hook_key_def)
  define A where "A = filter he_active (take i (ht_entries t))"
  define B where "B = filter he_active (drop (Suc i) (ht_entries t))"
  note S = hook_slot [OF i(1), folded A_def B_def]
  have AB: "active_hooks t' = A @ [e] @ B" "active_hooks t = A @ B"
    unfolding t' S(1,2) using S(3) i(2) act by simp_all
  have "(ev, cb) \<notin> hook_key ` set (active_hooks t)"
    using hook_map_None [OF assms(1), of ev cb] assms(2) dom_hook_map [of t] by blast
  then have notin: "(ev, cb) \<notin> hook_key ` set A" "(ev, cb) \<notin> hook_key ` set B" using AB by auto
  have "ht_count t' = ht_count t + 1" "length (ht_entries t') = length (ht_entries t)" by (simp_all add: t')
  then have "hook_wf t'"
    using assms(1) AB k cb notin by (auto simp: hook_wf_def)
  moreover have "hook_map t' = (hook_map t)((ev, cb) \<mapsto> (p, c))"
    using notin e by (simp add: hook_map_def AB k map_of_insert_mid image_image del: map_of_append)
  ultimately show ?thesis by blast
qed

lemma unregister_known:
  assumes "hook_wf t" and "find_idx (hook_is ev cb) (ht_entries t) = Some i"
  and t': "t' = t\<lparr>ht_entries := (ht_entries t)[i := (ht_entries t ! i)\<lparr>he_active := False\<rparr>],
      ht_count := (if ht_count t > 0 then ht_count t - 1 else ht_count t)\<rparr>"
  shows "hook_wf t' \<and> hook_map t' = (hook_map t)((ev, cb) := None)"
proof -
  let ?e = "ht_entries t ! i"
  have i: "i < length (ht_entries t)" and e: "hook_is ev cb ?e" using find_idx_SomeD [OF assms(2)] by blast+
  have act: "he_active ?e" and k: "hook_key ?e = (ev, cb)" using e by (simp_all add: hook_is_def hook_key_def)
  define A where "A = filter he_active (take i (ht_entries t))"
  define B where "B = filter he_active (drop (Suc i) (ht_entries t))"
  note S = hook_slot [OF i, folded A_def B_def]
  have AB: "active_hooks t' = A @ B" "active_hooks t = A @ [?e] @ B"
    unfolding t' S(1,2) using S(3) act by simp_all
  have notin: "(ev, cb) \<notin> hook_key ` set A" "(ev, cb) \<notin> hook_key ` set B"
    using assms(1) AB(2) k by (auto simp: hook_wf_def)
  have "length (active_hooks t) \<le> 32" using active_hooks_le [OF assms(1)] .
  then have "ht_count t \<noteq> 0"
    using assms(1) AB(2) unat_of_nat_small [where 'a = 32, of "length (active_hooks t)"]
    by (auto simp: hook_wf_def simp del: of_nat_add of_nat_Suc)
  then have "ht_count t' = ht_count t - 1" "length (ht_entries t') = length (ht_entries t)"
    by (simp_all add: t' word_gt_0)
  then have "hook_wf t'"
    using assms(1) AB by (auto simp: hook_wf_def)
  moreover have "hook_map t' = (hook_map t)((ev, cb) := None)"
    using notin map_of_delete_mid [of "(ev, cb)" "map (\<lambda>e. (hook_key e, he_priority e, he_cookie e)) A"
        "map (\<lambda>e. (hook_key e, he_priority e, he_cookie e)) B"]
    by (simp add: hook_map_def AB k image_image del: map_of_append)
  ultimately show ?thesis by blast
qed

section \<open>Registration refines map update\<close>

lemma register_refines:
  assumes "hook_wf t" and "fw_hook_register (Some t) ev (Some cb) p c = (st, Some t')"
  shows "hook_wf t' \<and>
    (if (ev, cb) \<in> dom (hook_map t) \<or> card (dom (hook_map t)) < 32
     then st = FW_OK \<and> hook_map t' = (hook_map t)((ev, cb) \<mapsto> (p, c))
     else st = FW_ERR_BUFFER_OVERFLOW \<and> t' = t)"
proof (cases "find_idx (hook_is ev cb) (ht_entries t)")
  case (Some i)
  then have "(ev, cb) \<in> dom (hook_map t)" using hook_map_None [OF assms(1), of ev cb] by auto
  then show ?thesis
    using assms(2) Some register_known [OF assms(1) Some refl]
    by (auto simp: fw_hook_register_def register_scan_eq)
next
  case None
  then have k: "(ev, cb) \<notin> dom (hook_map t)" using hook_map_None [OF assms(1), of ev cb] by auto
  show ?thesis
  proof (cases "find_idx (\<lambda>e. \<not> he_active e) (ht_entries t)")
    case full: None
    then show ?thesis
      using assms None k no_inactive_iff [OF assms(1)] by (auto simp: fw_hook_register_def register_scan_eq)
  next
    case (Some i)
    have "card (dom (hook_map t)) \<le> 32"
      using card_hook_map [OF assms(1)] active_hooks_le [OF assms(1)] by simp
    moreover have "card (dom (hook_map t)) \<noteq> 32" using no_inactive_iff [OF assms(1)] Some by simp
    moreover have "hook_is ev cb \<lparr>he_event_id = ev, he_callback = Some cb, he_cookie = c,
        he_priority = p, he_active = True\<rparr>" by (simp add: hook_is_def)
    ultimately show ?thesis
      using assms(2) register_new [OF assms(1) None Some _ _ _ refl] None Some
      by (auto simp: fw_hook_register_def register_scan_eq)
  qed
qed

lemma unregister_refines:
  assumes "hook_wf t" and "fw_hook_unregister (Some t) ev (Some cb) = (st, Some t')"
  shows "hook_wf t' \<and>
    (if (ev, cb) \<in> dom (hook_map t) then st = FW_OK \<and> hook_map t' = (hook_map t)((ev, cb) := None)
     else st = FW_ERR_NOT_FOUND \<and> t' = t)"
proof (cases "find_idx (hook_is ev cb) (ht_entries t)")
  case (Some i)
  then have "(ev, cb) \<in> dom (hook_map t)" using hook_map_None [OF assms(1), of ev cb] by auto
  then show ?thesis
    using assms(2) Some unregister_known [OF assms(1) Some refl]
    by (auto simp: fw_hook_unregister_def)
next
  case None
  then show ?thesis
    using assms hook_map_None [OF assms(1), of ev cb] by (auto simp: fw_hook_unregister_def)
qed

lemma fold_count: "fold (\<lambda>e c. if P e then c + 1 else c) es (c :: usize) = c + of_nat (length (filter P es))"
  by (induction es arbitrary: c) (auto simp: algebra_simps)

lemma hook_count_map:
  assumes "hook_wf t"
  shows "fw_hook_count (Some t) ev = of_nat (card {k \<in> dom (hook_map t). fst k = ev})"
proof -
  let ?es = "filter (\<lambda>e. he_event_id e = ev) (active_hooks t)"
  have "{k \<in> dom (hook_map t). fst k = ev} = hook_key ` set ?es"
    by (auto simp: dom_hook_map hook_key_def)
  moreover have "distinct (map hook_key ?es)" using assms by (simp add: hook_wf_def distinct_map_filter)
  ultimately have "card {k \<in> dom (hook_map t). fst k = ev} = length ?es"
    using distinct_card [of "map hook_key ?es"] by simp
  moreover have "filter (hook_matches ev) (ht_entries t) = ?es"
    by (simp add: active_hooks_def hook_matches_def [abs_def] conj_commute)
  ultimately show ?thesis by (simp add: fw_hook_count_def fold_count)
qed

text \<open>
  A well-formed hook table is a finite map from (event, callback) to (priority, cookie) of at most
  32 entries: registering updates the map (a known pair is overwritten, never duplicated) unless the
  pair is new and the table full, unregistering deletes from it or reports the pair missing, both keep
  the table well-formed with its counter exact, and the hooks counted for an event are the pairs of it.
\<close>

theorem hook_table_refines_map:
  assumes "hook_wf t"
    and "fw_hook_register (Some t) ev (Some cb) p c = (st1, Some t1)"
    and "fw_hook_unregister (Some t) ev (Some cb) = (st2, Some t2)"
  shows "hook_wf t1 \<and> hook_wf t2
    \<and> (if (ev, cb) \<in> dom (hook_map t) \<or> card (dom (hook_map t)) < 32
       then st1 = FW_OK \<and> hook_map t1 = (hook_map t)((ev, cb) \<mapsto> (p, c))
       else st1 = FW_ERR_BUFFER_OVERFLOW \<and> t1 = t)
    \<and> (if (ev, cb) \<in> dom (hook_map t) then st2 = FW_OK \<and> hook_map t2 = (hook_map t)((ev, cb) := None)
       else st2 = FW_ERR_NOT_FOUND \<and> t2 = t)
    \<and> fw_hook_count (Some t) ev = of_nat (card {k \<in> dom (hook_map t). fst k = ev})"
  using register_refines [OF assms(1,2)] unregister_refines [OF assms(1,3)] hook_count_map [OF assms(1)]
  by blast

definition sample_hooks :: "(nat, nat) fw_hook_table" where
  "sample_hooks = \<lparr>ht_entries = [\<lparr>he_event_id = 7, he_callback = Some 1, he_cookie = 1, he_priority = 5, he_active = True\<rparr>,
      \<lparr>he_event_id = 7, he_callback = Some 2, he_cookie = 2, he_priority = 9, he_active = True\<rparr>]
      @ replicate 30 (zero_hook_entry 0), ht_count = 2, ht_total_dispatches = 0, ht_total_intercepts = 0\<rparr>"

lemmas sample_hooks_eq = sample_hooks_def

lemma sample_hooks_wf: "hook_wf sample_hooks"
  by (simp add: sample_hooks_eq hook_wf_def active_hooks_def zero_hook_entry_def FW_HOOK_MAX_ENTRIES_def hook_key_def)

theorem hook_table_refines_map_witness:
  "hook_map (the (snd (fw_hook_register (Some sample_hooks) 7 (Some 1) 3 4)))
     = (hook_map sample_hooks)((7, 1) \<mapsto> (3, 4))
   \<and> fst (fw_hook_register (Some sample_hooks) 7 (Some 1) 3 4) = FW_OK
   \<and> hook_map (the (snd (fw_hook_unregister (Some sample_hooks) 7 (Some 1))))
     = (hook_map sample_hooks)((7, 1) := None)"
proof -
  obtain st1 t1 where 1: "fw_hook_register (Some sample_hooks) 7 (Some 1) 3 4 = (st1, Some t1)"
    by (simp add: sample_hooks_eq fw_hook_register_def)
  obtain st2 t2 where 2: "fw_hook_unregister (Some sample_hooks) 7 (Some 1) = (st2, Some t2)"
    by (simp add: sample_hooks_eq fw_hook_unregister_def hook_is_def)
  have "(7, 1) \<in> dom (hook_map sample_hooks)"
    by (simp add: dom_hook_map sample_hooks_eq active_hooks_def zero_hook_entry_def hook_key_def)
  then show ?thesis using hook_table_refines_map [OF sample_hooks_wf 1 2] 1 2 by simp
qed

section \<open>Dispatch\<close>

text \<open>What a dispatch over a list of entries is: run them in order until one stops it.\<close>

fun run_entries ::
  "('f, 'd, 'c, 'w) hook_sem \<Rightarrow> u32 \<Rightarrow> 'd \<Rightarrow> ('f, 'c) fw_hook_entry list \<Rightarrow> ('f, 'c) fw_hook_table \<times> 'w \<Rightarrow>
   fw_hook_action \<times> ('f, 'c) fw_hook_table \<times> 'w" where
  "run_entries call ev d [] s = (FW_HOOK_CONTINUE, s)"
| "run_entries call ev d (e # es) s =
     (case call (the (he_callback e)) ev d (he_cookie e) s of
        (FW_HOOK_STOP, t', w') \<Rightarrow> (FW_HOOK_STOP, t'\<lparr>ht_total_intercepts := ht_total_intercepts t' + 1\<rparr>, w')
      | (FW_HOOK_CONTINUE, s') \<Rightarrow> run_entries call ev d es s')"

definition keeps_entries :: "('f, 'd, 'c, 'w) hook_sem \<Rightarrow> bool" where
  "keeps_entries call \<longleftrightarrow> (\<forall>cb ev d c t w. ht_entries (fst (snd (call cb ev d c (t, w)))) = ht_entries t)"

lemma execute_hooks_run:
  "keeps_entries call \<Longrightarrow> ht_entries t = E \<Longrightarrow> (\<And>i. i \<in> set is \<Longrightarrow> he_callback (E ! i) \<noteq> None) \<Longrightarrow>
     execute_hooks call ev d is t w = run_entries call ev d (map (\<lambda>i. E ! i) is) (t, w)"
proof (induction "is" arbitrary: t w)
  case (Cons i "is")
  then obtain cb where cb: "he_callback (E ! i) = Some cb" by fastforce
  obtain a t' w' where r: "call cb ev d (he_cookie (E ! i)) (t, w) = (a, t', w')" by (rule prod_cases3)
  have "ht_entries t' = E"
    using Cons.prems(1,2) r unfolding keeps_entries_def by (metis fst_conv snd_conv)
  then have "execute_hooks call ev d is t' w' = run_entries call ev d (map (\<lambda>i. E ! i) is) (t', w')"
    using Cons.IH Cons.prems by simp
  then show ?case using Cons.prems(2) cb r by (cases a) simp_all
qed simp

interpretation hook_sort: exchange "hook_gt t" "\<lambda>_. True" "\<lambda>i. he_priority (ht_entries t ! i)" for t
  by unfold_locales (simp add: hook_gt_def)

lemma matched_map:
  assumes "length (ht_entries t) = FW_HOOK_MAX_ENTRIES"
  shows "map (\<lambda>i. ht_entries t ! i) (matched_entries t ev) = filter (hook_matches ev) (ht_entries t)"
proof -
  have "filter (hook_matches ev) (map (\<lambda>i. ht_entries t ! i) [0..<length (ht_entries t)])
      = map (\<lambda>i. ht_entries t ! i) (matched_entries t ev)"
    unfolding filter_map matched_entries_def assms by (simp add: o_def)
  then show ?thesis by (simp only: map_nth)
qed

lemma dispatch_in_order:
  assumes "hook_wf t" and "keeps_entries call"
  shows "\<exists>es. mset es = mset (filter (hook_matches ev) (ht_entries t)) \<and> sorted (map he_priority es)
    \<and> fw_hook_dispatch call (Some t) ev d w =
        (case run_entries call ev d es (t\<lparr>ht_total_dispatches := ht_total_dispatches t + 1\<rparr>, w) of
           (a, t', w') \<Rightarrow> (a, Some t', w'))"
proof -
  let ?t = "t\<lparr>ht_total_dispatches := ht_total_dispatches t + 1\<rparr>"
  let ?m = "matched_entries ?t ev"
  let ?s = "exchange_sort (hook_gt ?t) (length ?m) ?m"
  let ?es = "map (\<lambda>i. ht_entries t ! i) ?s"
  have len: "length (ht_entries ?t) = FW_HOOK_MAX_ENTRIES" using assms(1) by (simp add: hook_wf_def)
  have len_s: "length ?s = length ?m" and ms: "mset ?s = mset ?m"
    using hook_sort.sort_elems(1,2) [of "length ?m" ?m ?t] by simp_all
  have "mset ?es = image_mset (\<lambda>i. ht_entries t ! i) (mset ?m)" using ms by simp
  also have "\<dots> = mset (filter (hook_matches ev) (ht_entries t))"
    using matched_map [OF len, of ev] by (simp flip: mset_map)
  finally have mset_es: "mset ?es = mset (filter (hook_matches ev) (ht_entries t))" .
  have "sorted (map (\<lambda>i. he_priority (ht_entries ?t ! i)) ?s)"
    using hook_sort.sort_selected(1) [of "length ?m" ?m ?t] len_s by simp
  then have sorted_es: "sorted (map he_priority ?es)" by (simp add: o_def)
  have "set ?es = set (filter (hook_matches ev) (ht_entries t))" using mset_es by (metis set_mset_mset)
  then have "he_callback (ht_entries t ! i) \<noteq> None" if "i \<in> set ?s" for i
    using that assms(1) unfolding hook_wf_def active_hooks_def
    by (metis (no_types, lifting) hook_matches_def image_eqI list.set_map mem_Collect_eq set_filter)
  then have run: "execute_hooks call ev d ?s ?t w = run_entries call ev d ?es (?t, w)"
    by (intro execute_hooks_run assms(2)) simp_all
  have "fw_hook_dispatch call (Some t) ev d w =
      (case run_entries call ev d ?es (?t, w) of (a, t', w') \<Rightarrow> (a, Some t', w'))"
  proof (cases "?m = []")
    case True
    then show ?thesis by (simp add: fw_hook_dispatch_def exchange_sort_def)
  next
    case False
    then show ?thesis using run by (simp add: fw_hook_dispatch_def Let_def)
  qed
  then show ?thesis using mset_es sorted_es by blast
qed

text \<open>
  C26: dispatching an event runs exactly the active hooks of that event, each at most once, by
  ascending priority number, until the first one that answers STOP; the interception is counted and
  reported, and with no STOP all of them run.
\<close>

theorem hook_dispatch_priority_order:
  assumes "hook_wf t" and "keeps_entries call"
  shows "\<exists>es. mset es = mset (filter (hook_matches ev) (ht_entries t)) \<and> sorted (map he_priority es)
    \<and> fw_hook_dispatch call (Some t) ev d w =
        (case run_entries call ev d es (t\<lparr>ht_total_dispatches := ht_total_dispatches t + 1\<rparr>, w) of
           (a, t', w') \<Rightarrow> (a, Some t', w'))"
  using dispatch_in_order [OF assms] .

theorem hook_dispatch_priority_order_witness:
  "\<exists>es. mset es = mset (filter (hook_matches 7) (ht_entries sample_hooks)) \<and> sorted (map he_priority es)
    \<and> fw_hook_dispatch (\<lambda>cb ev d c (t, w). (if cb = 2 then FW_HOOK_STOP else FW_HOOK_CONTINUE, t, w @ [cb]))
          (Some sample_hooks) 7 () [] =
        (case run_entries (\<lambda>cb ev d c (t, w). (if cb = 2 then FW_HOOK_STOP else FW_HOOK_CONTINUE, t, w @ [cb]))
          7 () es (sample_hooks\<lparr>ht_total_dispatches := ht_total_dispatches sample_hooks + 1\<rparr>, []) of
           (a, t', w') \<Rightarrow> (a, Some t', w'))"
  by (rule hook_dispatch_priority_order [OF sample_hooks_wf]) (simp add: keeps_entries_def)

end
