(* ===== verification/Init.thy ===== *)
theory Init
  imports Exchange
begin

text \<open>
  The leveled initialisation registry of \<^verbatim>\<open>init.h\<close> and \<^verbatim>\<open>init.c\<close>.  The static variables are the record
  \<open>init_registry\<close>.  An initialisation function is a value of a type \<open>'f\<close> whose effect is a parameter:
  it may change the world and, by registering more functions, the registry itself.
\<close>

definition FW_INIT_LEVEL_COUNT :: nat where "FW_INIT_LEVEL_COUNT = 4"
definition FW_INIT_MAX_ENTRIES :: nat where "FW_INIT_MAX_ENTRIES = 32"

record 'f fw_init_entry =
  ie_name :: string
  ie_init_fn :: "'f option"
  ie_level :: u8
  ie_priority :: u8

record 'f init_registry =
  s_init_entries :: "'f fw_init_entry list"
  s_init_count :: nat
  s_level_executed :: "bool list"

definition fw_init_register ::
  "string option \<Rightarrow> 'f option \<Rightarrow> u8 \<Rightarrow> u8 \<Rightarrow> 'f init_registry \<Rightarrow> fw_status \<times> 'f init_registry" where
  "fw_init_register name fn level priority r =
     (if fn = None \<or> unat level \<ge> FW_INIT_LEVEL_COUNT then (FW_ERR_INVALID_ARG, r)
      else if s_init_count r \<ge> FW_INIT_MAX_ENTRIES then (FW_ERR_BUFFER_OVERFLOW, r)
      else if find_idx (\<lambda>e. ie_init_fn e = fn) (take (s_init_count r) (s_init_entries r)) \<noteq> None then (FW_OK, r)
      else (FW_OK, r\<lparr>s_init_entries := (s_init_entries r)[s_init_count r :=
             \<lparr>ie_name = (case name of None \<Rightarrow> ''unnamed_init'' | Some n \<Rightarrow> n), ie_init_fn = fn,
              ie_level = level, ie_priority = priority\<rparr>],
             s_init_count := s_init_count r + 1\<rparr>))"

definition init_gt :: "u8 \<Rightarrow> 'f fw_init_entry \<Rightarrow> 'f fw_init_entry \<Rightarrow> bool" where
  "init_gt level a b \<longleftrightarrow> ie_level a = level \<and> ie_level b = level \<and> ie_priority a > ie_priority b"

type_synonym ('f, 'w) init_sem = "'f \<Rightarrow> 'f init_registry \<times> 'w \<Rightarrow> fw_status \<times> 'f init_registry \<times> 'w"

text \<open>
  The execution loop reads the registry anew in every round, because a function that registers
  another one makes the loop longer.  The fuel is the number of array slots left.
\<close>

fun init_loop ::
  "nat \<Rightarrow> ('f, 'w) init_sem \<Rightarrow> u8 \<Rightarrow> nat \<Rightarrow> 'f init_registry \<Rightarrow> 'w \<Rightarrow> fw_status \<times> 'f init_registry \<times> 'w" where
  "init_loop 0 call level i r w = (FW_OK, r, w)"
| "init_loop (Suc n) call level i r w =
     (if i < s_init_count r then
        let e = s_init_entries r ! i
        in if ie_level e = level then
             (case ie_init_fn e of
                None \<Rightarrow> init_loop n call level (i + 1) r w
              | Some f \<Rightarrow>
                  (case call f (r, w) of
                     (st, r', w') \<Rightarrow>
                       if st \<noteq> FW_OK then (st, r', w') else init_loop n call level (i + 1) r' w'))
           else init_loop n call level (i + 1) r w
      else (FW_OK, r, w))"

definition fw_init_level ::
  "('f, 'w) init_sem \<Rightarrow> nat \<Rightarrow> 'f init_registry \<Rightarrow> 'w \<Rightarrow> fw_status \<times> 'f init_registry \<times> 'w" where
  "fw_init_level call level r w =
     (if level \<ge> FW_INIT_LEVEL_COUNT then (FW_ERR_INVALID_ARG, r, w)
      else
        let r1 = r\<lparr>s_init_entries :=
              exchange_sort (init_gt (of_nat level)) (s_init_count r) (s_init_entries r)\<rparr>
        in (case init_loop FW_INIT_MAX_ENTRIES call (of_nat level) 0 r1 w of
              (st, r2, w2) \<Rightarrow>
                if st \<noteq> FW_OK then (st, r2, w2)
                else (FW_OK, r2\<lparr>s_level_executed := (s_level_executed r2)[level := True]\<rparr>, w2)))"

fun init_levels ::
  "('f, 'w) init_sem \<Rightarrow> nat list \<Rightarrow> 'f init_registry \<Rightarrow> 'w \<Rightarrow> fw_status \<times> 'f init_registry \<times> 'w" where
  "init_levels call [] r w = (FW_OK, r, w)"
| "init_levels call (l # ls) r w =
     (case fw_init_level call l r w of
        (st, r', w') \<Rightarrow> if st \<noteq> FW_OK then (st, r', w') else init_levels call ls r' w')"

definition fw_init_all :: "('f, 'w) init_sem \<Rightarrow> 'f init_registry \<Rightarrow> 'w \<Rightarrow> fw_status \<times> 'f init_registry \<times> 'w" where
  "fw_init_all call r w = init_levels call [0..<FW_INIT_LEVEL_COUNT] r w"

definition fw_init_reset :: "'f init_registry \<Rightarrow> 'f init_registry" where
  "fw_init_reset r = r\<lparr>s_init_count := 0, s_level_executed := replicate FW_INIT_LEVEL_COUNT False\<rparr>"

definition fw_init_count :: "'f init_registry \<Rightarrow> nat" where
  "fw_init_count r = s_init_count r"

text \<open>
  \<^verbatim>\<open>FW_INIT_EXPORT\<close> makes a constructor that registers its function before \<^verbatim>\<open>main\<close> and drops the status; the
  list is the order in which the linker runs the constructors.
\<close>

fun FW_INIT_EXPORT :: "(string \<times> 'f \<times> u8 \<times> u8) list \<Rightarrow> 'f init_registry \<Rightarrow> 'f init_registry" where
  "FW_INIT_EXPORT [] r = r"
| "FW_INIT_EXPORT ((name, fn, lvl, prio) # xs) r = FW_INIT_EXPORT xs (snd (fw_init_register (Some name) (Some fn) lvl prio r))"

section \<open>Invariant\<close>

definition init_entries :: "'f init_registry \<Rightarrow> 'f fw_init_entry list" where
  "init_entries r = take (s_init_count r) (s_init_entries r)"

definition init_wf :: "'f init_registry \<Rightarrow> bool" where
  "init_wf r \<longleftrightarrow> length (s_init_entries r) = FW_INIT_MAX_ENTRIES \<and> s_init_count r \<le> FW_INIT_MAX_ENTRIES
     \<and> length (s_level_executed r) = FW_INIT_LEVEL_COUNT
     \<and> distinct (map ie_init_fn (init_entries r))
     \<and> (\<forall>e\<in>set (init_entries r). ie_init_fn e \<noteq> None \<and> unat (ie_level e) < FW_INIT_LEVEL_COUNT)"

lemma init_wf_reset:
  "length (s_init_entries r) = FW_INIT_MAX_ENTRIES \<Longrightarrow>
     init_wf (fw_init_reset r) \<and> init_entries (fw_init_reset r) = []"
  by (simp add: init_wf_def fw_init_reset_def init_entries_def)

text \<open>
  The fuel of the execution loop is enough: more rounds change nothing, whatever the functions do to
  the registry as long as its counter stays within the array.
\<close>

lemma init_loop_fuel:
  assumes "\<And>f r w. s_init_count r \<le> FW_INIT_MAX_ENTRIES \<Longrightarrow>
      s_init_count (fst (snd (call f (r, w)))) \<le> FW_INIT_MAX_ENTRIES"
  shows "s_init_count r \<le> FW_INIT_MAX_ENTRIES \<Longrightarrow> FW_INIT_MAX_ENTRIES \<le> i + n \<Longrightarrow>
    init_loop (n + k) call level i r w = init_loop n call level i r w"
proof (induction n arbitrary: i r w)
  case 0
  then show ?case by (cases k) simp_all
next
  case (Suc n)
  have call: "s_init_count r' \<le> FW_INIT_MAX_ENTRIES" if "call f (r, w) = (st, r', w')" for f st r' w'
    using assms [of r f w] Suc.prems(1) that by simp
  show ?case
    using Suc.prems Suc.IH call
    by (auto simp: Let_def split: option.splits prod.splits)
qed

lemma init_register_spec:
  assumes "init_wf r" and "fw_init_register name (Some f) level prio r = (st, r')"
  shows "init_wf r' \<and>
    (if unat level \<ge> FW_INIT_LEVEL_COUNT then st = FW_ERR_INVALID_ARG \<and> r' = r
     else if length (init_entries r) = FW_INIT_MAX_ENTRIES then st = FW_ERR_BUFFER_OVERFLOW \<and> r' = r
     else st = FW_OK \<and> (if Some f \<in> ie_init_fn ` set (init_entries r) then r' = r
       else init_entries r' = init_entries r @ [\<lparr>ie_name = (case name of None \<Rightarrow> ''unnamed_init'' | Some n \<Rightarrow> n),
              ie_init_fn = Some f, ie_level = level, ie_priority = prio\<rparr>]))"
proof -
  have len: "length (init_entries r) = s_init_count r" using assms(1) by (simp add: init_wf_def init_entries_def)
  have dup: "find_idx (\<lambda>e. ie_init_fn e = Some f) (take (s_init_count r) (s_init_entries r)) \<noteq> None \<longleftrightarrow>
      Some f \<in> ie_init_fn ` set (init_entries r)"
    by (auto simp: find_idx_None_iff init_entries_def image_iff simp del: not_None_eq) metis+
  have upd: "take (Suc n) (xs[n := x]) = take n xs @ [x]" if "n < length xs" for n xs and x :: "'a fw_init_entry"
    using that by (simp add: take_Suc_conv_app_nth take_update_cancel)
  show ?thesis
    using assms dup unfolding fw_init_register_def len
    by (auto simp: init_wf_def init_entries_def upd image_iff simp del: not_None_eq split: if_splits)
qed

text \<open>
  The constructors fill the registry in their order; what comes after the 32nd is dropped without notice.
\<close>

definition export_entry :: "string \<times> 'f \<times> u8 \<times> u8 \<Rightarrow> 'f fw_init_entry" where
  "export_entry x = (case x of (name, fn, lvl, prio) \<Rightarrow>
     \<lparr>ie_name = name, ie_init_fn = Some fn, ie_level = lvl, ie_priority = prio\<rparr>)"

lemma exports_registered:
  assumes "init_wf r" and "distinct (map ie_init_fn (init_entries r @ map export_entry xs))"
    and "\<forall>(name, fn, lvl, prio)\<in>set xs. unat lvl < FW_INIT_LEVEL_COUNT"
  shows "init_wf (FW_INIT_EXPORT xs r)
    \<and> init_entries (FW_INIT_EXPORT xs r) = take FW_INIT_MAX_ENTRIES (init_entries r @ map export_entry xs)"
  using assms
proof (induction xs arbitrary: r)
  case Nil
  then show ?case by (simp add: init_wf_def init_entries_def)
next
  case (Cons x xs)
  obtain name f lvl prio where x: "x = (name, f, lvl, prio)" by (cases x)
  obtain st r' where reg: "fw_init_register (Some name) (Some f) lvl prio r = (st, r')" by (rule prod.exhaust)
  have lvl: "unat lvl < FW_INIT_LEVEL_COUNT" and new: "Some f \<notin> ie_init_fn ` set (init_entries r)"
    using Cons.prems(2,3) by (auto simp: x export_entry_def)
  have le: "length (init_entries r) \<le> FW_INIT_MAX_ENTRIES" using Cons.prems(1) by (simp add: init_wf_def init_entries_def)
  note spec = init_register_spec [OF Cons.prems(1) reg]
  show ?case
  proof (cases "length (init_entries r) = FW_INIT_MAX_ENTRIES")
    case True
    then have "r' = r" using spec lvl by simp
    then show ?thesis using Cons.IH [of r] Cons.prems reg True by (simp add: x)
  next
    case False
    then have r': "init_wf r'" "init_entries r' = init_entries r @ [export_entry x]"
      using spec lvl new by (simp_all add: x export_entry_def)
    then show ?thesis using Cons.IH [of r'] Cons.prems reg by (simp add: x)
  qed
qed

section \<open>Execution order\<close>

interpretation init_sort: exchange "init_gt level" "\<lambda>e. ie_level e = level" ie_priority for level
  by unfold_locales (auto simp: init_gt_def)

text \<open>Running functions in order until one fails; an effect that leaves the registry alone.\<close>

fun run_inits :: "('f \<Rightarrow> 'w \<Rightarrow> fw_status \<times> 'w) \<Rightarrow> 'f fw_init_entry list \<Rightarrow> 'w \<Rightarrow> fw_status \<times> 'w" where
  "run_inits eff [] w = (FW_OK, w)"
| "run_inits eff (e # es) w =
     (case eff (the (ie_init_fn e)) w of (st, w') \<Rightarrow> if st \<noteq> FW_OK then (st, w') else run_inits eff es w')"

definition plain_init :: "('f \<Rightarrow> 'w \<Rightarrow> fw_status \<times> 'w) \<Rightarrow> ('f, 'w) init_sem" where
  "plain_init eff f s = (case eff f (snd s) of (st, w') \<Rightarrow> (st, fst s, w'))"

lemma run_inits_append:
  "run_inits eff (xs @ ys) w =
     (case run_inits eff xs w of (st, w') \<Rightarrow> if st \<noteq> FW_OK then (st, w') else run_inits eff ys w')"
  by (induction xs arbitrary: w) (auto split: prod.splits)

lemma init_loop_run:
  assumes "init_wf r"
  shows "s_init_count r \<le> i + n \<Longrightarrow> init_loop n (plain_init eff) level i r w =
    (case run_inits eff (filter (\<lambda>e. ie_level e = level) (drop i (init_entries r))) w of (st, w') \<Rightarrow> (st, r, w'))"
proof (induction n arbitrary: i w)
  case 0
  then show ?case by (simp add: init_entries_def)
next
  case (Suc n)
  show ?case
  proof (cases "i < s_init_count r")
    case True
    have len: "i < length (init_entries r)" and nth: "init_entries r ! i = s_init_entries r ! i"
      using True assms by (simp_all add: init_entries_def init_wf_def)
    have "init_entries r ! i \<in> set (init_entries r)" using len by (rule nth_mem)
    then obtain f where f: "ie_init_fn (s_init_entries r ! i) = Some f"
      using assms nth by (auto simp: init_wf_def)
    have "drop i (init_entries r) = s_init_entries r ! i # drop (Suc i) (init_entries r)"
      using Cons_nth_drop_Suc [OF len] nth by simp
    then show ?thesis
      using True f Suc.IH [of "Suc i"] Suc.prems by (simp add: Let_def plain_init_def split: prod.splits)
  next
    case False
    then show ?thesis by (simp add: init_entries_def)
  qed
qed

definition init_before :: "'f fw_init_entry \<Rightarrow> 'f fw_init_entry \<Rightarrow> bool" where
  "init_before a b \<longleftrightarrow> ie_level a < ie_level b \<or> ie_level a = ie_level b \<and> ie_priority a \<le> ie_priority b"

lemma init_level_run:
  assumes "init_wf r" and l: "l < FW_INIT_LEVEL_COUNT"
  obtains es r' where "mset es = filter_mset (\<lambda>e. ie_level e = of_nat l) (mset (init_entries r))"
    and "sorted_wrt init_before es" and "init_wf r'" and "mset (init_entries r') = mset (init_entries r)"
    and "fw_init_level (plain_init eff) l r w = (case run_inits eff es w of (st, w') \<Rightarrow> (st, r', w'))"
    and "s_level_executed r' = (if fst (run_inits eff es w) = FW_OK
      then (s_level_executed r)[l := True] else s_level_executed r)"
proof -
  let ?lv = "of_nat l :: u8" and ?n = "s_init_count r"
  let ?ys = "exchange_sort (init_gt ?lv) ?n (s_init_entries r)"
  let ?r1 = "r\<lparr>s_init_entries := ?ys\<rparr>"
  let ?es = "filter (\<lambda>e. ie_level e = ?lv) (init_entries ?r1)"
  have n: "?n \<le> length (s_init_entries r)" using assms(1) by (simp add: init_wf_def)
  have ent: "mset (init_entries ?r1) = mset (init_entries r)"
    using init_sort.sort_elems(2) [OF n] by (simp add: init_entries_def)
  have "length ?ys = length (s_init_entries r)" using init_sort.sort_elems(1) [OF n] .
  moreover have "distinct (map ie_init_fn (init_entries ?r1))"
    using assms(1) ent by (metis (no_types) init_wf_def mset_eq_imp_distinct_iff mset_map)
  moreover have "set (init_entries ?r1) = set (init_entries r)" using ent by (metis set_mset_mset)
  ultimately have wf1: "init_wf ?r1" using assms(1) by (simp add: init_wf_def)
  have "sorted (map ie_priority ?es)"
    using init_sort.sort_selected(1) [OF n, of ?lv] by (simp add: init_entries_def)
  then have sorted_es: "sorted_wrt init_before ?es"
    by (auto simp: sorted_map init_before_def intro: sorted_wrt_mono_rel [rotated])
  have loop: "init_loop FW_INIT_MAX_ENTRIES (plain_init eff) ?lv 0 ?r1 w =
      (case run_inits eff ?es w of (st, w') \<Rightarrow> (st, ?r1, w'))"
    using init_loop_run [OF wf1, of 0 FW_INIT_MAX_ENTRIES eff ?lv w] assms(1) by (simp add: init_wf_def)
  define r' where "r' = (if fst (run_inits eff ?es w) = FW_OK
      then ?r1\<lparr>s_level_executed := (s_level_executed r)[l := True]\<rparr> else ?r1)"
  have ent': "init_entries r' = init_entries ?r1" by (simp add: r'_def init_entries_def)
  then have "init_wf r'" using wf1 by (simp add: init_wf_def) (simp add: r'_def)
  moreover have "fw_init_level (plain_init eff) l r w = (case run_inits eff ?es w of (st, w') \<Rightarrow> (st, r', w'))"
    using l loop by (simp add: fw_init_level_def r'_def Let_def split: prod.splits)
  moreover have "mset ?es = filter_mset (\<lambda>e. ie_level e = ?lv) (mset (init_entries r))"
    using ent by simp
  moreover have "s_level_executed r' = (if fst (run_inits eff ?es w) = FW_OK
      then (s_level_executed r)[l := True] else s_level_executed r)" by (simp add: r'_def)
  ultimately show ?thesis using that [of ?es r'] sorted_es ent ent' by simp
qed

lemma level_of_nat: "l < FW_INIT_LEVEL_COUNT \<Longrightarrow> (x :: u8) = of_nat l \<longleftrightarrow> unat x = l"
  using unat_of_nat_small [where 'a = 8, of l] by (auto simp: FW_INIT_LEVEL_COUNT_def)

lemma init_levels_run:
  assumes "sorted_wrt (<) ls" and "\<forall>l\<in>set ls. l < FW_INIT_LEVEL_COUNT" and "init_wf r"
  shows "\<exists>es r'. mset es = filter_mset (\<lambda>e. unat (ie_level e) \<in> set ls) (mset (init_entries r))
    \<and> sorted_wrt init_before es \<and> init_wf r' \<and> mset (init_entries r') = mset (init_entries r)
    \<and> init_levels (plain_init eff) ls r w = (case run_inits eff es w of (st, w') \<Rightarrow> (st, r', w'))
    \<and> (fst (run_inits eff es w) = FW_OK \<longrightarrow> (\<forall>l<FW_INIT_LEVEL_COUNT.
         s_level_executed r' ! l = (l \<in> set ls \<or> s_level_executed r ! l)))"
  using assms
proof (induction ls arbitrary: r w)
  case Nil
  then show ?case by (intro exI [of _ "[]"] exI [of _ r]) simp
next
  case (Cons l ls)
  then have l: "l < FW_INIT_LEVEL_COUNT" by simp
  obtain es1 r1 where 1: "mset es1 = filter_mset (\<lambda>e. ie_level e = of_nat l) (mset (init_entries r))"
      "sorted_wrt init_before es1" "init_wf r1" "mset (init_entries r1) = mset (init_entries r)"
      "fw_init_level (plain_init eff) l r w = (case run_inits eff es1 w of (st, w') \<Rightarrow> (st, r1, w'))"
      "s_level_executed r1 = (if fst (run_inits eff es1 w) = FW_OK
        then (s_level_executed r)[l := True] else s_level_executed r)"
    by (rule init_level_run [OF Cons.prems(3) l])
  obtain st1 w1 where run1: "run_inits eff es1 w = (st1, w1)" by (rule prod.exhaust)
  obtain es2 r2 where 2: "mset es2 = filter_mset (\<lambda>e. unat (ie_level e) \<in> set ls) (mset (init_entries r))"
      "sorted_wrt init_before es2" "init_wf r2" "mset (init_entries r2) = mset (init_entries r)"
      "init_levels (plain_init eff) ls r1 w1 = (case run_inits eff es2 w1 of (st, w') \<Rightarrow> (st, r2, w'))"
      "fst (run_inits eff es2 w1) = FW_OK \<longrightarrow> (\<forall>l<FW_INIT_LEVEL_COUNT.
         s_level_executed r2 ! l = (l \<in> set ls \<or> s_level_executed r1 ! l))"
    using Cons.IH [of r1 w1] Cons.prems 1(3,4) by auto
  have lev1: "unat (ie_level e) = l" if "e \<in> set es1" for e
    using that arg_cong [OF 1(1), of set_mset] level_of_nat [OF l] by auto
  have lev2: "unat (ie_level e) \<in> set ls" if "e \<in> set es2" for e
    using that arg_cong [OF 2(1), of set_mset] by auto
  have before: "init_before a b" if "a \<in> set es1" "b \<in> set es2" for a b
    using lev1 [OF that(1)] lev2 [OF that(2)] Cons.prems(1) by (auto simp: init_before_def word_less_nat_alt)
  have "mset (es1 @ es2) = filter_mset (\<lambda>e. unat (ie_level e) \<in> set (l # ls)) (mset (init_entries r))"
    using 1(1) 2(1) Cons.prems(1)
    by (auto simp: level_of_nat [OF l] multiset_eq_iff)
  moreover have "sorted_wrt init_before (es1 @ es2)"
    using 1(2) 2(2) before by (simp add: sorted_wrt_append)
  moreover define r' where "r' = (if st1 = FW_OK then r2 else r1)"
  moreover have "init_levels (plain_init eff) (l # ls) r w =
      (case run_inits eff (es1 @ es2) w of (st, w') \<Rightarrow> (st, r', w'))"
    using 1(5) 2(5) run1 by (auto simp: run_inits_append r'_def split: prod.splits)
  moreover have "fst (run_inits eff (es1 @ es2) w) = FW_OK \<longrightarrow> (\<forall>k<FW_INIT_LEVEL_COUNT.
         s_level_executed r' ! k = (k \<in> set (l # ls) \<or> s_level_executed r ! k))"
    using 1(6) 2(6) run1 Cons.prems(3) l
    by (auto simp: run_inits_append r'_def nth_list_update init_wf_def)
  moreover have "init_wf r'" "mset (init_entries r') = mset (init_entries r)"
    using 1(3,4) 2(3,4) by (simp_all add: r'_def)
  ultimately show ?case by blast
qed

text \<open>
  C27: system start-up runs every registered function exactly once, level by level from EARLY to APP
  and by ascending priority number within a level, until the first function that fails, whose status
  is returned; when none fails every level is marked executed.
\<close>

theorem init_all_order:
  assumes "init_wf r"
  shows "\<exists>es r'. mset es = mset (init_entries r) \<and> sorted_wrt init_before es
    \<and> fw_init_all (plain_init eff) r w = (case run_inits eff es w of (st, w') \<Rightarrow> (st, r', w'))
    \<and> init_wf r' \<and> mset (init_entries r') = mset (init_entries r)
    \<and> (fst (run_inits eff es w) = FW_OK \<longrightarrow> s_level_executed r' = replicate FW_INIT_LEVEL_COUNT True)"
proof -
  have "filter_mset (\<lambda>e. unat (ie_level e) \<in> set [0..<FW_INIT_LEVEL_COUNT]) (mset (init_entries r))
      = mset (init_entries r)"
    using assms by (auto simp: init_wf_def filter_mset_eq_conv)
  then obtain es r' where *: "mset es = mset (init_entries r)" "sorted_wrt init_before es" "init_wf r'"
      "mset (init_entries r') = mset (init_entries r)"
      "init_levels (plain_init eff) [0..<FW_INIT_LEVEL_COUNT] r w = (case run_inits eff es w of (st, w') \<Rightarrow> (st, r', w'))"
      "fst (run_inits eff es w) = FW_OK \<longrightarrow> (\<forall>l<FW_INIT_LEVEL_COUNT. s_level_executed r' ! l)"
    using init_levels_run [of "[0..<FW_INIT_LEVEL_COUNT]" r eff w] assms by auto
  have "s_level_executed r' = replicate FW_INIT_LEVEL_COUNT True" if "fst (run_inits eff es w) = FW_OK"
    using *(3,6) that by (intro nth_equalityI) (simp_all add: init_wf_def)
  with * show ?thesis unfolding fw_init_all_def by blast
qed

definition sample_registry :: "nat init_registry" where
  "sample_registry = \<lparr>s_init_entries =
      [\<lparr>ie_name = ''uart'', ie_init_fn = Some 1, ie_level = 2, ie_priority = 0\<rparr>,
       \<lparr>ie_name = ''clock'', ie_init_fn = Some 2, ie_level = 0, ie_priority = 9\<rparr>]
      @ replicate 30 \<lparr>ie_name = [], ie_init_fn = None, ie_level = 0, ie_priority = 0\<rparr>,
    s_init_count = 2, s_level_executed = replicate 4 False\<rparr>"

lemma sample_registry_wf: "init_wf sample_registry"
  by (simp add: sample_registry_def init_wf_def init_entries_def FW_INIT_MAX_ENTRIES_def FW_INIT_LEVEL_COUNT_def)

theorem init_all_order_witness:
  "\<exists>es r'. mset es = mset (init_entries sample_registry) \<and> sorted_wrt init_before es
    \<and> fw_init_all (plain_init (\<lambda>f w. (FW_OK, w @ [f]))) sample_registry [] =
        (case run_inits (\<lambda>f w. (FW_OK, w @ [f])) es [] of (st, w') \<Rightarrow> (st, r', w'))"
  using init_all_order [OF sample_registry_wf, of "\<lambda>f w. (FW_OK, w @ [f])" "[]"] by blast

text \<open>
  Registering an initialisation function appends it to the registry once; a bad level, a full
  registry and a function already registered leave the registry as it is, and every outcome keeps
  the registry free of duplicates.
\<close>

theorem init_register_correct:
  assumes "init_wf r" and "fw_init_register name (Some f) level prio r = (st, r')"
  shows "init_wf r' \<and>
    (if unat level \<ge> FW_INIT_LEVEL_COUNT then st = FW_ERR_INVALID_ARG \<and> r' = r
     else if length (init_entries r) = FW_INIT_MAX_ENTRIES then st = FW_ERR_BUFFER_OVERFLOW \<and> r' = r
     else st = FW_OK \<and> (if Some f \<in> ie_init_fn ` set (init_entries r) then r' = r
       else init_entries r' = init_entries r @ [\<lparr>ie_name = (case name of None \<Rightarrow> ''unnamed_init'' | Some n \<Rightarrow> n),
              ie_init_fn = Some f, ie_level = level, ie_priority = prio\<rparr>]))"
  using init_register_spec [OF assms] .

theorem init_register_correct_witness:
  "init_entries (snd (fw_init_register None (Some 3) 1 4 sample_registry)) = init_entries sample_registry @
     [\<lparr>ie_name = ''unnamed_init'', ie_init_fn = Some 3, ie_level = 1, ie_priority = 4\<rparr>]"
proof -
  have "Some 3 \<notin> ie_init_fn ` set (init_entries sample_registry)" "length (init_entries sample_registry) = 2"
    by (simp_all add: sample_registry_def init_entries_def)
  moreover obtain st r' where eq: "fw_init_register None (Some 3) 1 4 sample_registry = (st, r')"
    by (rule prod.exhaust)
  ultimately have "init_entries r' = init_entries sample_registry @
     [\<lparr>ie_name = ''unnamed_init'', ie_init_fn = Some 3, ie_level = 1, ie_priority = 4\<rparr>]"
    using init_register_correct [OF sample_registry_wf eq]
    unfolding FW_INIT_MAX_ENTRIES_def FW_INIT_LEVEL_COUNT_def option.case by simp
  then show ?thesis unfolding eq by simp
qed

end
