(* ===== verification/Flash.thy ===== *)
theory Flash
  imports Memory
begin

text \<open>
  The flash driver interface of \<^verbatim>\<open>flash.h\<close>: three callbacks over a device state \<open>'f\<close>, which the storage
  components call and a port provides.  The locales state what a NOR flash driver owes to them: reads
  return the cells (\<open>flash_reader\<close>, all that scans and reads of the store rely on), a write of erased
  cells stores the bytes, an erase sets one sector to 0xFF (\<open>flash_device\<close>), and, where a claim is about cells
  that are not erased, a write that would set a bit fails (\<open>nor_device\<close>).  The virtual device of \<^verbatim>\<open>test_storage.c\<close> is the instance.
\<close>

unbundle bit_operations_syntax

record 'f fw_flash_driver =
  fd_sector_size :: u32
  fd_read :: "('f \<Rightarrow> u32 \<Rightarrow> nat \<Rightarrow> fw_status \<times> u8 list) option"
  fd_write :: "('f \<Rightarrow> u32 \<Rightarrow> u8 list \<Rightarrow> fw_status \<times> 'f) option"
  fd_erase_sector :: "('f \<Rightarrow> u32 \<Rightarrow> fw_status \<times> 'f) option"

text \<open>Calls through the driver; the clients check the pointers for \<^verbatim>\<open>NULL\<close> when they are set up.\<close>

definition flash_read :: "'f fw_flash_driver \<Rightarrow> 'f \<Rightarrow> u32 \<Rightarrow> nat \<Rightarrow> fw_status \<times> u8 list" where
  "flash_read drv f addr n = the (fd_read drv) f addr n"

definition flash_write :: "'f fw_flash_driver \<Rightarrow> 'f \<Rightarrow> u32 \<Rightarrow> u8 list \<Rightarrow> fw_status \<times> 'f" where
  "flash_write drv f addr bs = the (fd_write drv) f addr bs"

definition flash_erase :: "'f fw_flash_driver \<Rightarrow> 'f \<Rightarrow> u32 \<Rightarrow> fw_status \<times> 'f" where
  "flash_erase drv f addr = the (fd_erase_sector drv) f addr"

section \<open>The contract of a flash device\<close>

text \<open>The bytes of a device from one address up to another, and the cells after storing bytes.\<close>

definition cell_range :: "(nat \<Rightarrow> u8) \<Rightarrow> nat \<Rightarrow> nat \<Rightarrow> u8 list" where
  "cell_range c a n = map c [a..<a + n]"

definition cells_put :: "(nat \<Rightarrow> u8) \<Rightarrow> nat \<Rightarrow> u8 list \<Rightarrow> nat \<Rightarrow> u8" where
  "cells_put c a bs k = (if a \<le> k \<and> k < a + length bs then bs ! (k - a) else c k)"

locale flash_reader =
  fixes drv :: "'f fw_flash_driver"
    and cells :: "'f \<Rightarrow> nat \<Rightarrow> u8"
    and fsz :: nat
    and ok :: "'f \<Rightarrow> bool"
  assumes fsz_lt: "fsz < 2 ^ 32"
    and read_present: "fd_read drv \<noteq> None"
    and read_law: "ok f \<Longrightarrow> unat a + n \<le> fsz \<Longrightarrow>
      flash_read drv f a n = (FW_OK, cell_range (cells f) (unat a) n)"

locale flash_device = flash_reader +
  assumes write_present: "fd_write drv \<noteq> None"
    and erase_present: "fd_erase_sector drv \<noteq> None"
    and sector_pos: "0 < unat (fd_sector_size drv)"
    and write_law: "ok f \<Longrightarrow> unat a + length bs \<le> fsz \<Longrightarrow>
      (\<And>k. unat a \<le> k \<Longrightarrow> k < unat a + length bs \<Longrightarrow> cells f k = 0xFF) \<Longrightarrow>
      \<exists>f'. flash_write drv f a bs = (FW_OK, f') \<and> ok f' \<and> cells f' = cells_put (cells f) (unat a) bs"
    and erase_law: "ok f \<Longrightarrow> unat (fd_sector_size drv) dvd unat a \<Longrightarrow> unat a + unat (fd_sector_size drv) \<le> fsz \<Longrightarrow>
      \<exists>f'. flash_erase drv f a = (FW_OK, f') \<and> ok f'
        \<and> cells f' = cells_put (cells f) (unat a) (replicate (unat (fd_sector_size drv)) 0xFF)"

context flash_device
begin

lemma ops_present: "fd_read drv \<noteq> None" "fd_write drv \<noteq> None" "fd_erase_sector drv \<noteq> None"
  by (rule read_present write_present erase_present)+

end

lemmas device_reader = flash_device.axioms(1)

text \<open>
  Programming clears bits only.  A \<open>nor_device\<close> says what a write of cells that are not erased does:
  it stores the bytes where each of them only clears bits of its cell, and else reports a failure.
\<close>

definition programmable :: "(nat \<Rightarrow> u8) \<Rightarrow> nat \<Rightarrow> u8 list \<Rightarrow> bool" where
  "programmable c a bs \<longleftrightarrow> (\<forall>i<length bs. c (a + i) AND bs ! i = bs ! i)"

locale nor_device = flash_device +
  assumes program_law: "ok f \<Longrightarrow> unat a + length bs \<le> fsz \<Longrightarrow>
      \<exists>st f'. flash_write drv f a bs = (st, f') \<and> ok f'
        \<and> (if programmable (cells f) (unat a) bs
           then st = FW_OK \<and> cells f' = cells_put (cells f) (unat a) bs else st \<noteq> FW_OK)"

lemmas nor_flash = nor_device.axioms(1)

section \<open>Ranges of cells\<close>

lemma length_cell_range [simp]: "length (cell_range c a n) = n"
  by (simp add: cell_range_def)

lemma cell_range_0 [simp]: "cell_range c a 0 = []"
  by (simp add: cell_range_def)

lemma nth_cell_range [simp]: "i < n \<Longrightarrow> cell_range c a n ! i = c (a + i)"
  by (simp add: cell_range_def)

lemma cell_range_append: "cell_range c a (m + n) = cell_range c a m @ cell_range c (a + m) n"
  by (rule nth_equalityI) (auto simp: nth_append add.assoc)

lemma cell_range_slice: "k + n \<le> m \<Longrightarrow> cell_range c (a + k) n = take n (drop k (cell_range c a m))"
  by (rule nth_equalityI) (auto simp: add.assoc)

lemma cell_range_cong: "(\<And>k. a \<le> k \<Longrightarrow> k < a + n \<Longrightarrow> c k = c' k) \<Longrightarrow> cell_range c a n = cell_range c' a n"
  by (simp add: cell_range_def)

lemma cell_range_eq_iff: "cell_range c a n = bs \<longleftrightarrow> length bs = n \<and> (\<forall>i<n. c (a + i) = bs ! i)"
  by (auto simp: list_eq_iff_nth_eq)

lemma cells_put_Nil [simp]: "cells_put c a [] = c"
  by (auto simp: cells_put_def fun_eq_iff)

lemma cells_put_append: "cells_put (cells_put c a xs) (a + length xs) ys = cells_put c a (xs @ ys)"
  by (auto simp: cells_put_def fun_eq_iff nth_append)

lemma cell_range_put_same: "length bs = n \<Longrightarrow> cell_range (cells_put c a bs) a n = bs"
  by (rule nth_equalityI) (auto simp: cells_put_def)

lemma cell_range_put_other:
  "a + n \<le> b \<or> b + length bs \<le> a \<Longrightarrow> cell_range (cells_put c b bs) a n = cell_range c a n"
  by (rule cell_range_cong) (auto simp: cells_put_def)

lemma programmable_Nil [simp]: "programmable c a []"
  by (simp add: programmable_def)

lemma programmable_Cons: "programmable c a (b # bs) \<longleftrightarrow> c a AND b = b \<and> programmable c (a + 1) bs"
  by (auto simp: programmable_def less_Suc_eq_0_disj)

lemma programmable_append:
  "programmable c a (xs @ ys) \<longleftrightarrow> programmable c a xs \<and> programmable c (a + length xs) ys"
  by (induction xs arbitrary: a) (simp_all add: programmable_Cons)

lemma programmable_cong:
  "(\<And>k. a \<le> k \<Longrightarrow> k < a + length bs \<Longrightarrow> c k = c' k) \<Longrightarrow> programmable c a bs = programmable c' a bs"
  by (simp add: programmable_def)

section \<open>The virtual NOR device (test_storage.c)\<close>

definition TEST_SECTOR_SIZE :: u32 where "TEST_SECTOR_SIZE = 512"
definition TOTAL_FLASH_SIZE :: u32 where "TOTAL_FLASH_SIZE = 1024"

definition mock_flash_read :: "u8 list \<Rightarrow> u32 \<Rightarrow> nat \<Rightarrow> fw_status \<times> u8 list" where
  "mock_flash_read s addr n =
     (if addr + of_nat n > TOTAL_FLASH_SIZE then (FW_ERR_INVALID_ARG, [])
      else (FW_OK, take n (drop (unat addr) s)))"

text \<open>Programming clears bits only: a byte that would need a bit set ends the write with an error.\<close>

fun mock_write_loop :: "u8 list \<Rightarrow> nat \<Rightarrow> u8 list \<Rightarrow> fw_status \<times> u8 list" where
  "mock_write_loop s addr [] = (FW_OK, s)"
| "mock_write_loop s addr (desired # src) =
     (let current = s ! addr
      in if current AND desired \<noteq> desired then (FW_ERR_IO, s)
         else mock_write_loop (s[addr := current AND desired]) (addr + 1) src)"

definition mock_flash_write :: "u8 list \<Rightarrow> u32 \<Rightarrow> u8 list \<Rightarrow> fw_status \<times> u8 list" where
  "mock_flash_write s addr buf =
     (if addr + of_nat (length buf) > TOTAL_FLASH_SIZE then (FW_ERR_INVALID_ARG, s)
      else mock_write_loop s (unat addr) buf)"

definition mock_flash_erase :: "u8 list \<Rightarrow> u32 \<Rightarrow> fw_status \<times> u8 list" where
  "mock_flash_erase s sector_addr =
     (if sector_addr + TEST_SECTOR_SIZE > TOTAL_FLASH_SIZE \<or> sector_addr mod TEST_SECTOR_SIZE \<noteq> 0
      then (FW_ERR_INVALID_ARG, s)
      else (FW_OK, take (unat sector_addr) s @ replicate (unat TEST_SECTOR_SIZE) 0xFF
                   @ drop (unat sector_addr + unat TEST_SECTOR_SIZE) s))"

definition s_mock_flash :: "u8 list fw_flash_driver" where
  "s_mock_flash = \<lparr>fd_sector_size = TEST_SECTOR_SIZE, fd_read = Some mock_flash_read,
     fd_write = Some mock_flash_write, fd_erase_sector = Some mock_flash_erase\<rparr>"

definition mock_cells :: "u8 list \<Rightarrow> nat \<Rightarrow> u8" where
  "mock_cells s k = (if k < length s then s ! k else 0xFF)"

definition mock_ok :: "u8 list \<Rightarrow> bool" where
  "mock_ok s \<longleftrightarrow> length s = unat TOTAL_FLASH_SIZE"

lemma mock_bound:
  assumes "unat (a :: u32) + n \<le> 1024"
  shows "\<not> a + of_nat n > 1024"
proof -
  have "unat (a + of_nat n) = unat a + n" using assms by (intro unat_add_of_nat) simp
  then show ?thesis using assms by (simp add: word_less_nat_alt)
qed

lemma and_ones_u8: "(0xFF :: u8) AND b = b"
proof -
  have "(0xFF :: u8) = mask 8" by (simp add: mask_eq_exp_minus_1)
  then have "(0xFF :: u8) AND b = take_bit 8 b" by (simp only: and.commute [of "mask 8"] take_bit_eq_mask)
  also have "\<dots> = b" by (rule bit_word_eqI) (simp add: bit_take_bit_iff)
  finally show ?thesis .
qed

lemma programmable_erased: "(\<And>k. a \<le> k \<Longrightarrow> k < a + length bs \<Longrightarrow> c k = 0xFF) \<Longrightarrow> programmable c a bs"
  by (simp add: programmable_def and_ones_u8)

lemma mock_write_loop_program:
  "a + length bs \<le> length s \<Longrightarrow>
     \<exists>st s'. mock_write_loop s a bs = (st, s') \<and> length s' = length s
       \<and> (if programmable (mock_cells s) a bs
          then st = FW_OK \<and> mock_cells s' = cells_put (mock_cells s) a bs else st \<noteq> FW_OK)"
proof (induction bs arbitrary: s a)
  case (Cons b bs)
  have cell: "mock_cells s a = s ! a" using Cons.prems by (simp add: mock_cells_def)
  show ?case
  proof (cases "s ! a AND b = b")
    case True
    let ?s = "s[a := b]"
    obtain st s' where s': "mock_write_loop ?s (a + 1) bs = (st, s')" "length s' = length ?s"
        "if programmable (mock_cells ?s) (a + 1) bs
         then st = FW_OK \<and> mock_cells s' = cells_put (mock_cells ?s) (a + 1) bs else st \<noteq> FW_OK"
      using Cons.IH [of "a + 1" ?s] Cons.prems by auto
    have put: "mock_cells ?s = cells_put (mock_cells s) a [b]"
      using Cons.prems by (auto simp: mock_cells_def cells_put_def fun_eq_iff nth_list_update)
    have "programmable (mock_cells ?s) (a + 1) bs = programmable (mock_cells s) (a + 1) bs"
      by (rule programmable_cong) (simp add: put cells_put_def)
    moreover have "cells_put (mock_cells ?s) (a + 1) bs = cells_put (mock_cells s) a (b # bs)"
      using cells_put_append [of "mock_cells s" a "[b]" bs] by (simp add: put)
    moreover have "mock_write_loop s a (b # bs) = (st, s')"
      using s'(1) True by (simp add: Let_def)
    ultimately show ?thesis using s'(2,3) True cell by (simp add: programmable_Cons)
  next
    case False
    then show ?thesis using cell by (simp add: programmable_Cons Let_def)
  qed
qed simp

interpretation mock: flash_device s_mock_flash mock_cells 1024 mock_ok
proof unfold_locales
  fix f :: "u8 list" and a :: u32 and n :: nat and bs :: "u8 list"
  assume ok: "mock_ok f"
  then have len: "length f = 1024" by (simp add: mock_ok_def TOTAL_FLASH_SIZE_def)
  show "flash_read s_mock_flash f a n = (FW_OK, cell_range (mock_cells f) (unat a) n)" if "unat a + n \<le> 1024"
    using mock_bound [OF that] that len
    by (auto simp: flash_read_def s_mock_flash_def mock_flash_read_def TOTAL_FLASH_SIZE_def mock_cells_def
        list_eq_iff_nth_eq)
  show "\<exists>f'. flash_write s_mock_flash f a bs = (FW_OK, f') \<and> mock_ok f'
      \<and> mock_cells f' = cells_put (mock_cells f) (unat a) bs"
    if bound: "unat a + length bs \<le> 1024"
      and erased: "\<And>k. unat a \<le> k \<Longrightarrow> k < unat a + length bs \<Longrightarrow> mock_cells f k = 0xFF"
  proof -
    have "programmable (mock_cells f) (unat a) bs" using erased by (rule programmable_erased)
    then obtain s' where "mock_write_loop f (unat a) bs = (FW_OK, s')" "length s' = length f"
        "mock_cells s' = cells_put (mock_cells f) (unat a) bs"
      using mock_write_loop_program [of "unat a" bs f] bound len by auto
    then show ?thesis
      using mock_bound [OF bound] len
      by (simp add: flash_write_def s_mock_flash_def mock_flash_write_def TOTAL_FLASH_SIZE_def mock_ok_def)
  qed
  show "\<exists>f'. flash_erase s_mock_flash f a = (FW_OK, f') \<and> mock_ok f' \<and>
      mock_cells f' = cells_put (mock_cells f) (unat a) (replicate (unat (fd_sector_size s_mock_flash)) 0xFF)"
    if "unat (fd_sector_size s_mock_flash) dvd unat a" "unat a + unat (fd_sector_size s_mock_flash) \<le> 1024"
  proof -
    have a: "512 dvd unat a" "unat a + 512 \<le> 1024" using that by (simp_all add: s_mock_flash_def TEST_SECTOR_SIZE_def)
    have "unat (a mod 512) = 0" using a(1) by (simp add: unat_mod)
    then have "a mod 512 = 0" by (simp add: unat_eq_zero)
    moreover have "\<not> a + 512 > 1024" using mock_bound [of a 512] a(2) by simp
    ultimately have "flash_erase s_mock_flash f a =
        (FW_OK, take (unat a) f @ replicate 512 0xFF @ drop (unat a + 512) f)"
      by (simp add: flash_erase_def s_mock_flash_def mock_flash_erase_def TEST_SECTOR_SIZE_def TOTAL_FLASH_SIZE_def)
    moreover have "mock_cells (take (unat a) f @ replicate 512 0xFF @ drop (unat a + 512) f) =
        cells_put (mock_cells f) (unat a) (replicate 512 0xFF)"
      using a(2) len by (auto simp: mock_cells_def cells_put_def fun_eq_iff nth_append)
    ultimately show ?thesis
      using a(2) len by (simp add: mock_ok_def TOTAL_FLASH_SIZE_def s_mock_flash_def TEST_SECTOR_SIZE_def)
  qed
qed (simp_all add: s_mock_flash_def TEST_SECTOR_SIZE_def)

interpretation mock_nor: nor_device s_mock_flash mock_cells 1024 mock_ok
proof unfold_locales
  fix f :: "u8 list" and a :: u32 and bs :: "u8 list"
  assume ok: "mock_ok f" and bound: "unat a + length bs \<le> 1024"
  have len: "length f = 1024" using ok by (simp add: mock_ok_def TOTAL_FLASH_SIZE_def)
  obtain st s' where "mock_write_loop f (unat a) bs = (st, s')" "length s' = length f"
      "if programmable (mock_cells f) (unat a) bs
       then st = FW_OK \<and> mock_cells s' = cells_put (mock_cells f) (unat a) bs else st \<noteq> FW_OK"
    using mock_write_loop_program [of "unat a" bs f] bound len by auto
  then show "\<exists>st f'. flash_write s_mock_flash f a bs = (st, f') \<and> mock_ok f'
      \<and> (if programmable (mock_cells f) (unat a) bs
         then st = FW_OK \<and> mock_cells f' = cells_put (mock_cells f) (unat a) bs else st \<noteq> FW_OK)"
    using mock_bound [OF bound] len
    by (simp add: flash_write_def s_mock_flash_def mock_flash_write_def TOTAL_FLASH_SIZE_def mock_ok_def)
qed

end
