(* ===== verification/Nvs.thy ===== *)
theory Nvs
  imports Flash Crc Span
begin

text \<open>
  The flash key-value store of \<^verbatim>\<open>nvs.h\<close> and \<^verbatim>\<open>nvs.c\<close>: two banks, an append-only log of records in
  the active one, and a compaction into the other when it is full.  Values come from and go to the
  byte memory; the device is the state of a flash driver.  Every loop is a partial function: None is a
  loop that never ends.
\<close>

unbundle bit_operations_syntax

definition FW_NVS_MAGIC :: u32 where "FW_NVS_MAGIC = 0x5A45524F"
definition FW_NVS_KEY_EMPTY :: u16 where "FW_NVS_KEY_EMPTY = 0xFFFF"
definition FW_NVS_STATUS_VALID :: u16 where "FW_NVS_STATUS_VALID = 0xFFFF"
definition FW_NVS_STATUS_DEAD :: u16 where "FW_NVS_STATUS_DEAD = 0"
definition FW_NVS_SECTOR_ACTIVE :: u32 where "FW_NVS_SECTOR_ACTIVE = 0x5555AAAA"

record fw_nvs_sector_hdr =
  sh_magic :: u32
  sh_state :: u32
  sh_sequence :: u32
  sh_reserved :: u32

record fw_nvs_record_hdr =
  rh_key :: u16
  rh_length :: u16
  rh_crc16 :: u16
  rh_status :: u16

text \<open>The structures as the bytes in flash.\<close>

definition sector_hdr_bytes :: "fw_nvs_sector_hdr \<Rightarrow> u8 list" where
  "sector_hdr_bytes h = le32 (sh_magic h) @ le32 (sh_state h) @ le32 (sh_sequence h) @ le32 (sh_reserved h)"

definition sector_hdr_of :: "u8 list \<Rightarrow> fw_nvs_sector_hdr" where
  "sector_hdr_of bs = \<lparr>sh_magic = of_le32 (bs ! 0) (bs ! 1) (bs ! 2) (bs ! 3),
     sh_state = of_le32 (bs ! 4) (bs ! 5) (bs ! 6) (bs ! 7),
     sh_sequence = of_le32 (bs ! 8) (bs ! 9) (bs ! 10) (bs ! 11),
     sh_reserved = of_le32 (bs ! 12) (bs ! 13) (bs ! 14) (bs ! 15)\<rparr>"

definition record_hdr_bytes :: "fw_nvs_record_hdr \<Rightarrow> u8 list" where
  "record_hdr_bytes h = le16 (rh_key h) @ le16 (rh_length h) @ le16 (rh_crc16 h) @ le16 (rh_status h)"

definition record_hdr_of :: "u8 list \<Rightarrow> fw_nvs_record_hdr" where
  "record_hdr_of bs = \<lparr>rh_key = of_le16 (bs ! 0) (bs ! 1), rh_length = of_le16 (bs ! 2) (bs ! 3),
     rh_crc16 = of_le16 (bs ! 4) (bs ! 5), rh_status = of_le16 (bs ! 6) (bs ! 7)\<rparr>"

record 'f fw_nvs =
  nv_flash :: "'f fw_flash_driver option"
  nv_bank_addr0 :: u32
  nv_bank_addr1 :: u32
  nv_active_bank :: u8
  nv_write_offset :: u32
  nv_sequence :: u32

definition bank_addr :: "'f fw_nvs \<Rightarrow> u8 \<Rightarrow> u32" where
  "bank_addr nvs b = (if b = 0 then nv_bank_addr0 nvs else nv_bank_addr1 nvs)"

definition ALIGN_UP_4 :: "u32 \<Rightarrow> u32" where
  "ALIGN_UP_4 x = (x + 3) AND NOT 3"

text \<open>The driver of a store that has been set up.\<close>

definition nv_drv :: "'f fw_nvs \<Rightarrow> 'f fw_flash_driver" where
  "nv_drv nvs = the (nv_flash nvs)"

text \<open>\<open>payload\<close> is None for \<^verbatim>\<open>NULL\<close>.\<close>

definition calc_record_crc :: "u16 \<Rightarrow> u16 \<Rightarrow> u8 list option \<Rightarrow> u16" where
  "calc_record_crc key len payload =
     (let meta = [ucast (key AND 0xFF), ucast (drop_bit 8 key AND 0xFF),
                  ucast (len AND 0xFF), ucast (drop_bit 8 len AND 0xFF)];
          crc = crc16_step 0xFFFF meta
      in case payload of
           None \<Rightarrow> crc
         | Some bs \<Rightarrow> if len > 0 then crc16_step crc (take (unat len) bs) else crc)"

partial_function (option) scan_loop :: "'f fw_flash_driver \<Rightarrow> 'f \<Rightarrow> u32 \<Rightarrow> u32 \<Rightarrow> u32 \<Rightarrow> u32 option" where
  "scan_loop drv f bank_base max_size offset =
     (if offset + 8 \<le> max_size then
        (case flash_read drv f (bank_base + offset) 8 of
           (st, bs) \<Rightarrow>
             if st \<noteq> FW_OK then Some offset
             else
               let hdr = record_hdr_of bs
               in if rh_key hdr = FW_NVS_KEY_EMPTY then Some offset
                  else
                    let rec_total = 8 + ALIGN_UP_4 (ucast (rh_length hdr))
                    in if offset + rec_total > max_size then Some offset
                       else scan_loop drv f bank_base max_size (offset + rec_total))
      else Some offset)"

definition scan_write_offset :: "'f fw_nvs \<Rightarrow> 'f \<Rightarrow> 'f fw_nvs option" where
  "scan_write_offset nvs f =
     (case scan_loop (nv_drv nvs) f (bank_addr nvs (nv_active_bank nvs)) (fd_sector_size (nv_drv nvs)) 16 of
        None \<Rightarrow> None
      | Some offset \<Rightarrow> Some (nvs\<lparr>nv_write_offset := offset\<rparr>))"

definition nvs_sector_hdr :: "u32 \<Rightarrow> fw_nvs_sector_hdr" where
  "nvs_sector_hdr seq = \<lparr>sh_magic = FW_NVS_MAGIC, sh_state = FW_NVS_SECTOR_ACTIVE, sh_sequence = seq,
     sh_reserved = 0xFFFFFFFF\<rparr>"

definition fw_nvs_format :: "'f fw_nvs option \<Rightarrow> 'f \<Rightarrow> fw_status \<times> 'f fw_nvs option \<times> 'f" where
  "fw_nvs_format nvs f =
     (case nvs of
        None \<Rightarrow> (FW_ERR_INVALID_ARG, None, f)
      | Some n \<Rightarrow>
      if nv_flash n = None then (FW_ERR_INVALID_ARG, nvs, f) else
      (case flash_erase (nv_drv n) f (nv_bank_addr0 n) of
        (st, f1) \<Rightarrow> if st \<noteq> FW_OK then (st, nvs, f1) else
      (case flash_erase (nv_drv n) f1 (nv_bank_addr1 n) of
        (st, f2) \<Rightarrow> if st \<noteq> FW_OK then (st, nvs, f2) else
      (case flash_write (nv_drv n) f2 (nv_bank_addr0 n) (sector_hdr_bytes (nvs_sector_hdr 1)) of
        (st, f3) \<Rightarrow> if st \<noteq> FW_OK then (st, nvs, f3)
          else (FW_OK, Some (n\<lparr>nv_active_bank := 0, nv_write_offset := 16, nv_sequence := 1\<rparr>), f3)))))"

definition bank_valid :: "fw_nvs_sector_hdr \<Rightarrow> bool" where
  "bank_valid h \<longleftrightarrow> sh_magic h = FW_NVS_MAGIC \<and> sh_state h = FW_NVS_SECTOR_ACTIVE"

text \<open>The result of the erase of a stale bank is ignored, as in the code.\<close>

definition fw_nvs_init ::
  "'f fw_nvs option \<Rightarrow> 'f fw_flash_driver option \<Rightarrow> u32 \<Rightarrow> u32 \<Rightarrow> 'f \<Rightarrow> (fw_status \<times> 'f fw_nvs option \<times> 'f) option" where
  "fw_nvs_init nvs flash bank0_addr bank1_addr f =
     (case (nvs, flash) of
        (Some n0, Some drv) \<Rightarrow>
          if fd_read drv = None \<or> fd_write drv = None \<or> fd_erase_sector drv = None then Some (FW_ERR_INVALID_ARG, nvs, f)
          else if fd_sector_size drv < 256 then Some (FW_ERR_INVALID_ARG, nvs, f)
          else
            let n1 = n0\<lparr>nv_flash := Some drv, nv_bank_addr0 := bank0_addr, nv_bank_addr1 := bank1_addr\<rparr>
            in (case flash_read drv f bank0_addr 16 of
                  (st0, bs0) \<Rightarrow> if st0 \<noteq> FW_OK then Some (st0, Some n1, f) else
                (case flash_read drv f bank1_addr 16 of
                  (st1, bs1) \<Rightarrow> if st1 \<noteq> FW_OK then Some (st1, Some n1, f) else
                  let hdr0 = sector_hdr_of bs0; hdr1 = sector_hdr_of bs1;
                      valid0 = bank_valid hdr0; valid1 = bank_valid hdr1
                  in if \<not> valid0 \<and> \<not> valid1 then
                       Some (fw_nvs_format (Some n1) f)
                     else
                       let (b, sq, f2) =
                             (if valid0 \<and> \<not> valid1 then (0, sh_sequence hdr0, f)
                              else if \<not> valid0 \<and> valid1 then (1, sh_sequence hdr1, f)
                              else if sh_sequence hdr1 > sh_sequence hdr0
                              then (1, sh_sequence hdr1, snd (flash_erase drv f bank0_addr))
                              else (0, sh_sequence hdr0, snd (flash_erase drv f bank1_addr)))
                       in (case scan_write_offset (n1\<lparr>nv_active_bank := b, nv_sequence := sq\<rparr>) f2 of
                             None \<Rightarrow> None
                           | Some n3 \<Rightarrow> Some (FW_OK, Some n3, f2))))
      | _ \<Rightarrow> Some (FW_ERR_INVALID_ARG, nvs, f))"

section \<open>Compaction\<close>

text \<open>Whether no later record of the log carries the key.\<close>

partial_function (option) latest_loop :: "'f fw_flash_driver \<Rightarrow> 'f \<Rightarrow> u32 \<Rightarrow> u32 \<Rightarrow> u16 \<Rightarrow> u32 \<Rightarrow> bool option" where
  "latest_loop drv f src_base woff key scan_off =
     (if scan_off < woff then
        (case flash_read drv f (src_base + scan_off) 8 of
           (st, bs) \<Rightarrow>
             if st \<noteq> FW_OK then Some True
             else
               let hdr = record_hdr_of bs
               in if rh_key hdr = FW_NVS_KEY_EMPTY then Some True
                  else if rh_key hdr = key then Some False
                  else latest_loop drv f src_base woff key (scan_off + (8 + ALIGN_UP_4 (ucast (rh_length hdr)))))
      else Some True)"

partial_function (option) copy_loop :: "'f fw_flash_driver \<Rightarrow> 'f \<Rightarrow> u32 \<Rightarrow> u32 \<Rightarrow> u32 \<Rightarrow> (fw_status \<times> 'f) option" where
  "copy_loop drv f chunk_src chunk_dst bytes_to_copy =
     (if bytes_to_copy > 0 then
        let chunk = (if bytes_to_copy > 128 then 128 else bytes_to_copy)
        in (case flash_read drv f chunk_src (unat chunk) of
              (st, bs) \<Rightarrow>
                if st \<noteq> FW_OK then Some (st, f)
                else
                  (case flash_write drv f chunk_dst bs of
                     (st', f') \<Rightarrow>
                       if st' \<noteq> FW_OK then Some (st', f')
                       else copy_loop drv f' (chunk_src + chunk) (chunk_dst + chunk) (bytes_to_copy - chunk)))
      else Some (FW_OK, f))"

text \<open>The migration loop: its status, the offset reached in the destination, and the device.\<close>

partial_function (option) migrate_loop ::
  "'f fw_flash_driver \<Rightarrow> u32 \<Rightarrow> u32 \<Rightarrow> u32 \<Rightarrow> u32 \<Rightarrow> 'f \<Rightarrow> u32 \<Rightarrow> u32 \<Rightarrow> (fw_status \<times> u32 \<times> 'f) option" where
  "migrate_loop drv woff max_size src_base dst_base f src_offset dst_offset =
     (if src_offset < woff then
        (case flash_read drv f (src_base + src_offset) 8 of
           (st, bs) \<Rightarrow>
             if st \<noteq> FW_OK then Some (FW_OK, dst_offset, f)
             else
               let hdr = record_hdr_of bs
               in if rh_key hdr = FW_NVS_KEY_EMPTY then Some (FW_OK, dst_offset, f)
                  else
                    let cur_total = 8 + ALIGN_UP_4 (ucast (rh_length hdr))
                    in Option.bind
                         (if rh_status hdr = FW_NVS_STATUS_VALID
                          then latest_loop drv f src_base woff (rh_key hdr) (src_offset + cur_total) else Some False)
                         (\<lambda>is_latest.
                            if is_latest then
                              if dst_offset + cur_total > max_size then Some (FW_ERR_OUT_OF_MEMORY, dst_offset, f)
                              else Option.bind (copy_loop drv f (src_base + src_offset) (dst_base + dst_offset) cur_total)
                                     (\<lambda>r. if fst r \<noteq> FW_OK then Some (fst r, dst_offset, snd r)
                                          else migrate_loop drv woff max_size src_base dst_base (snd r)
                                                 (src_offset + cur_total) (dst_offset + cur_total))
                            else migrate_loop drv woff max_size src_base dst_base f (src_offset + cur_total) dst_offset))
      else Some (FW_OK, dst_offset, f))"

definition nvs_compact :: "'f fw_nvs \<Rightarrow> 'f \<Rightarrow> (fw_status \<times> 'f fw_nvs \<times> 'f) option" where
  "nvs_compact nvs f =
     (let drv = nv_drv nvs;
          alt_bank = 1 - nv_active_bank nvs;
          src_base = bank_addr nvs (nv_active_bank nvs);
          dst_base = bank_addr nvs alt_bank;
          next_seq = nv_sequence nvs + 1
      in (case flash_erase drv f dst_base of
            (st, f1) \<Rightarrow> if st \<noteq> FW_OK then Some (st, nvs, f1) else
          (case flash_write drv f1 dst_base (sector_hdr_bytes (nvs_sector_hdr next_seq)) of
            (st, f2) \<Rightarrow> if st \<noteq> FW_OK then Some (st, nvs, f2) else
          (case migrate_loop drv (nv_write_offset nvs) (fd_sector_size drv) src_base dst_base f2 16 16 of
             None \<Rightarrow> None
           | Some (st, dst_offset, f3) \<Rightarrow> if st \<noteq> FW_OK then Some (st, nvs, f3) else
          (case flash_erase drv f3 src_base of
            (st, f4) \<Rightarrow> if st \<noteq> FW_OK then Some (st, nvs, f4)
              else Some (FW_OK, nvs\<lparr>nv_active_bank := alt_bank, nv_write_offset := dst_offset,
                                    nv_sequence := next_seq\<rparr>, f4))))))"

section \<open>Operations\<close>

text \<open>The record header, the payload and the padding, each programmed by its own write.\<close>

definition write_record ::
  "'f fw_nvs \<Rightarrow> 'f \<Rightarrow> u16 \<Rightarrow> u8 list option \<Rightarrow> u32 \<Rightarrow> fw_status \<times> 'f fw_nvs \<times> 'f" where
  "write_record nvs f key payload payload_len =
     (let drv = nv_drv nvs;
          aligned_payload = ALIGN_UP_4 payload_len;
          hdr = \<lparr>rh_key = key, rh_length = ucast payload_len,
                 rh_crc16 = calc_record_crc key (ucast payload_len) payload, rh_status = FW_NVS_STATUS_VALID\<rparr>;
          addr = bank_addr nvs (nv_active_bank nvs) + nv_write_offset nvs;
          done = (\<lambda>f'. (FW_OK, nvs\<lparr>nv_write_offset := nv_write_offset nvs + (8 + aligned_payload)\<rparr>, f'))
      in (case flash_write drv f addr (record_hdr_bytes hdr) of
            (st, f1) \<Rightarrow> if st \<noteq> FW_OK then (st, nvs, f1)
              else if payload_len > 0 then
                (case flash_write drv f1 (addr + 8) (the payload) of
                   (st, f2) \<Rightarrow> if st \<noteq> FW_OK then (st, nvs, f2)
                     else if aligned_payload > payload_len then
                       (case flash_write drv f2 (addr + 8 + payload_len)
                               (replicate (unat (aligned_payload - payload_len)) 0xFF) of
                          (st, f3) \<Rightarrow> if st \<noteq> FW_OK then (st, nvs, f3) else done f3)
                     else done f2)
              else done f1))"

text \<open>The payload as the driver receives it: the bytes the span designates, None for a NULL pointer.\<close>

definition span_payload :: "mem \<Rightarrow> fw_cspan \<Rightarrow> u8 list option" where
  "span_payload m d = (if cspan_data d = FW_NULL then None else Some (mem_read m (cspan_data d) (unat (cspan_length d))))"

definition fw_nvs_write ::
  "mem \<Rightarrow> 'f fw_nvs option \<Rightarrow> 'f \<Rightarrow> u16 \<Rightarrow> fw_cspan \<Rightarrow> (fw_status \<times> 'f fw_nvs option \<times> 'f) option" where
  "fw_nvs_write m nvs f key d =
     (case nvs of
        None \<Rightarrow> Some (FW_ERR_INVALID_ARG, None, f)
      | Some n \<Rightarrow>
          if key = FW_NVS_KEY_EMPTY then Some (FW_ERR_INVALID_ARG, nvs, f)
          else
            let payload_len = cspan_length d;
                rec_total = 8 + ALIGN_UP_4 payload_len;
                sector_size = fd_sector_size (nv_drv n);
                append = (\<lambda>n' f'. case write_record n' f' key (span_payload m d) payload_len of
                            (st, n2, f2) \<Rightarrow> Some (st, Some n2, f2))
            in if 16 + rec_total > sector_size then Some (FW_ERR_OUT_OF_MEMORY, nvs, f)
               else if nv_write_offset n + rec_total > sector_size then
                 (case nvs_compact n f of
                    None \<Rightarrow> None
                  | Some (st, n', f') \<Rightarrow>
                      if st \<noteq> FW_OK then Some (st, Some n', f')
                      else if nv_write_offset n' + rec_total > sector_size then Some (FW_ERR_OUT_OF_MEMORY, Some n', f')
                      else append n' f')
               else append n f)"

text \<open>The forward scan for the latest version of a key: found, offset and header of the match.\<close>

partial_function (option) read_loop ::
  "'f fw_flash_driver \<Rightarrow> 'f \<Rightarrow> u32 \<Rightarrow> u32 \<Rightarrow> u16 \<Rightarrow> u32 \<Rightarrow> bool \<times> u32 \<times> fw_nvs_record_hdr \<Rightarrow>
   (bool \<times> u32 \<times> fw_nvs_record_hdr) option" where
  "read_loop drv f bank_base woff key offset acc =
     (if offset < woff then
        (case flash_read drv f (bank_base + offset) 8 of
           (st, bs) \<Rightarrow>
             if st \<noteq> FW_OK then Some acc
             else
               let hdr = record_hdr_of bs
               in if rh_key hdr = FW_NVS_KEY_EMPTY then Some acc
                  else
                    let acc' = (if rh_key hdr = key then
                                  if rh_status hdr = FW_NVS_STATUS_VALID then (True, offset, hdr)
                                  else (False, snd acc)
                                else acc)
                    in read_loop drv f bank_base woff key (offset + (8 + ALIGN_UP_4 (ucast (rh_length hdr)))) acc')
      else Some acc)"

definition zero_record_hdr :: fw_nvs_record_hdr where
  "zero_record_hdr = \<lparr>rh_key = 0, rh_length = 0, rh_crc16 = 0, rh_status = 0\<rparr>"

text \<open>Status, memory with the value at the output span, and the length at \<^verbatim>\<open>out_len\<close> (None for NULL).\<close>

definition fw_nvs_read ::
  "mem \<Rightarrow> 'f fw_nvs option \<Rightarrow> 'f \<Rightarrow> u16 \<Rightarrow> fw_span \<Rightarrow> usize option \<Rightarrow> (fw_status \<times> mem \<times> usize option) option" where
  "fw_nvs_read m nvs f key out_data out_len =
     (case nvs of
        None \<Rightarrow> Some (FW_ERR_INVALID_ARG, m, out_len)
      | Some n \<Rightarrow>
          if key = FW_NVS_KEY_EMPTY then Some (FW_ERR_INVALID_ARG, m, out_len)
          else
            let drv = nv_drv n; bank_base = bank_addr n (nv_active_bank n)
            in (case read_loop drv f bank_base (nv_write_offset n) key 16 (False, 0, zero_record_hdr) of
                  None \<Rightarrow> None
                | Some (found, match_offset, match_hdr) \<Rightarrow>
                    if \<not> found then Some (FW_ERR_NOT_FOUND, m, out_len)
                    else if span_length out_data < ucast (rh_length match_hdr) then Some (FW_ERR_BUFFER_OVERFLOW, m, out_len)
                    else
                      let k = unat (rh_length match_hdr);
                          (st, bs) = (if rh_length match_hdr > 0
                                      then flash_read drv f (bank_base + match_offset + 8) k else (FW_OK, []))
                      in if st \<noteq> FW_OK then Some (st, m, out_len)
                         else
                           let m' = mem_write m (span_data out_data) bs;
                               payload = (if span_data out_data = FW_NULL then None
                                          else Some (mem_read m' (span_data out_data) k))
                           in if calc_record_crc key (rh_length match_hdr) payload \<noteq> rh_crc16 match_hdr
                              then Some (FW_ERR_CORRUPTED, m', out_len)
                              else Some (FW_OK, m', if out_len \<noteq> None then Some (ucast (rh_length match_hdr)) else None)))"

text \<open>The existence check reads into a one-byte buffer of its own stack frame.\<close>

definition fw_nvs_delete ::
  "'f fw_nvs option \<Rightarrow> 'f \<Rightarrow> u16 \<Rightarrow> (fw_status \<times> 'f fw_nvs option \<times> 'f) option" where
  "fw_nvs_delete nvs f key =
     (case nvs of
        None \<Rightarrow> Some (FW_ERR_INVALID_ARG, None, f)
      | Some n \<Rightarrow>
          if key = FW_NVS_KEY_EMPTY then Some (FW_ERR_INVALID_ARG, nvs, f)
          else
            (case fw_nvs_read (\<lambda>_. 0) nvs f key \<lparr>span_data = 1, span_length = 1\<rparr> (Some 0) of
               None \<Rightarrow> None
             | Some (st, _, _) \<Rightarrow>
                 if st = FW_ERR_NOT_FOUND then Some (FW_ERR_NOT_FOUND, nvs, f)
                 else
                   let tombstone = (\<lambda>n' f'.
                         let hdr = \<lparr>rh_key = key, rh_length = 0, rh_crc16 = calc_record_crc key 0 None,
                                    rh_status = FW_NVS_STATUS_DEAD\<rparr>
                         in (case flash_write (nv_drv n') f' (bank_addr n' (nv_active_bank n') + nv_write_offset n')
                                    (record_hdr_bytes hdr) of
                               (st, f2) \<Rightarrow> if st \<noteq> FW_OK then Some (st, Some n', f2)
                                 else Some (FW_OK, Some (n'\<lparr>nv_write_offset := nv_write_offset n' + 8\<rparr>), f2)))
                   in if nv_write_offset n + 8 > fd_sector_size (nv_drv n) then
                        (case nvs_compact n f of
                           None \<Rightarrow> None
                         | Some (st, n', f') \<Rightarrow> if st \<noteq> FW_OK then Some (st, Some n', f') else tombstone n' f')
                      else tombstone n f))"

definition fw_nvs_get_stats ::
  "'f fw_nvs option \<Rightarrow> usize option \<Rightarrow> usize option \<Rightarrow> fw_status \<times> usize option \<times> usize option" where
  "fw_nvs_get_stats nvs out_used out_free =
     (case nvs of
        None \<Rightarrow> (FW_ERR_INVALID_ARG, out_used, out_free)
      | Some n \<Rightarrow>
          let sz = fd_sector_size (nv_drv n)
          in (FW_OK, if out_used \<noteq> None then Some (nv_write_offset n) else None,
              if out_free \<noteq> None then Some (if sz > nv_write_offset n then sz - nv_write_offset n else 0) else None))"

end
