(* ===== verification/Nvs_Log.thy ===== *)
theory Nvs_Log
  imports Nvs
begin

text \<open>
  The log a bank of the key-value store holds, and the map it stands for.  A record is a key with its
  payload, or a tombstone; the store represents a log when its active bank carries the sector header,
  the encoded records and erased cells up to the end of the sector.  Under the contract of
  \<open>flash_device\<close> the operations of \<^verbatim>\<open>nvs.c\<close> act on the log, hence on the map, as a dictionary does.
\<close>

unbundle bit_operations_syntax

type_synonym nv_rec = "u16 \<times> u8 list option"

section \<open>Logs\<close>

definition rec_payload :: "nv_rec \<Rightarrow> u8 list" where
  "rec_payload r = (case snd r of None \<Rightarrow> [] | Some p \<Rightarrow> p)"

definition rec_size :: "nv_rec \<Rightarrow> nat" where
  "rec_size r = 8 + round_up 2 (length (rec_payload r))"

definition rec_hdr :: "nv_rec \<Rightarrow> fw_nvs_record_hdr" where
  "rec_hdr r = \<lparr>rh_key = fst r, rh_length = of_nat (length (rec_payload r)),
     rh_crc16 = calc_record_crc (fst r) (of_nat (length (rec_payload r))) (Some (rec_payload r)),
     rh_status = (if snd r = None then FW_NVS_STATUS_DEAD else FW_NVS_STATUS_VALID)\<rparr>"

definition rec_bytes :: "nv_rec \<Rightarrow> u8 list" where
  "rec_bytes r = record_hdr_bytes (rec_hdr r) @ rec_payload r
     @ replicate (round_up 2 (length (rec_payload r)) - length (rec_payload r)) 0xFF"

definition rec_ok :: "nv_rec \<Rightarrow> bool" where
  "rec_ok r \<longleftrightarrow> fst r \<noteq> FW_NVS_KEY_EMPTY \<and> length (rec_payload r) < 2 ^ 16"

definition log_size :: "nv_rec list \<Rightarrow> nat" where
  "log_size log = sum_list (map rec_size log)"

definition log_bytes :: "nv_rec list \<Rightarrow> u8 list" where
  "log_bytes log = concat (map rec_bytes log)"

text \<open>The map of a log: the last record of a key counts, a tombstone removes it.\<close>

fun log_lookup :: "nv_rec list \<Rightarrow> u16 \<Rightarrow> u8 list option" where
  "log_lookup [] k = None"
| "log_lookup (r # log) k =
     (if k \<in> fst ` set log then log_lookup log k else if k = fst r then snd r else None)"

text \<open>What a compaction keeps: the live records no later record supersedes.\<close>

fun compact_log :: "nv_rec list \<Rightarrow> nv_rec list" where
  "compact_log [] = []"
| "compact_log (r # log) =
     (if snd r \<noteq> None \<and> fst r \<notin> fst ` set log then r # compact_log log else compact_log log)"

lemma log_size_simps [simp]:
  "log_size [] = 0" "log_size (r # log) = rec_size r + log_size log"
  "log_size (log @ log') = log_size log + log_size log'"
  by (simp_all add: log_size_def)

lemma log_bytes_simps [simp]:
  "log_bytes [] = []" "log_bytes (r # log) = rec_bytes r @ log_bytes log"
  "log_bytes (log @ log') = log_bytes log @ log_bytes log'"
  by (simp_all add: log_bytes_def)

lemma length_hdr_bytes [simp]: "length (record_hdr_bytes h) = 8" "length (sector_hdr_bytes sh) = 16"
  by (simp_all add: record_hdr_bytes_def sector_hdr_bytes_def)

lemma length_rec_bytes [simp]: "length (rec_bytes r) = rec_size r"
  using round_up_ge [of "length (rec_payload r)" 2] by (simp add: rec_bytes_def rec_size_def)

lemma length_log_bytes [simp]: "length (log_bytes log) = log_size log"
  by (induction log) simp_all

lemma rec_size_ge: "8 \<le> rec_size r"
  by (simp add: rec_size_def)

lemma rec_ok_size: "rec_ok r \<Longrightarrow> rec_size r \<le> 65544"
  using round_up_less [of 2 "length (rec_payload r)"] round_up_dvd [of 2 "length (rec_payload r)"]
  by (auto simp: rec_ok_def rec_size_def elim!: dvdE)

lemma take_rec_bytes: "take 8 (rec_bytes r) = record_hdr_bytes (rec_hdr r)"
  by (simp add: rec_bytes_def)

lemma of_le16_ones: "of_le16 0xFF 0xFF = 0xFFFF"
  by (simp add: of_le16_def)

lemma record_hdr_of_bytes [simp]: "record_hdr_of (record_hdr_bytes h) = h"
  by (simp add: record_hdr_of_def record_hdr_bytes_def le16_def of_le16_le16)

lemma sector_hdr_of_bytes [simp]: "sector_hdr_of (sector_hdr_bytes h) = h"
  by (simp add: sector_hdr_of_def sector_hdr_bytes_def le32_def of_le32_le32)

lemma rec_hdr_fields [simp]:
  "rh_key (rec_hdr r) = fst r"
  "rh_status (rec_hdr r) = FW_NVS_STATUS_VALID \<longleftrightarrow> snd r \<noteq> None"
  by (simp_all add: rec_hdr_def FW_NVS_STATUS_VALID_def FW_NVS_STATUS_DEAD_def)

lemma rec_hdr_length: "rec_ok r \<Longrightarrow> unat (rh_length (rec_hdr r)) = length (rec_payload r)"
  by (simp add: rec_hdr_def rec_ok_def unat_of_nat_small [where 'a = 16] del: unsigned_of_nat)

lemma ALIGN_UP_4_align: "ALIGN_UP_4 x = align_up x 4"
  by (simp add: ALIGN_UP_4_def align_up_def)

lemma unat_ALIGN_UP_4: "unat x + 3 < 2 ^ 32 \<Longrightarrow> unat (ALIGN_UP_4 x) = round_up 2 (unat x)"
  using align_up_round [of 2 x] by (simp add: ALIGN_UP_4_align)

lemma unat_ucast_16_32 [simp]: "unat (ucast (x :: u16) :: u32) = unat x"
  using unsigned_less [of x, where 'a = nat] by (simp add: unsigned_ucast_eq take_bit_nat_eq_self)

lemma unat_rec_total:
  assumes "rec_ok r"
  shows "unat (8 + ALIGN_UP_4 (ucast (rh_length (rec_hdr r)))) = rec_size r"
proof -
  have u: "unat (ALIGN_UP_4 (ucast (rh_length (rec_hdr r)))) = round_up 2 (length (rec_payload r))"
    using assms by (subst unat_ALIGN_UP_4) (simp_all add: rec_hdr_length rec_ok_def)
  then have "unat (8 + ALIGN_UP_4 (ucast (rh_length (rec_hdr r)))) = 8 + round_up 2 (length (rec_payload r))"
    using rec_ok_size [OF assms] by (subst unat_add_nowrap) (simp_all add: rec_size_def)
  then show ?thesis by (simp add: rec_size_def)
qed

lemma log_lookup_Nil [simp]: "log_lookup [] = Map.empty"
  by (simp add: fun_eq_iff)

lemma log_lookup_snoc: "log_lookup (log @ [r]) k = (if k = fst r then snd r else log_lookup log k)"
  by (induction log) auto

lemma log_lookup_notin: "k \<notin> fst ` set log \<Longrightarrow> log_lookup log k = None"
  by (induction log) auto

lemma compact_log_lookup: "log_lookup (compact_log log) = log_lookup log"
proof (induction log)
  case (Cons r log)
  have "k \<in> fst ` set (compact_log log) \<Longrightarrow> k \<in> fst ` set log" for k
    by (induction log) (auto split: if_splits)
  moreover have "k \<notin> fst ` set (compact_log log) \<Longrightarrow> log_lookup log k = None" for k
    using Cons by (metis log_lookup_notin)
  ultimately show ?case using Cons by (auto simp: fun_eq_iff log_lookup_notin)
qed simp

lemma compact_log_size: "log_size (compact_log log) \<le> log_size log"
  by (induction log) auto

lemma compact_log_ok: "(\<And>r. r \<in> set log \<Longrightarrow> rec_ok r) \<Longrightarrow> r \<in> set (compact_log log) \<Longrightarrow> rec_ok r"
  by (induction log) (auto split: if_splits)

section \<open>A bank that holds a log\<close>

definition bank_is :: "nat \<Rightarrow> (nat \<Rightarrow> u8) \<Rightarrow> nat \<Rightarrow> u32 \<Rightarrow> nv_rec list \<Rightarrow> bool" where
  "bank_is S c b sq log \<longleftrightarrow>
     (\<forall>r\<in>set log. rec_ok r) \<and> 16 + log_size log \<le> S
     \<and> cell_range c b 16 = sector_hdr_bytes (nvs_sector_hdr sq)
     \<and> cell_range c (b + 16) (log_size log) = log_bytes log
     \<and> (\<forall>k. b + (16 + log_size log) \<le> k \<and> k < b + S \<longrightarrow> c k = 0xFF)"

text \<open>The same without the erased rest: what the scans over the log rely on.\<close>

definition bank_holds :: "nat \<Rightarrow> (nat \<Rightarrow> u8) \<Rightarrow> nat \<Rightarrow> nv_rec list \<Rightarrow> bool" where
  "bank_holds S c b log \<longleftrightarrow> (\<forall>r\<in>set log. rec_ok r) \<and> 16 + log_size log \<le> S
     \<and> cell_range c (b + 16) (log_size log) = log_bytes log"

lemma bank_is_holds: "bank_is S c b sq log \<Longrightarrow> bank_holds S c b log"
  by (simp add: bank_is_def bank_holds_def)

lemma bank_holds_rec:
  assumes "bank_holds S c b (xs @ r # ys)" and "k + n \<le> rec_size r"
  shows "cell_range c (b + (16 + log_size xs) + k) n = take n (drop k (rec_bytes r))"
proof -
  have "cell_range c (b + 16) (log_size (xs @ r # ys)) = log_bytes (xs @ r # ys)"
    using assms(1) by (simp add: bank_holds_def)
  then have "cell_range c (b + 16 + log_size xs) (rec_size r) = rec_bytes r"
    using cell_range_slice [of "log_size xs" "rec_size r" "log_size (xs @ r # ys)" c "b + 16"] by simp
  then show ?thesis
    using cell_range_slice [OF assms(2), of c "b + 16 + log_size xs"] by (simp add: add.assoc)
qed

lemmas bank_is_rec = bank_holds_rec [OF bank_is_holds]

lemma bank_holds_hdr:
  assumes "bank_holds S c b (xs @ r # ys)"
  shows "cell_range c (b + (16 + log_size xs)) 8 = record_hdr_bytes (rec_hdr r)"
  using bank_holds_rec [OF assms, of 0 8] rec_size_ge [of r] by (simp add: take_rec_bytes)

lemma bank_is_frame:
  assumes "bank_is S c b sq log" and "\<And>k. b \<le> k \<Longrightarrow> k < b + S \<Longrightarrow> c' k = c k"
  shows "bank_is S c' b sq log"
proof -
  have le: "16 + log_size log \<le> S" using assms(1) by (simp add: bank_is_def)
  have "cell_range c' b 16 = cell_range c b 16"
    using le by (intro cell_range_cong assms(2)) simp_all
  moreover have "cell_range c' (b + 16) (log_size log) = cell_range c (b + 16) (log_size log)"
    using le by (intro cell_range_cong assms(2)) simp_all
  ultimately show ?thesis using assms by (auto simp: bank_is_def)
qed

lemma bank_is_append:
  assumes "bank_is S c b sq log" and "rec_ok r" and "16 + log_size log + rec_size r \<le> S"
  shows "bank_is S (cells_put c (b + (16 + log_size log)) (rec_bytes r)) b sq (log @ [r])"
proof -
  let ?c = "cells_put c (b + (16 + log_size log)) (rec_bytes r)"
  have "cell_range ?c b 16 = cell_range c b 16" by (rule cell_range_put_other) simp
  moreover have "cell_range ?c (b + 16) (log_size log) = cell_range c (b + 16) (log_size log)"
    by (rule cell_range_put_other) simp
  moreover have "cell_range ?c (b + 16 + log_size log) (rec_size r) = rec_bytes r"
    using cell_range_put_same [of "rec_bytes r" "rec_size r" c "b + (16 + log_size log)"] by (simp add: add.assoc)
  ultimately show ?thesis
    using assms by (auto simp: bank_is_def cell_range_append cells_put_def)
qed

lemma bank_is_new:
  assumes "16 \<le> S"
  shows "bank_is S (cells_put (cells_put c b (replicate S 0xFF)) b (sector_hdr_bytes (nvs_sector_hdr sq))) b sq []"
  using assms by (auto simp: bank_is_def cell_range_put_same cells_put_def)

lemma bank_is_valid: "bank_is S c b sq log \<Longrightarrow> sector_hdr_of (cell_range c b 16) = nvs_sector_hdr sq"
  by (simp add: bank_is_def)

lemma bank_valid_new [simp]: "bank_valid (nvs_sector_hdr sq)" "sh_sequence (nvs_sector_hdr sq) = sq"
  by (simp_all add: bank_valid_def nvs_sector_hdr_def)

text \<open>Two distinct sectors of the device do not overlap, and twice a sector fits the address space.\<close>

definition banks_ok :: "nat \<Rightarrow> nat \<Rightarrow> nat \<Rightarrow> nat \<Rightarrow> bool" where
  "banks_ok S fsz b0 b1 \<longleftrightarrow>
     256 \<le> S \<and> S dvd b0 \<and> S dvd b1 \<and> b0 \<noteq> b1 \<and> b0 + S \<le> fsz \<and> b1 + S \<le> fsz"

lemma banks_ok_sym: "banks_ok S fsz b0 b1 \<Longrightarrow> banks_ok S fsz b1 b0"
  by (auto simp: banks_ok_def)

lemma banks_ok_disjoint:
  assumes "banks_ok S fsz b0 b1"
  shows "b0 + S \<le> b1 \<or> b1 + S \<le> b0" and "2 * S \<le> fsz"
proof -
  obtain i j where ij: "b0 = S * i" "b1 = S * j" using assms by (auto simp: banks_ok_def elim!: dvdE)
  then have "i \<noteq> j" using assms by (auto simp: banks_ok_def)
  then have "Suc i \<le> j \<or> Suc j \<le> i" by linarith
  then have "S * Suc i \<le> S * j \<or> S * Suc j \<le> S * i" using mult_le_mono2 by blast
  then show *: "b0 + S \<le> b1 \<or> b1 + S \<le> b0" by (simp add: ij add.commute)
  then show "2 * S \<le> fsz" using assms by (auto simp: banks_ok_def)
qed

section \<open>The loops of nvs.c over a log\<close>

text \<open>The result of the scan for a key over a prefix of the log.\<close>

definition match_ok :: "u16 \<Rightarrow> nv_rec list \<Rightarrow> bool \<times> u32 \<times> fw_nvs_record_hdr \<Rightarrow> bool" where
  "match_ok key log acc \<longleftrightarrow>
     (case log_lookup log key of
        None \<Rightarrow> \<not> fst acc
      | Some p \<Rightarrow> \<exists>us vs. log = us @ (key, Some p) # vs
          \<and> acc = (True, of_nat (16 + log_size us), rec_hdr (key, Some p)))"

text \<open>The store with the device represents a log.\<close>

definition nvs_rep ::
  "'f fw_flash_driver \<Rightarrow> ('f \<Rightarrow> nat \<Rightarrow> u8) \<Rightarrow> nat \<Rightarrow> ('f \<Rightarrow> bool) \<Rightarrow> 'f fw_nvs \<Rightarrow> 'f \<Rightarrow> nv_rec list \<Rightarrow> bool" where
  "nvs_rep drv cells fsz ok n f log \<longleftrightarrow>
     nv_flash n = Some drv \<and> ok f
     \<and> banks_ok (unat (fd_sector_size drv)) fsz (unat (nv_bank_addr0 n)) (unat (nv_bank_addr1 n))
     \<and> (nv_active_bank n = 0 \<or> nv_active_bank n = 1)
     \<and> unat (nv_write_offset n) = 16 + log_size log
     \<and> bank_is (unat (fd_sector_size drv)) (cells f) (unat (bank_addr n (nv_active_bank n))) (nv_sequence n) log
     \<and> \<not> bank_valid (sector_hdr_of (cell_range (cells f) (unat (bank_addr n (1 - nv_active_bank n))) 16))"

lemma nvs_rep_banks:
  assumes "nvs_rep drv cells fsz ok n f log"
  shows "banks_ok (unat (fd_sector_size drv)) fsz (unat (bank_addr n (nv_active_bank n))) (unat (bank_addr n (1 - nv_active_bank n)))"
  using assms banks_ok_sym by (auto simp: nvs_rep_def bank_addr_def)

lemma nvs_repD:
  assumes "nvs_rep drv cells fsz ok n f log"
  shows "nv_flash n = Some drv" "nv_drv n = drv" "ok f" "unat (nv_write_offset n) = 16 + log_size log"
    "bank_is (unat (fd_sector_size drv)) (cells f) (unat (bank_addr n (nv_active_bank n))) (nv_sequence n) log"
    "unat (bank_addr n (nv_active_bank n)) + unat (fd_sector_size drv) \<le> fsz"
    "unat (fd_sector_size drv) + unat (fd_sector_size drv) \<le> fsz"
    "16 + log_size log \<le> unat (fd_sector_size drv)"
  using assms nvs_rep_banks [OF assms] banks_ok_disjoint(2) [OF nvs_rep_banks [OF assms]]
  by (simp_all add: nvs_rep_def nv_drv_def banks_ok_def bank_is_def)

lemma nvs_rep_other_bank:
  assumes "nvs_rep drv cells fsz ok n f log" and "16 + log_size log + length bs \<le> unat (fd_sector_size drv)"
  shows "cell_range (cells_put (cells f) (unat (bank_addr n (nv_active_bank n)) + (16 + log_size log)) bs)
      (unat (bank_addr n (1 - nv_active_bank n))) 16 = cell_range (cells f) (unat (bank_addr n (1 - nv_active_bank n))) 16"
  by (rule cell_range_put_other)
    (use assms(2) banks_ok_disjoint(1) [OF nvs_rep_banks [OF assms(1)]] nvs_rep_banks [OF assms(1)]
      in \<open>auto simp: banks_ok_def\<close>)

lemma erased_not_valid: "16 \<le> S \<Longrightarrow> \<not> bank_valid (sector_hdr_of (cell_range (cells_put c b (replicate S 0xFF)) b 16))"
proof -
  assume S: "16 \<le> S"
  have *: "cell_range (cells_put c b (replicate S 0xFF)) b 16 ! i = 0xFF" if "i < 16" for i
    using S that by (simp add: cells_put_def)
  have "of_le32 0xFF 0xFF 0xFF 0xFF \<noteq> FW_NVS_MAGIC" by (simp add: of_le32_def FW_NVS_MAGIC_def)
  then show ?thesis using *[of 0] *[of 1] *[of 2] *[of 3]
    by (simp add: bank_valid_def sector_hdr_of_def del: One_nat_def nth_cell_range)
qed

text \<open>Writing a record is writing its parts one after the other, the empty ones left out.\<close>

fun write_all :: "'f fw_flash_driver \<Rightarrow> 'f \<Rightarrow> u32 \<Rightarrow> u8 list list \<Rightarrow> fw_status \<times> 'f" where
  "write_all drv f a [] = (FW_OK, f)"
| "write_all drv f a (bs # bss) =
     (if bs = [] then write_all drv f a bss
      else (case flash_write drv f a bs of
              (st, f') \<Rightarrow> if st \<noteq> FW_OK then (st, f') else write_all drv f' (a + of_nat (length bs)) bss))"

definition rec_parts :: "nv_rec \<Rightarrow> u8 list list" where
  "rec_parts r = [record_hdr_bytes (rec_hdr r), rec_payload r,
     replicate (round_up 2 (length (rec_payload r)) - length (rec_payload r)) 0xFF]"

lemma concat_rec_parts [simp]: "concat (rec_parts r) = rec_bytes r"
  by (simp add: rec_parts_def rec_bytes_def)

lemma write_record_parts:
  assumes r: "rec_ok (key, Some p)" and len: "unat len = length p"
    and payload: "p \<noteq> [] \<Longrightarrow> payload = Some p" "payload = None \<or> payload = Some p"
  shows "write_record n f key payload len =
    (case write_all (nv_drv n) f (bank_addr n (nv_active_bank n) + nv_write_offset n) (rec_parts (key, Some p)) of
       (st, f') \<Rightarrow> (st, if st = FW_OK then n\<lparr>nv_write_offset := nv_write_offset n + (8 + ALIGN_UP_4 len)\<rparr> else n, f'))"
proof -
  let ?r = "(key, Some p)" and ?al = "ALIGN_UP_4 len"
  have p: "rec_payload ?r = p" "length p < 2 ^ 16" using r by (simp_all add: rec_payload_def rec_ok_def)
  have al: "unat ?al = round_up 2 (length p)" using p(2) by (subst unat_ALIGN_UP_4) (simp_all add: len)
  have len16: "(ucast len :: u16) = of_nat (length p)"
    by (simp add: word_unat_eq_iff unsigned_ucast_eq unsigned_of_nat len)
  have hdr: "\<lparr>rh_key = key, rh_length = ucast len, rh_crc16 = calc_record_crc key (ucast len) payload,
      rh_status = FW_NVS_STATUS_VALID\<rparr> = rec_hdr ?r"
    using payload by (cases "p = []") (auto simp: rec_hdr_def rec_payload_def len16 calc_record_crc_def Let_def)
  have pos: "len > 0 \<longleftrightarrow> p \<noteq> []" using len by (auto simp: word_gt_0 unat_eq_zero)
  have more: "?al > len \<longleftrightarrow> length p < round_up 2 (length p)" by (simp add: word_less_nat_alt al len)
  have pad: "unat (?al - len) = round_up 2 (length p) - length p" if "length p < round_up 2 (length p)"
    using that al len by (subst unat_sub_le) (simp_all add: word_le_nat_alt)
  have "round_up 2 0 = 0" by (simp add: round_up_def)
  moreover have "len = of_nat (length p)" using len by (metis of_nat_unat_id)
  moreover have "record_hdr_bytes h \<noteq> []" for h by (simp add: record_hdr_bytes_def le16_def)
  ultimately show ?thesis
    using payload pad unfolding write_record_def Let_def hdr pos more rec_parts_def p(1)
    by (cases "p = []"; cases "length p < round_up 2 (length p)") (simp_all add: case_prod_beta)
qed

context flash_reader
begin

lemma read_hdr_holds:
  assumes "ok f" and "bank_holds (unat (fd_sector_size drv)) (cells f) (unat base) (xs @ r # ys)"
    and "unat base + unat (fd_sector_size drv) \<le> fsz" and "unat off = 16 + log_size xs"
  shows "flash_read drv f (base + off) 8 = (FW_OK, record_hdr_bytes (rec_hdr r))"
proof -
  have le: "16 + log_size xs + rec_size r \<le> unat (fd_sector_size drv)"
    using assms(2) by (simp add: bank_holds_def)
  have u: "unat (base + off) = unat base + (16 + log_size xs)"
    using le assms(3,4) fsz_lt by (subst unat_add_nowrap) simp_all
  show ?thesis
    using read_law [OF assms(1), of "base + off" 8] le assms(3) rec_size_ge [of r]
    by (simp add: u bank_holds_hdr [OF assms(2)])
qed

lemma next_off_holds:
  assumes "bank_holds S c b (xs @ r # ys)" and "S + S \<le> fsz" and "unat off = 16 + log_size xs"
  shows "unat (off + (8 + ALIGN_UP_4 (ucast (rh_length (rec_hdr r))))) = 16 + log_size (xs @ [r])"
proof -
  have r: "rec_ok r" and le: "16 + log_size xs + rec_size r \<le> S"
    using assms(1) by (simp_all add: bank_holds_def)
  show ?thesis
    using le assms(2,3) fsz_lt by (subst unat_add_nowrap) (simp_all add: unat_rec_total [OF r])
qed

text \<open>A scan for a key runs over the log and goes on at its end, with what the log says of the key.\<close>

lemma read_loop_prefix:
  assumes "ok f" and "unat base + unat (fd_sector_size drv) \<le> fsz"
    and "unat (fd_sector_size drv) + unat (fd_sector_size drv) \<le> fsz"
    and "bank_holds (unat (fd_sector_size drv)) (cells f) (unat base) (xs @ ys)"
    and "16 + log_size (xs @ ys) \<le> unat woff" and "unat off = 16 + log_size xs" and "match_ok key xs acc"
  shows "\<exists>acc'. match_ok key (xs @ ys) acc' \<and>
    read_loop drv f base woff key off acc = read_loop drv f base woff key (of_nat (16 + log_size (xs @ ys))) acc'"
  using assms(4-7)
proof (induction ys arbitrary: xs off acc)
  case Nil
  then have "off = of_nat (16 + log_size (xs @ []))" by (metis of_nat_unat_id append_Nil2)
  then show ?case using Nil.prems(4) by (intro exI [of _ acc]) simp
next
  case (Cons r ys)
  have r: "rec_ok r" using Cons.prems(1) by (simp add: bank_holds_def)
  have lt: "off < woff" using Cons.prems(2,3) rec_size_ge [of r] by (simp add: word_less_nat_alt)
  note rd = read_hdr_holds [OF assms(1) Cons.prems(1) assms(2) Cons.prems(3)]
  define acc' where "acc' = (if fst r = key then if snd r \<noteq> None then (True, off, rec_hdr r) else (False, snd acc) else acc)"
  define off' where "off' = off + (8 + ALIGN_UP_4 (ucast (rh_length (rec_hdr r))))"
  have "off = of_nat (16 + log_size xs)" using Cons.prems(3) by (metis of_nat_unat_id)
  then have "match_ok key (xs @ [r]) acc'"
    using Cons.prems(4) by (cases r) (auto simp: match_ok_def acc'_def log_lookup_snoc split: option.splits; blast)
  then obtain a where a: "match_ok key (xs @ r # ys) a" "read_loop drv f base woff key off' acc' =
      read_loop drv f base woff key (of_nat (16 + log_size (xs @ r # ys))) a"
    using Cons.IH [of "xs @ [r]" off' acc'] Cons.prems(1,2)
      next_off_holds [OF Cons.prems(1) assms(3) Cons.prems(3)] by (auto simp: off'_def)
  have "read_loop drv f base woff key off acc = read_loop drv f base woff key off' acc'"
    using lt rd r by (subst read_loop.simps) (simp add: rec_ok_def acc'_def off'_def Let_def cong: if_cong)
  with a show ?case by (intro exI [of _ a]) simp
qed

lemma read_loop_holds:
  assumes "ok f" and "unat base + unat (fd_sector_size drv) \<le> fsz"
    and "unat (fd_sector_size drv) + unat (fd_sector_size drv) \<le> fsz"
    and "bank_holds (unat (fd_sector_size drv)) (cells f) (unat base) log" and "unat woff = 16 + log_size log"
  shows "\<exists>acc. read_loop drv f base woff key 16 (False, 0, zero_record_hdr) = Some acc \<and> match_ok key log acc"
proof -
  have "of_nat (16 + log_size log) = woff" using assms(5) by (metis of_nat_unat_id)
  moreover have "read_loop drv f base woff key woff acc = Some acc" for acc by (subst read_loop.simps) simp
  moreover have "match_ok key [] (False, 0, zero_record_hdr)" by (simp add: match_ok_def)
  ultimately show ?thesis
    using read_loop_prefix [OF assms(1-3), of "[]" log woff 16 key "(False, 0, zero_record_hdr)"] assms(4,5) by force
qed

lemmas read_hdr = read_hdr_holds [OF _ bank_is_holds]
lemmas next_off = next_off_holds [OF bank_is_holds]

lemma latest_loop_log:
  assumes "ok f" and "unat base + unat (fd_sector_size drv) \<le> fsz"
    and "unat (fd_sector_size drv) + unat (fd_sector_size drv) \<le> fsz"
    and "bank_is (unat (fd_sector_size drv)) (cells f) (unat base) sq (xs @ ys)"
    and "unat woff = 16 + log_size (xs @ ys)" and "unat off = 16 + log_size xs"
  shows "latest_loop drv f base woff key off = Some (key \<notin> fst ` set ys)"
  using assms(4-6)
proof (induction ys arbitrary: xs off)
  case Nil
  then show ?case by (subst latest_loop.simps) (simp add: word_less_nat_alt)
next
  case (Cons r ys)
  have r: "rec_ok r" using Cons.prems(1) by (simp add: bank_is_def)
  have lt: "off < woff" using Cons.prems(2,3) rec_size_ge [of r] by (simp add: word_less_nat_alt)
  have "latest_loop drv f base woff key (off + (8 + ALIGN_UP_4 (ucast (rh_length (rec_hdr r))))) = Some (key \<notin> fst ` set ys)"
    using Cons.IH [of "xs @ [r]"] Cons.prems(1,2) next_off [OF Cons.prems(1) assms(3) Cons.prems(3)] by simp
  then show ?case
    using lt r read_hdr [OF assms(1) Cons.prems(1) assms(2) Cons.prems(3)]
    by (subst latest_loop.simps) (auto simp: rec_ok_def Let_def)
qed

lemma read_erased:
  assumes "ok f" and "\<And>k. unat base + unat off \<le> k \<Longrightarrow> k < unat base + unat (fd_sector_size drv) \<Longrightarrow> cells f k = 0xFF"
    and "unat base + unat (fd_sector_size drv) \<le> fsz" and "unat off + 8 \<le> unat (fd_sector_size drv)"
  shows "\<exists>bs. flash_read drv f (base + off) 8 = (FW_OK, bs) \<and> rh_key (record_hdr_of bs) = FW_NVS_KEY_EMPTY"
proof -
  have u: "unat (base + off) = unat base + unat off"
    using assms(3,4) fsz_lt by (subst unat_add_nowrap) simp_all
  let ?bs = "cell_range (cells f) (unat base + unat off) 8"
  have c: "cells f (unat base + unat off + k) = 0xFF" if "k < 8" for k
    using that assms(2,4) by simp
  then have "?bs ! 0 = 0xFF" "?bs ! 1 = 0xFF" using c [of 0] by (simp_all del: One_nat_def)
  then have "rh_key (record_hdr_of ?bs) = FW_NVS_KEY_EMPTY"
    by (simp add: record_hdr_of_def FW_NVS_KEY_EMPTY_def of_le16_ones del: One_nat_def)
  moreover have "flash_read drv f (base + off) 8 = (FW_OK, ?bs)"
    using read_law [OF assms(1), of "base + off" 8] assms(3,4) by (simp add: u)
  ultimately show ?thesis by blast
qed

lemma scan_stops_erased:
  assumes "ok f" and "\<And>k. unat base + unat off \<le> k \<Longrightarrow> k < unat base + unat (fd_sector_size drv) \<Longrightarrow> cells f k = 0xFF"
    and "unat base + unat (fd_sector_size drv) \<le> fsz"
    and "unat (fd_sector_size drv) + unat (fd_sector_size drv) \<le> fsz" and "unat off \<le> unat (fd_sector_size drv)"
  shows "scan_loop drv f base (fd_sector_size drv) off = Some off"
proof -
  have u: "unat (off + 8) = unat off + 8" using assms(4,5) fsz_lt by (subst unat_add_nowrap) simp_all
  show ?thesis
  proof (cases "off + 8 \<le> fd_sector_size drv")
    case True
    then have "unat off + 8 \<le> unat (fd_sector_size drv)" using u by (simp add: word_le_nat_alt)
    then obtain bs where "flash_read drv f (base + off) 8 = (FW_OK, bs)" "rh_key (record_hdr_of bs) = FW_NVS_KEY_EMPTY"
      using read_erased [OF assms(1-3)] by auto
    with True show ?thesis by (subst scan_loop.simps) (simp add: Let_def)
  qed (subst scan_loop.simps, simp)
qed

lemma scan_loop_holds:
  assumes "ok f" and "unat base + unat (fd_sector_size drv) \<le> fsz"
    and "unat (fd_sector_size drv) + unat (fd_sector_size drv) \<le> fsz"
    and "scan_loop drv f base (fd_sector_size drv) woff = Some stop"
    and "bank_holds (unat (fd_sector_size drv)) (cells f) (unat base) (xs @ ys)"
    and "unat woff = 16 + log_size (xs @ ys)" and "unat off = 16 + log_size xs"
  shows "scan_loop drv f base (fd_sector_size drv) off = Some stop"
  using assms(5-7)
proof (induction ys arbitrary: xs off)
  case Nil
  then have "off = woff" by (simp add: word_unat_eq_iff)
  then show ?case using assms(4) by simp
next
  case (Cons r ys)
  have r: "rec_ok r" and le: "16 + log_size (xs @ [r]) \<le> unat (fd_sector_size drv)"
    using Cons.prems(1) by (simp_all add: bank_holds_def)
  have u: "unat (off + 8) = unat off + 8"
    using le assms(3) fsz_lt Cons.prems(3) by (subst unat_add_nowrap) simp_all
  have in_bank: "off + 8 \<le> fd_sector_size drv"
    using le u Cons.prems(3) rec_size_ge [of r] by (simp add: word_le_nat_alt)
  note n = next_off_holds [OF Cons.prems(1) assms(3) Cons.prems(3)]
  have "\<not> off + (8 + ALIGN_UP_4 (ucast (rh_length (rec_hdr r)))) > fd_sector_size drv"
    using n le by (simp add: word_less_nat_alt)
  moreover have "scan_loop drv f base (fd_sector_size drv) (off + (8 + ALIGN_UP_4 (ucast (rh_length (rec_hdr r))))) = Some stop"
    using Cons.IH [of "xs @ [r]"] Cons.prems(1,2) n by simp
  ultimately show ?case
    using in_bank r read_hdr_holds [OF assms(1) Cons.prems(1) assms(2) Cons.prems(3)]
    by (subst scan_loop.simps) (auto simp: rec_ok_def Let_def)
qed

lemma scan_loop_log:
  assumes "ok f" and "unat base + unat (fd_sector_size drv) \<le> fsz"
    and "unat (fd_sector_size drv) + unat (fd_sector_size drv) \<le> fsz"
    and "bank_is (unat (fd_sector_size drv)) (cells f) (unat base) sq log" and "unat woff = 16 + log_size log"
  shows "scan_loop drv f base (fd_sector_size drv) 16 = Some woff"
  using scan_loop_holds [OF assms(1-3) scan_stops_erased [OF assms(1) _ assms(2,3)], of woff "[]" log 16]
    bank_is_holds [OF assms(4)] assms(4,5) by (simp add: bank_is_def)

end

context flash_device
begin

lemma copy_loop_cells:
  assumes "ok f" and "unat src + unat n \<le> fsz" and "unat dst + unat n \<le> fsz"
    and "unat src + unat n \<le> unat dst \<or> unat dst + unat n \<le> unat src"
    and "\<And>k. unat dst \<le> k \<Longrightarrow> k < unat dst + unat n \<Longrightarrow> cells f k = 0xFF"
  shows "\<exists>f'. copy_loop drv f src dst n = Some (FW_OK, f') \<and> ok f'
    \<and> cells f' = cells_put (cells f) (unat dst) (cell_range (cells f) (unat src) (unat n))"
  using assms
proof (induction "unat n" arbitrary: f src dst n rule: less_induct)
  case less
  show ?case
  proof (cases "n = 0")
    case True
    then show ?thesis using less.prems(1) by (subst copy_loop.simps) simp
  next
    case False
    define c where "c = (if n > 128 then 128 else n)"
    have c: "unat c \<le> unat n" "0 < unat c"
      using False by (auto simp: c_def word_less_nat_alt unat_gt_0)
    let ?bs = "cell_range (cells f) (unat src) (unat c)"
    obtain f1 where f1: "flash_write drv f dst ?bs = (FW_OK, f1)" "ok f1" "cells f1 = cells_put (cells f) (unat dst) ?bs"
      using write_law [OF less.prems(1), of dst ?bs] less.prems(3,5) c(1) by auto
    have rd: "flash_read drv f src (unat c) = (FW_OK, ?bs)"
      using read_law [OF less.prems(1), of src "unat c"] less.prems(2) c(1) by simp
    have src: "unat (src + c) = unat src + unat c" and dst: "unat (dst + c) = unat dst + unat c"
      using less.prems(2,3) c(1) fsz_lt by (simp_all add: unat_add_nowrap)
    have n: "unat (n - c) = unat n - unat c" using c(1) by (simp add: unat_sub_le word_le_nat_alt)
    have "\<exists>f'. copy_loop drv f1 (src + c) (dst + c) (n - c) = Some (FW_OK, f') \<and> ok f'
        \<and> cells f' = cells_put (cells f1) (unat (dst + c)) (cell_range (cells f1) (unat (src + c)) (unat (n - c)))"
      by (rule less.hyps) (use less.prems c in \<open>auto simp: n src dst f1(2,3) cells_put_def\<close>)
    then obtain f' where f': "copy_loop drv f1 (src + c) (dst + c) (n - c) = Some (FW_OK, f')" "ok f'"
        "cells f' = cells_put (cells f1) (unat dst + unat c) (cell_range (cells f1) (unat src + unat c) (unat n - unat c))"
      by (auto simp: n src dst)
    have "cell_range (cells f1) (unat src + unat c) (unat n - unat c) = cell_range (cells f) (unat src + unat c) (unat n - unat c)"
      unfolding f1(3) by (rule cell_range_put_other) (use less.prems(4) c in auto)
    then have "cells f' = cells_put (cells f) (unat dst) (?bs @ cell_range (cells f) (unat src + unat c) (unat n - unat c))"
      using f'(3) f1(3) cells_put_append [of "cells f" "unat dst" ?bs] by simp
    also have "?bs @ cell_range (cells f) (unat src + unat c) (unat n - unat c) = cell_range (cells f) (unat src) (unat n)"
      using cell_range_append [of "cells f" "unat src" "unat c" "unat n - unat c"] c(1) by simp
    finally have "cells f' = cells_put (cells f) (unat dst) (cell_range (cells f) (unat src) (unat n))" .
    moreover have "copy_loop drv f src dst n = Some (FW_OK, f')"
      using False rd f1(1) f'(1) by (subst copy_loop.simps) (simp add: Let_def word_gt_0 flip: c_def)
    ultimately show ?thesis using f'(2) by blast
  qed
qed

lemma copy_record:
  assumes "ok f" and "banks_ok (unat (fd_sector_size drv)) fsz (unat sb) (unat db)"
    and "bank_is (unat (fd_sector_size drv)) (cells f) (unat sb) sq (xs @ r # ys)"
    and "bank_is (unat (fd_sector_size drv)) (cells f) (unat db) sq' zs"
    and "unat so = 16 + log_size xs" and "unat dof = 16 + log_size zs" and "log_size zs \<le> log_size xs"
    and "unat n = rec_size r"
  shows "\<exists>f'. copy_loop drv f (sb + so) (db + dof) n = Some (FW_OK, f') \<and> ok f'
    \<and> bank_is (unat (fd_sector_size drv)) (cells f') (unat sb) sq (xs @ r # ys)
    \<and> bank_is (unat (fd_sector_size drv)) (cells f') (unat db) sq' (zs @ [r])"
proof -
  let ?S = "unat (fd_sector_size drv)"
  have r: "rec_ok r" and le: "16 + log_size xs + rec_size r \<le> ?S" using assms(3) by (simp_all add: bank_is_def)
  have b: "unat sb + ?S \<le> fsz" "unat db + ?S \<le> fsz" using assms(2) by (simp_all add: banks_ok_def)
  have src: "unat (sb + so) = unat sb + (16 + log_size xs)" and dst: "unat (db + dof) = unat db + (16 + log_size zs)"
    using b le assms(5-7) fsz_lt by (simp_all add: unat_add_nowrap)
  have erased: "\<And>k. unat db + (16 + log_size zs) \<le> k \<Longrightarrow> k < unat db + ?S \<Longrightarrow> cells f k = 0xFF"
    using assms(4) by (simp add: bank_is_def)
  have "\<exists>f'. copy_loop drv f (sb + so) (db + dof) n = Some (FW_OK, f') \<and> ok f'
    \<and> cells f' = cells_put (cells f) (unat (db + dof)) (cell_range (cells f) (unat (sb + so)) (unat n))"
    by (rule copy_loop_cells [OF assms(1)])
      (use b le banks_ok_disjoint(1) [OF assms(2)] assms(7,8) in \<open>auto simp: src dst intro!: erased\<close>)
  then obtain f' where f': "copy_loop drv f (sb + so) (db + dof) n = Some (FW_OK, f')" "ok f'"
      "cells f' = cells_put (cells f) (unat db + (16 + log_size zs)) (rec_bytes r)"
    using bank_is_rec [OF assms(3), of 0 "rec_size r"] by (auto simp: src dst assms(8))
  have "bank_is ?S (cells f') (unat sb) sq (xs @ r # ys)"
    by (rule bank_is_frame [OF assms(3)])
      (use banks_ok_disjoint(1) [OF assms(2)] le assms(7) in \<open>auto simp: f'(3) cells_put_def\<close>)
  moreover have "bank_is ?S (cells f') (unat db) sq' (zs @ [r])"
    unfolding f'(3) using bank_is_append [OF assms(4) r] le assms(7) by simp
  ultimately show ?thesis using f'(1,2) by blast
qed

lemma migrate_loop_log:
  assumes "banks_ok (unat (fd_sector_size drv)) fsz (unat sb) (unat db)"
    and "ok f" and "bank_is (unat (fd_sector_size drv)) (cells f) (unat sb) sq (xs @ ys)"
    and "bank_is (unat (fd_sector_size drv)) (cells f) (unat db) sq' zs"
    and "unat woff = 16 + log_size (xs @ ys)"
    and "unat so = 16 + log_size xs" and "unat dof = 16 + log_size zs" and "log_size zs \<le> log_size xs"
  shows "\<exists>d f'. migrate_loop drv woff (fd_sector_size drv) sb db f so dof = Some (FW_OK, d, f') \<and> ok f'
    \<and> unat d = 16 + log_size (zs @ compact_log ys)
    \<and> bank_is (unat (fd_sector_size drv)) (cells f') (unat db) sq' (zs @ compact_log ys)"
  using assms(2-8)
proof (induction ys arbitrary: xs zs f so dof)
  case Nil
  then show ?case by (subst migrate_loop.simps) (simp add: word_less_nat_alt)
next
  case (Cons r ys)
  let ?S = "unat (fd_sector_size drv)"
  let ?t = "8 + ALIGN_UP_4 (ucast (rh_length (rec_hdr r)))"
  have b: "unat sb + ?S \<le> fsz" "unat db + ?S \<le> fsz" "?S + ?S \<le> fsz"
    using assms(1) banks_ok_disjoint(2) [OF assms(1)] by (simp_all add: banks_ok_def)
  have r: "rec_ok r" and le: "16 + log_size xs + rec_size r \<le> ?S"
    using Cons.prems(2) by (simp_all add: bank_is_def)
  have lt: "so < woff" using Cons.prems(4,5) rec_size_ge [of r] by (simp add: word_less_nat_alt)
  note rd = read_hdr [OF Cons.prems(1,2) b(1) Cons.prems(5)]
  note so' = next_off [OF Cons.prems(2) b(3) Cons.prems(5)]
  have t: "unat ?t = rec_size r" by (rule unat_rec_total [OF r])
  have dof': "unat (dof + ?t) = 16 + log_size (zs @ [r])"
    using b(3) le fsz_lt Cons.prems(6,7) by (subst unat_add_nowrap) (simp_all add: t)
  have fits: "\<not> dof + ?t > fd_sector_size drv"
    using le Cons.prems(7) dof' by (simp add: word_less_nat_alt)
  have latest: "latest_loop drv f sb woff (fst r) (so + ?t) = Some (fst r \<notin> fst ` set ys)"
    using latest_loop_log [OF Cons.prems(1) b(1,3), of sq "xs @ [r]" ys woff] so' Cons.prems(2,4) by simp
  show ?case
  proof (cases "snd r \<noteq> None \<and> fst r \<notin> fst ` set ys")
    case True
    obtain f1 where f1: "copy_loop drv f (sb + so) (db + dof) ?t = Some (FW_OK, f1)" "ok f1"
        "bank_is ?S (cells f1) (unat sb) sq (xs @ r # ys)" "bank_is ?S (cells f1) (unat db) sq' (zs @ [r])"
      using copy_record [OF Cons.prems(1) assms(1) Cons.prems(2,3,5-7) t] by blast
    have "migrate_loop drv woff (fd_sector_size drv) sb db f so dof =
        migrate_loop drv woff (fd_sector_size drv) sb db f1 (so + ?t) (dof + ?t)"
      using lt rd r True latest fits f1(1) by (subst migrate_loop.simps) (simp add: rec_ok_def Let_def)
    then show ?thesis
      using Cons.IH [of f1 "xs @ [r]" "zs @ [r]" "so + ?t" "dof + ?t"] f1(2-4) so' dof' Cons.prems(4,7) True by simp
  next
    case False
    have "migrate_loop drv woff (fd_sector_size drv) sb db f so dof =
        migrate_loop drv woff (fd_sector_size drv) sb db f (so + ?t) dof"
      using lt rd r False latest by (subst migrate_loop.simps) (auto simp: rec_ok_def Let_def)
    moreover have "compact_log (r # ys) = compact_log ys" using False by simp
    ultimately show ?thesis
      using Cons.IH [of f "xs @ [r]" zs "so + ?t" "dof"] so' Cons.prems by simp
  qed
qed

lemma erase_and_head:
  assumes "ok f" and "unat (fd_sector_size drv) dvd unat a" and "unat a + unat (fd_sector_size drv) \<le> fsz"
    and "16 \<le> unat (fd_sector_size drv)"
  shows "\<exists>f1 f2. flash_erase drv f a = (FW_OK, f1) \<and> ok f1
    \<and> flash_write drv f1 a (sector_hdr_bytes (nvs_sector_hdr sq)) = (FW_OK, f2) \<and> ok f2
    \<and> bank_is (unat (fd_sector_size drv)) (cells f2) (unat a) sq []
    \<and> (\<forall>k. k < unat a \<or> unat a + unat (fd_sector_size drv) \<le> k \<longrightarrow> cells f2 k = cells f k)"
proof -
  let ?S = "unat (fd_sector_size drv)"
  obtain f1 where f1: "flash_erase drv f a = (FW_OK, f1)" "ok f1" "cells f1 = cells_put (cells f) (unat a) (replicate ?S 0xFF)"
    using erase_law [OF assms(1-3)] by blast
  obtain f2 where f2: "flash_write drv f1 a (sector_hdr_bytes (nvs_sector_hdr sq)) = (FW_OK, f2)" "ok f2"
      "cells f2 = cells_put (cells f1) (unat a) (sector_hdr_bytes (nvs_sector_hdr sq))"
    using write_law [OF f1(2), of a "sector_hdr_bytes (nvs_sector_hdr sq)"] assms(3,4) by (auto simp: f1(3) cells_put_def)
  have "bank_is ?S (cells f2) (unat a) sq []" unfolding f2(3) f1(3) by (rule bank_is_new [OF assms(4)])
  moreover have "\<forall>k. k < unat a \<or> unat a + ?S \<le> k \<longrightarrow> cells f2 k = cells f k"
    using assms(4) by (auto simp: f2(3) f1(3) cells_put_def)
  ultimately show ?thesis using f1(1,2) f2(1,2) by blast
qed

lemma compact_log_rep:
  assumes "nvs_rep drv cells fsz ok n f log"
  shows "\<exists>n' f'. nvs_compact n f = Some (FW_OK, n', f') \<and> nvs_rep drv cells fsz ok n' f' (compact_log log)"
proof -
  let ?S = "unat (fd_sector_size drv)"
  define alt src dst where "alt = 1 - nv_active_bank n" and "src = bank_addr n (nv_active_bank n)"
    and "dst = bank_addr n alt"
  note r = nvs_repD [OF assms, folded src_def]
  have bk: "banks_ok ?S fsz (unat src) (unat dst)" using nvs_rep_banks [OF assms] by (simp add: src_def dst_def alt_def)
  note dj = banks_ok_disjoint(1) [OF bk]
  obtain f1 f2 where f1: "flash_erase drv f dst = (FW_OK, f1)" and
    f2: "flash_write drv f1 dst (sector_hdr_bytes (nvs_sector_hdr (nv_sequence n + 1))) = (FW_OK, f2)" "ok f2"
      "bank_is ?S (cells f2) (unat dst) (nv_sequence n + 1) []"
      "\<forall>k. k < unat dst \<or> unat dst + ?S \<le> k \<longrightarrow> cells f2 k = cells f k"
    using erase_and_head [OF r(3), of dst "nv_sequence n + 1"] bk by (auto simp: banks_ok_def)
  have s2: "bank_is ?S (cells f2) (unat src) (nv_sequence n) log"
    by (rule bank_is_frame [OF r(5)]) (use dj f2(4) in auto)
  obtain d f3 where f3: "migrate_loop drv (nv_write_offset n) (fd_sector_size drv) src dst f2 16 16 = Some (FW_OK, d, f3)"
      "ok f3" "unat d = 16 + log_size (compact_log log)"
      "bank_is ?S (cells f3) (unat dst) (nv_sequence n + 1) (compact_log log)"
    using migrate_loop_log [OF bk f2(2), of "nv_sequence n" "[]" log "nv_sequence n + 1" "[]" "nv_write_offset n" 16 16]
      s2 f2(3) r(4) by auto
  obtain f4 where f4: "flash_erase drv f3 src = (FW_OK, f4)" "ok f4" "cells f4 = cells_put (cells f3) (unat src) (replicate ?S 0xFF)"
    using erase_law [OF f3(2), of src] bk by (auto simp: banks_ok_def)
  have d4: "bank_is ?S (cells f4) (unat dst) (nv_sequence n + 1) (compact_log log)"
    by (rule bank_is_frame [OF f3(4)]) (use dj in \<open>auto simp: f4(3) cells_put_def\<close>)
  define n' where "n' = n\<lparr>nv_active_bank := alt, nv_write_offset := d, nv_sequence := nv_sequence n + 1\<rparr>"
  have "nvs_compact n f = Some (FW_OK, n', f4)"
    unfolding nvs_compact_def Let_def n'_def r(2)
    using f1 f2(1) f3(1) f4(1) by (simp add: alt_def src_def dst_def)
  moreover have "nvs_rep drv cells fsz ok n' f4 (compact_log log)"
  proof -
    have "bank_addr n' alt = dst" "bank_addr n' (1 - alt) = src" "alt = 0 \<or> alt = 1"
      using assms by (auto simp: n'_def alt_def src_def dst_def bank_addr_def nvs_rep_def)
    then show ?thesis
      using assms f4(2) d4 f3(3) erased_not_valid [of ?S "cells f3" "unat src"] bk
      by (simp add: nvs_rep_def n'_def f4(3) banks_ok_def)
  qed
  ultimately show ?thesis by blast
qed

lemma append_rep:
  assumes "nvs_rep drv cells fsz ok n f log" and "rec_ok r" and "16 + log_size log + rec_size r \<le> unat (fd_sector_size drv)"
    and "ok f'" and "cells f' = cells_put (cells f) (unat (bank_addr n (nv_active_bank n)) + (16 + log_size log)) (rec_bytes r)"
    and "unat t = rec_size r"
  shows "nvs_rep drv cells fsz ok (n\<lparr>nv_write_offset := nv_write_offset n + t\<rparr>) f' (log @ [r])"
proof -
  let ?S = "unat (fd_sector_size drv)"
  have w: "unat (nv_write_offset n + t) = 16 + log_size (log @ [r])"
    using assms(3,6) nvs_repD [OF assms(1)] fsz_lt by (subst unat_add_nowrap) simp_all
  have "bank_is ?S (cells f') (unat (bank_addr n (nv_active_bank n))) (nv_sequence n) (log @ [r])"
    unfolding assms(5) by (rule bank_is_append [OF nvs_repD(5) [OF assms(1)] assms(2,3)])
  moreover have "cell_range (cells f') (unat (bank_addr n (1 - nv_active_bank n))) 16
      = cell_range (cells f) (unat (bank_addr n (1 - nv_active_bank n))) 16"
    unfolding assms(5) by (rule nvs_rep_other_bank [OF assms(1)]) (use assms(3) in simp)
  moreover have "bank_addr (n\<lparr>nv_write_offset := nv_write_offset n + t\<rparr>) b = bank_addr n b" for b
    by (simp add: bank_addr_def)
  ultimately show ?thesis
    using assms(1,4) w by (simp add: nvs_rep_def)
qed

lemma write_all_erased:
  assumes "ok f" and "\<And>k. unat a \<le> k \<Longrightarrow> k < e \<Longrightarrow> cells f k = 0xFF"
    and "unat a + length (concat bss) \<le> e" and "e \<le> fsz"
  shows "\<exists>f'. write_all drv f a bss = (FW_OK, f') \<and> ok f' \<and> cells f' = cells_put (cells f) (unat a) (concat bss)"
  using assms(1-3)
proof (induction bss arbitrary: f a)
  case (Cons bs bss)
  obtain f1 where f1: "flash_write drv f a bs = (FW_OK, f1)" "ok f1" "cells f1 = cells_put (cells f) (unat a) bs"
    using write_law [OF Cons.prems(1), of a bs] Cons.prems(2,3) assms(4) by force
  have a: "unat (a + of_nat (length bs)) = unat a + length bs"
    using Cons.prems(3) assms(4) fsz_lt by (intro unat_add_of_nat) simp
  show ?case
  proof (cases "bs = []")
    case False
    have "cells f1 k = 0xFF" if "unat a + length bs \<le> k" "k < e" for k
      using that Cons.prems(2) by (simp add: f1(3) cells_put_def)
    then obtain f' where "write_all drv f1 (a + of_nat (length bs)) bss = (FW_OK, f')" "ok f'"
        "cells f' = cells_put (cells f1) (unat a + length bs) (concat bss)"
      using Cons.IH [OF f1(2), of "a + of_nat (length bs)"] Cons.prems(3) a by auto
    with False f1 show ?thesis by (simp add: cells_put_append)
  qed (use Cons in simp)
qed (simp add: assms)

lemma write_record_rep:
  assumes rep: "nvs_rep drv cells fsz ok n f log" and r: "rec_ok (key, Some p)"
    and room: "16 + log_size log + rec_size (key, Some p) \<le> unat (fd_sector_size drv)"
    and len: "unat len = length p" and payload: "p \<noteq> [] \<Longrightarrow> payload = Some p" "payload = None \<or> payload = Some p"
  shows "\<exists>n' f'. write_record n f key payload len = (FW_OK, n', f') \<and> nvs_rep drv cells fsz ok n' f' (log @ [(key, Some p)])"
proof -
  let ?r = "(key, Some p)" and ?addr = "bank_addr n (nv_active_bank n) + nv_write_offset n"
  note d = nvs_repD [OF rep]
  have addr: "unat ?addr = unat (bank_addr n (nv_active_bank n)) + (16 + log_size log)"
    using d(4,6) room fsz_lt by (subst unat_add_nowrap) simp_all
  have erased: "\<And>k. unat ?addr \<le> k \<Longrightarrow> k < unat ?addr + rec_size ?r \<Longrightarrow> cells f k = 0xFF"
    using d(5) room by (simp add: addr bank_is_def)
  obtain f' where f': "write_all drv f ?addr (rec_parts ?r) = (FW_OK, f')" "ok f'"
      "cells f' = cells_put (cells f) (unat ?addr) (rec_bytes ?r)"
    using write_all_erased [OF d(3), of ?addr "unat ?addr + rec_size ?r" "rec_parts ?r"] erased d(6) room by (auto simp: addr)
  have p: "length p < 2 ^ 16" using r by (simp add: rec_ok_def rec_payload_def)
  then have "unat (8 + ALIGN_UP_4 len) = rec_size ?r"
    using round_up_less [of 2 "length p"] len
    by (subst unat_add_nowrap) (simp_all add: unat_ALIGN_UP_4 rec_size_def rec_payload_def)
  then have "nvs_rep drv cells fsz ok (n\<lparr>nv_write_offset := nv_write_offset n + (8 + ALIGN_UP_4 len)\<rparr>) f' (log @ [?r])"
    using append_rep [OF rep r room f'(2)] f'(3) by (simp add: addr)
  then show ?thesis
    using f'(1) d(2) by (simp add: write_record_parts [OF r len payload])
qed

end

end
