(* ===== verification/Nvs_Map.thy ===== *)
theory Nvs_Map
  imports Nvs_Log
begin

text \<open>
  The operations of the key-value store as a dictionary: write, read, delete and the initialisation
  after a reset, for every device that meets the contract of \<open>flash_device\<close>.  The virtual device of
  the tests is the witness.
\<close>

unbundle bit_operations_syntax

text \<open>A freshly formatted store on the virtual device.\<close>

definition mock_nvs :: "u8 list fw_nvs" where
  "mock_nvs = \<lparr>nv_flash = Some s_mock_flash, nv_bank_addr0 = 0, nv_bank_addr1 = 512, nv_active_bank = 0,
     nv_write_offset = 16, nv_sequence = 1\<rparr>"

definition mock_store :: "u8 list" where
  "mock_store = sector_hdr_bytes (nvs_sector_hdr 1) @ replicate 1008 0xFF"

lemma mock_store_rep: "nvs_rep s_mock_flash mock_cells 1024 mock_ok mock_nvs mock_store []"
proof -
  have ff: "mock_cells mock_store k = 0xFF" if "16 \<le> k" for k
    using that by (simp add: mock_cells_def mock_store_def nth_append)
  have "cell_range (mock_cells mock_store) 0 16 = sector_hdr_bytes (nvs_sector_hdr 1)"
    by (rule nth_equalityI) (simp_all add: mock_cells_def mock_store_def nth_append)
  moreover have "cell_range (mock_cells mock_store) 512 16 = cell_range (cells_put (\<lambda>_. 0) 512 (replicate 16 0xFF)) 512 16"
    using ff by (intro cell_range_cong) (auto simp: cells_put_def)
  then have "\<not> bank_valid (sector_hdr_of (cell_range (mock_cells mock_store) 512 16))"
    using erased_not_valid [of 16 "\<lambda>_. 0" 512] by simp
  moreover have "mock_ok mock_store" by (simp add: mock_ok_def mock_store_def TOTAL_FLASH_SIZE_def)
  ultimately show ?thesis
    using ff by (simp add: nvs_rep_def mock_nvs_def bank_addr_def banks_ok_def bank_is_def s_mock_flash_def TEST_SECTOR_SIZE_def)
qed

text \<open>The same store after one write of two bytes at key 3.\<close>

definition mock_nvs1 :: "u8 list fw_nvs" where
  "mock_nvs1 = mock_nvs\<lparr>nv_write_offset := nv_write_offset mock_nvs + 12\<rparr>"

definition mock_store1 :: "u8 list" where
  "mock_store1 = sector_hdr_bytes (nvs_sector_hdr 1) @ rec_bytes (3, Some [7, 7]) @ replicate 996 0xFF"

lemma mock_store1_rep: "nvs_rep s_mock_flash mock_cells 1024 mock_ok mock_nvs1 mock_store1 [(3, Some [7, 7])]"
proof -
  have sz: "rec_size (3, Some [7, 7]) = 12" by (simp add: rec_size_def rec_payload_def round_up_def)
  have "mock_cells mock_store1 = cells_put (mock_cells mock_store) 16 (rec_bytes (3, Some [7, 7]))"
    by (auto simp: fun_eq_iff mock_cells_def cells_put_def mock_store1_def mock_store_def nth_append sz)
  moreover have "mock_ok mock_store1" by (simp add: mock_ok_def mock_store1_def TOTAL_FLASH_SIZE_def sz)
  moreover have "rec_ok (3, Some [7, 7])" by (simp add: rec_ok_def FW_NVS_KEY_EMPTY_def rec_payload_def)
  ultimately show ?thesis
    using mock.append_rep [OF mock_store_rep, of "(3, Some [7, 7])" mock_store1 12]
    by (simp add: sz mock_nvs1_def mock_nvs_def bank_addr_def s_mock_flash_def TEST_SECTOR_SIZE_def)
qed

section \<open>Writing\<close>

lemma write_fits:
  assumes "nvs_rep drv cells fsz ok n f log" and "fsz < 2 ^ 32" and "unat t \<le> 65544"
  shows "nv_write_offset n + t > fd_sector_size drv \<longleftrightarrow> unat (fd_sector_size drv) < 16 + log_size log + unat t"
proof -
  note d = nvs_repD [OF assms(1)]
  have "unat (nv_write_offset n + t) = 16 + log_size log + unat t"
    using d(4,7,8) assms(2,3) by (subst unat_add_nowrap) simp_all
  then show ?thesis by (simp add: word_less_nat_alt)
qed

text \<open>The numbers a write computes, and the payload it reads.\<close>

lemma write_numbers:
  fixes d :: fw_cspan and m :: mem
  assumes "unat (cspan_length d) < 2 ^ 16" and "key \<noteq> FW_NVS_KEY_EMPTY"
    and p: "p = mem_read m (cspan_data d) (unat (cspan_length d))"
  defines "t \<equiv> 8 + ALIGN_UP_4 (cspan_length d)"
  shows "rec_ok (key, Some p)" and "unat t = rec_size (key, Some p)" and "unat (16 + t) = 16 + rec_size (key, Some p)"
    and "unat t \<le> 65544" and "unat (cspan_length d) = length p"
    and "cspan_data d \<noteq> FW_NULL \<or> cspan_length d = 0 \<Longrightarrow> p \<noteq> [] \<Longrightarrow> span_payload m d = Some p"
    and "cspan_data d \<noteq> FW_NULL \<or> cspan_length d = 0 \<Longrightarrow> span_payload m d = None \<or> span_payload m d = Some p"
proof -
  show len: "unat (cspan_length d) = length p" by (simp add: p)
  show r: "rec_ok (key, Some p)" using assms(1,2) by (simp add: rec_ok_def rec_payload_def len)
  have "unat (ALIGN_UP_4 (cspan_length d)) = round_up 2 (length p)" using assms(1) by (subst unat_ALIGN_UP_4) (simp_all add: len)
  then show t: "unat t = rec_size (key, Some p)"
    unfolding t_def using rec_ok_size [OF r] by (subst unat_add_nowrap) (simp_all add: rec_size_def rec_payload_def)
  show "unat (16 + t) = 16 + rec_size (key, Some p)" using rec_ok_size [OF r] t by (subst unat_add_nowrap) simp_all
  show "unat t \<le> 65544" using rec_ok_size [OF r] t by simp
  assume "cspan_data d \<noteq> FW_NULL \<or> cspan_length d = 0"
  then show "p \<noteq> [] \<Longrightarrow> span_payload m d = Some p" "span_payload m d = None \<or> span_payload m d = Some p"
    by (auto simp: span_payload_def p mem_read_def)
qed

lemma fw_nvs_write_cases:
  fixes m :: mem and d :: fw_cspan and key :: u16 and drv :: "'f fw_flash_driver"
  assumes dev: "flash_device drv cells fsz ok"
    and rep: "nvs_rep drv cells fsz ok n f log" and key: "key \<noteq> FW_NVS_KEY_EMPTY"
    and len: "unat (cspan_length d) < 2 ^ 16" and data: "cspan_data d \<noteq> FW_NULL \<or> cspan_length d = 0"
  defines "p \<equiv> mem_read m (cspan_data d) (unat (cspan_length d))"
  defines "room \<equiv> \<lambda>l. 16 + log_size l + rec_size (key, Some p) \<le> unat (fd_sector_size drv)"
  shows "\<exists>st n' f' log'. fw_nvs_write m (Some n) f key d = Some (st, Some n', f')
    \<and> nvs_rep drv cells fsz ok n' f' log'
    \<and> (if room (compact_log log)
       then st = FW_OK \<and> (log' = log @ [(key, Some p)] \<or> log' = compact_log log @ [(key, Some p)])
       else st = FW_ERR_OUT_OF_MEMORY \<and> (log' = log \<or> log' = compact_log log))"
proof -
  note fsz = flash_reader.fsz_lt [OF device_reader [OF dev]]
  let ?r = "(key, Some p)" and ?t = "8 + ALIGN_UP_4 (cspan_length d)"
  have N: "p = mem_read m (cspan_data d) (unat (cspan_length d))" by (simp add: p_def)
  note W = write_numbers [OF len key N]
  note t = W(2) and t16 = W(3) and le = W(4)
  note wr = flash_device.write_record_rep [OF dev _ W(1) _ W(5) W(6,7) [OF data]]
  note cle = compact_log_size [of log]
  note drv = nvs_repD(2) [OF rep]
  show ?thesis
  proof (cases "16 + ?t > fd_sector_size drv")
    case True
    then have "\<not> room (compact_log log)" using t16 by (simp add: room_def word_less_nat_alt)
    moreover have "fw_nvs_write m (Some n) f key d = Some (FW_ERR_OUT_OF_MEMORY, Some n, f)"
      using True key by (simp add: fw_nvs_write_def Let_def drv)
    ultimately show ?thesis using rep by auto
  next
    case small: False
    show ?thesis
    proof (cases "room log")
      case True
      obtain n' f' where w: "write_record n f key (span_payload m d) (cspan_length d) = (FW_OK, n', f')"
          "nvs_rep drv cells fsz ok n' f' (log @ [?r])"
        using wr [OF rep] True by (auto simp: room_def)
      have "room (compact_log log)" using True cle by (simp add: room_def)
      moreover have "\<not> nv_write_offset n + ?t > fd_sector_size drv"
        using write_fits [OF rep fsz le] True by (simp add: room_def t)
      then have "fw_nvs_write m (Some n) f key d = Some (FW_OK, Some n', f')"
        using small key w(1) by (simp add: fw_nvs_write_def Let_def drv)
      ultimately show ?thesis using w(2) by auto
    next
      case False
      obtain n1 f1 where c: "nvs_compact n f = Some (FW_OK, n1, f1)" "nvs_rep drv cells fsz ok n1 f1 (compact_log log)"
        using flash_device.compact_log_rep [OF dev rep] by blast
      have over: "nv_write_offset n + ?t > fd_sector_size drv"
        using write_fits [OF rep fsz le] False by (simp add: room_def t)
      have fit: "nv_write_offset n1 + ?t > fd_sector_size drv \<longleftrightarrow> \<not> room (compact_log log)"
        using write_fits [OF c(2) fsz le] by (auto simp: room_def t)
      show ?thesis
      proof (cases "room (compact_log log)")
        case True
        then obtain n' f' where w: "write_record n1 f1 key (span_payload m d) (cspan_length d) = (FW_OK, n', f')"
            "nvs_rep drv cells fsz ok n' f' (compact_log log @ [?r])"
          using wr [OF c(2)] by (auto simp: room_def)
        have "fw_nvs_write m (Some n) f key d = Some (FW_OK, Some n', f')"
          using small key over fit True c(1) w(1) by (simp add: fw_nvs_write_def Let_def drv)
        with True w(2) show ?thesis by auto
      next
        case no: False
        have "fw_nvs_write m (Some n) f key d = Some (FW_ERR_OUT_OF_MEMORY, Some n1, f1)"
          using small key over fit no c(1) by (simp add: fw_nvs_write_def Let_def drv)
        with no c(2) show ?thesis by auto
      qed
    qed
  qed
qed

text \<open>C6: a write updates the dictionary at its key and leaves every other key; it fails, with the
  dictionary unchanged, exactly when the record does not fit beside the live records, and never loops.\<close>

theorem nvs_write_updates_map:
  assumes "flash_device drv cells fsz ok"
    and "nvs_rep drv cells fsz ok n f log" and "key \<noteq> FW_NVS_KEY_EMPTY"
    and "unat (cspan_length d) < 2 ^ 16" and "cspan_data d \<noteq> FW_NULL \<or> cspan_length d = 0"
    and "p = mem_read m (cspan_data d) (unat (cspan_length d))"
  shows "\<exists>st n' f' log'. fw_nvs_write m (Some n) f key d = Some (st, Some n', f')
    \<and> nvs_rep drv cells fsz ok n' f' log'
    \<and> (if 16 + log_size (compact_log log) + rec_size (key, Some p) \<le> unat (fd_sector_size drv)
       then st = FW_OK \<and> log_lookup log' = (log_lookup log)(key \<mapsto> p)
       else st = FW_ERR_OUT_OF_MEMORY \<and> log_lookup log' = log_lookup log)"
proof -
  have snoc: "log_lookup (l @ [(key, Some p)]) = (log_lookup l)(key \<mapsto> p)" for l
    by (simp add: fun_eq_iff log_lookup_snoc)
  obtain st n' f' log' where *: "fw_nvs_write m (Some n) f key d = Some (st, Some n', f')"
      "nvs_rep drv cells fsz ok n' f' log'"
      "if 16 + log_size (compact_log log) + rec_size (key, Some p) \<le> unat (fd_sector_size drv)
       then st = FW_OK \<and> (log' = log @ [(key, Some p)] \<or> log' = compact_log log @ [(key, Some p)])
       else st = FW_ERR_OUT_OF_MEMORY \<and> (log' = log \<or> log' = compact_log log)"
    using fw_nvs_write_cases [OF assms(1-5), of m] unfolding assms(6) by blast
  show ?thesis
    by (rule exI [of _ st], rule exI [of _ n'], rule exI [of _ f'], rule exI [of _ log'])
      (use * in \<open>auto simp: snoc compact_log_lookup split: if_splits\<close>)
qed

theorem nvs_write_updates_map_witness:
  "\<exists>st n' f' log'. fw_nvs_write (\<lambda>_. 7) (Some mock_nvs) mock_store 3 \<lparr>cspan_data = 64, cspan_length = 2\<rparr> = Some (st, Some n', f')
    \<and> nvs_rep s_mock_flash mock_cells 1024 mock_ok n' f' log' \<and> st = FW_OK \<and> log_lookup log' = [3 \<mapsto> [7, 7]]"
  using nvs_write_updates_map [OF mock.flash_device_axioms mock_store_rep, of 3 "\<lparr>cspan_data = 64, cspan_length = 2\<rparr>"
      "[7, 7]" "\<lambda>_. 7"]
  by (simp add: FW_NVS_KEY_EMPTY_def mem_read_def upt_rec rec_size_def rec_payload_def round_up_def s_mock_flash_def TEST_SECTOR_SIZE_def)

section \<open>Reading\<close>

lemma read_loop_rep:
  assumes "flash_device drv cells fsz ok" and "nvs_rep drv cells fsz ok n f log"
  shows "\<exists>acc. read_loop drv f (bank_addr n (nv_active_bank n)) (nv_write_offset n) key 16 (False, 0, zero_record_hdr) = Some acc
    \<and> match_ok key log acc"
  using flash_reader.read_loop_holds [OF device_reader [OF assms(1)] nvs_repD(3) [OF assms(2)] nvs_repD(6,7) [OF assms(2)]
      bank_is_holds [OF nvs_repD(5) [OF assms(2)]] nvs_repD(4) [OF assms(2)]] .

text \<open>What a read finds at a record: a buffer too short for its length, or the bytes with the verdict of
  the checksum; and what it finds where the dictionary holds a value.\<close>

definition record_read :: "mem \<Rightarrow> fw_span \<Rightarrow> usize option \<Rightarrow> fw_nvs_record_hdr \<Rightarrow> u8 list \<Rightarrow> fw_status \<times> mem \<times> usize option" where
  "record_read m out len h q =
     (if unat (span_length out) < length q then (FW_ERR_BUFFER_OVERFLOW, m, len)
      else if calc_record_crc (rh_key h) (rh_length h) (Some q) = rh_crc16 h
      then (FW_OK, mem_write m (span_data out) q, if len = None then None else Some (of_nat (length q)))
      else (FW_ERR_CORRUPTED, mem_write m (span_data out) q, len))"

definition value_read :: "mem \<Rightarrow> fw_span \<Rightarrow> usize option \<Rightarrow> u8 list option \<Rightarrow> fw_status \<times> mem \<times> usize option" where
  "value_read m out len v =
     (case v of
        None \<Rightarrow> (FW_ERR_NOT_FOUND, m, len)
      | Some p \<Rightarrow> if unat (span_length out) < length p then (FW_ERR_BUFFER_OVERFLOW, m, len)
          else (FW_OK, mem_write m (span_data out) p, if len = None then None else Some (of_nat (length p))))"

lemma record_read_rec: "rec_ok (key, Some p) \<Longrightarrow> record_read m out len (rec_hdr (key, Some p)) p = value_read m out len (Some p)"
  by (simp add: record_read_def value_read_def rec_hdr_def rec_payload_def)

lemma fw_nvs_read_match:
  assumes "nv_drv n = drv" and "key \<noteq> FW_NVS_KEY_EMPTY" and "span_data out \<noteq> FW_NULL"
    and "read_loop drv f (bank_addr n (nv_active_bank n)) (nv_write_offset n) key 16 (False, 0, zero_record_hdr) = Some (True, moff, h)"
    and "rh_key h = key" and "length q = unat (rh_length h)"
    and "flash_read drv f (bank_addr n (nv_active_bank n) + moff + 8) (length q) = (FW_OK, q)"
  shows "fw_nvs_read m (Some n) f key out len = Some (record_read m out len h q)"
proof -
  have lt: "span_length out < ucast (rh_length h) \<longleftrightarrow> unat (span_length out) < length q"
    by (simp add: word_less_nat_alt assms(6))
  have q32: "length q \<le> 2 ^ 32" using unsigned_less [of "rh_length h", where ?'a = nat] by (simp add: assms(6))
  have ol: "(ucast (rh_length h) :: u32) = of_nat (length q)" by (metis assms(6) of_nat_unat_id unat_ucast_16_32)
  have z: "q = []" if "\<not> rh_length h > 0" using that assms(6) by (simp add: word_gt_0)
  define st_bs where "st_bs = (if rh_length h > 0
    then flash_read drv f (bank_addr n (nv_active_bank n) + moff + 8) (length q) else (FW_OK, []))"
  have sb: "st_bs = (FW_OK, q)" using assms(7) z by (auto simp: st_bs_def)
  show ?thesis
    unfolding fw_nvs_read_def option.case(2) Let_def assms(1,4) case_prod_conv assms(6) [symmetric] st_bs_def [symmetric] sb
    using assms(2,3,5) lt mem_read_write_same [OF q32] by (simp add: ol record_read_def)
qed

lemma read_payload:
  assumes "flash_reader drv cells fsz ok" and "ok f" and "unat base + unat (fd_sector_size drv) \<le> fsz"
    and "bank_holds (unat (fd_sector_size drv)) (cells f) (unat base) (us @ r # vs)"
  shows "flash_read drv f (base + of_nat (16 + log_size us) + 8) (length (rec_payload r)) = (FW_OK, rec_payload r)"
proof -
  note fsz = flash_reader.fsz_lt [OF assms(1)]
  have ge: "length (rec_payload r) + 8 \<le> rec_size r" using round_up_ge [of "length (rec_payload r)" 2] by (simp add: rec_size_def)
  have le: "16 + log_size us + rec_size r \<le> unat (fd_sector_size drv)" using assms(4) by (simp add: bank_holds_def)
  have o: "unat (of_nat (16 + log_size us) :: u32) = 16 + log_size us"
    using le assms(3) fsz by (intro unat_of_nat_small) simp
  have "unat (base + of_nat (16 + log_size us)) = unat base + (16 + log_size us)"
    using le assms(3) fsz o by (subst unat_add_nowrap) simp_all
  then have u: "unat (base + of_nat (16 + log_size us) + 8) = unat base + (16 + log_size us) + 8"
    using le ge assms(3) fsz by (subst unat_add_nowrap) simp_all
  have "cell_range (cells f) (unat base + (16 + log_size us) + 8) (length (rec_payload r)) = rec_payload r"
    using bank_holds_rec [OF assms(4), of 8 "length (rec_payload r)"] ge by (simp add: rec_bytes_def)
  then show ?thesis
    using flash_reader.read_law [OF assms(1,2), of "base + of_nat (16 + log_size us) + 8" "length (rec_payload r)"]
      le ge assms(3) by (simp only: u)
qed

text \<open>A read whose scan agrees with a log in the bank returns what the log says of the key.\<close>

lemma fw_nvs_read_holds:
  assumes "flash_reader drv cells fsz ok" and "ok f" and "nv_drv n = drv"
    and "unat (bank_addr n (nv_active_bank n)) + unat (fd_sector_size drv) \<le> fsz"
    and "bank_holds (unat (fd_sector_size drv)) (cells f) (unat (bank_addr n (nv_active_bank n))) log"
    and "read_loop drv f (bank_addr n (nv_active_bank n)) (nv_write_offset n) key 16 (False, 0, zero_record_hdr) = Some acc"
    and "match_ok key log acc" and "key \<noteq> FW_NVS_KEY_EMPTY" and "span_data out \<noteq> FW_NULL"
  shows "fw_nvs_read m (Some n) f key out len = Some (value_read m out len (log_lookup log key))"
proof (cases "log_lookup log key")
  case None
  with assms(7) have "\<not> fst acc" by (simp add: match_ok_def)
  then show ?thesis
    using assms(3,6,8) None by (cases acc) (simp add: fw_nvs_read_def Let_def value_read_def)
next
  case (Some p)
  let ?r = "(key, Some p)"
  obtain us vs where s: "log = us @ ?r # vs" "acc = (True, of_nat (16 + log_size us), rec_hdr ?r)"
    using assms(7) Some by (auto simp: match_ok_def)
  have r: "rec_ok ?r" using assms(5) by (simp add: bank_holds_def s(1))
  have pl: "rec_payload ?r = p" by (simp add: rec_payload_def)
  show ?thesis
    using fw_nvs_read_match [OF assms(3,8,9) assms(6) [unfolded s(2)], of p]
      read_payload [OF assms(1,2,4) assms(5) [unfolded s(1)]] rec_hdr_length [OF r] record_read_rec [OF r] Some
    by (simp add: pl)
qed

lemma fw_nvs_read_rep:
  assumes "flash_device drv cells fsz ok" and "nvs_rep drv cells fsz ok n f log"
    and "key \<noteq> FW_NVS_KEY_EMPTY" and "span_data out \<noteq> FW_NULL"
  shows "fw_nvs_read m (Some n) f key out len = Some (value_read m out len (log_lookup log key))"
proof -
  note d = nvs_repD [OF assms(2)]
  obtain acc where "read_loop drv f (bank_addr n (nv_active_bank n)) (nv_write_offset n) key 16 (False, 0, zero_record_hdr) = Some acc"
      "match_ok key log acc"
    using read_loop_rep [OF assms(1,2)] by blast
  then show ?thesis
    by (rule fw_nvs_read_holds [OF device_reader [OF assms(1)] d(3,2,6) bank_is_holds [OF d(5)] _ _ assms(3,4)])
qed

text \<open>C18: a read returns what the dictionary holds at the key: the bytes and their length, NOT_FOUND
  for an absent or deleted key, BUFFER_OVERFLOW when the buffer is too short, with memory untouched in
  both error cases.\<close>

theorem nvs_read_is_lookup:
  assumes "flash_device drv cells fsz ok" and "nvs_rep drv cells fsz ok n f log"
    and "key \<noteq> FW_NVS_KEY_EMPTY" and "span_data out \<noteq> FW_NULL"
  shows "fw_nvs_read m (Some n) f key out len = Some
    (case log_lookup log key of
       None \<Rightarrow> (FW_ERR_NOT_FOUND, m, len)
     | Some p \<Rightarrow> if unat (span_length out) < length p then (FW_ERR_BUFFER_OVERFLOW, m, len)
         else (FW_OK, mem_write m (span_data out) p, if len = None then None else Some (of_nat (length p))))"
  using fw_nvs_read_rep [OF assms] by (simp add: value_read_def)

theorem nvs_read_is_lookup_witness:
  "fw_nvs_read (\<lambda>_. 0) (Some mock_nvs1) mock_store1 3 \<lparr>span_data = 64, span_length = 5\<rparr> (Some 9)
     = Some (FW_OK, mem_write (\<lambda>_. 0) 64 [7, 7], Some 2)"
  using nvs_read_is_lookup [OF mock.flash_device_axioms mock_store1_rep, of 3 "\<lparr>span_data = 64, span_length = 5\<rparr>"]
  by (simp add: FW_NVS_KEY_EMPTY_def)

section \<open>Deleting\<close>

lemma tombstone_bytes:
  "record_hdr_bytes \<lparr>rh_key = key, rh_length = 0, rh_crc16 = calc_record_crc key 0 None, rh_status = FW_NVS_STATUS_DEAD\<rparr>
    = rec_bytes (key, None)"
  by (simp add: rec_bytes_def rec_hdr_def rec_payload_def round_up_def calc_record_crc_def)

lemma tombstone_rep:
  assumes dev: "flash_device drv cells fsz ok" and rep: "nvs_rep drv cells fsz ok n f log"
    and key: "key \<noteq> FW_NVS_KEY_EMPTY" and room: "16 + log_size log + 8 \<le> unat (fd_sector_size drv)"
  shows "\<exists>f'. flash_write drv f (bank_addr n (nv_active_bank n) + nv_write_offset n) (rec_bytes (key, None)) = (FW_OK, f')
    \<and> nvs_rep drv cells fsz ok (n\<lparr>nv_write_offset := nv_write_offset n + 8\<rparr>) f' (log @ [(key, None)])"
proof -
  note d = nvs_repD [OF rep]
  let ?r = "(key, None) :: nv_rec" and ?a = "bank_addr n (nv_active_bank n) + nv_write_offset n"
  have sz: "rec_size ?r = 8" by (simp add: rec_size_def rec_payload_def round_up_def)
  have a: "unat ?a = unat (bank_addr n (nv_active_bank n)) + (16 + log_size log)"
    using d(4,6) room flash_reader.fsz_lt [OF device_reader [OF dev]] by (subst unat_add_nowrap) simp_all
  obtain f' where f': "flash_write drv f ?a (rec_bytes ?r) = (FW_OK, f')" "ok f'" "cells f' = cells_put (cells f) (unat ?a) (rec_bytes ?r)"
    using flash_device.write_law [OF dev d(3), of ?a "rec_bytes ?r"] d(5,6) room by (auto simp: a sz bank_is_def)
  have "rec_ok ?r" using key by (simp add: rec_ok_def rec_payload_def)
  then show ?thesis
    using flash_device.append_rep [OF dev rep, of ?r f' 8] f' room by (simp add: sz a)
qed

text \<open>A delete of a key that is there: the tombstone, after a compaction when the bank has no room for it.\<close>

definition append_tombstone :: "'f fw_nvs \<Rightarrow> 'f \<Rightarrow> u16 \<Rightarrow> fw_status \<times> 'f fw_nvs option \<times> 'f" where
  "append_tombstone n f key =
     (case flash_write (nv_drv n) f (bank_addr n (nv_active_bank n) + nv_write_offset n) (rec_bytes (key, None)) of
        (st, f2) \<Rightarrow> (st, Some (if st = FW_OK then n\<lparr>nv_write_offset := nv_write_offset n + 8\<rparr> else n), f2))"

lemma fw_nvs_delete_steps:
  assumes "flash_device drv cells fsz ok" and "nvs_rep drv cells fsz ok n f log" and "key \<noteq> FW_NVS_KEY_EMPTY"
  shows "fw_nvs_delete (Some n) f key =
    (if log_lookup log key = None then Some (FW_ERR_NOT_FOUND, Some n, f)
     else if 16 + log_size log + 8 \<le> unat (fd_sector_size drv) then Some (append_tombstone n f key)
     else case nvs_compact n f of
            None \<Rightarrow> None
          | Some (st, n', f') \<Rightarrow> if st \<noteq> FW_OK then Some (st, Some n', f') else Some (append_tombstone n' f' key))"
proof -
  have r: "fw_nvs_read (\<lambda>_. 0) (Some n) f key \<lparr>span_data = 1, span_length = 1\<rparr> (Some 0)
      = Some (value_read (\<lambda>_. 0) \<lparr>span_data = 1, span_length = 1\<rparr> (Some 0) (log_lookup log key))"
    by (rule fw_nvs_read_rep [OF assms]) simp
  have st: "fst (value_read (\<lambda>_. 0) \<lparr>span_data = 1, span_length = 1\<rparr> (Some 0) (log_lookup log key)) = FW_ERR_NOT_FOUND
      \<longleftrightarrow> log_lookup log key = None"
    by (auto simp: value_read_def split: option.splits)
  have fits: "nv_write_offset n + 8 > fd_sector_size drv \<longleftrightarrow> \<not> 16 + log_size log + 8 \<le> unat (fd_sector_size drv)"
    using write_fits [OF assms(2) flash_reader.fsz_lt [OF device_reader [OF assms(1)]], of 8] by auto
  show ?thesis
    using r st fits assms(3) nvs_repD(2) [OF assms(2)]
    by (cases "value_read (\<lambda>_. 0) \<lparr>span_data = 1, span_length = 1\<rparr> (Some 0) (log_lookup log key)")
      (auto simp: fw_nvs_delete_def Let_def append_tombstone_def tombstone_bytes split: option.splits prod.splits)
qed

text \<open>C19: a delete of a key that is not there reports NOT_FOUND without a write.  For a key that is there it
  removes that key from the dictionary and no other, compacting when the bank is full, as long as the
  eight bytes of the tombstone fit beside the live records.  When they do not, the code compacts and then, without a
  second check, programs the tombstone behind the live records, where it reaches beyond the end of the active
  bank: up to that write the dictionary is unchanged, and the result is whatever the device answers to it.\<close>

theorem nvs_delete_removes_key:
  assumes "flash_device drv cells fsz ok" and "nvs_rep drv cells fsz ok n f log"
    and "key \<noteq> FW_NVS_KEY_EMPTY"
  shows "if log_lookup log key = None then fw_nvs_delete (Some n) f key = Some (FW_ERR_NOT_FOUND, Some n, f)
    else if 16 + log_size (compact_log log) + 8 \<le> unat (fd_sector_size drv)
    then \<exists>n' f' log'. fw_nvs_delete (Some n) f key = Some (FW_OK, Some n', f')
      \<and> nvs_rep drv cells fsz ok n' f' log' \<and> log_lookup log' = (log_lookup log)(key := None)
    else \<exists>n1 f1 st f2. nvs_compact n f = Some (FW_OK, n1, f1)
      \<and> nvs_rep drv cells fsz ok n1 f1 (compact_log log) \<and> log_lookup (compact_log log) = log_lookup log
      \<and> unat (fd_sector_size drv) < unat (nv_write_offset n1) + 8
      \<and> flash_write drv f1 (bank_addr n1 (nv_active_bank n1) + nv_write_offset n1) (rec_bytes (key, None)) = (st, f2)
      \<and> fw_nvs_delete (Some n) f key =
          Some (st, Some (if st = FW_OK then n1\<lparr>nv_write_offset := nv_write_offset n1 + 8\<rparr> else n1), f2)"
proof -
  let ?S = "unat (fd_sector_size drv)"
  note del = fw_nvs_delete_steps [OF assms]
  have snoc: "log_lookup (l @ [(key, None)]) = (log_lookup l)(key := None)" for l
    by (simp add: fun_eq_iff log_lookup_snoc)
  have tomb: "\<exists>n' f'. append_tombstone n1 f1 key = (FW_OK, Some n', f') \<and> nvs_rep drv cells fsz ok n' f' (l @ [(key, None)])"
    if "nvs_rep drv cells fsz ok n1 f1 l" "16 + log_size l + 8 \<le> ?S" for n1 f1 l
    using tombstone_rep [OF assms(1) that(1) assms(3) that(2)] nvs_repD(2) [OF that(1)]
    by (auto simp: append_tombstone_def)
  obtain n1 f1 where c: "nvs_compact n f = Some (FW_OK, n1, f1)" "nvs_rep drv cells fsz ok n1 f1 (compact_log log)"
    using flash_device.compact_log_rep [OF assms(1,2)] by blast
  note cl = compact_log_lookup [of log] compact_log_size [of log]
  consider (absent) "log_lookup log key = None"
    | (fits) "log_lookup log key \<noteq> None" "16 + log_size log + 8 \<le> ?S"
    | (compacts) "log_lookup log key \<noteq> None" "\<not> 16 + log_size log + 8 \<le> ?S" "16 + log_size (compact_log log) + 8 \<le> ?S"
    | (over) "log_lookup log key \<noteq> None" "\<not> 16 + log_size (compact_log log) + 8 \<le> ?S"
    by blast
  then show ?thesis
  proof cases
    case absent
    then show ?thesis using del by simp
  next
    case fits
    then show ?thesis using del tomb [OF assms(2) fits(2)] cl(2) snoc [of log] by fastforce
  next
    case compacts
    then show ?thesis using del c(1) tomb [OF c(2) compacts(3)] cl(1) snoc [of "compact_log log"] by fastforce
  next
    case over
    then have "\<not> 16 + log_size log + 8 \<le> ?S" using cl(2) by simp
    then show ?thesis
      using del c over cl(1) nvs_repD(2,4) [OF c(2)] by (auto simp: append_tombstone_def split: prod.splits)
  qed
qed

theorem nvs_delete_removes_key_witness:
  "\<exists>n' f' log'. fw_nvs_delete (Some mock_nvs1) mock_store1 3 = Some (FW_OK, Some n', f')
      \<and> nvs_rep s_mock_flash mock_cells 1024 mock_ok n' f' log' \<and> log_lookup log' = Map.empty"
proof -
  have "rec_size (3, Some [7, 7]) = 12" by (simp add: rec_size_def rec_payload_def round_up_def)
  moreover have "log_lookup [(3, Some [7, 7])] = [3 \<mapsto> [7, 7]]" by (simp add: fun_eq_iff)
  ultimately show ?thesis
    using nvs_delete_removes_key [OF mock.flash_device_axioms mock_store1_rep, of 3]
    by (simp add: FW_NVS_KEY_EMPTY_def s_mock_flash_def TEST_SECTOR_SIZE_def)
qed

section \<open>Initialisation\<close>

text \<open>One valid bank decides: its sequence number and the end of its scan are the control block's.\<close>

lemma fw_nvs_init_found:
  assumes "flash_device drv cells fsz ok" and "ok f" and "nv_flash n = Some drv"
    and bk: "banks_ok (unat (fd_sector_size drv)) fsz (unat (nv_bank_addr0 n)) (unat (nv_bank_addr1 n))"
    and ab: "nv_active_bank n = 0 \<or> nv_active_bank n = 1"
    and act: "sector_hdr_of (cell_range (cells f) (unat (bank_addr n (nv_active_bank n))) 16) = nvs_sector_hdr (nv_sequence n)"
    and other: "\<not> bank_valid (sector_hdr_of (cell_range (cells f) (unat (bank_addr n (1 - nv_active_bank n))) 16))"
    and scan: "scan_loop drv f (bank_addr n (nv_active_bank n)) (fd_sector_size drv) 16 = Some (nv_write_offset n)"
  shows "fw_nvs_init (Some n0) (Some drv) (nv_bank_addr0 n) (nv_bank_addr1 n) f = Some (FW_OK, Some n, f)"
proof -
  let ?h = "\<lambda>a. cell_range (cells f) (unat a) 16"
  have s256: "\<not> fd_sector_size drv < 256" using bk by (simp add: word_less_nat_alt banks_ok_def)
  have rd: "flash_read drv f (nv_bank_addr0 n) 16 = (FW_OK, ?h (nv_bank_addr0 n))"
      "flash_read drv f (nv_bank_addr1 n) 16 = (FW_OK, ?h (nv_bank_addr1 n))"
    using flash_reader.read_law [OF device_reader [OF assms(1)] assms(2), of _ 16] bk by (simp_all add: banks_ok_def)
  note ops = flash_device.ops_present [OF assms(1)]
  define n1 where "n1 = n0\<lparr>nv_flash := Some drv, nv_bank_addr0 := nv_bank_addr0 n, nv_bank_addr1 := nv_bank_addr1 n,
    nv_active_bank := nv_active_bank n, nv_sequence := nv_sequence n\<rparr>"
  have "n1\<lparr>nv_write_offset := nv_write_offset n\<rparr> = n" using assms(3) by (cases n; cases n0) (simp add: n1_def)
  moreover have "bank_addr n1 b = bank_addr n b" "nv_drv n1 = drv" "nv_active_bank n1 = nv_active_bank n" for b
    by (simp_all add: n1_def bank_addr_def nv_drv_def)
  ultimately have "scan_write_offset n1 f = Some n"
    using scan by (simp add: scan_write_offset_def)
  then show ?thesis
    using ab act other ops s256
    by (auto simp: fw_nvs_init_def Let_def rd n1_def bank_addr_def)
qed

text \<open>C15: after a reset the initialisation finds the active bank, its sequence number and the end of
  the log, so the control block and the dictionary are the ones before the reset, whatever the RAM held.\<close>

theorem nvs_init_recovers_store:
  assumes "flash_device drv cells fsz ok" and "nvs_rep drv cells fsz ok n f log"
  shows "fw_nvs_init (Some n0) (Some drv) (nv_bank_addr0 n) (nv_bank_addr1 n) f = Some (FW_OK, Some n, f)"
proof -
  note d = nvs_repD [OF assms(2)]
  have rep: "banks_ok (unat (fd_sector_size drv)) fsz (unat (nv_bank_addr0 n)) (unat (nv_bank_addr1 n))"
      "nv_active_bank n = 0 \<or> nv_active_bank n = 1"
      "\<not> bank_valid (sector_hdr_of (cell_range (cells f) (unat (bank_addr n (1 - nv_active_bank n))) 16))"
    using assms(2) by (simp_all add: nvs_rep_def)
  show ?thesis
    by (rule fw_nvs_init_found [OF assms(1) d(3,1) rep(1,2) bank_is_valid [OF d(5)] rep(3)
        flash_reader.scan_loop_log [OF device_reader [OF assms(1)] d(3,6,7,5,4)]])
qed

theorem nvs_init_recovers_store_witness:
  "fw_nvs_init (Some \<lparr>nv_flash = None, nv_bank_addr0 = 9, nv_bank_addr1 = 9, nv_active_bank = 1, nv_write_offset = 0,
     nv_sequence = 5\<rparr>) (Some s_mock_flash) 0 512 mock_store1 = Some (FW_OK, Some mock_nvs1, mock_store1)"
  using nvs_init_recovers_store [OF mock.flash_device_axioms mock_store1_rep]
  by (simp add: mock_nvs1_def mock_nvs_def)

lemma fw_nvs_format_rep:
  assumes "flash_device drv cells fsz ok" and "ok f" and "nv_flash n = Some drv"
    and "banks_ok (unat (fd_sector_size drv)) fsz (unat (nv_bank_addr0 n)) (unat (nv_bank_addr1 n))"
  shows "\<exists>n' f'. fw_nvs_format (Some n) f = (FW_OK, Some n', f') \<and> nvs_rep drv cells fsz ok n' f' []"
proof -
  let ?S = "unat (fd_sector_size drv)" and ?b0 = "nv_bank_addr0 n" and ?b1 = "nv_bank_addr1 n"
  note dj = banks_ok_disjoint(1) [OF assms(4)]
  have bk: "256 \<le> ?S" "?S dvd unat ?b0" "?S dvd unat ?b1" "unat ?b0 + ?S \<le> fsz" "unat ?b1 + ?S \<le> fsz"
    using assms(4) by (simp_all add: banks_ok_def)
  have drv: "nv_drv n = drv" by (simp add: nv_drv_def assms(3))
  obtain f1 where f1: "flash_erase drv f ?b0 = (FW_OK, f1)" "ok f1" "cells f1 = cells_put (cells f) (unat ?b0) (replicate ?S 0xFF)"
    using flash_device.erase_law [OF assms(1,2) bk(2,4)] by blast
  obtain f2 where f2: "flash_erase drv f1 ?b1 = (FW_OK, f2)" "ok f2" "cells f2 = cells_put (cells f1) (unat ?b1) (replicate ?S 0xFF)"
    using flash_device.erase_law [OF assms(1) f1(2) bk(3,5)] by blast
  let ?h = "sector_hdr_bytes (nvs_sector_hdr 1)"
  obtain f3 where f3: "flash_write drv f2 ?b0 ?h = (FW_OK, f3)" "ok f3" "cells f3 = cells_put (cells f2) (unat ?b0) ?h"
    using flash_device.write_law [OF assms(1) f2(2), of ?b0 ?h] bk(1,4) dj by (auto simp: f2(3) f1(3) cells_put_def)
  let ?n = "n\<lparr>nv_active_bank := 0, nv_write_offset := 16, nv_sequence := 1\<rparr>"
  have "bank_is ?S (cells f3) (unat ?b0) 1 []"
    using bank_is_new [of ?S "cells f" "unat ?b0" 1] bk(1) dj
    by (intro bank_is_frame [OF bank_is_new [of ?S "cells f" "unat ?b0" 1]])
      (auto simp: f3(3) f2(3) f1(3) cells_put_def)
  moreover have "cell_range (cells f3) (unat ?b1) 16 = cell_range (cells f2) (unat ?b1) 16"
    unfolding f3(3) by (rule cell_range_put_other) (use bk(1) dj in auto)
  then have "\<not> bank_valid (sector_hdr_of (cell_range (cells f3) (unat ?b1) 16))"
    using erased_not_valid [of ?S "cells f1" "unat ?b1"] bk(1) by (simp add: f2(3))
  ultimately have "nvs_rep drv cells fsz ok ?n f3 []"
    using assms(3,4) f3(2) by (simp add: nvs_rep_def bank_addr_def)
  then show ?thesis
    using f1(1) f2(1) f3(1) assms(3) by (auto simp: fw_nvs_format_def drv)
qed

text \<open>With two active banks the newer one is taken and the other erased.\<close>

lemma fw_nvs_init_newer:
  fixes ab :: u8
  assumes "flash_device drv cells fsz ok" and "ok f" and bk: "banks_ok (unat (fd_sector_size drv)) fsz (unat b0) (unat b1)"
    and ab: "ab = 0 \<and> a = b0 \<and> z = b1 \<or> ab = 1 \<and> a = b1 \<and> z = b0"
    and old: "bank_is (unat (fd_sector_size drv)) (cells f) (unat z) sq0 old"
    and new: "bank_is (unat (fd_sector_size drv)) (cells f) (unat a) sq1 part" and "sq0 < sq1"
  shows "\<exists>n f'. fw_nvs_init (Some n0) (Some drv) b0 b1 f = Some (FW_OK, Some n, f')
    \<and> nvs_rep drv cells fsz ok n f' part"
proof -
  let ?S = "unat (fd_sector_size drv)"
  have az: "banks_ok ?S fsz (unat a) (unat z)" using bk ab banks_ok_sym by auto
  note dj = banks_ok_disjoint [OF az]
  have bz: "256 \<le> ?S" "?S dvd unat z" "unat z + ?S \<le> fsz" "unat a + ?S \<le> fsz" using az by (simp_all add: banks_ok_def)
  have s256: "\<not> fd_sector_size drv < 256" using bz(1) by (simp add: word_less_nat_alt)
  have rd: "flash_read drv f a 16 = (FW_OK, cell_range (cells f) (unat a) 16)"
      "flash_read drv f z 16 = (FW_OK, cell_range (cells f) (unat z) 16)"
    using flash_reader.read_law [OF device_reader [OF assms(1)] assms(2), of _ 16] bz by simp_all
  obtain f1 where f1: "flash_erase drv f z = (FW_OK, f1)" "ok f1" "cells f1 = cells_put (cells f) (unat z) (replicate ?S 0xFF)"
    using flash_device.erase_law [OF assms(1,2) bz(2,3)] by blast
  have part: "bank_is ?S (cells f1) (unat a) sq1 part"
    by (rule bank_is_frame [OF new]) (use dj(1) in \<open>auto simp: f1(3) cells_put_def\<close>)
  define w :: u32 where "w = of_nat (16 + log_size part)"
  have le: "16 + log_size part \<le> ?S" using part by (simp add: bank_is_def)
  have w: "unat w = 16 + log_size part"
    unfolding w_def using le dj(2) flash_reader.fsz_lt [OF device_reader [OF assms(1)]] by (intro unat_of_nat_small) simp
  have scan: "scan_loop drv f1 a (fd_sector_size drv) 16 = Some w"
    using flash_reader.scan_loop_log [OF device_reader [OF assms(1)] f1(2) bz(4) _ part w] dj(2) by simp
  define n where "n = n0\<lparr>nv_flash := Some drv, nv_bank_addr0 := b0, nv_bank_addr1 := b1, nv_active_bank := ab,
    nv_sequence := sq1, nv_write_offset := w\<rparr>"
  have "\<not> bank_valid (sector_hdr_of (cell_range (cells f1) (unat z) 16))"
    using erased_not_valid [of ?S "cells f" "unat z"] bz(1) by (simp add: f1(3))
  then have "nvs_rep drv cells fsz ok n f1 part"
    using part f1(2) bk w ab by (auto simp: nvs_rep_def n_def bank_addr_def)
  moreover have "fw_nvs_init (Some n0) (Some drv) b0 b1 f = Some (FW_OK, Some n, f1)"
    using ab flash_device.ops_present [OF assms(1)] s256 \<open>sq0 < sq1\<close> less_not_sym [OF \<open>sq0 < sq1\<close>] scan f1(1) rd bank_is_valid [OF old] bank_is_valid [OF new]
    by (elim disjE conjE) (simp_all add: fw_nvs_init_def Let_def scan_write_offset_def nv_drv_def bank_addr_def n_def)
  ultimately show ?thesis by blast
qed

text \<open>The bank with the higher sequence number wins when both are active, whatever it holds: the
  initialisation takes the log found there and erases the other bank.  A compaction that a power loss
  interrupts leaves exactly this situation, with the destination holding only the part copied so far, so
  the records not yet copied are lost with the source.\<close>

theorem nvs_init_newest_bank_wins:
  assumes "flash_device drv cells fsz ok" and "ok f"
    and "banks_ok (unat (fd_sector_size drv)) fsz (unat b0) (unat b1)"
    and "bank_is (unat (fd_sector_size drv)) (cells f) (unat b0) sq0 old"
    and "bank_is (unat (fd_sector_size drv)) (cells f) (unat b1) sq1 part" and "sq0 < sq1"
  shows "\<exists>n f'. fw_nvs_init (Some n0) (Some drv) b0 b1 f = Some (FW_OK, Some n, f')
    \<and> nvs_rep drv cells fsz ok n f' part"
  using assms by (intro fw_nvs_init_newer [of drv cells fsz ok f b0 b1 1 b1 b0 sq0 old sq1 part]) simp_all

text \<open>Power lost right after a compaction wrote its destination header: key 3 is gone.\<close>

definition mock_interrupted :: "u8 list" where
  "mock_interrupted = sector_hdr_bytes (nvs_sector_hdr 1) @ rec_bytes (3, Some [7, 7]) @ replicate 484 0xFF
     @ sector_hdr_bytes (nvs_sector_hdr 2) @ replicate 496 0xFF"

lemma mock_interrupted_banks:
  "bank_is 512 (mock_cells mock_interrupted) 0 1 [(3, Some [7, 7])]"
  "bank_is 512 (mock_cells mock_interrupted) 512 2 []"
proof -
  have sz: "rec_size (3, Some [7, 7]) = 12" by (simp add: rec_size_def rec_payload_def round_up_def)
  have "bank_is 512 (mock_cells mock_store1) 0 1 [(3, Some [7, 7])]"
    using nvs_repD(5) [OF mock_store1_rep]
    by (simp add: mock_nvs1_def mock_nvs_def bank_addr_def s_mock_flash_def TEST_SECTOR_SIZE_def)
  then show "bank_is 512 (mock_cells mock_interrupted) 0 1 [(3, Some [7, 7])]"
    by (rule bank_is_frame) (auto simp: mock_cells_def mock_store1_def mock_interrupted_def nth_append sz)
  show "bank_is 512 (mock_cells mock_interrupted) 512 2 []"
    by (rule bank_is_frame [OF bank_is_new [of 512 "\<lambda>_. 0"]])
      (auto simp: mock_cells_def mock_interrupted_def nth_append sz cells_put_def)
qed

theorem nvs_init_newest_bank_wins_witness:
  "\<exists>n f'. fw_nvs_init (Some mock_nvs) (Some s_mock_flash) 0 512 mock_interrupted = Some (FW_OK, Some n, f')
    \<and> nvs_rep s_mock_flash mock_cells 1024 mock_ok n f' []"
  using nvs_init_newest_bank_wins [OF mock.flash_device_axioms, of mock_interrupted 0 512 1 "[(3, Some [7, 7])]" 2 "[]" mock_nvs]
    mock_interrupted_banks
  by (simp add: mock_ok_def mock_interrupted_def TOTAL_FLASH_SIZE_def s_mock_flash_def TEST_SECTOR_SIZE_def banks_ok_def
      rec_size_def rec_payload_def round_up_def)

end
