(* ===== verification/Power_Cut.thy ===== *)
theory Power_Cut
  imports Flash
begin

text \<open>
  A flash device that loses power: an environment for the storage components.  It has a budget, one unit for
  each byte programmed and one for each erase.  The write under way when the budget is spent leaves a prefix
  of its bytes and reports an error, as does every later one; reads do not notice.
\<close>

definition cut_write :: "('f \<Rightarrow> u32 \<Rightarrow> u8 list \<Rightarrow> fw_status \<times> 'f) \<Rightarrow> 'f \<times> nat \<Rightarrow> u32 \<Rightarrow> u8 list \<Rightarrow> fw_status \<times> 'f \<times> nat" where
  "cut_write w s a bs =
     (let (st, f') = w (fst s) a (take (snd s) bs)
      in (if length bs \<le> snd s then st else FW_ERR_IO, f', snd s - length bs))"

definition cut_erase :: "('f \<Rightarrow> u32 \<Rightarrow> fw_status \<times> 'f) \<Rightarrow> 'f \<times> nat \<Rightarrow> u32 \<Rightarrow> fw_status \<times> 'f \<times> nat" where
  "cut_erase e s a =
     (if snd s = 0 then (FW_ERR_IO, s) else let (st, f') = e (fst s) a in (st, f', snd s - 1))"

definition power_cut :: "'f fw_flash_driver \<Rightarrow> ('f \<times> nat) fw_flash_driver" where
  "power_cut drv = \<lparr>fd_sector_size = fd_sector_size drv,
     fd_read = map_option (\<lambda>r s. r (fst s)) (fd_read drv),
     fd_write = map_option cut_write (fd_write drv),
     fd_erase_sector = map_option cut_erase (fd_erase_sector drv)\<rparr>"

lemma fd_sector_size_power_cut: "fd_sector_size (power_cut drv) = fd_sector_size drv"
  by (simp add: power_cut_def)

context flash_device
begin

text \<open>Reads do not notice the budget: the device is a reader of the same cells.\<close>

lemma power_cut_read: "flash_read (power_cut drv) s a n = flash_read drv (fst s) a n"
  using read_present by (auto simp: flash_read_def power_cut_def)

sublocale cut: flash_reader "power_cut drv" "\<lambda>s. cells (fst s)" fsz "\<lambda>s. ok (fst s)"
  using fsz_lt read_present read_law
  by unfold_locales (simp_all add: power_cut_read, simp add: power_cut_def)

lemma power_cut_reader: "flash_reader (power_cut drv) (\<lambda>s. cells (fst s)) fsz (\<lambda>s. ok (fst s))"
  by (rule cut.flash_reader_axioms)

lemma power_cut_write:
  assumes "ok f" and "unat a + length bs \<le> e" and "e \<le> fsz"
    and "\<And>k. unat a \<le> k \<Longrightarrow> k < e \<Longrightarrow> cells f k = 0xFF"
  shows "\<exists>f'. flash_write (power_cut drv) (f, b) a bs = (if length bs \<le> b then FW_OK else FW_ERR_IO, f', b - length bs)
    \<and> ok f' \<and> cells f' = cells_put (cells f) (unat a) (take b bs)"
proof -
  obtain f' where f': "flash_write drv f a (take b bs) = (FW_OK, f')" "ok f'" "cells f' = cells_put (cells f) (unat a) (take b bs)"
    using write_law [OF assms(1), of a "take b bs"] assms(2-4) by force
  have "flash_write (power_cut drv) (f, b) a bs = (if length bs \<le> b then FW_OK else FW_ERR_IO, f', b - length bs)"
    using f'(1) write_present by (auto simp: flash_write_def power_cut_def cut_write_def)
  then show ?thesis using f'(2,3) by auto
qed

lemma power_cut_erase:
  assumes "ok f" and "unat (fd_sector_size drv) dvd unat a" and "unat a + unat (fd_sector_size drv) \<le> fsz"
  shows "if b = 0 then flash_erase (power_cut drv) (f, b) a = (FW_ERR_IO, f, b)
    else \<exists>f'. flash_erase (power_cut drv) (f, b) a = (FW_OK, f', b - 1) \<and> ok f'
      \<and> cells f' = cells_put (cells f) (unat a) (replicate (unat (fd_sector_size drv)) 0xFF)"
  using erase_law [OF assms] erase_present by (auto simp: flash_erase_def power_cut_def cut_erase_def)

end

end
