(* ===== verification/Nvs_Power.thy ===== *)
theory Nvs_Power
  imports Nvs_Map Power_Cut
begin

text \<open>
  Power failure while the key-value store appends a record, on the device of \<open>Power_Cut\<close>.  After the next reset \<open>fw_nvs_init\<close> finds the bank with a torn record at the end of its
  log.  The lemmas say what the scans make of it and what each key then reads.
\<close>

unbundle bit_operations_syntax

text \<open>The control block of the store on the device that will lose power.\<close>

definition under_power :: "'f fw_nvs \<Rightarrow> ('f \<times> nat) fw_nvs" where
  "under_power n = \<lparr>nv_flash = map_option power_cut (nv_flash n), nv_bank_addr0 = nv_bank_addr0 n,
     nv_bank_addr1 = nv_bank_addr1 n, nv_active_bank = nv_active_bank n, nv_write_offset = nv_write_offset n,
     nv_sequence = nv_sequence n\<rparr>"

lemma under_power_simps [simp]:
  "bank_addr (under_power n) b = bank_addr n b" "nv_active_bank (under_power n) = nv_active_bank n"
  "nv_write_offset (under_power n) = nv_write_offset n" "nv_sequence (under_power n) = nv_sequence n"
  "nv_flash n = Some drv \<Longrightarrow> nv_drv (under_power n) = power_cut drv"
  by (simp_all add: under_power_def bank_addr_def nv_drv_def)

context flash_device
begin

lemma write_all_cut:
  assumes "ok f" and "\<And>k. unat a \<le> k \<Longrightarrow> k < e \<Longrightarrow> cells f k = 0xFF"
    and "unat a + length (concat bss) \<le> e" and "e \<le> fsz"
  shows "\<exists>f' b'. write_all (power_cut drv) (f, b) a bss = (if length (concat bss) \<le> b then FW_OK else FW_ERR_IO, f', b')
    \<and> ok f' \<and> cells f' = cells_put (cells f) (unat a) (take b (concat bss))"
  using assms(1-3)
proof (induction bss arbitrary: f a b)
  case (Cons bs bss)
  show ?case
  proof (cases "bs = []")
    case False
    obtain f1 where f1: "flash_write (power_cut drv) (f, b) a bs = (if length bs \<le> b then FW_OK else FW_ERR_IO, f1, b - length bs)"
        "ok f1" "cells f1 = cells_put (cells f) (unat a) (take b bs)"
      using power_cut_write [OF Cons.prems(1), of a bs e b] Cons.prems(2,3) assms(4) by auto
    show ?thesis
    proof (cases "length bs \<le> b")
      case True
      have a: "unat (a + of_nat (length bs)) = unat a + length bs"
        using Cons.prems(3) assms(4) fsz_lt by (intro unat_add_of_nat) simp
      have "cells f1 k = 0xFF" if "unat a + length bs \<le> k" "k < e" for k
        using that Cons.prems(2) True by (simp add: f1(3) cells_put_def)
      then obtain f' b' where "write_all (power_cut drv) (f1, b - length bs) (a + of_nat (length bs)) bss =
            (if length (concat bss) \<le> b - length bs then FW_OK else FW_ERR_IO, f', b')"
          "ok f'" "cells f' = cells_put (cells f1) (unat a + length bs) (take (b - length bs) (concat bss))"
        using Cons.IH [OF f1(2), of "a + of_nat (length bs)" "b - length bs"] Cons.prems(3) a by auto
      with True False f1 show ?thesis by (intro exI [of _ f'] exI [of _ b']) (auto simp: cells_put_append)
    next
      case short: False
      with False f1 show ?thesis by simp
    qed
  qed (use Cons in simp)
qed (simp add: assms)

text \<open>A write that loses power leaves the bytes of its budget behind the log, and reports the failure.\<close>

lemma write_record_cut:
  assumes rep: "nvs_rep drv cells fsz ok n f log" and r: "rec_ok (key, Some p)"
    and room: "16 + log_size log + rec_size (key, Some p) \<le> unat (fd_sector_size drv)"
    and len: "unat len = length p" and payload: "p \<noteq> [] \<Longrightarrow> payload = Some p" "payload = None \<or> payload = Some p"
  shows "\<exists>n1 f1 b1. write_record (under_power n) (f, b) key payload len =
        (if rec_size (key, Some p) \<le> b then FW_OK else FW_ERR_IO, n1, f1, b1) \<and> ok f1
    \<and> cells f1 = cells_put (cells f) (unat (bank_addr n (nv_active_bank n)) + (16 + log_size log))
        (take b (rec_bytes (key, Some p)))"
proof -
  let ?r = "(key, Some p)" and ?addr = "bank_addr n (nv_active_bank n) + nv_write_offset n"
  note d = nvs_repD [OF rep]
  have addr: "unat ?addr = unat (bank_addr n (nv_active_bank n)) + (16 + log_size log)"
    using d(4,6) room fsz_lt by (subst unat_add_nowrap) simp_all
  have erased: "\<And>k. unat ?addr \<le> k \<Longrightarrow> k < unat ?addr + rec_size ?r \<Longrightarrow> cells f k = 0xFF"
    using d(5) room by (simp add: addr bank_is_def)
  obtain f1 b1 where "write_all (power_cut drv) (f, b) ?addr (rec_parts ?r) =
        (if rec_size ?r \<le> b then FW_OK else FW_ERR_IO, f1, b1)" "ok f1"
      "cells f1 = cells_put (cells f) (unat ?addr) (take b (rec_bytes ?r))"
    using write_all_cut [OF d(3), of ?addr "unat ?addr + rec_size ?r" "rec_parts ?r" b] erased d(6) room by (auto simp: addr)
  then show ?thesis
    by (simp add: write_record_parts [OF r len payload] d(1) addr)
qed

end

section \<open>The torn record\<close>

definition torn :: "nat \<Rightarrow> nv_rec \<Rightarrow> u8 list" where
  "torn b r = take b (rec_bytes r) @ replicate (rec_size r - b) 0xFF"

definition torn_hdr :: "nat \<Rightarrow> nv_rec \<Rightarrow> fw_nvs_record_hdr" where
  "torn_hdr b r = record_hdr_of (torn b r)"

definition torn_payload :: "nat \<Rightarrow> nv_rec \<Rightarrow> u8 list" where
  "torn_payload b r = take (length (rec_payload r)) (drop 8 (torn b r))"

lemma length_torn [simp]: "length (torn b r) = rec_size r"
  by (simp add: torn_def)

lemma torn_nth: "i < rec_size r \<Longrightarrow> torn b r ! i = (if i < b then rec_bytes r ! i else 0xFF)"
  by (auto simp: torn_def nth_append)

lemma rec_bytes_hdr_nth: "i < 8 \<Longrightarrow> rec_bytes r ! i = record_hdr_bytes (rec_hdr r) ! i"
  by (simp add: rec_bytes_def nth_append)

text \<open>Fewer than four bytes leave a length no sector holds, four or more the key and the length.\<close>

lemma word_or_ge: "unat (y :: 'a::len word) \<le> unat (x OR y)"
proof -
  have "uint y \<le> uint y OR uint x" by (rule or_greater_eq) simp
  then have "y \<le> x OR y" by (simp add: word_le_def unsigned_or_eq or.commute)
  then show ?thesis by (simp only: word_le_nat_alt)
qed

lemma torn_hdr_short: "b < 4 \<Longrightarrow> 0xFF00 \<le> unat (rh_length (torn_hdr b r))"
  using rec_size_ge [of r] word_or_ge [of "0xFF00 :: u16" "ucast (rec_bytes r ! 2)"]
  by (simp add: torn_hdr_def record_hdr_of_def torn_nth of_le16_def)

lemma torn_hdr_long:
  assumes "4 \<le> b"
  shows "rh_key (torn_hdr b r) = fst r" "rh_length (torn_hdr b r) = rh_length (rec_hdr r)"
    "snd r \<noteq> None \<Longrightarrow> rh_status (torn_hdr b r) = FW_NVS_STATUS_VALID"
proof -
  have t: "torn b r ! i = (if i < b then record_hdr_bytes (rec_hdr r) ! i else 0xFF)" if "i < 8" for i
    using that rec_size_ge [of r] by (simp add: torn_nth rec_bytes_hdr_nth)
  have "record_hdr_of (record_hdr_bytes (rec_hdr r)) = rec_hdr r" by simp
  then have h: "of_le16 (record_hdr_bytes (rec_hdr r) ! 0) (record_hdr_bytes (rec_hdr r) ! 1) = rh_key (rec_hdr r)"
      "of_le16 (record_hdr_bytes (rec_hdr r) ! 2) (record_hdr_bytes (rec_hdr r) ! 3) = rh_length (rec_hdr r)"
    unfolding record_hdr_of_def by (metis fw_nvs_record_hdr.select_convs(1), metis fw_nvs_record_hdr.select_convs(2))
  show "rh_key (torn_hdr b r) = fst r" "rh_length (torn_hdr b r) = rh_length (rec_hdr r)"
    using assms h by (simp_all add: torn_hdr_def record_hdr_of_def t del: One_nat_def)
  assume "snd r \<noteq> None"
  then have "record_hdr_bytes (rec_hdr r) ! 6 = 0xFF" "record_hdr_bytes (rec_hdr r) ! 7 = 0xFF"
    by (auto simp: record_hdr_bytes_def le16_def rec_hdr_def FW_NVS_STATUS_VALID_def)
  then show "rh_status (torn_hdr b r) = FW_NVS_STATUS_VALID"
    by (simp add: torn_hdr_def record_hdr_of_def t of_le16_ones FW_NVS_STATUS_VALID_def)
qed

text \<open>Only the padding missing is nothing missing.\<close>

lemma torn_full:
  assumes "8 + length (rec_payload r) \<le> b"
  shows "torn b r = rec_bytes r" "torn_hdr b r = rec_hdr r" "torn_payload b r = rec_payload r"
proof -
  show t: "torn b r = rec_bytes r"
    by (rule nth_equalityI)
      (use assms round_up_ge [of "length (rec_payload r)" 2] in \<open>auto simp: torn_nth rec_bytes_def nth_append rec_size_def\<close>)
  have "record_hdr_of (rec_bytes r) = record_hdr_of (record_hdr_bytes (rec_hdr r))"
    by (simp add: record_hdr_of_def rec_bytes_hdr_nth)
  then show "torn_hdr b r = rec_hdr r" "torn_payload b r = rec_payload r"
    by (simp_all add: torn_hdr_def torn_payload_def t rec_bytes_def)
qed

definition torn_bank :: "nat \<Rightarrow> (nat \<Rightarrow> u8) \<Rightarrow> nat \<Rightarrow> nv_rec list \<Rightarrow> nv_rec \<Rightarrow> nat \<Rightarrow> bool" where
  "torn_bank S c base log r b \<longleftrightarrow>
     bank_holds S c base log \<and> rec_ok r \<and> 16 + log_size log + rec_size r \<le> S
     \<and> cell_range c (base + (16 + log_size log)) (rec_size r) = torn b r
     \<and> (\<forall>k. base + (16 + log_size log + rec_size r) \<le> k \<and> k < base + S \<longrightarrow> c k = 0xFF)"

lemma torn_bank_put:
  assumes "bank_is S c base sq log" and "rec_ok r" and "16 + log_size log + rec_size r \<le> S"
  shows "torn_bank S (cells_put c (base + (16 + log_size log)) (take b (rec_bytes r))) base log r b"
proof -
  let ?c = "cells_put c (base + (16 + log_size log)) (take b (rec_bytes r))"
  have "cell_range ?c (base + 16) (log_size log) = cell_range c (base + 16) (log_size log)"
    by (rule cell_range_put_other) simp
  moreover have "cell_range ?c (base + (16 + log_size log)) (rec_size r) = torn b r"
    by (rule nth_equalityI) (use assms(1,3) in \<open>auto simp: torn_nth cells_put_def bank_is_def\<close>)
  ultimately show ?thesis
    using assms by (auto simp: torn_bank_def bank_holds_def bank_is_def cells_put_def)
qed

text \<open>Where the scan of the initialisation ends: at a torn header, or behind the torn record.\<close>

definition torn_end :: "nat \<Rightarrow> u32 \<Rightarrow> nv_rec \<Rightarrow> u32" where
  "torn_end b off r = (if b < 4 then off else off + of_nat (rec_size r))"

context flash_reader
begin

lemma read_torn_hdr:
  assumes "ok f" and "torn_bank (unat (fd_sector_size drv)) (cells f) (unat base) log r b"
    and "unat base + unat (fd_sector_size drv) \<le> fsz" and "unat off = 16 + log_size log"
  shows "\<exists>bs. flash_read drv f (base + off) 8 = (FW_OK, bs) \<and> record_hdr_of bs = torn_hdr b r"
proof -
  have le: "16 + log_size log + rec_size r \<le> unat (fd_sector_size drv)" using assms(2) by (simp add: torn_bank_def)
  have u: "unat (base + off) = unat base + (16 + log_size log)"
    using le assms(3,4) fsz_lt by (subst unat_add_nowrap) simp_all
  have "cell_range (cells f) (unat base + (16 + log_size log)) 8 = take 8 (torn b r)"
    using assms(2) cell_range_slice [of 0 8 "rec_size r" "cells f" "unat base + (16 + log_size log)"] rec_size_ge [of r]
    by (simp add: torn_bank_def)
  moreover have "record_hdr_of (take 8 (torn b r)) = torn_hdr b r" by (simp add: torn_hdr_def record_hdr_of_def)
  ultimately show ?thesis
    using read_law [OF assms(1), of "base + off" 8] le assms(3) rec_size_ge [of r] by (simp add: u)
qed

lemma torn_end_unat:
  assumes "torn_bank S c base log r b" and "S + S \<le> fsz" and "unat off = 16 + log_size log" and "4 \<le> b"
  shows "unat (torn_end b off r) = 16 + log_size log + rec_size r"
    and "off + (8 + ALIGN_UP_4 (ucast (rh_length (torn_hdr b r)))) = torn_end b off r"
proof -
  have r: "rec_ok r" and le: "16 + log_size log + rec_size r \<le> S" using assms(1) by (simp_all add: torn_bank_def)
  show e: "unat (torn_end b off r) = 16 + log_size log + rec_size r"
    using assms(2-4) le fsz_lt by (simp add: torn_end_def unat_add_of_nat)
  show "off + (8 + ALIGN_UP_4 (ucast (rh_length (torn_hdr b r)))) = torn_end b off r"
    using unat_rec_total [OF r] assms(4) by (simp add: torn_end_def torn_hdr_long(2)) (metis of_nat_unat_id)
qed

lemma scan_torn:
  assumes "ok f" and "unat base + unat (fd_sector_size drv) \<le> fsz"
    and "unat (fd_sector_size drv) + unat (fd_sector_size drv) \<le> fsz" and "unat (fd_sector_size drv) \<le> 0xFF00"
    and torn: "torn_bank (unat (fd_sector_size drv)) (cells f) (unat base) log r b" and off: "unat off = 16 + log_size log"
  shows "scan_loop drv f base (fd_sector_size drv) 16 = Some (torn_end b off r)"
proof -
  let ?S = "unat (fd_sector_size drv)" and ?t = "8 + ALIGN_UP_4 (ucast (rh_length (torn_hdr b r)))"
  have r: "rec_ok r" and le: "16 + log_size log + rec_size r \<le> ?S" using torn by (simp_all add: torn_bank_def)
  have "unat (off + 8) = unat off + 8" using le off assms(3) fsz_lt rec_size_ge [of r] by (subst unat_add_nowrap) simp_all
  then have in_bank: "off + 8 \<le> fd_sector_size drv" using le off rec_size_ge [of r] by (simp add: word_le_nat_alt)
  obtain bs where bs: "flash_read drv f (base + off) 8 = (FW_OK, bs)" "record_hdr_of bs = torn_hdr b r"
    using read_torn_hdr [OF assms(1) torn assms(2) off] by blast
  have "scan_loop drv f base (fd_sector_size drv) off = Some (torn_end b off r)"
  proof (cases "b < 4")
    case True
    let ?l = "unat (rh_length (torn_hdr b r))"
    have l: "0xFF00 \<le> ?l" "?l < 2 ^ 16" using torn_hdr_short [OF True, of r] unsigned_less [of "rh_length (torn_hdr b r)", where ?'a = nat] by simp_all
    have "unat (ALIGN_UP_4 (ucast (rh_length (torn_hdr b r)))) = round_up 2 ?l" using l(2) by (subst unat_ALIGN_UP_4) simp_all
    moreover have "round_up 2 ?l < 2 ^ 17" using round_up_less [of 2 ?l] l(2) by simp
    ultimately have "unat ?t = 8 + round_up 2 ?l" by (subst unat_add_nowrap) simp_all
    moreover have "?l \<le> round_up 2 ?l" by (rule round_up_ge)
    moreover have "unat (off + ?t) = unat off + unat ?t"
      using calculation \<open>round_up 2 ?l < 2 ^ 17\<close> off le assms(4) by (subst unat_add_nowrap) simp_all
    ultimately have "off + ?t > fd_sector_size drv" using l(1) assms(4) by (simp add: word_less_nat_alt)
    then show ?thesis
      using True in_bank bs by (subst scan_loop.simps) (simp add: Let_def torn_end_def)
  next
    case False
    then have b: "4 \<le> b" by simp
    note e = torn_end_unat [OF torn assms(3) off b]
    have "scan_loop drv f base (fd_sector_size drv) (torn_end b off r) = Some (torn_end b off r)"
      by (rule scan_stops_erased [OF assms(1) _ assms(2,3)]) (use torn e(1) in \<open>simp_all add: torn_bank_def\<close>)
    moreover have "\<not> torn_end b off r > fd_sector_size drv" using e(1) le by (simp add: word_less_nat_alt)
    moreover have "fst r \<noteq> FW_NVS_KEY_EMPTY" using r by (simp add: rec_ok_def)
    ultimately show ?thesis
      using in_bank bs e(2) by (subst scan_loop.simps) (simp add: Let_def torn_hdr_long(1) [OF b])
  qed
  then show ?thesis
    using scan_loop_holds [OF assms(1-3), of off "torn_end b off r" "[]" log 16] torn off by (simp add: torn_bank_def)
qed

lemma read_loop_torn:
  assumes "ok f" and "unat base + unat (fd_sector_size drv) \<le> fsz"
    and "unat (fd_sector_size drv) + unat (fd_sector_size drv) \<le> fsz"
    and torn: "torn_bank (unat (fd_sector_size drv)) (cells f) (unat base) log r b" and off: "unat off = 16 + log_size log"
  shows "\<exists>acc. match_ok key log acc \<and> read_loop drv f base (torn_end b off r) key 16 (False, 0, zero_record_hdr) =
    Some (if b < 4 \<or> key \<noteq> fst r then acc
          else if rh_status (torn_hdr b r) = FW_NVS_STATUS_VALID then (True, off, torn_hdr b r) else (False, snd acc))"
proof -
  have r: "rec_ok r" and bank: "bank_holds (unat (fd_sector_size drv)) (cells f) (unat base) log"
    using torn by (simp_all add: torn_bank_def)
  note e = torn_end_unat [OF torn assms(3) off]
  have stop: "read_loop drv f base w key w acc = Some acc" for w acc by (subst read_loop.simps) simp
  have "16 + log_size log \<le> unat (torn_end b off r)"
    using e(1) off by (cases "b < 4") (simp_all add: torn_end_def [of b])
  then obtain acc where acc: "match_ok key log acc" "read_loop drv f base (torn_end b off r) key 16 (False, 0, zero_record_hdr) =
      read_loop drv f base (torn_end b off r) key off acc"
    using read_loop_prefix [OF assms(1-3), of "[]" log "torn_end b off r" 16 key "(False, 0, zero_record_hdr)"] bank
    by (auto simp: match_ok_def off [symmetric])
  show ?thesis
  proof (cases "b < 4")
    case True
    then show ?thesis using acc stop by (intro exI [of _ acc]) (simp add: torn_end_def)
  next
    case False
    then have b: "4 \<le> b" by simp
    obtain bs where bs: "flash_read drv f (base + off) 8 = (FW_OK, bs)" "record_hdr_of bs = torn_hdr b r"
      using read_torn_hdr [OF assms(1) torn assms(2) off] by blast
    have "off < torn_end b off r" using e(1) [OF b] off rec_size_ge [of r] by (simp add: word_less_nat_alt)
    moreover have "fst r \<noteq> FW_NVS_KEY_EMPTY" using r by (simp add: rec_ok_def)
    ultimately have "read_loop drv f base (torn_end b off r) key off acc =
        Some (if key \<noteq> fst r then acc else if rh_status (torn_hdr b r) = FW_NVS_STATUS_VALID
          then (True, off, torn_hdr b r) else (False, snd acc))"
      using bs stop e(2) [OF b] by (subst read_loop.simps) (simp add: Let_def torn_hdr_long(1) [OF b])
    then show ?thesis using acc b by (intro exI [of _ acc]) simp
  qed
qed

lemma read_torn_payload:
  assumes "ok f" and "unat base + unat (fd_sector_size drv) \<le> fsz"
    and torn: "torn_bank (unat (fd_sector_size drv)) (cells f) (unat base) log r b" and off: "unat off = 16 + log_size log"
  shows "flash_read drv f (base + off + 8) (length (rec_payload r)) = (FW_OK, torn_payload b r)"
proof -
  have le: "16 + log_size log + rec_size r \<le> unat (fd_sector_size drv)"
    and c: "cell_range (cells f) (unat base + (16 + log_size log)) (rec_size r) = torn b r"
    using torn by (simp_all add: torn_bank_def)
  have ge: "8 + length (rec_payload r) \<le> rec_size r" using round_up_ge [of "length (rec_payload r)" 2] by (simp add: rec_size_def)
  have "unat (base + off) = unat base + (16 + log_size log)"
    using le assms(2) off fsz_lt by (subst unat_add_nowrap) simp_all
  then have u: "unat (base + off + 8) = unat base + (16 + log_size log) + 8"
    using le ge assms(2) fsz_lt by (subst unat_add_nowrap) simp_all
  show ?thesis
    using read_law [OF assms(1), of "base + off + 8" "length (rec_payload r)"] le ge assms(2)
      cell_range_slice [OF ge, of "cells f" "unat base + (16 + log_size log)"] c
    by (simp add: u torn_payload_def)
qed

end

section \<open>The store after the reset\<close>

definition remounted :: "'f fw_nvs \<Rightarrow> nat \<Rightarrow> nv_rec \<Rightarrow> 'f fw_nvs" where
  "remounted n b r = n\<lparr>nv_write_offset := torn_end b (nv_write_offset n) r\<rparr>"

lemma remounted_simps [simp]:
  "nv_flash (remounted n b r) = nv_flash n" "nv_bank_addr0 (remounted n b r) = nv_bank_addr0 n"
  "nv_bank_addr1 (remounted n b r) = nv_bank_addr1 n" "nv_active_bank (remounted n b r) = nv_active_bank n"
  "nv_sequence (remounted n b r) = nv_sequence n" "nv_write_offset (remounted n b r) = torn_end b (nv_write_offset n) r"
  "bank_addr (remounted n b r) k = bank_addr n k" "nv_drv (remounted n b r) = nv_drv n"
  by (simp_all add: remounted_def bank_addr_def nv_drv_def)

lemma torn_store:
  assumes dev: "flash_device drv cells fsz ok" and rep: "nvs_rep drv cells fsz ok n f log" and r: "rec_ok r"
    and room: "16 + log_size log + rec_size r \<le> unat (fd_sector_size drv)" and f1: "ok f1"
      "cells f1 = cells_put (cells f) (unat (bank_addr n (nv_active_bank n)) + (16 + log_size log)) (take b (rec_bytes r))"
  shows "unat (fd_sector_size drv) \<le> 0xFF00 \<Longrightarrow>
      fw_nvs_init (Some n0) (Some drv) (nv_bank_addr0 n) (nv_bank_addr1 n) f1 = Some (FW_OK, Some (remounted n b r), f1)"
    and "b < 4 \<or> key \<noteq> fst r \<Longrightarrow> key \<noteq> FW_NVS_KEY_EMPTY \<Longrightarrow> span_data out \<noteq> FW_NULL \<Longrightarrow>
      fw_nvs_read m (Some (remounted n b r)) f1 key out len = Some (value_read m out len (log_lookup log key))"
    and "4 \<le> b \<Longrightarrow> rh_status (torn_hdr b r) \<noteq> FW_NVS_STATUS_VALID \<Longrightarrow>
      fw_nvs_read m (Some (remounted n b r)) f1 (fst r) out len = Some (value_read m out len None)"
    and "4 \<le> b \<Longrightarrow> rh_status (torn_hdr b r) = FW_NVS_STATUS_VALID \<Longrightarrow> span_data out \<noteq> FW_NULL \<Longrightarrow>
      fw_nvs_read m (Some (remounted n b r)) f1 (fst r) out len = Some (record_read m out len (torn_hdr b r) (torn_payload b r))"
proof -
  note d = nvs_repD [OF rep]
  note rd = device_reader [OF dev]
  let ?S = "unat (fd_sector_size drv)" and ?base = "bank_addr n (nv_active_bank n)"
  have rep': "banks_ok ?S fsz (unat (nv_bank_addr0 n)) (unat (nv_bank_addr1 n))" "nv_active_bank n = 0 \<or> nv_active_bank n = 1"
      "\<not> bank_valid (sector_hdr_of (cell_range (cells f) (unat (bank_addr n (1 - nv_active_bank n))) 16))"
    using rep by (simp_all add: nvs_rep_def)
  have torn: "torn_bank ?S (cells f1) (unat ?base) log r b"
    unfolding f1(2) by (rule torn_bank_put [OF d(5) r room])
  have other: "\<not> bank_valid (sector_hdr_of (cell_range (cells f1) (unat (bank_addr n (1 - nv_active_bank n))) 16))"
    using nvs_rep_other_bank [OF rep, of "take b (rec_bytes r)"] room rep'(3) by (simp add: f1(2))
  have act: "cell_range (cells f1) (unat ?base) 16 = cell_range (cells f) (unat ?base) 16"
    unfolding f1(2) by (rule cell_range_put_other) simp
  show "fw_nvs_init (Some n0) (Some drv) (nv_bank_addr0 n) (nv_bank_addr1 n) f1 = Some (FW_OK, Some (remounted n b r), f1)"
    if "?S \<le> 0xFF00"
    using fw_nvs_init_found [OF dev f1(1), of "remounted n b r" n0] d(1) rep'(1,2) other bank_is_valid [OF d(5)]
      flash_reader.scan_torn [OF rd f1(1) d(6,7) that torn d(4)]
    by (simp add: act)
  obtain acc where acc: "match_ok key log acc" "read_loop drv f1 ?base (torn_end b (nv_write_offset n) r) key 16 (False, 0, zero_record_hdr) =
      Some (if b < 4 \<or> key \<noteq> fst r then acc else if rh_status (torn_hdr b r) = FW_NVS_STATUS_VALID
        then (True, nv_write_offset n, torn_hdr b r) else (False, snd acc))"
    using flash_reader.read_loop_torn [OF rd f1(1) d(6,7) torn d(4)] by blast
  show "fw_nvs_read m (Some (remounted n b r)) f1 key out len = Some (value_read m out len (log_lookup log key))"
    if "b < 4 \<or> key \<noteq> fst r" "key \<noteq> FW_NVS_KEY_EMPTY" "span_data out \<noteq> FW_NULL"
    by (rule fw_nvs_read_holds [OF rd f1(1), of _ log key acc])
      (use that d(2,6) torn acc in \<open>auto simp: torn_bank_def\<close>)
  have key: "fst r \<noteq> FW_NVS_KEY_EMPTY" using r by (simp add: rec_ok_def)
  show "fw_nvs_read m (Some (remounted n b r)) f1 (fst r) out len = Some (value_read m out len None)"
    if "4 \<le> b" "rh_status (torn_hdr b r) \<noteq> FW_NVS_STATUS_VALID"
    using flash_reader.read_loop_torn [OF rd f1(1) d(6,7) torn d(4), of "fst r"] that d(2) key
    by (auto simp: fw_nvs_read_def Let_def value_read_def)
  show "fw_nvs_read m (Some (remounted n b r)) f1 (fst r) out len = Some (record_read m out len (torn_hdr b r) (torn_payload b r))"
    if b: "4 \<le> b" and v: "rh_status (torn_hdr b r) = FW_NVS_STATUS_VALID" and dst: "span_data out \<noteq> FW_NULL"
  proof (rule fw_nvs_read_match [OF _ _ dst])
    show "nv_drv (remounted n b r) = drv" using d(2) by simp
    show "fst r \<noteq> FW_NVS_KEY_EMPTY" by (rule key)
    obtain acc where "read_loop drv f1 ?base (torn_end b (nv_write_offset n) r) (fst r) 16 (False, 0, zero_record_hdr) =
        Some (True, nv_write_offset n, torn_hdr b r)"
      using flash_reader.read_loop_torn [OF rd f1(1) d(6,7) torn d(4), of "fst r"] b v by auto
    then show "read_loop drv f1 (bank_addr (remounted n b r) (nv_active_bank (remounted n b r)))
        (nv_write_offset (remounted n b r)) (fst r) 16 (False, 0, zero_record_hdr) = Some (True, nv_write_offset n, torn_hdr b r)"
      by simp
    show "rh_key (torn_hdr b r) = fst r" by (rule torn_hdr_long(1) [OF b])
    have len: "length (torn_payload b r) = length (rec_payload r)"
      using round_up_ge [of "length (rec_payload r)" 2] by (simp add: torn_payload_def rec_size_def)
    then show "length (torn_payload b r) = unat (rh_length (torn_hdr b r))"
      using rec_hdr_length [OF r] torn_hdr_long(2) [OF b, of r] by simp
    show "flash_read drv f1 (bank_addr (remounted n b r) (nv_active_bank (remounted n b r)) + nv_write_offset n + 8)
        (length (torn_payload b r)) = (FW_OK, torn_payload b r)"
      using flash_reader.read_torn_payload [OF rd f1(1) d(6) torn d(4)] by (simp add: len)
  qed
qed

section \<open>A write that loses power\<close>

lemma fw_nvs_write_cut:
  assumes dev: "flash_device drv cells fsz ok" and rep: "nvs_rep drv cells fsz ok n f log"
    and key: "key \<noteq> FW_NVS_KEY_EMPTY" and len: "unat (cspan_length d) < 2 ^ 16"
    and data: "cspan_data d \<noteq> FW_NULL \<or> cspan_length d = 0"
    and p: "p = mem_read m (cspan_data d) (unat (cspan_length d))"
    and room: "16 + log_size log + rec_size (key, Some p) \<le> unat (fd_sector_size drv)"
  shows "\<exists>n1 f1 b1. fw_nvs_write m (Some (under_power n)) (f, b) key d =
      Some (if rec_size (key, Some p) \<le> b then FW_OK else FW_ERR_IO, Some n1, f1, b1) \<and> ok f1
    \<and> cells f1 = cells_put (cells f) (unat (bank_addr n (nv_active_bank n)) + (16 + log_size log)) (take b (rec_bytes (key, Some p)))"
proof -
  let ?t = "8 + ALIGN_UP_4 (cspan_length d)"
  note W = write_numbers [OF len key p]
  have small: "\<not> 16 + ?t > fd_sector_size drv" using W(3) room by (simp add: word_less_nat_alt)
  have fits: "\<not> nv_write_offset n + ?t > fd_sector_size drv"
    using write_fits [OF rep flash_reader.fsz_lt [OF device_reader [OF dev]] W(4)] room by (simp add: W(2))
  obtain n1 f1 b1 where "write_record (under_power n) (f, b) key (span_payload m d) (cspan_length d) =
      (if rec_size (key, Some p) \<le> b then FW_OK else FW_ERR_IO, n1, f1, b1)" "ok f1"
      "cells f1 = cells_put (cells f) (unat (bank_addr n (nv_active_bank n)) + (16 + log_size log)) (take b (rec_bytes (key, Some p)))"
    using flash_device.write_record_cut [OF dev rep W(1) room W(5) W(6,7) [OF data]] by blast
  then show ?thesis
    using small fits key nvs_repD(1) [OF rep] by (simp add: fw_nvs_write_def Let_def fd_sector_size_power_cut)
qed

text \<open>A record whose last one or two payload bytes are missing is flagged: the checksum tells two consecutive
  bytes apart.\<close>

lemma record_read_torn_tail:
  assumes r: "rec_ok (key, Some p)" and b: "8 \<le> b" "6 + length p \<le> b" "b < 8 + length p"
    and tail: "drop (b - 8) p \<noteq> replicate (8 + length p - b) 0xFF"
  shows "fst (record_read m out len (torn_hdr b (key, Some p)) (torn_payload b (key, Some p)))
    \<in> {FW_ERR_BUFFER_OVERFLOW, FW_ERR_CORRUPTED}"
proof -
  let ?r = "(key, Some p)" and ?x = "take (b - 8) p" and ?ff = "replicate (8 + length p - b) (0xFF :: u8)"
  have pl: "rec_payload ?r = p" by (simp add: rec_payload_def)
  have hdr: "torn_hdr b ?r = rec_hdr ?r"
    using b(1) record_hdr_of_bytes [of "rec_hdr ?r"] rec_size_ge [of ?r]
    by (simp add: torn_hdr_def record_hdr_of_def torn_nth rec_bytes_hdr_nth)
  have q: "torn_payload b ?r = ?x @ ?ff"
    by (rule nth_equalityI)
      (use b round_up_ge [of "length p" 2] in
        \<open>auto simp: torn_payload_def pl rec_size_def torn_nth rec_bytes_def nth_append\<close>)
  have len: "unat (rh_length (rec_hdr ?r)) = length p" using rec_hdr_length [OF r] by (simp add: pl)
  have pos: "rh_length (rec_hdr ?r) > 0" using len b by (auto simp: word_gt_0)
  define c where "c = crc16_step 0xFFFF [ucast (key AND 0xFF), ucast (drop_bit 8 key AND 0xFF),
    ucast (rh_length (rec_hdr ?r) AND 0xFF), ucast (drop_bit 8 (rh_length (rec_hdr ?r)) AND 0xFF)]"
  have crc: "calc_record_crc key (rh_length (rec_hdr ?r)) (Some z) = crc16_step c z" if "length z = length p" for z
    using that pos len by (simp add: calc_record_crc_def c_def Let_def)
  have "length ?ff = length (drop (b - 8) p)" "length ?ff \<le> 2" using b by simp_all
  then have "crc16_step c (?x @ ?ff) \<noteq> crc16_step c p"
    using crc16_burst [of ?ff "drop (b - 8) p" c ?x "[]"] tail by auto
  moreover have "rh_crc16 (rec_hdr ?r) = calc_record_crc key (rh_length (rec_hdr ?r)) (Some p)"
    by (simp add: rec_hdr_def pl)
  moreover have "length (?x @ ?ff) = length p" using b by simp
  ultimately have "calc_record_crc key (rh_length (rec_hdr ?r)) (Some (?x @ ?ff)) \<noteq> rh_crc16 (rec_hdr ?r)"
    using crc [of p] crc [of "?x @ ?ff"] by simp
  then show ?thesis by (simp add: record_read_def hdr q)
qed

text \<open>C14: a write whose record fits the active bank (so that no compaction runs) in a sector of at most 0xFF00 bytes,
  and that loses power after any number of bytes, keeps the rest of the store: it reports the
  failure unless all bytes were written, the initialisation after the reset succeeds, and every other key reads
  as before.  The key reads the old value when fewer than four bytes were written and the new one when header and
  payload were.  In between (\<open>record_read\<close>) the old value is hidden behind the torn record: a buffer shorter than the new
  length is refused, else the bytes that are there, erased ones for the missing, are copied out with OK if the
  checksum in the header matches them and CORRUPTED if not; it never matches when only the
  last one or two payload bytes are missing and are not erased bytes themselves.\<close>

theorem nvs_write_survives_power_cut:
  assumes "flash_device drv cells fsz ok" and "nvs_rep drv cells fsz ok n f log"
    and "key \<noteq> FW_NVS_KEY_EMPTY" and "unat (cspan_length d) < 2 ^ 16"
    and "cspan_data d \<noteq> FW_NULL \<or> cspan_length d = 0"
    and "p = mem_read m (cspan_data d) (unat (cspan_length d))"
    and "16 + log_size log + rec_size (key, Some p) \<le> unat (fd_sector_size drv)"
    and "unat (fd_sector_size drv) \<le> 0xFF00"
  shows "\<exists>n1 f1 b1 n2. fw_nvs_write m (Some (under_power n)) (f, b) key d =
      Some (if rec_size (key, Some p) \<le> b then FW_OK else FW_ERR_IO, Some n1, f1, b1)
    \<and> fw_nvs_init (Some n0) (Some drv) (nv_bank_addr0 n) (nv_bank_addr1 n) f1 = Some (FW_OK, Some n2, f1)
    \<and> (\<forall>k m out len. k \<noteq> FW_NVS_KEY_EMPTY \<and> k \<noteq> key \<and> span_data out \<noteq> FW_NULL \<longrightarrow>
         fw_nvs_read m (Some n2) f1 k out len = Some (value_read m out len (log_lookup log k)))
    \<and> (\<forall>m out len. span_data out \<noteq> FW_NULL \<longrightarrow> fw_nvs_read m (Some n2) f1 key out len = Some
         (if b < 4 then value_read m out len (log_lookup log key)
          else if 8 + length p \<le> b then value_read m out len (Some p)
          else record_read m out len (torn_hdr b (key, Some p)) (torn_payload b (key, Some p))))
    \<and> (8 \<le> b \<and> 6 + length p \<le> b \<and> b < 8 + length p \<and> drop (b - 8) p \<noteq> replicate (8 + length p - b) 0xFF \<longrightarrow>
        (\<forall>m out len. span_data out \<noteq> FW_NULL \<longrightarrow>
           (\<exists>e m' len'. fw_nvs_read m (Some n2) f1 key out len = Some (e, m', len') \<and> e \<in> {FW_ERR_BUFFER_OVERFLOW, FW_ERR_CORRUPTED})))"
proof -
  let ?r = "(key, Some p)"
  note r = write_numbers(1) [OF assms(4,3,6)]
  have pl: "rec_payload ?r = p" by (simp add: rec_payload_def)
  obtain n1 f1 b1 where w: "fw_nvs_write m (Some (under_power n)) (f, b) key d =
      Some (if rec_size ?r \<le> b then FW_OK else FW_ERR_IO, Some n1, f1, b1)" and f1: "ok f1"
      "cells f1 = cells_put (cells f) (unat (bank_addr n (nv_active_bank n)) + (16 + log_size log)) (take b (rec_bytes ?r))"
    using fw_nvs_write_cut [OF assms(1-7)] by blast
  note t = torn_store [OF assms(1,2) r assms(7) f1]
  have new: "fw_nvs_read m (Some (remounted n b ?r)) f1 key out len = Some (value_read m out len (Some p))"
    if "4 \<le> b" "8 + length p \<le> b" "span_data out \<noteq> FW_NULL" for m out len
    using t(4) [OF that(1) torn_hdr_long(3) [OF that(1)] that(3)] torn_full [of ?r b] that(2) record_read_rec [OF r]
    by (simp add: pl)
  have tail: "\<exists>e m' len'. fw_nvs_read m (Some (remounted n b ?r)) f1 key out len = Some (e, m', len')
      \<and> e \<in> {FW_ERR_BUFFER_OVERFLOW, FW_ERR_CORRUPTED}"
    if "8 \<le> b" "6 + length p \<le> b" "b < 8 + length p" "drop (b - 8) p \<noteq> replicate (8 + length p - b) 0xFF"
      "span_data out \<noteq> FW_NULL" for m out len
    using t(4) [of out m len] record_read_torn_tail [OF r that(1-4), of m out len] that(1,5) torn_hdr_long(3) [of b ?r]
    by (cases "record_read m out len (torn_hdr b ?r) (torn_payload b ?r)") auto
  have torn: "fw_nvs_read m (Some (remounted n b ?r)) f1 key out len = Some
      (if b < 4 then value_read m out len (log_lookup log key)
       else if 8 + length p \<le> b then value_read m out len (Some p)
       else record_read m out len (torn_hdr b ?r) (torn_payload b ?r))" if "span_data out \<noteq> FW_NULL" for m out len
    using that t(2) [of key out] new [of out m len] t(4) [of out m len] assms(3) torn_hdr_long(3) [of b ?r] by (simp add: not_less)
  show ?thesis
    by (rule exI [of _ n1], rule exI [of _ f1], rule exI [of _ b1], rule exI [of _ "remounted n b ?r"])
      (use w t(1) [OF assms(8)] t(2) tail torn in simp)
qed

theorem nvs_write_survives_power_cut_witness:
  "\<exists>n1 f1 b1 n2. fw_nvs_write (\<lambda>_. 7) (Some (under_power mock_nvs1)) (mock_store1, 3) 5 \<lparr>cspan_data = 64, cspan_length = 2\<rparr>
      = Some (FW_ERR_IO, Some n1, f1, b1)
    \<and> fw_nvs_init (Some mock_nvs) (Some s_mock_flash) 0 512 f1 = Some (FW_OK, Some n2, f1)
    \<and> fw_nvs_read (\<lambda>_. 0) (Some n2) f1 3 \<lparr>span_data = 64, span_length = 5\<rparr> (Some 9)
        = Some (FW_OK, mem_write (\<lambda>_. 0) 64 [7, 7], Some 2)
    \<and> fw_nvs_read (\<lambda>_. 0) (Some n2) f1 5 \<lparr>span_data = 64, span_length = 5\<rparr> (Some 9) = Some (FW_ERR_NOT_FOUND, \<lambda>_. 0, Some 9)"
proof -
  have sz: "rec_size (3, Some [7, 7]) = 12" "rec_size (5, Some [7, 7]) = 12"
    by (simp_all add: rec_size_def rec_payload_def round_up_def)
  have a: "nv_bank_addr0 mock_nvs1 = 0" "nv_bank_addr1 mock_nvs1 = 512" "fd_sector_size s_mock_flash = 512"
    by (simp_all add: mock_nvs1_def mock_nvs_def s_mock_flash_def TEST_SECTOR_SIZE_def)
  show ?thesis
    using nvs_write_survives_power_cut [OF mock.flash_device_axioms mock_store1_rep, of 5 "\<lparr>cspan_data = 64, cspan_length = 2\<rparr>"
        "[7, 7]" "\<lambda>_. 7" 3 mock_nvs]
    by (simp add: sz a FW_NVS_KEY_EMPTY_def mem_read_def upt_rec value_read_def) (elim exE conjE, intro exI conjI; force)
qed

section \<open>A delete that loses power\<close>

lemma tomb_bytes: "rec_bytes (key, None) = record_hdr_bytes (rec_hdr (key, None))" "rec_size (key, None) = 8"
  by (simp_all add: rec_bytes_def rec_size_def rec_payload_def round_up_def)

lemma torn_tomb_status:
  "4 \<le> b \<Longrightarrow> rh_status (torn_hdr b (key, None)) = FW_NVS_STATUS_VALID \<longleftrightarrow> b < 7"
proof -
  have "of_le16 0 0xFF \<noteq> 0xFFFF" "of_le16 0 0 \<noteq> 0xFFFF" by (simp_all add: of_le16_def)
  moreover have "rec_bytes (key, None) ! 6 = 0" "rec_bytes (key, None) ! 7 = 0"
    by (simp_all add: tomb_bytes record_hdr_bytes_def le16_def rec_hdr_def FW_NVS_STATUS_DEAD_def)
  ultimately show ?thesis
    by (auto simp: torn_hdr_def record_hdr_of_def torn_nth tomb_bytes(2) FW_NVS_STATUS_VALID_def of_le16_ones)
qed

lemma torn_tomb_crc: "6 \<le> b \<Longrightarrow> rh_crc16 (torn_hdr b (key, None)) = rh_crc16 (rec_hdr (key, None))"
  using record_hdr_of_bytes [of "rec_hdr (key, None)"] rec_bytes_hdr_nth [of _ "(key, None)"]
  by (simp add: torn_hdr_def record_hdr_of_def torn_nth tomb_bytes(2) del: record_hdr_of_bytes)
    (metis fw_nvs_record_hdr.select_convs(3))

lemma torn_tomb_payload [simp]: "torn_payload b (key, None) = []"
  by (simp add: torn_payload_def rec_payload_def)

text \<open>Six bytes of a tombstone are the header of a valid record without payload.\<close>

lemma torn_tomb_empty_value:
  "record_read m out len (torn_hdr 6 (key, None)) [] = value_read m out len (Some [])"
  by (simp add: record_read_def value_read_def torn_hdr_long torn_tomb_crc rec_hdr_def rec_payload_def)

lemma fw_nvs_read_under_power:
  assumes "flash_device drv cells fsz ok" and "nvs_rep drv cells fsz ok n f log"
    and "key \<noteq> FW_NVS_KEY_EMPTY" and "span_data out \<noteq> FW_NULL"
  shows "fw_nvs_read m (Some (under_power n)) (f, b) key out len = Some (value_read m out len (log_lookup log key))"
proof -
  note d = nvs_repD [OF assms(2)]
  note rd = flash_device.power_cut_reader [OF assms(1)]
  have bank: "bank_holds (unat (fd_sector_size (power_cut drv))) (cells (fst (f, b))) (unat (bank_addr n (nv_active_bank n))) log"
    using bank_is_holds [OF d(5)] by (simp add: fd_sector_size_power_cut)
  obtain acc where "read_loop (power_cut drv) (f, b) (bank_addr n (nv_active_bank n)) (nv_write_offset n) key 16
      (False, 0, zero_record_hdr) = Some acc" "match_ok key log acc"
    using flash_reader.read_loop_holds [OF rd _ _ _ bank d(4), of key] d(3,6,7) by (auto simp: fd_sector_size_power_cut)
  then show ?thesis
    using fw_nvs_read_holds [OF rd, of "(f, b)" "under_power n" log key acc out] bank d(1,3,6) assms(3,4)
    by (simp add: fd_sector_size_power_cut)
qed

lemma fw_nvs_delete_cut:
  assumes dev: "flash_device drv cells fsz ok" and rep: "nvs_rep drv cells fsz ok n f log"
    and key: "key \<noteq> FW_NVS_KEY_EMPTY" and has: "log_lookup log key \<noteq> None"
    and room: "16 + log_size log + 8 \<le> unat (fd_sector_size drv)"
  shows "\<exists>n1 f1 b1. fw_nvs_delete (Some (under_power n)) (f, b) key =
      Some (if 8 \<le> b then FW_OK else FW_ERR_IO, Some n1, f1, b1) \<and> ok f1
    \<and> cells f1 = cells_put (cells f) (unat (bank_addr n (nv_active_bank n)) + (16 + log_size log)) (take b (rec_bytes (key, None)))"
proof -
  let ?r = "(key, None) :: nv_rec" and ?a = "bank_addr n (nv_active_bank n) + nv_write_offset n"
  note d = nvs_repD [OF rep]
  let ?h = "\<lparr>rh_key = key, rh_length = 0, rh_crc16 = calc_record_crc key 0 None, rh_status = FW_NVS_STATUS_DEAD\<rparr>"
  have hdr: "record_hdr_bytes ?h = rec_bytes ?r"
    by (simp add: tomb_bytes rec_hdr_def rec_payload_def calc_record_crc_def)
  have a: "unat ?a = unat (bank_addr n (nv_active_bank n)) + (16 + log_size log)"
    using d(4,6) room flash_reader.fsz_lt [OF device_reader [OF dev]] by (subst unat_add_nowrap) simp_all
  have erased: "\<And>k. unat ?a \<le> k \<Longrightarrow> k < unat ?a + 8 \<Longrightarrow> cells f k = 0xFF"
    using d(5) room by (simp add: a bank_is_def)
  obtain f1 where f1: "flash_write (power_cut drv) (f, b) ?a (rec_bytes ?r) = (if 8 \<le> b then FW_OK else FW_ERR_IO, f1, b - 8)"
      "ok f1" "cells f1 = cells_put (cells f) (unat ?a) (take b (rec_bytes ?r))"
    using flash_device.power_cut_write [OF dev d(3), of ?a "rec_bytes ?r" "unat ?a + 8" b] erased d(6) room
    by (auto simp: a tomb_bytes(2))
  have fits: "\<not> nv_write_offset n + 8 > fd_sector_size drv"
    using write_fits [OF rep flash_reader.fsz_lt [OF device_reader [OF dev]], of 8] room by simp
  obtain st m' l where "fw_nvs_read (\<lambda>_. 0) (Some (under_power n)) (f, b) key \<lparr>span_data = 1, span_length = 1\<rparr> (Some 0) = Some (st, m', l)"
      "st \<noteq> FW_ERR_NOT_FOUND"
    using fw_nvs_read_under_power [OF dev rep key, of "\<lparr>span_data = 1, span_length = 1\<rparr>" "\<lambda>_. 0" b "Some 0"] has
    by (auto simp: value_read_def split: if_splits)
  then show ?thesis
    using f1 fits key d(1) by (simp add: fw_nvs_delete_def Let_def fd_sector_size_power_cut hdr a)
qed

text \<open>C16: a delete of a key that is there, whose tombstone fits the active bank (so that no compaction runs)
  in a sector of at most 0xFF00 bytes, and that loses power, keeps every other key; the key reads its old value
  when fewer than four bytes of the tombstone were written and is gone when at least seven were, but in
  between the header has the key, length zero and still the status of a valid record: with exactly six
  bytes written the checksum matches too, and the key reads as present with an empty value, neither
  deleted nor kept; with four or five the checksum decides.\<close>

theorem nvs_delete_under_power_cut:
  assumes "flash_device drv cells fsz ok" and "nvs_rep drv cells fsz ok n f log"
    and "key \<noteq> FW_NVS_KEY_EMPTY" and "log_lookup log key \<noteq> None"
    and "16 + log_size log + 8 \<le> unat (fd_sector_size drv)" and "unat (fd_sector_size drv) \<le> 0xFF00"
  shows "\<exists>n1 f1 b1 n2. fw_nvs_delete (Some (under_power n)) (f, b) key =
      Some (if 8 \<le> b then FW_OK else FW_ERR_IO, Some n1, f1, b1)
    \<and> fw_nvs_init (Some n0) (Some drv) (nv_bank_addr0 n) (nv_bank_addr1 n) f1 = Some (FW_OK, Some n2, f1)
    \<and> (\<forall>k m out len. k \<noteq> FW_NVS_KEY_EMPTY \<and> k \<noteq> key \<and> span_data out \<noteq> FW_NULL \<longrightarrow>
         fw_nvs_read m (Some n2) f1 k out len = Some (value_read m out len (log_lookup log k)))
    \<and> (\<forall>m out len. span_data out \<noteq> FW_NULL \<longrightarrow> fw_nvs_read m (Some n2) f1 key out len = Some
         (if b < 4 then value_read m out len (log_lookup log key)
          else if 7 \<le> b then value_read m out len None
          else if b = 6 then value_read m out len (Some [])
          else record_read m out len (torn_hdr b (key, None)) []))"
proof -
  let ?r = "(key, None) :: nv_rec"
  have r: "rec_ok ?r" using assms(3) by (simp add: rec_ok_def rec_payload_def)
  have room: "16 + log_size log + rec_size ?r \<le> unat (fd_sector_size drv)" using assms(5) by (simp add: tomb_bytes)
  obtain n1 f1 b1 where w: "fw_nvs_delete (Some (under_power n)) (f, b) key =
      Some (if 8 \<le> b then FW_OK else FW_ERR_IO, Some n1, f1, b1)" and f1: "ok f1"
      "cells f1 = cells_put (cells f) (unat (bank_addr n (nv_active_bank n)) + (16 + log_size log)) (take b (rec_bytes ?r))"
    using fw_nvs_delete_cut [OF assms(1-5)] by blast
  note t = torn_store [OF assms(1,2) r room f1]
  have del: "fw_nvs_read m (Some (remounted n b ?r)) f1 key out len = Some
      (if b < 4 then value_read m out len (log_lookup log key)
       else if 7 \<le> b then value_read m out len None
       else if b = 6 then value_read m out len (Some []) else record_read m out len (torn_hdr b ?r) [])"
    if "span_data out \<noteq> FW_NULL" for m out len
    using t(2) [of key out] t(3) t(4) [of out] that assms(3) torn_tomb_status [of b key] torn_tomb_empty_value
    by (cases "b < 4"; cases "7 \<le> b"; cases "b = 6") (simp_all add: not_less)
  show ?thesis
    by (rule exI [of _ n1], rule exI [of _ f1], rule exI [of _ b1], rule exI [of _ "remounted n b ?r"])
      (use w t(1) [OF assms(6)] t(2) del in simp)
qed

theorem nvs_delete_under_power_cut_witness:
  "\<exists>n1 f1 b1 n2. fw_nvs_delete (Some (under_power mock_nvs1)) (mock_store1, 6) 3 = Some (FW_ERR_IO, Some n1, f1, b1)
    \<and> fw_nvs_init (Some mock_nvs) (Some s_mock_flash) 0 512 f1 = Some (FW_OK, Some n2, f1)
    \<and> fw_nvs_read (\<lambda>_. 0) (Some n2) f1 3 \<lparr>span_data = 64, span_length = 5\<rparr> (Some 9) = Some (FW_OK, \<lambda>_. 0, Some 0)"
proof -
  have a: "nv_bank_addr0 mock_nvs1 = 0" "nv_bank_addr1 mock_nvs1 = 512" "fd_sector_size s_mock_flash = 512"
      "rec_size (3, Some [7, 7]) = 12"
    by (simp_all add: mock_nvs1_def mock_nvs_def s_mock_flash_def TEST_SECTOR_SIZE_def rec_size_def rec_payload_def round_up_def)
  obtain n1 f1 b1 n2 where w: "fw_nvs_delete (Some (under_power mock_nvs1)) (mock_store1, 6) 3 = Some (FW_ERR_IO, Some n1, f1, b1)"
      "fw_nvs_init (Some mock_nvs) (Some s_mock_flash) 0 512 f1 = Some (FW_OK, Some n2, f1)"
      "\<And>m out len. span_data out \<noteq> FW_NULL \<Longrightarrow> fw_nvs_read m (Some n2) f1 3 out len = Some (value_read m out len (Some []))"
    using nvs_delete_under_power_cut [OF mock.flash_device_axioms mock_store1_rep, of 3 6 mock_nvs]
    by (auto simp: a FW_NVS_KEY_EMPTY_def)
  show ?thesis
    by (rule exI [of _ n1], rule exI [of _ f1], rule exI [of _ b1], rule exI [of _ n2])
      (use w in \<open>simp add: value_read_def mem_write_def\<close>)
qed

section \<open>What a torn header does to later writes\<close>

context nor_device
begin

lemma write_all_program:
  assumes "ok f" and "programmable (cells f) (unat a) (concat bss)" and "unat a + length (concat bss) \<le> fsz"
  shows "\<exists>f'. write_all drv f a bss = (FW_OK, f') \<and> ok f' \<and> cells f' = cells_put (cells f) (unat a) (concat bss)"
  using assms
proof (induction bss arbitrary: f a)
  case (Cons bs bss)
  have p: "programmable (cells f) (unat a) bs" "programmable (cells f) (unat a + length bs) (concat bss)"
    using Cons.prems(2) by (simp_all add: programmable_append)
  obtain f1 where f1: "flash_write drv f a bs = (FW_OK, f1)" "ok f1" "cells f1 = cells_put (cells f) (unat a) bs"
    using program_law [OF Cons.prems(1), of a bs] p(1) Cons.prems(3) by auto
  have a: "unat (a + of_nat (length bs)) = unat a + length bs"
    using Cons.prems(3) fsz_lt by (intro unat_add_of_nat) simp
  have "programmable (cells f1) (unat a + length bs) (concat bss)"
    using p(2) programmable_cong [of "unat a + length bs" "concat bss" "cells f1" "cells f"]
    by (simp add: f1(3) cells_put_def)
  then obtain f' where "write_all drv f1 (a + of_nat (length bs)) bss = (FW_OK, f')" "ok f'"
      "cells f' = cells_put (cells f1) (unat a + length bs) (concat bss)"
    using Cons.IH [OF f1(2), of "a + of_nat (length bs)"] Cons.prems(3) a by auto
  with f1 Cons.IH [OF Cons.prems(1), of a] Cons.prems show ?case by (cases "bs = []") (simp_all add: cells_put_append)
qed simp

text \<open>A record over the first bytes of another one: it goes through exactly when its header only clears bits of them.\<close>

lemma write_record_over:
  assumes rep: "nvs_rep drv cells fsz ok n f log" and r: "rec_ok (key, Some p)"
    and room: "16 + log_size log + rec_size (key, Some p) \<le> unat (fd_sector_size drv)"
    and len: "unat len = length p" and payload: "p \<noteq> [] \<Longrightarrow> payload = Some p" "payload = None \<or> payload = Some p"
    and f1: "ok f1" "cells f1 = cells_put (cells f) (unat (bank_addr n (nv_active_bank n)) + (16 + log_size log)) tb"
    and tb: "length tb \<le> 8"
  shows "if \<forall>i<length tb. tb ! i AND rec_bytes (key, Some p) ! i = rec_bytes (key, Some p) ! i
    then \<exists>n' f'. write_record n f1 key payload len = (FW_OK, n', f') \<and> nvs_rep drv cells fsz ok n' f' (log @ [(key, Some p)])
    else \<exists>st f'. write_record n f1 key payload len = (st, n, f') \<and> st \<noteq> FW_OK"
proof -
  let ?r = "(key, Some p)" and ?addr = "bank_addr n (nv_active_bank n) + nv_write_offset n"
  let ?admits = "\<forall>i<length tb. tb ! i AND rec_bytes ?r ! i = rec_bytes ?r ! i"
  note d = nvs_repD [OF rep]
  note wr = write_record_parts [OF r len payload, of n f1]
  have addr: "unat ?addr = unat (bank_addr n (nv_active_bank n)) + (16 + log_size log)"
    using d(4,6) room fsz_lt by (subst unat_add_nowrap) simp_all
  have tr: "length tb \<le> rec_size ?r" using tb rec_size_ge [of ?r] by simp
  have cell: "cells f1 (unat ?addr + i) = (if i < length tb then tb ! i else 0xFF)" if "i < rec_size ?r" for i
    using that d(5) room by (auto simp: f1(2) addr cells_put_def bank_is_def)
  have prog: "programmable (cells f1) (unat ?addr) bs \<longleftrightarrow> ?admits"
    if "bs = take k (rec_bytes ?r)" "length tb \<le> k" for bs k
    using that tr cell by (auto simp: programmable_def and_ones_u8)
  have bound: "unat ?addr + rec_size ?r \<le> fsz" using d(6) room by (simp add: addr)
  show ?thesis
  proof (cases ?admits)
    case True
    have "programmable (cells f1) (unat ?addr) (rec_bytes ?r)" using prog [of _ "rec_size ?r"] tr True by simp
    then obtain f' where f': "write_all drv f1 ?addr (rec_parts ?r) = (FW_OK, f')" "ok f'"
        "cells f' = cells_put (cells f1) (unat ?addr) (rec_bytes ?r)"
      using write_all_program [OF f1(1), of ?addr "rec_parts ?r"] bound by auto
    have "cells f' = cells_put (cells f) (unat (bank_addr n (nv_active_bank n)) + (16 + log_size log)) (rec_bytes ?r)"
      using tr by (auto simp: f'(3) f1(2) addr cells_put_def fun_eq_iff)
    moreover have p: "length p < 2 ^ 16" using r by (simp add: rec_ok_def rec_payload_def)
    then have "unat (8 + ALIGN_UP_4 len) = rec_size ?r"
      using round_up_less [of 2 "length p"] len
      by (subst unat_add_nowrap) (simp_all add: unat_ALIGN_UP_4 rec_size_def rec_payload_def)
    ultimately have "nvs_rep drv cells fsz ok (n\<lparr>nv_write_offset := nv_write_offset n + (8 + ALIGN_UP_4 len)\<rparr>) f' (log @ [?r])"
      using append_rep [OF rep r room f'(2)] by simp
    then show ?thesis using True f'(1) d(2) wr by simp
  next
    case False
    let ?h = "record_hdr_bytes (rec_hdr ?r)"
    have "\<not> programmable (cells f1) (unat ?addr) ?h" using prog [OF take_rec_bytes [symmetric] tb] False by blast
    moreover have "unat ?addr + length ?h \<le> fsz" using bound rec_size_ge [of ?r] by simp
    ultimately obtain st f' where "flash_write drv f1 ?addr ?h = (st, f')" "st \<noteq> FW_OK"
      using program_law [OF f1(1), of ?addr ?h] by auto
    moreover have "?h \<noteq> []" by (metis length_hdr_bytes(1) list.size(3) zero_neq_numeral)
    ultimately have "write_all drv f1 ?addr (rec_parts ?r) = (st, f')" by (simp add: rec_parts_def)
    then show ?thesis using False \<open>st \<noteq> FW_OK\<close> d(2) wr by auto
  qed
qed

end

lemma fw_nvs_write_over:
  assumes dev: "nor_device drv cells fsz ok" and rep: "nvs_rep drv cells fsz ok n f log"
    and key: "key \<noteq> FW_NVS_KEY_EMPTY" and len: "unat (cspan_length d) < 2 ^ 16"
    and data: "cspan_data d \<noteq> FW_NULL \<or> cspan_length d = 0"
    and p: "p = mem_read m (cspan_data d) (unat (cspan_length d))"
    and room: "16 + log_size log + rec_size (key, Some p) \<le> unat (fd_sector_size drv)"
    and f1: "ok f1" "cells f1 = cells_put (cells f) (unat (bank_addr n (nv_active_bank n)) + (16 + log_size log)) tb"
    and tb: "length tb \<le> 8"
  shows "if \<forall>i<length tb. tb ! i AND rec_bytes (key, Some p) ! i = rec_bytes (key, Some p) ! i
    then \<exists>n' f'. fw_nvs_write m (Some n) f1 key d = Some (FW_OK, Some n', f')
      \<and> nvs_rep drv cells fsz ok n' f' (log @ [(key, Some p)])
    else \<exists>st f'. fw_nvs_write m (Some n) f1 key d = Some (st, Some n, f') \<and> st \<noteq> FW_OK"
proof -
  let ?t = "8 + ALIGN_UP_4 (cspan_length d)"
  note W = write_numbers [OF len key p]
  have small: "\<not> 16 + ?t > fd_sector_size drv" using W(3) room by (simp add: word_less_nat_alt)
  have fits: "\<not> nv_write_offset n + ?t > fd_sector_size drv"
    using write_fits [OF rep flash_reader.fsz_lt [OF device_reader [OF nor_flash [OF dev]]] W(4)] room by (simp add: W(2))
  have "fw_nvs_write m (Some n) f1 key d =
      (case write_record n f1 key (span_payload m d) (cspan_length d) of (st, n2, f2) \<Rightarrow> Some (st, Some n2, f2))"
    using small fits key nvs_repD(2) [OF rep] by (simp add: fw_nvs_write_def Let_def)
  moreover define admits where
    "admits \<longleftrightarrow> (\<forall>i<length tb. tb ! i AND rec_bytes (key, Some p) ! i = rec_bytes (key, Some p) ! i)"
  ultimately show ?thesis
    using nor_device.write_record_over [OF dev rep W(1) room W(5) W(6,7) [OF data] f1 tb]
    unfolding admits_def [symmetric] by (cases admits) force+
qed

text \<open>C17: on any device that fails a write which would set a bit, fewer than four bytes of a header, left by
  a write that lost power, stay where the initialisation puts the write offset, since the scan stops at them.
  The next write that fits the bank goes through exactly when its record only clears bits of those bytes,
  and then the store is as if power had not failed: a retry of the same key and value does; with one byte
  left the low byte of the key decides, with two the key, with three the low byte of the length too.  Every
  other write fails, with the write offset where it was.  The interrupted write fits the active bank, so it runs no
  compaction, and a sector is at most 0xFF00 bytes.\<close>

theorem nvs_torn_header_blocks_writes:
  assumes "nor_device drv cells fsz ok" and "nvs_rep drv cells fsz ok n f log"
    and "key \<noteq> FW_NVS_KEY_EMPTY" and "unat (cspan_length d) < 2 ^ 16"
    and "cspan_data d \<noteq> FW_NULL \<or> cspan_length d = 0"
    and "p = mem_read m (cspan_data d) (unat (cspan_length d))"
    and "16 + log_size log + rec_size (key, Some p) \<le> unat (fd_sector_size drv)"
    and "unat (fd_sector_size drv) \<le> 0xFF00" and "b < 4"
  shows "\<exists>n1 f1 b1. fw_nvs_write m (Some (under_power n)) (f, b) key d = Some (FW_ERR_IO, Some n1, f1, b1)
    \<and> fw_nvs_init (Some n0) (Some drv) (nv_bank_addr0 n) (nv_bank_addr1 n) f1 = Some (FW_OK, Some n, f1)
    \<and> (\<forall>m' key' d' p'. key' \<noteq> FW_NVS_KEY_EMPTY \<and> unat (cspan_length d') < 2 ^ 16
         \<and> (cspan_data d' \<noteq> FW_NULL \<or> cspan_length d' = 0)
         \<and> p' = mem_read m' (cspan_data d') (unat (cspan_length d'))
         \<and> 16 + log_size log + rec_size (key', Some p') \<le> unat (fd_sector_size drv) \<longrightarrow>
         (if \<forall>i<b. rec_bytes (key, Some p) ! i AND rec_bytes (key', Some p') ! i = rec_bytes (key', Some p') ! i
          then \<exists>n2 f2. fw_nvs_write m' (Some n) f1 key' d' = Some (FW_OK, Some n2, f2)
            \<and> nvs_rep drv cells fsz ok n2 f2 (log @ [(key', Some p')])
          else \<exists>st f2. fw_nvs_write m' (Some n) f1 key' d' = Some (st, Some n, f2) \<and> st \<noteq> FW_OK))"
proof -
  let ?r = "(key, Some p)" and ?tb = "take b (rec_bytes (key, Some p))"
  note dev = nor_flash [OF assms(1)]
  note r = write_numbers(1) [OF assms(4,3,6)]
  have b: "\<not> rec_size ?r \<le> b" using assms(9) rec_size_ge [of ?r] by simp
  obtain n1 f1 b1 where w: "fw_nvs_write m (Some (under_power n)) (f, b) key d = Some (FW_ERR_IO, Some n1, f1, b1)" and f1: "ok f1"
      "cells f1 = cells_put (cells f) (unat (bank_addr n (nv_active_bank n)) + (16 + log_size log)) ?tb"
    using fw_nvs_write_cut [OF dev assms(2-7), of b] b by auto
  have "remounted n b ?r = n" using assms(9) by (simp add: remounted_def torn_end_def)
  then have init: "fw_nvs_init (Some n0) (Some drv) (nv_bank_addr0 n) (nv_bank_addr1 n) f1 = Some (FW_OK, Some n, f1)"
    using torn_store(1) [OF dev assms(2) r assms(7) f1 assms(8), of n0] by simp
  have len: "length ?tb = b" "length ?tb \<le> 8" using b assms(9) by simp_all
  have tb: "(\<forall>i<length ?tb. ?tb ! i AND x i = x i) \<longleftrightarrow> (\<forall>i<b. rec_bytes ?r ! i AND x i = x i)" for x
    using len(1) by simp
  have later: "if \<forall>i<b. rec_bytes ?r ! i AND rec_bytes (key', Some p') ! i = rec_bytes (key', Some p') ! i
      then \<exists>n2 f2. fw_nvs_write m' (Some n) f1 key' d' = Some (FW_OK, Some n2, f2)
        \<and> nvs_rep drv cells fsz ok n2 f2 (log @ [(key', Some p')])
      else \<exists>st f2. fw_nvs_write m' (Some n) f1 key' d' = Some (st, Some n, f2) \<and> st \<noteq> FW_OK"
    if "key' \<noteq> FW_NVS_KEY_EMPTY" "unat (cspan_length d') < 2 ^ 16" "cspan_data d' \<noteq> FW_NULL \<or> cspan_length d' = 0"
      "p' = mem_read m' (cspan_data d') (unat (cspan_length d'))"
      "16 + log_size log + rec_size (key', Some p') \<le> unat (fd_sector_size drv)" for m' key' d' p'
    using fw_nvs_write_over [OF assms(1,2) that f1 len(2)] unfolding tb .
  show ?thesis
    by (intro exI [of _ n1] exI [of _ f1] exI [of _ b1]) (use w init later in blast)
qed

text \<open>After two bytes of a header with key 5, key 2 cannot be written, but the interrupted write can be repeated.\<close>

theorem nvs_torn_header_blocks_writes_witness:
  "\<exists>n1 f1 b1 st f2 n3 f3. fw_nvs_write (\<lambda>_. 7) (Some (under_power mock_nvs1)) (mock_store1, 2) 5 \<lparr>cspan_data = 64, cspan_length = 2\<rparr>
      = Some (FW_ERR_IO, Some n1, f1, b1)
    \<and> fw_nvs_write (\<lambda>_. 1) (Some mock_nvs1) f1 2 \<lparr>cspan_data = 64, cspan_length = 1\<rparr> = Some (st, Some mock_nvs1, f2) \<and> st \<noteq> FW_OK
    \<and> fw_nvs_write (\<lambda>_. 7) (Some mock_nvs1) f1 5 \<lparr>cspan_data = 64, cspan_length = 2\<rparr> = Some (FW_OK, Some n3, f3)"
proof -
  let ?d = "\<lparr>cspan_data = 64, cspan_length = 2\<rparr>" and ?d1 = "\<lparr>cspan_data = 64, cspan_length = 1\<rparr>"
  have sz: "rec_size (3, Some [7, 7]) = 12" "rec_size (5, Some [7, 7]) = 12" "rec_size (2, Some [1]) = 12"
    by (simp_all add: rec_size_def rec_payload_def round_up_def)
  have S: "unat (fd_sector_size s_mock_flash) = 512" by (simp add: s_mock_flash_def TEST_SECTOR_SIZE_def)
  have rd: "[7, 7] = mem_read (\<lambda>_. 7) (cspan_data ?d) (unat (cspan_length ?d))"
      "[1] = mem_read (\<lambda>_. 1) (cspan_data ?d1) (unat (cspan_length ?d1))"
    by (simp_all add: mem_read_def upt_rec)
  have len: "unat (cspan_length ?d) < 2 ^ 16" "unat (cspan_length ?d1) < 2 ^ 16" by simp_all
  have key: "(5 :: u16) \<noteq> FW_NVS_KEY_EMPTY" "(2 :: u16) \<noteq> FW_NVS_KEY_EMPTY" by (simp_all add: FW_NVS_KEY_EMPTY_def)
  have bytes: "rec_bytes (5, Some [7, 7]) ! 0 = 5" "rec_bytes (5, Some [7, 7]) ! 1 = 0" "rec_bytes (2, Some [1]) ! 0 = 2"
    by (simp_all add: rec_bytes_def record_hdr_bytes_def le16_def rec_hdr_def)
  have two: "(\<forall>i<2. P i) \<longleftrightarrow> P 0 \<and> P (1 :: nat)" for P by (auto simp: less_2_cases_iff)
  obtain n1 f1 b1 where w: "fw_nvs_write (\<lambda>_. 7) (Some (under_power mock_nvs1)) (mock_store1, 2) 5 ?d = Some (FW_ERR_IO, Some n1, f1, b1)"
    and later: "\<And>m' key' d' p'. key' \<noteq> FW_NVS_KEY_EMPTY \<Longrightarrow> unat (cspan_length d') < 2 ^ 16 \<Longrightarrow>
        cspan_data d' \<noteq> FW_NULL \<or> cspan_length d' = 0 \<Longrightarrow> p' = mem_read m' (cspan_data d') (unat (cspan_length d')) \<Longrightarrow>
        28 + rec_size (key', Some p') \<le> 512 \<Longrightarrow>
        (if \<forall>i<2. rec_bytes (5, Some [7, 7]) ! i AND rec_bytes (key', Some p') ! i = rec_bytes (key', Some p') ! i
         then \<exists>n2 f2. fw_nvs_write m' (Some mock_nvs1) f1 key' d' = Some (FW_OK, Some n2, f2)
           \<and> nvs_rep s_mock_flash mock_cells 1024 mock_ok n2 f2 ([(3, Some [7, 7])] @ [(key', Some p')])
         else \<exists>st f2. fw_nvs_write m' (Some mock_nvs1) f1 key' d' = Some (st, Some mock_nvs1, f2) \<and> st \<noteq> FW_OK)"
    using nvs_torn_header_blocks_writes [OF mock_nor.nor_device_axioms mock_store1_rep key(1) len(1) _ rd(1), of 2 mock_nvs]
    by (simp add: sz S) blast
  have "\<exists>st f2. fw_nvs_write (\<lambda>_. 1) (Some mock_nvs1) f1 2 ?d1 = Some (st, Some mock_nvs1, f2) \<and> st \<noteq> FW_OK"
    using later [OF key(2) len(2) _ rd(2)] by (simp add: sz two bytes del: One_nat_def)
  moreover have "\<exists>n3 f3. fw_nvs_write (\<lambda>_. 7) (Some mock_nvs1) f1 5 ?d = Some (FW_OK, Some n3, f3)"
    using later [OF key(1) len(1) _ rd(1)] by (simp add: sz) blast
  ultimately show ?thesis using w by blast
qed

end
