(* ===== verification/Nvs_Compact_Power.thy ===== *)
theory Nvs_Compact_Power
  imports Nvs_Power
begin

text \<open>
  Power failure during a compaction, on the device of \<open>Power_Cut\<close>: the header of the destination bank says
  that it is active before a record has been copied.
\<close>

unbundle bit_operations_syntax

context flash_device
begin

text \<open>Without power a write changes nothing.\<close>

lemma dead_write:
  assumes "ok f" and "unat a \<le> fsz" and "bs \<noteq> []"
  shows "\<exists>f'. flash_write (power_cut drv) (f, 0) a bs = (FW_ERR_IO, f', 0) \<and> ok f' \<and> cells f' = cells f"
proof -
  obtain f' where "flash_write drv f a [] = (FW_OK, f')" "ok f'" "cells f' = cells f"
    using write_law [OF assms(1), of a "[]"] assms(2) by auto
  then show ?thesis
    using assms(3) write_present by (auto simp: flash_write_def power_cut_def cut_write_def)
qed

lemma dead_copy:
  assumes "ok f" and "unat s + unat k \<le> fsz" and "unat a \<le> fsz" and "k \<noteq> 0"
  shows "\<exists>f'. copy_loop (power_cut drv) (f, 0) s a k = Some (FW_ERR_IO, f', 0) \<and> ok f' \<and> cells f' = cells f"
proof -
  define c where "c = (if k > 128 then 128 else k)"
  have c: "unat c \<le> unat k" "0 < unat c" using assms(4) by (auto simp: c_def word_less_nat_alt unat_gt_0)
  have rd: "flash_read (power_cut drv) (f, 0) s (unat c) = (FW_OK, cell_range (cells f) (unat s) (unat c))"
    using read_law [OF assms(1), of s "unat c"] c assms(2) by (simp add: power_cut_read)
  have "cell_range (cells f) (unat s) (unat c) \<noteq> []" using c(2) by (metis length_cell_range list.size(3) less_irrefl)
  then obtain f' where "flash_write (power_cut drv) (f, 0) a (cell_range (cells f) (unat s) (unat c)) = (FW_ERR_IO, f', 0)"
      "ok f'" "cells f' = cells f"
    using dead_write [OF assms(1,3)] by blast
  then show ?thesis
    using rd assms(4) by (subst copy_loop.simps) (auto simp: word_gt_0 Let_def simp flip: c_def)
qed

text \<open>The migration stops at the first record it would copy.\<close>

lemma dead_migrate:
  assumes "ok f" and "unat sb + unat (fd_sector_size drv) \<le> fsz" and "unat (db + 16) \<le> fsz"
    and "unat (fd_sector_size drv) + unat (fd_sector_size drv) \<le> fsz"
    and "bank_is (unat (fd_sector_size drv)) (cells f) (unat sb) sq (xs @ ys)"
    and "unat woff = 16 + log_size (xs @ ys)" and "unat so = 16 + log_size xs"
  shows "\<exists>st f'. migrate_loop (power_cut drv) woff (fd_sector_size drv) sb db (f, 0) so 16 = Some (st, 16, f', 0)
    \<and> ok f' \<and> cells f' = cells f"
  using assms(5-7)
proof (induction ys arbitrary: xs so)
  case Nil
  then show ?case using assms(1) by (subst migrate_loop.simps) (simp add: word_less_nat_alt)
next
  case (Cons r ys)
  let ?t = "8 + ALIGN_UP_4 (ucast (rh_length (rec_hdr r)))"
  have r: "rec_ok r" and le: "16 + log_size xs + rec_size r \<le> unat (fd_sector_size drv)"
    using Cons.prems(1) by (simp_all add: bank_is_def)
  have lt: "so < woff" using Cons.prems(2,3) rec_size_ge [of r] by (simp add: word_less_nat_alt)
  have rd: "flash_read (power_cut drv) (f, 0) (sb + so) 8 = (FW_OK, record_hdr_bytes (rec_hdr r))"
    using read_hdr [OF assms(1) Cons.prems(1) assms(2) Cons.prems(3)] by (simp add: power_cut_read)
  have nxt: "unat (so + ?t) = 16 + log_size (xs @ [r])" by (rule next_off [OF Cons.prems(1) assms(4) Cons.prems(3)])
  have u: "unat (sb + so) = unat sb + (16 + log_size xs)"
    using le assms(2) Cons.prems(3) fsz_lt by (subst unat_add_nowrap) simp_all
  have t: "unat ?t = rec_size r" by (rule unat_rec_total [OF r])
  have go: "\<exists>st f'. migrate_loop (power_cut drv) woff (fd_sector_size drv) sb db (f, 0) (so + ?t) 16 = Some (st, 16, f', 0)
      \<and> ok f' \<and> cells f' = cells f"
    using Cons.IH [of "xs @ [r]" "so + ?t"] Cons.prems(1,2) nxt by simp
  have latest: "latest_loop (power_cut drv) (f, 0) sb woff (fst r) (so + ?t) = Some (fst r \<notin> fst ` set ys)"
    by (rule cut.latest_loop_log [where sq = sq and xs = "xs @ [r]"])
      (use assms(1,2,4) Cons.prems(1,2) nxt in \<open>simp_all add: fd_sector_size_power_cut\<close>)
  have "?t \<noteq> 0" using t rec_size_ge [of r] by (metis le_zero_eq unat_0 zero_neq_numeral)
  then obtain f' where copy: "copy_loop (power_cut drv) (f, 0) (sb + so) (db + 16) ?t = Some (FW_ERR_IO, f', 0)" "ok f'" "cells f' = cells f"
    using dead_copy [OF assms(1), of "sb + so" ?t "db + 16"] u t le assms(2,3) rec_size_ge [of r] by auto
  show ?case
    using lt rd r go latest copy assms(1)
    by (subst migrate_loop.simps) (auto simp: rec_ok_def Let_def)
qed

text \<open>Seventeen units are the erase of the destination and its header.\<close>

lemma compact_cut:
  assumes rep: "nvs_rep drv cells fsz ok n f log"
  shows "\<exists>st n1 f1 b1. nvs_compact (under_power n) (f, 17) = Some (st, n1, f1, b1) \<and> st \<noteq> FW_OK \<and> ok f1
    \<and> bank_is (unat (fd_sector_size drv)) (cells f1) (unat (bank_addr n (nv_active_bank n))) (nv_sequence n) log
    \<and> bank_is (unat (fd_sector_size drv)) (cells f1) (unat (bank_addr n (1 - nv_active_bank n))) (nv_sequence n + 1) []"
proof -
  let ?S = "unat (fd_sector_size drv)" and ?a = "bank_addr n (nv_active_bank n)" and ?z = "bank_addr n (1 - nv_active_bank n)"
  let ?h = "sector_hdr_bytes (nvs_sector_hdr (nv_sequence n + 1))"
  note d = nvs_repD [OF rep] and bk = nvs_rep_banks [OF rep]
  note dj = banks_ok_disjoint [OF bk]
  have z: "256 \<le> ?S" "?S dvd unat ?z" "unat ?z + ?S \<le> fsz" "?S dvd unat ?a" using bk by (simp_all add: banks_ok_def)
  obtain f1 where f1: "flash_erase (power_cut drv) (f, 17) ?z = (FW_OK, f1, 16)" "ok f1"
      "cells f1 = cells_put (cells f) (unat ?z) (replicate ?S 0xFF)"
    using power_cut_erase [OF d(3) z(2,3), of 17] by auto
  obtain f2 where f2: "flash_write (power_cut drv) (f1, 16) ?z ?h = (FW_OK, f2, 0)" "ok f2" "cells f2 = cells_put (cells f1) (unat ?z) ?h"
    using power_cut_write [OF f1(2), of ?z ?h "unat ?z + ?S" 16] z by (auto simp: f1(3) cells_put_def)
  have src: "bank_is ?S (cells f2) (unat ?a) (nv_sequence n) log"
    by (rule bank_is_frame [OF d(5)]) (use dj(1) z(1) in \<open>auto simp: f2(3) f1(3) cells_put_def\<close>)
  have dst: "bank_is ?S (cells f2) (unat ?z) (nv_sequence n + 1) []"
    unfolding f2(3) f1(3) using z(1) by (intro bank_is_new) simp
  have z16: "unat (?z + 16) \<le> fsz" using z(1,3) fsz_lt by (subst unat_add_nowrap) simp_all
  obtain st f3 where mig: "migrate_loop (power_cut drv) (nv_write_offset n) (fd_sector_size drv) ?a ?z (f2, 0) 16 16 = Some (st, 16, f3, 0)"
      "ok f3" "cells f3 = cells f2"
    using dead_migrate [OF f2(2) d(6) z16 d(7), of "nv_sequence n" "[]" log "nv_write_offset n" 16] src d(4) by auto
  have dead: "flash_erase (power_cut drv) (f3, 0) ?a = (FW_ERR_IO, f3, 0)"
    using power_cut_erase [OF mig(2) z(4) d(6), of 0] by simp
  show ?thesis
    by (rule exI [of _ "if st \<noteq> FW_OK then st else FW_ERR_IO"], rule exI [of _ "under_power n"], rule exI [of _ f3], rule exI [of _ 0])
      (use f1(1) f2(1) mig dead src dst d(1) in
        \<open>simp add: nvs_compact_def Let_def fd_sector_size_power_cut\<close>)
qed

end

text \<open>C20: a write that needs a compaction and loses power right after the header of the new bank is written
  loses the whole store, the values of other keys included: it reports an error, and after the reset the
  initialisation takes the new, empty bank, erases the full one and reports success; no key is found any more.\<close>

theorem nvs_compaction_power_cut_loses_store:
  assumes "flash_device drv cells fsz ok" and "nvs_rep drv cells fsz ok n f log"
    and "key \<noteq> FW_NVS_KEY_EMPTY" and "unat (cspan_length d) < 2 ^ 16"
    and "p = mem_read m (cspan_data d) (unat (cspan_length d))"
    and "unat (fd_sector_size drv) < 16 + log_size log + rec_size (key, Some p)"
    and "16 + rec_size (key, Some p) \<le> unat (fd_sector_size drv)" and "nv_sequence n \<noteq> 0xFFFFFFFF"
  shows "\<exists>st n1 f1 b1 n2 f2. fw_nvs_write m (Some (under_power n)) (f, 17) key d = Some (st, Some n1, f1, b1) \<and> st \<noteq> FW_OK
    \<and> fw_nvs_init (Some n0) (Some drv) (nv_bank_addr0 n) (nv_bank_addr1 n) f1 = Some (FW_OK, Some n2, f2)
    \<and> (\<forall>k m out len. k \<noteq> FW_NVS_KEY_EMPTY \<and> span_data out \<noteq> FW_NULL \<longrightarrow>
         fw_nvs_read m (Some n2) f2 k out len = Some (FW_ERR_NOT_FOUND, m, len))"
proof -
  let ?t = "8 + ALIGN_UP_4 (cspan_length d)"
  note d = nvs_repD [OF assms(2)]
  note W = write_numbers [OF assms(4,3,5)]
  have small: "\<not> 16 + ?t > fd_sector_size drv" using W(3) assms(7) by (simp add: word_less_nat_alt)
  have full: "nv_write_offset n + ?t > fd_sector_size drv"
    using write_fits [OF assms(2) flash_reader.fsz_lt [OF device_reader [OF assms(1)]] W(4)] assms(6) by (simp add: W(2))
  obtain st n1 f1 b1 where c: "nvs_compact (under_power n) (f, 17) = Some (st, n1, f1, b1)" "st \<noteq> FW_OK" "ok f1"
      "bank_is (unat (fd_sector_size drv)) (cells f1) (unat (bank_addr n (nv_active_bank n))) (nv_sequence n) log"
      "bank_is (unat (fd_sector_size drv)) (cells f1) (unat (bank_addr n (1 - nv_active_bank n))) (nv_sequence n + 1) []"
    using flash_device.compact_cut [OF assms(1,2)] by blast
  have wr: "fw_nvs_write m (Some (under_power n)) (f, 17) key d = Some (st, Some n1, f1, b1)"
    using small full assms(3) c(1,2) d(1) by (simp add: fw_nvs_write_def Let_def fd_sector_size_power_cut)
  have "unat (nv_sequence n) + 1 < 2 ^ 32"
    using assms(8) unsigned_less [of "nv_sequence n", where ?'a = nat] by (simp add: word_unat_eq_iff)
  then have newer: "nv_sequence n < nv_sequence n + 1" by (simp add: word_less_nat_alt unat_add_nowrap)
  have "banks_ok (unat (fd_sector_size drv)) fsz (unat (nv_bank_addr0 n)) (unat (nv_bank_addr1 n))"
      "nv_active_bank n = 0 \<or> nv_active_bank n = 1"
    using assms(2) by (simp_all add: nvs_rep_def)
  then obtain n2 f2 where i: "fw_nvs_init (Some n0) (Some drv) (nv_bank_addr0 n) (nv_bank_addr1 n) f1 = Some (FW_OK, Some n2, f2)"
      "nvs_rep drv cells fsz ok n2 f2 []"
    using fw_nvs_init_newer [OF assms(1) c(3) _ _ c(4,5) newer, of "nv_bank_addr0 n" "nv_bank_addr1 n" "1 - nv_active_bank n" n0]
    by (auto simp: bank_addr_def)
  have "fw_nvs_read m (Some n2) f2 k out len = Some (FW_ERR_NOT_FOUND, m, len)"
    if "k \<noteq> FW_NVS_KEY_EMPTY" "span_data out \<noteq> FW_NULL" for k m out len
    using fw_nvs_read_rep [OF assms(1) i(2) that] by (simp add: value_read_def)
  with wr c(2) i(1) show ?thesis by blast
qed

theorem nvs_compaction_power_cut_loses_store_witness:
  "\<exists>st n1 f1 b1 n2 f2. fw_nvs_write (\<lambda>_. 1) (Some (under_power mock_nvs1)) (mock_store1, 17) 5
        \<lparr>cspan_data = 64, cspan_length = 480\<rparr> = Some (st, Some n1, f1, b1) \<and> st \<noteq> FW_OK
    \<and> fw_nvs_init (Some mock_nvs) (Some s_mock_flash) 0 512 f1 = Some (FW_OK, Some n2, f2)
    \<and> fw_nvs_read (\<lambda>_. 0) (Some n2) f2 3 \<lparr>span_data = 64, span_length = 5\<rparr> (Some 9) = Some (FW_ERR_NOT_FOUND, \<lambda>_. 0, Some 9)"
proof -
  have "rec_size (5, Some (replicate 480 1)) = 488" "rec_size (3, Some [7, 7]) = 12"
    by (simp_all add: rec_size_def rec_payload_def round_up_def)
  moreover have "nv_sequence mock_nvs1 = 1" "nv_bank_addr0 mock_nvs1 = 0" "nv_bank_addr1 mock_nvs1 = 512"
      "fd_sector_size s_mock_flash = 512"
    by (simp_all add: mock_nvs1_def mock_nvs_def s_mock_flash_def TEST_SECTOR_SIZE_def)
  moreover have "mem_read (\<lambda>_. 1) 64 480 = replicate 480 1" by (rule nth_equalityI) simp_all
  ultimately obtain st n1 f1 b1 n2 f2 where w: "fw_nvs_write (\<lambda>_. 1) (Some (under_power mock_nvs1)) (mock_store1, 17) 5
        \<lparr>cspan_data = 64, cspan_length = 480\<rparr> = Some (st, Some n1, f1, b1)" "st \<noteq> FW_OK"
      "fw_nvs_init (Some mock_nvs) (Some s_mock_flash) 0 512 f1 = Some (FW_OK, Some n2, f2)"
      "\<And>k m out len. k \<noteq> FW_NVS_KEY_EMPTY \<Longrightarrow> span_data out \<noteq> FW_NULL \<Longrightarrow>
         fw_nvs_read m (Some n2) f2 k out len = Some (FW_ERR_NOT_FOUND, m, len)"
    using nvs_compaction_power_cut_loses_store [OF mock.flash_device_axioms mock_store1_rep, of 5
        "\<lparr>cspan_data = 64, cspan_length = 480\<rparr>" "replicate 480 1" "\<lambda>_. 1" mock_nvs]
    by (auto simp: FW_NVS_KEY_EMPTY_def)
  show ?thesis
    by (rule exI [of _ st], rule exI [of _ n1], rule exI [of _ f1], rule exI [of _ b1], rule exI [of _ n2], rule exI [of _ f2])
      (use w in \<open>simp add: FW_NVS_KEY_EMPTY_def\<close>)
qed

end
