(* ===== verification/Ota.thy ===== *)
theory Ota
  imports Flash Crc
begin

text \<open>
  The firmware update metadata of \<^verbatim>\<open>ota.h\<close> and \<^verbatim>\<open>ota.c\<close>: the application descriptor kept in RAM and in
  its own flash sector, the life cycle operations on its state, and the check of an image in flash.
\<close>

unbundle bit_operations_syntax

definition FW_OTA_DESC_MAGIC :: u32 where "FW_OTA_DESC_MAGIC = 0x5A45524F"
definition FW_OTA_STATE_EMPTY :: u32 where "FW_OTA_STATE_EMPTY = 0xFFFFFFFF"
definition FW_OTA_STATE_DOWNLOADED :: u32 where "FW_OTA_STATE_DOWNLOADED = 0x5555AAAA"
definition FW_OTA_STATE_PENDING_VERIFY :: u32 where "FW_OTA_STATE_PENDING_VERIFY = 0xAA55AA55"
definition FW_OTA_STATE_CONFIRMED :: u32 where "FW_OTA_STATE_CONFIRMED = 0x12345678"
definition FW_OTA_STATE_ROLLBACK :: u32 where "FW_OTA_STATE_ROLLBACK = 0xDEAD0001"

record fw_app_desc =
  ad_magic :: u32
  ad_version_major :: u32
  ad_version_minor :: u32
  ad_version_patch :: u32
  ad_image_size :: u32
  ad_image_crc32 :: u32
  ad_state :: u32
  ad_boot_attempts :: u32
  ad_max_attempts :: u32
  ad_reserved :: "u32 list"

text \<open>The 64 bytes of the structure; \<open>ad_reserved\<close> has seven words.\<close>

definition desc_words :: "fw_app_desc \<Rightarrow> u32 list" where
  "desc_words d = [ad_magic d, ad_version_major d, ad_version_minor d, ad_version_patch d, ad_image_size d,
     ad_image_crc32 d, ad_state d, ad_boot_attempts d, ad_max_attempts d] @ ad_reserved d"

definition desc_bytes :: "fw_app_desc \<Rightarrow> u8 list" where
  "desc_bytes d = concat (map le32 (desc_words d))"

definition word_at :: "u8 list \<Rightarrow> nat \<Rightarrow> u32" where
  "word_at bs k = of_le32 (bs ! (4 * k)) (bs ! (4 * k + 1)) (bs ! (4 * k + 2)) (bs ! (4 * k + 3))"

definition desc_of :: "u8 list \<Rightarrow> fw_app_desc" where
  "desc_of bs = \<lparr>ad_magic = word_at bs 0, ad_version_major = word_at bs 1, ad_version_minor = word_at bs 2,
     ad_version_patch = word_at bs 3, ad_image_size = word_at bs 4, ad_image_crc32 = word_at bs 5,
     ad_state = word_at bs 6, ad_boot_attempts = word_at bs 7, ad_max_attempts = word_at bs 8,
     ad_reserved = map (word_at bs) [9..<16]\<rparr>"

record 'f fw_ota =
  ot_flash :: "'f fw_flash_driver option"
  ot_metadata_addr :: u32
  ot_current_desc :: fw_app_desc

definition fw_ota_set_desc ::
  "'f fw_ota option \<Rightarrow> fw_app_desc option \<Rightarrow> 'f \<Rightarrow> fw_status \<times> 'f fw_ota option \<times> 'f" where
  "fw_ota_set_desc ota desc f =
     (case (ota, desc) of
        (Some ot, Some d) \<Rightarrow>
          (case flash_erase (the (ot_flash ot)) f (ot_metadata_addr ot) of
             (st, f1) \<Rightarrow> if st \<noteq> FW_OK then (st, ota, f1) else
          (case flash_write (the (ot_flash ot)) f1 (ot_metadata_addr ot) (desc_bytes d) of
             (st, f2) \<Rightarrow> if st \<noteq> FW_OK then (st, ota, f2)
               else (FW_OK, Some (ot\<lparr>ot_current_desc := d\<rparr>), f2)))
      | _ \<Rightarrow> (FW_ERR_INVALID_ARG, ota, f))"

definition default_desc :: fw_app_desc where
  "default_desc = \<lparr>ad_magic = FW_OTA_DESC_MAGIC, ad_version_major = 0, ad_version_minor = 1, ad_version_patch = 0,
     ad_image_size = 0, ad_image_crc32 = 0, ad_state = FW_OTA_STATE_EMPTY, ad_boot_attempts = 0,
     ad_max_attempts = 3, ad_reserved = replicate 7 0\<rparr>"

definition fw_ota_init ::
  "'f fw_ota option \<Rightarrow> 'f fw_flash_driver option \<Rightarrow> u32 \<Rightarrow> 'f \<Rightarrow> fw_status \<times> 'f fw_ota option \<times> 'f" where
  "fw_ota_init ota flash metadata_addr f =
     (case (ota, flash) of
        (Some o0, Some drv) \<Rightarrow>
          if fd_read drv = None \<or> fd_write drv = None \<or> fd_erase_sector drv = None then (FW_ERR_INVALID_ARG, ota, f)
          else
            let o1 = o0\<lparr>ot_flash := Some drv, ot_metadata_addr := metadata_addr\<rparr>
            in (case flash_read drv f metadata_addr 64 of
                  (st, bs) \<Rightarrow> if st \<noteq> FW_OK then (st, Some o1, f) else
                  let desc = desc_of bs
                  in if ad_magic desc \<noteq> FW_OTA_DESC_MAGIC then
                       (case fw_ota_set_desc (Some o1) (Some default_desc) f of
                          (st', ota', f') \<Rightarrow> if st' \<noteq> FW_OK then (st', ota', f')
                            else (FW_OK, map_option (ot_current_desc_update (\<lambda>_. default_desc)) ota', f'))
                     else (FW_OK, Some (o1\<lparr>ot_current_desc := desc\<rparr>), f))
      | _ \<Rightarrow> (FW_ERR_INVALID_ARG, ota, f))"

definition fw_ota_get_desc :: "'f fw_ota option \<Rightarrow> fw_app_desc option \<Rightarrow> fw_status \<times> fw_app_desc option" where
  "fw_ota_get_desc ota out_desc =
     (case (ota, out_desc) of
        (Some ot, Some _) \<Rightarrow> (FW_OK, Some (ot_current_desc ot))
      | _ \<Rightarrow> (FW_ERR_INVALID_ARG, out_desc))"

text \<open>The image in chunks of 128 bytes; the status of the first failing read ends the loop.\<close>

partial_function (option) verify_loop ::
  "'f fw_flash_driver \<Rightarrow> 'f \<Rightarrow> u32 \<Rightarrow> u32 \<Rightarrow> u32 \<Rightarrow> (fw_status \<times> u32) option" where
  "verify_loop drv f curr_addr remaining crc_acc =
     (if remaining > 0 then
        let to_read = (if remaining > 128 then 128 else remaining)
        in (case flash_read drv f curr_addr (unat to_read) of
              (st, chunk) \<Rightarrow> if st \<noteq> FW_OK then Some (st, crc_acc)
                else verify_loop drv f (curr_addr + to_read) (remaining - to_read) (crc32_step crc_acc chunk))
      else Some (FW_OK, crc_acc))"

definition fw_ota_verify_image ::
  "'f fw_flash_driver option \<Rightarrow> 'f \<Rightarrow> u32 \<Rightarrow> fw_app_desc option \<Rightarrow> fw_status option" where
  "fw_ota_verify_image flash f slot_addr desc =
     (case (flash, desc) of
        (Some drv, Some d) \<Rightarrow>
          if fd_read drv = None then Some FW_ERR_INVALID_ARG
          else if ad_image_size d = 0 then Some FW_ERR_INVALID_ARG
          else (case verify_loop drv f slot_addr (ad_image_size d) 0xFFFFFFFF of
                  None \<Rightarrow> None
                | Some (st, crc_acc) \<Rightarrow>
                    if st \<noteq> FW_OK then Some st
                    else if NOT crc_acc \<noteq> ad_image_crc32 d then Some FW_ERR_CORRUPTED else Some FW_OK)
      | _ \<Rightarrow> Some FW_ERR_INVALID_ARG)"

definition fw_ota_mark_pending_verify :: "'f fw_ota option \<Rightarrow> 'f \<Rightarrow> fw_status \<times> 'f fw_ota option \<times> 'f" where
  "fw_ota_mark_pending_verify ota f =
     (case ota of
        None \<Rightarrow> (FW_ERR_INVALID_ARG, ota, f)
      | Some ot \<Rightarrow>
          let desc = ot_current_desc ot
          in fw_ota_set_desc ota (Some (desc\<lparr>ad_state := FW_OTA_STATE_PENDING_VERIFY,
                                            ad_boot_attempts := ad_boot_attempts desc + 1\<rparr>)) f)"

definition fw_ota_confirm :: "'f fw_ota option \<Rightarrow> 'f \<Rightarrow> fw_status \<times> 'f fw_ota option \<times> 'f" where
  "fw_ota_confirm ota f =
     (case ota of
        None \<Rightarrow> (FW_ERR_INVALID_ARG, ota, f)
      | Some ot \<Rightarrow>
          fw_ota_set_desc ota (Some ((ot_current_desc ot)\<lparr>ad_state := FW_OTA_STATE_CONFIRMED, ad_boot_attempts := 0\<rparr>)) f)"

definition fw_ota_rollback :: "'f fw_ota option \<Rightarrow> 'f \<Rightarrow> fw_status \<times> 'f fw_ota option \<times> 'f" where
  "fw_ota_rollback ota f =
     (case ota of
        None \<Rightarrow> (FW_ERR_INVALID_ARG, ota, f)
      | Some ot \<Rightarrow> fw_ota_set_desc ota (Some ((ot_current_desc ot)\<lparr>ad_state := FW_OTA_STATE_ROLLBACK\<rparr>)) f)"

section \<open>The image check\<close>

lemma verify_loop_crc:
  assumes "flash_device drv cells fsz ok" and "ok f" and "unat a + unat n \<le> fsz"
  shows "verify_loop drv f a n crc = Some (FW_OK, crc32_step crc (cell_range (cells f) (unat a) (unat n)))"
  using assms(3)
proof (induction "unat n" arbitrary: a n crc rule: less_induct)
  case less
  show ?case
  proof (cases "n = 0")
    case True
    then show ?thesis by (subst verify_loop.simps) simp
  next
    case False
    define c where "c = (if n > 128 then 128 else n)"
    have c: "unat c \<le> unat n" "0 < unat c" using False by (auto simp: c_def word_less_nat_alt unat_gt_0)
    have a: "unat (a + c) = unat a + unat c"
      using less.prems c(1) flash_reader.fsz_lt [OF device_reader [OF assms(1)]] by (simp add: unat_add_nowrap)
    have n: "unat (n - c) = unat n - unat c" using c(1) by (simp add: unat_sub_le word_le_nat_alt)
    have rd: "flash_read drv f a (unat c) = (FW_OK, cell_range (cells f) (unat a) (unat c))"
      using flash_reader.read_law [OF device_reader [OF assms(1)] assms(2), of a "unat c"] less.prems c(1) by simp
    have "verify_loop drv f a n crc = verify_loop drv f (a + c) (n - c) (crc32_step crc (cell_range (cells f) (unat a) (unat c)))"
      using False rd by (subst verify_loop.simps) (simp add: Let_def word_gt_0 flip: c_def)
    also have "\<dots> = Some (FW_OK, crc32_step (crc32_step crc (cell_range (cells f) (unat a) (unat c)))
        (cell_range (cells f) (unat (a + c)) (unat (n - c))))"
      using less.prems c by (intro less.hyps) (simp_all add: a n)
    also have "crc32_step (crc32_step crc (cell_range (cells f) (unat a) (unat c))) (cell_range (cells f) (unat (a + c)) (unat (n - c)))
        = crc32_step crc (cell_range (cells f) (unat a) (unat n))"
      using cell_range_append [of "cells f" "unat a" "unat c" "unat n - unat c"] c(1)
      by (simp add: a n flip: crc32_step_append)
    finally show ?thesis .
  qed
qed

text \<open>C32: the chunked check accepts an image exactly when the CRC-32 of all its bytes in flash is the
  one of the descriptor, and reports it corrupted otherwise; it always ends.\<close>

theorem ota_verify_image_exact:
  assumes "flash_device drv cells fsz ok" and "ok f" and "unat slot + unat (ad_image_size d) \<le> fsz"
    and "ad_image_size d \<noteq> 0"
  shows "fw_ota_verify_image (Some drv) f slot (Some d) = Some
    (if NOT (crc32_step 0xFFFFFFFF (cell_range (cells f) (unat slot) (unat (ad_image_size d)))) = ad_image_crc32 d
     then FW_OK else FW_ERR_CORRUPTED)"
  using assms(4) flash_device.ops_present(1) [OF assms(1)] verify_loop_crc [OF assms(1-3)]
  by (simp add: fw_ota_verify_image_def)

theorem ota_verify_image_exact_witness:
  "fw_ota_verify_image (Some s_mock_flash) (replicate 1024 0) 512
     (Some (default_desc\<lparr>ad_image_size := 3, ad_image_crc32 := NOT (crc32_step 0xFFFFFFFF [0, 0, 0])\<rparr>)) = Some FW_OK"
proof -
  have "cell_range (mock_cells (replicate 1024 0)) 512 3 = [0, 0, 0]"
    by (rule nth_equalityI) (simp_all add: mock_cells_def nth_Cons' del: crc32_step.simps)
  then show ?thesis
    using ota_verify_image_exact [OF mock.flash_device_axioms, of "replicate 1024 0" 512
        "default_desc\<lparr>ad_image_size := 3, ad_image_crc32 := NOT (crc32_step 0xFFFFFFFF [0, 0, 0])\<rparr>"]
    by (simp add: mock_ok_def TOTAL_FLASH_SIZE_def default_desc_def del: crc32_step.simps)
qed

section \<open>The life cycle\<close>

text \<open>A request of the boot loader or the application, its execution, and its effect on the descriptor.\<close>

datatype ota_op = Set_Desc fw_app_desc | Mark_Pending | Confirm | Rollback

fun ota_exec :: "ota_op \<Rightarrow> 'f fw_ota option \<Rightarrow> 'f \<Rightarrow> fw_status \<times> 'f fw_ota option \<times> 'f" where
  "ota_exec (Set_Desc d) ota f = fw_ota_set_desc ota (Some d) f"
| "ota_exec Mark_Pending ota f = fw_ota_mark_pending_verify ota f"
| "ota_exec Confirm ota f = fw_ota_confirm ota f"
| "ota_exec Rollback ota f = fw_ota_rollback ota f"

fun ota_run :: "ota_op list \<Rightarrow> 'f fw_ota option \<Rightarrow> 'f \<Rightarrow> fw_status \<times> 'f fw_ota option \<times> 'f" where
  "ota_run [] ota f = (FW_OK, ota, f)"
| "ota_run (r # rs) ota f =
     (case ota_exec r ota f of (st, ota', f') \<Rightarrow> if st \<noteq> FW_OK then (st, ota', f') else ota_run rs ota' f')"

fun ota_apply :: "ota_op \<Rightarrow> fw_app_desc \<Rightarrow> fw_app_desc" where
  "ota_apply (Set_Desc d') d = d'"
| "ota_apply Mark_Pending d = d\<lparr>ad_state := FW_OTA_STATE_PENDING_VERIFY, ad_boot_attempts := ad_boot_attempts d + 1\<rparr>"
| "ota_apply Confirm d = d\<lparr>ad_state := FW_OTA_STATE_CONFIRMED, ad_boot_attempts := 0\<rparr>"
| "ota_apply Rollback d = d\<lparr>ad_state := FW_OTA_STATE_ROLLBACK\<rparr>"

definition desc_ok :: "fw_app_desc \<Rightarrow> bool" where
  "desc_ok d \<longleftrightarrow> ad_magic d = FW_OTA_DESC_MAGIC \<and> length (ad_reserved d) = 7"

fun op_ok :: "ota_op \<Rightarrow> bool" where
  "op_ok (Set_Desc d) = desc_ok d"
| "op_ok _ = True"

lemma length_concat_le32: "length (concat (map le32 ws)) = 4 * length ws"
  by (induction ws) simp_all

lemma length_desc_bytes: "length (ad_reserved d) = 7 \<Longrightarrow> length (desc_bytes d) = 64"
  by (simp add: desc_bytes_def desc_words_def length_concat_le32)

lemma nth_concat_le32:
  "k < length ws \<Longrightarrow> i < 4 \<Longrightarrow> concat (map le32 ws) ! (4 * k + i) = le32 (ws ! k) ! i"
proof (induction ws arbitrary: k)
  case (Cons w ws)
  then show ?case by (cases k) (simp_all add: nth_append)
qed simp

lemma word_at_concat: "k < length ws \<Longrightarrow> word_at (concat (map le32 ws)) k = ws ! k"
  using nth_concat_le32 [of k ws 0] nth_concat_le32 [of k ws 1] nth_concat_le32 [of k ws 2] nth_concat_le32 [of k ws 3]
  by (simp add: word_at_def of_le32_le32_nth del: One_nat_def)

lemma desc_of_bytes:
  assumes "length (ad_reserved d) = 7"
  shows "desc_of (desc_bytes d) = d"
proof -
  have len: "length (desc_words d) = 16" using assms by (simp add: desc_words_def)
  have w: "k < 16 \<Longrightarrow> word_at (desc_bytes d) k = desc_words d ! k" for k
    using word_at_concat [of k "desc_words d"] len by (simp add: desc_bytes_def)
  have "map (word_at (desc_bytes d)) [9..<16] = ad_reserved d"
    by (rule nth_equalityI) (simp_all add: w assms desc_words_def nth_append del: upt_rec_numeral)
  then show ?thesis
    by (intro fw_app_desc.equality) (simp_all add: desc_of_def w desc_words_def del: upt_rec_numeral)
qed

lemma desc_ok_apply: "op_ok r \<Longrightarrow> desc_ok d \<Longrightarrow> desc_ok (ota_apply r d)"
  by (cases r) (simp_all add: desc_ok_def)

lemma desc_ok_fold: "list_all op_ok rs \<Longrightarrow> desc_ok d \<Longrightarrow> desc_ok (fold ota_apply rs d)"
  by (induction rs arbitrary: d) (simp_all add: desc_ok_apply)

text \<open>RAM and flash agree on a valid descriptor.\<close>

definition ota_rep ::
  "'f fw_flash_driver \<Rightarrow> ('f \<Rightarrow> nat \<Rightarrow> u8) \<Rightarrow> nat \<Rightarrow> ('f \<Rightarrow> bool) \<Rightarrow> 'f fw_ota \<Rightarrow> 'f \<Rightarrow> bool" where
  "ota_rep drv cells fsz ok ot f \<longleftrightarrow> ot_flash ot = Some drv \<and> ok f
     \<and> 64 \<le> unat (fd_sector_size drv) \<and> unat (fd_sector_size drv) dvd unat (ot_metadata_addr ot)
     \<and> unat (ot_metadata_addr ot) + unat (fd_sector_size drv) \<le> fsz
     \<and> desc_ok (ot_current_desc ot)
     \<and> cell_range (cells f) (unat (ot_metadata_addr ot)) 64 = desc_bytes (ot_current_desc ot)"

lemma set_desc_rep:
  assumes "flash_device drv cells fsz ok" and "ota_rep drv cells fsz ok ot f" and "desc_ok d"
  shows "\<exists>f'. fw_ota_set_desc (Some ot) (Some d) f = (FW_OK, Some (ot\<lparr>ot_current_desc := d\<rparr>), f')
    \<and> ota_rep drv cells fsz ok (ot\<lparr>ot_current_desc := d\<rparr>) f'"
proof -
  let ?a = "ot_metadata_addr ot" and ?S = "unat (fd_sector_size drv)"
  have r: "ot_flash ot = Some drv" "ok f" "64 \<le> ?S" "?S dvd unat ?a" "unat ?a + ?S \<le> fsz"
    using assms(2) by (simp_all add: ota_rep_def)
  have len: "length (desc_bytes d) = 64" using assms(3) by (intro length_desc_bytes) (simp add: desc_ok_def)
  obtain f1 where f1: "flash_erase drv f ?a = (FW_OK, f1)" "ok f1" "cells f1 = cells_put (cells f) (unat ?a) (replicate ?S 0xFF)"
    using flash_device.erase_law [OF assms(1) r(2,4,5)] by blast
  obtain f2 where f2: "flash_write drv f1 ?a (desc_bytes d) = (FW_OK, f2)" "ok f2" "cells f2 = cells_put (cells f1) (unat ?a) (desc_bytes d)"
    using flash_device.write_law [OF assms(1) f1(2), of ?a "desc_bytes d"] r(3,5) by (auto simp: f1(3) cells_put_def len)
  have "cell_range (cells f2) (unat ?a) 64 = desc_bytes d" unfolding f2(3) by (rule cell_range_put_same [OF len])
  then show ?thesis
    using f1(1) f2(1,2) r assms(3) by (simp add: fw_ota_set_desc_def ota_rep_def)
qed

lemma ota_exec_rep:
  assumes "flash_device drv cells fsz ok" and "ota_rep drv cells fsz ok ot f" and "op_ok r"
  shows "\<exists>f'. ota_exec r (Some ot) f = (FW_OK, Some (ot\<lparr>ot_current_desc := ota_apply r (ot_current_desc ot)\<rparr>), f')
    \<and> ota_rep drv cells fsz ok (ot\<lparr>ot_current_desc := ota_apply r (ot_current_desc ot)\<rparr>) f'"
proof -
  have "desc_ok (ota_apply r (ot_current_desc ot))"
    using assms(2,3) by (intro desc_ok_apply) (simp_all add: ota_rep_def)
  then show ?thesis
    using set_desc_rep [OF assms(1,2)]
    by (cases r) (simp_all add: fw_ota_mark_pending_verify_def fw_ota_confirm_def fw_ota_rollback_def Let_def)
qed

lemma ota_run_rep:
  assumes "flash_device drv cells fsz ok" and "ota_rep drv cells fsz ok ot f" and "list_all op_ok rs"
  shows "\<exists>f'. ota_run rs (Some ot) f = (FW_OK, Some (ot\<lparr>ot_current_desc := fold ota_apply rs (ot_current_desc ot)\<rparr>), f')
    \<and> ota_rep drv cells fsz ok (ot\<lparr>ot_current_desc := fold ota_apply rs (ot_current_desc ot)\<rparr>) f'"
  using assms(2,3)
proof (induction rs arbitrary: ot f)
  case (Cons r rs)
  let ?ot = "ot\<lparr>ot_current_desc := ota_apply r (ot_current_desc ot)\<rparr>"
  obtain f1 where f1: "ota_exec r (Some ot) f = (FW_OK, Some ?ot, f1)" "ota_rep drv cells fsz ok ?ot f1"
    using ota_exec_rep [OF assms(1) Cons.prems(1)] Cons.prems(2) by auto
  then show ?case using Cons.IH [OF f1(2)] Cons.prems(2) by simp
qed simp

lemma ota_init_rep:
  assumes "flash_device drv cells fsz ok" and "ota_rep drv cells fsz ok ot f"
  shows "fw_ota_init (Some o0) (Some drv) (ot_metadata_addr ot) f = (FW_OK, Some ot, f)"
proof -
  have r: "ot_flash ot = Some drv" "ok f" "unat (ot_metadata_addr ot) + 64 \<le> fsz" "desc_ok (ot_current_desc ot)"
      "cell_range (cells f) (unat (ot_metadata_addr ot)) 64 = desc_bytes (ot_current_desc ot)"
    using assms(2) by (simp_all add: ota_rep_def)
  have rd: "flash_read drv f (ot_metadata_addr ot) 64 = (FW_OK, desc_bytes (ot_current_desc ot))"
    using flash_reader.read_law [OF device_reader [OF assms(1)] r(2,3)] by (simp add: r(5))
  have d: "desc_of (desc_bytes (ot_current_desc ot)) = ot_current_desc ot"
    using r(4) by (intro desc_of_bytes) (simp add: desc_ok_def)
  have "o0\<lparr>ot_flash := Some drv, ot_metadata_addr := ot_metadata_addr ot, ot_current_desc := ot_current_desc ot\<rparr> = ot"
    using r(1) by (cases ot; cases o0) simp
  then show ?thesis
    using flash_device.ops_present [OF assms(1)] rd d r(4) by (simp add: fw_ota_init_def Let_def desc_ok_def)
qed

text \<open>C30: any sequence of life cycle requests succeeds, has on the descriptor the effect of the abstract
  transitions, and survives a reset: the initialisation reads back the descriptor the last request left.\<close>

theorem ota_lifecycle_durable:
  assumes "flash_device drv cells fsz ok" and "ota_rep drv cells fsz ok ot f" and "list_all op_ok rs"
  shows "\<exists>ot' f'. ota_run rs (Some ot) f = (FW_OK, Some ot', f')
    \<and> ot_current_desc ot' = fold ota_apply rs (ot_current_desc ot)
    \<and> fw_ota_init (Some o0) (Some drv) (ot_metadata_addr ot) f' = (FW_OK, Some ot', f')"
proof -
  let ?ot = "ot\<lparr>ot_current_desc := fold ota_apply rs (ot_current_desc ot)\<rparr>"
  obtain f' where f': "ota_run rs (Some ot) f = (FW_OK, Some ?ot, f')" "ota_rep drv cells fsz ok ?ot f'"
    using ota_run_rep [OF assms] by blast
  then show ?thesis using ota_init_rep [OF assms(1) f'(2), of o0] by simp
qed

text \<open>The virtual device after the initialisation wrote the default descriptor.\<close>

definition mock_ota :: "u8 list fw_ota" where
  "mock_ota = \<lparr>ot_flash = Some s_mock_flash, ot_metadata_addr = 512, ot_current_desc = default_desc\<rparr>"

definition mock_ota_flash :: "u8 list" where
  "mock_ota_flash = replicate 512 0xFF @ desc_bytes default_desc @ replicate 448 0xFF"

lemma mock_ota_rep: "ota_rep s_mock_flash mock_cells 1024 mock_ok mock_ota mock_ota_flash"
proof -
  have ok: "desc_ok default_desc" by (simp add: desc_ok_def default_desc_def)
  then have len: "length (desc_bytes default_desc) = 64" by (intro length_desc_bytes) (simp add: desc_ok_def)
  have "cell_range (mock_cells mock_ota_flash) 512 64 = desc_bytes default_desc"
    by (rule nth_equalityI) (simp_all add: mock_cells_def mock_ota_flash_def nth_append len)
  then show ?thesis
    using ok len
    by (simp add: ota_rep_def mock_ota_def s_mock_flash_def TEST_SECTOR_SIZE_def mock_ok_def TOTAL_FLASH_SIZE_def mock_ota_flash_def)
qed

theorem ota_lifecycle_durable_witness:
  "\<exists>ot' f'. ota_run [Mark_Pending, Confirm, Mark_Pending, Rollback] (Some mock_ota) mock_ota_flash = (FW_OK, Some ot', f')
    \<and> ot_current_desc ot' = default_desc\<lparr>ad_boot_attempts := 1, ad_state := FW_OTA_STATE_ROLLBACK\<rparr>
    \<and> fw_ota_init (Some mock_ota) (Some s_mock_flash) 512 f' = (FW_OK, Some ot', f')"
  using ota_lifecycle_durable [OF mock.flash_device_axioms mock_ota_rep, of "[Mark_Pending, Confirm, Mark_Pending, Rollback]" mock_ota]
  by (simp add: mock_ota_def del: ota_run.simps)

end
