(* ===== verification/Ota_Power.thy ===== *)
theory Ota_Power
  imports Ota Power_Cut
begin

text \<open>
  Power failure while the update metadata is rewritten, on the device of \<open>Power_Cut\<close>: the descriptor lives in
  one sector that is erased before it is written, and is recognised by its magic word only.
\<close>

unbundle bit_operations_syntax

definition ota_under_power :: "'f fw_ota \<Rightarrow> ('f \<times> nat) fw_ota" where
  "ota_under_power ot = \<lparr>ot_flash = map_option power_cut (ot_flash ot), ot_metadata_addr = ot_metadata_addr ot,
     ot_current_desc = ot_current_desc ot\<rparr>"

text \<open>The bytes of a descriptor cut off after some of them.\<close>

definition torn_desc :: "nat \<Rightarrow> fw_app_desc \<Rightarrow> u8 list" where
  "torn_desc k d = take k (desc_bytes d) @ replicate (64 - k) 0xFF"

lemma torn_desc_full: "desc_ok d \<Longrightarrow> 64 \<le> k \<Longrightarrow> desc_of (torn_desc k d) = d"
  using length_desc_bytes [of d] desc_of_bytes [of d] by (simp add: torn_desc_def desc_ok_def)

lemma torn_desc_magic:
  assumes "desc_ok d"
  shows "ad_magic (desc_of (torn_desc k d)) = FW_OTA_DESC_MAGIC \<longleftrightarrow> 4 \<le> k"
proof -
  have len: "length (desc_bytes d) = 64" using assms length_desc_bytes by (simp add: desc_ok_def)
  have b: "torn_desc k d ! i = (if i < k then le32 FW_OTA_DESC_MAGIC ! i else 0xFF)" if "i < 4" for i
    using that nth_concat_le32 [of 0 "desc_words d" i] len assms
    by (auto simp: torn_desc_def nth_append desc_bytes_def desc_words_def desc_ok_def)
  have full: "of_le32 (le32 FW_OTA_DESC_MAGIC ! 0) (le32 FW_OTA_DESC_MAGIC ! 1) (le32 FW_OTA_DESC_MAGIC ! 2) (le32 FW_OTA_DESC_MAGIC ! 3)
      = FW_OTA_DESC_MAGIC" by (rule of_le32_le32_nth)
  have "of_le32 x y z 0xFF \<noteq> FW_OTA_DESC_MAGIC" for x y z
  proof
    assume "of_le32 x y z 0xFF = FW_OTA_DESC_MAGIC"
    then have "bit (of_le32 x y z 0xFF) 31 = bit FW_OTA_DESC_MAGIC 31" by simp
    then show False by (simp add: of_le32_def FW_OTA_DESC_MAGIC_def bit_simps)
  qed
  moreover have "ad_magic (desc_of bs) = of_le32 (bs ! 0) (bs ! 1) (bs ! 2) (bs ! 3)" for bs
    by (simp add: desc_of_def word_at_def numeral_2_eq_2)
  ultimately show ?thesis
    using b [of 0] b [of 1] b [of 2] b [of 3] full by auto
qed

lemma ota_exec_set_desc:
  "ota_exec r (Some ot) f = fw_ota_set_desc (Some ot) (Some (ota_apply r (ot_current_desc ot))) f"
  by (cases r) (simp_all add: fw_ota_mark_pending_verify_def fw_ota_confirm_def fw_ota_rollback_def Let_def)

text \<open>The cells the interrupted update leaves: nothing happened yet, or the torn descriptor.\<close>

lemma set_desc_cut:
  assumes "flash_device drv cells fsz ok" and "ota_rep drv cells fsz ok ot f" and "desc_ok d"
  shows "\<exists>ot1 f1 b1. fw_ota_set_desc (Some (ota_under_power ot)) (Some d) (f, b) =
      (if 65 \<le> b then FW_OK else FW_ERR_IO, Some ot1, f1, b1) \<and> ok f1
    \<and> cell_range (cells f1) (unat (ot_metadata_addr ot)) 64 =
        (if b = 0 then desc_bytes (ot_current_desc ot) else torn_desc (b - 1) d)"
proof -
  let ?a = "ot_metadata_addr ot" and ?S = "unat (fd_sector_size drv)"
  have r: "ot_flash ot = Some drv" "ok f" "64 \<le> ?S" "?S dvd unat ?a" "unat ?a + ?S \<le> fsz"
      "cell_range (cells f) (unat ?a) 64 = desc_bytes (ot_current_desc ot)"
    using assms(2) by (simp_all add: ota_rep_def)
  have len: "length (desc_bytes d) = 64" using assms(3) by (intro length_desc_bytes) (simp add: desc_ok_def)
  note er = flash_device.power_cut_erase [OF assms(1) r(2,4,5), of b]
  show ?thesis
  proof (cases "b = 0")
    case True
    then show ?thesis using er r(1,2,6) by (simp add: fw_ota_set_desc_def ota_under_power_def)
  next
    case False
    obtain f1 where f1: "flash_erase (power_cut drv) (f, b) ?a = (FW_OK, f1, b - 1)" "ok f1"
        "cells f1 = cells_put (cells f) (unat ?a) (replicate ?S 0xFF)"
      using er False by auto
    obtain f2 where f2: "flash_write (power_cut drv) (f1, b - 1) ?a (desc_bytes d) =
        (if 64 \<le> b - 1 then FW_OK else FW_ERR_IO, f2, b - 1 - 64)" "ok f2"
        "cells f2 = cells_put (cells f1) (unat ?a) (take (b - 1) (desc_bytes d))"
      using flash_device.power_cut_write [OF assms(1) f1(2), of ?a "desc_bytes d" "unat ?a + 64" "b - 1"] r(3,5)
      by (auto simp: f1(3) cells_put_def len)
    have "cell_range (cells f2) (unat ?a) 64 = torn_desc (b - 1) d"
      by (rule nth_equalityI) (use r(3) in \<open>auto simp: f2(3) f1(3) cells_put_def torn_desc_def nth_append len\<close>)
    then show ?thesis
      using False f1(1) f2(1,2) r(1) by (auto simp: fw_ota_set_desc_def ota_under_power_def)
  qed
qed

text \<open>What the initialisation makes of a sector: its descriptor when the magic word is there, the default
  one otherwise.\<close>

lemma ota_init_any:
  assumes "flash_device drv cells fsz ok" and "ota_rep drv cells fsz ok ot f0" and "ok f"
    and "cell_range (cells f) (unat (ot_metadata_addr ot)) 64 = bs"
  shows "\<exists>ot2 f2. fw_ota_init (Some o0) (Some drv) (ot_metadata_addr ot) f = (FW_OK, Some ot2, f2)
    \<and> ot_current_desc ot2 = (if ad_magic (desc_of bs) = FW_OTA_DESC_MAGIC then desc_of bs else default_desc)"
proof -
  let ?a = "ot_metadata_addr ot" and ?S = "unat (fd_sector_size drv)"
  have r: "64 \<le> ?S" "?S dvd unat ?a" "unat ?a + ?S \<le> fsz" using assms(2) by (simp_all add: ota_rep_def)
  have rd: "flash_read drv f ?a 64 = (FW_OK, bs)"
    using flash_reader.read_law [OF device_reader [OF assms(1)] assms(3), of ?a 64] r assms(4) by simp
  have len: "length (desc_bytes default_desc) = 64" by (intro length_desc_bytes) (simp add: default_desc_def)
  obtain f1 where f1: "flash_erase drv f ?a = (FW_OK, f1)" "ok f1" "cells f1 = cells_put (cells f) (unat ?a) (replicate ?S 0xFF)"
    using flash_device.erase_law [OF assms(1,3) r(2,3)] by blast
  obtain f2 where f2: "flash_write drv f1 ?a (desc_bytes default_desc) = (FW_OK, f2)"
    using flash_device.write_law [OF assms(1) f1(2), of ?a "desc_bytes default_desc"] r by (auto simp: f1(3) cells_put_def len)
  show ?thesis
    using flash_device.ops_present [OF assms(1)] rd f1(1) f2 by (simp add: fw_ota_init_def fw_ota_set_desc_def Let_def)
qed

text \<open>C31: an update of the metadata that loses power keeps the old descriptor only if the erase has not run.
  After the erase, fewer than four bytes make the initialisation write the default descriptor, whose state is
  that of a device that was never updated; four or more make it accept what got there, the missing bytes read
  as 0xFF, as a valid descriptor, since only the magic word is checked.\<close>

theorem ota_update_power_cut:
  assumes "flash_device drv cells fsz ok" and "ota_rep drv cells fsz ok ot f" and "op_ok r"
  shows "\<exists>ot1 f1 b1 ot2 f2. ota_exec r (Some (ota_under_power ot)) (f, b) =
      (if 65 \<le> b then FW_OK else FW_ERR_IO, Some ot1, f1, b1)
    \<and> fw_ota_init (Some o0) (Some drv) (ot_metadata_addr ot) f1 = (FW_OK, Some ot2, f2)
    \<and> ot_current_desc ot2 =
        (if b = 0 then ot_current_desc ot
         else if b < 5 then default_desc
         else if 65 \<le> b then ota_apply r (ot_current_desc ot)
         else desc_of (torn_desc (b - 1) (ota_apply r (ot_current_desc ot))))"
proof -
  let ?d = "ota_apply r (ot_current_desc ot)"
  have old: "desc_ok (ot_current_desc ot)" using assms(2) by (simp add: ota_rep_def)
  have d: "desc_ok ?d" using assms(3) old by (rule desc_ok_apply)
  have full: "torn_desc 64 (ot_current_desc ot) = desc_bytes (ot_current_desc ot)"
    using length_desc_bytes [of "ot_current_desc ot"] old by (simp add: torn_desc_def desc_ok_def)
  have cur: "ot_current_desc (ota_under_power ot) = ot_current_desc ot" by (simp add: ota_under_power_def)
  obtain ot1 f1 b1 where w: "fw_ota_set_desc (Some (ota_under_power ot)) (Some ?d) (f, b) =
      (if 65 \<le> b then FW_OK else FW_ERR_IO, Some ot1, f1, b1)" and f1: "ok f1"
      "cell_range (cells f1) (unat (ot_metadata_addr ot)) 64 = (if b = 0 then desc_bytes (ot_current_desc ot) else torn_desc (b - 1) ?d)"
    using set_desc_cut [OF assms(1,2) d] by blast
  obtain ot2 f2 where i: "fw_ota_init (Some o0) (Some drv) (ot_metadata_addr ot) f1 = (FW_OK, Some ot2, f2)"
      "ot_current_desc ot2 = (let bs = if b = 0 then torn_desc 64 (ot_current_desc ot) else torn_desc (b - 1) ?d in
        if ad_magic (desc_of bs) = FW_OTA_DESC_MAGIC then desc_of bs else default_desc)"
    using ota_init_any [OF assms(1,2) f1] unfolding full Let_def by blast
  have "ot_current_desc ot2 =
        (if b = 0 then ot_current_desc ot else if b < 5 then default_desc
         else if 65 \<le> b then ?d else desc_of (torn_desc (b - 1) ?d))"
    using torn_desc_magic [OF old, of 64] torn_desc_full [OF old, of 64] torn_desc_magic [OF d, of "b - 1"] torn_desc_full [OF d, of "b - 1"]
    by (auto simp: i(2))
  then show ?thesis using w i(1) by (auto simp: ota_exec_set_desc cur)
qed

theorem ota_update_power_cut_witness:
  "\<exists>ot1 f1 b1 ot2 f2. ota_exec Confirm (Some (ota_under_power mock_ota)) (mock_ota_flash, 21) = (FW_ERR_IO, Some ot1, f1, b1)
    \<and> fw_ota_init (Some mock_ota) (Some s_mock_flash) 512 f1 = (FW_OK, Some ot2, f2)
    \<and> ad_state (ot_current_desc ot2) = 0xFFFFFFFF \<and> ad_image_crc32 (ot_current_desc ot2) = 0xFFFFFFFF"
proof -
  have "length (desc_bytes (default_desc\<lparr>ad_state := FW_OTA_STATE_CONFIRMED, ad_boot_attempts := 0\<rparr>)) = 64"
    by (intro length_desc_bytes) (simp add: default_desc_def)
  moreover have "of_le32 0xFF 0xFF 0xFF 0xFF = 0xFFFFFFFF" by (simp add: of_le32_def)
  ultimately show ?thesis
    using ota_update_power_cut [OF mock.flash_device_axioms mock_ota_rep, of Confirm 21 mock_ota]
    by (auto simp: mock_ota_def desc_of_def word_at_def torn_desc_def nth_append)
qed

end
