(* ===== verification/Arena.thy ===== *)
theory Arena
  imports Span
begin

text \<open>
  The bump allocator (\<^verbatim>\<open>include/zero/memory/arena.h\<close>, \<^verbatim>\<open>src/arena.c\<close>).  The argument \<open>dbg\<close> of the
  operations that poison freed memory is \<^verbatim>\<open>ZERO_ENABLE_ASSERT\<close>.  \<^verbatim>\<open>sizeof(void*)\<close> is 4.
\<close>

unbundle bit_operations_syntax

record fw_arena =
  ar_buffer :: ptr
  ar_capacity :: usize
  ar_offset :: usize
  ar_peak_used :: usize

type_synonym fw_arena_mark = usize

definition fw_arena_init :: "fw_arena option \<Rightarrow> ptr \<Rightarrow> usize \<Rightarrow> fw_status \<times> fw_arena option" where
  "fw_arena_init arena buffer buffer_size =
     (if arena = None \<or> buffer = FW_NULL \<or> buffer_size = 0 then (FW_ERR_INVALID_ARG, arena)
      else (FW_OK, Some \<lparr>ar_buffer = buffer, ar_capacity = buffer_size, ar_offset = 0,
                         ar_peak_used = 0\<rparr>))"

definition fw_arena_alloc :: "fw_arena option \<Rightarrow> usize \<Rightarrow> usize \<Rightarrow> ptr \<times> fw_arena option" where
  "fw_arena_alloc arena n alignment =
     (case arena of
        None \<Rightarrow> (FW_NULL, None)
      | Some a \<Rightarrow>
          if n = 0 then (FW_NULL, Some a)
          else if alignment \<noteq> 0 \<and> alignment AND (alignment - 1) \<noteq> 0 then (FW_NULL, Some a)
          else
            let alignment = (if alignment = 0 then 4 else alignment);
                curr_ptr = ar_buffer a + ar_offset a;
                aligned_ptr = align_up curr_ptr alignment;
                padding = aligned_ptr - curr_ptr
            in if padding > ar_capacity a - ar_offset a
                  \<or> n > ar_capacity a - ar_offset a - padding
               then (FW_NULL, Some a)
               else let offset = ar_offset a + (padding + n)
                    in (aligned_ptr,
                        Some (a\<lparr>ar_offset := offset,
                                ar_peak_used := (if offset > ar_peak_used a then offset
                                                 else ar_peak_used a)\<rparr>)))"

definition fw_arena_alloc_zeroed ::
  "mem \<Rightarrow> fw_arena option \<Rightarrow> usize \<Rightarrow> usize \<Rightarrow> ptr \<times> mem \<times> fw_arena option" where
  "fw_arena_alloc_zeroed m arena n alignment =
     (case fw_arena_alloc arena n alignment of
        (p, arena') \<Rightarrow> (p, if p \<noteq> FW_NULL then memset m p 0 n else m, arena'))"

definition fw_arena_alloc_span ::
  "fw_arena option \<Rightarrow> usize \<Rightarrow> usize \<Rightarrow> fw_span \<times> fw_arena option" where
  "fw_arena_alloc_span arena n alignment =
     (case fw_arena_alloc arena n alignment of
        (p, arena') \<Rightarrow> (if p = FW_NULL then fw_span_make FW_NULL 0 else fw_span_make p n, arena'))"

definition fw_arena_mark :: "fw_arena option \<Rightarrow> fw_arena_mark" where
  "fw_arena_mark arena = (case arena of None \<Rightarrow> 0 | Some a \<Rightarrow> ar_offset a)"

definition fw_arena_rewind ::
  "bool \<Rightarrow> mem \<Rightarrow> fw_arena option \<Rightarrow> fw_arena_mark \<Rightarrow> mem \<times> fw_arena option" where
  "fw_arena_rewind dbg m arena mrk =
     (case arena of
        None \<Rightarrow> (m, None)
      | Some a \<Rightarrow>
          if mrk \<le> ar_offset a
          then (if dbg then memset m (ar_buffer a + mrk) 0xDD (ar_offset a - mrk) else m,
                Some (a\<lparr>ar_offset := mrk\<rparr>))
          else (m, Some a))"

definition fw_arena_reset :: "bool \<Rightarrow> mem \<Rightarrow> fw_arena option \<Rightarrow> mem \<times> fw_arena option" where
  "fw_arena_reset dbg m arena =
     (case arena of
        None \<Rightarrow> (m, None)
      | Some a \<Rightarrow> (if dbg then memset m (ar_buffer a) 0xDD (ar_offset a) else m,
                   Some (a\<lparr>ar_offset := 0\<rparr>)))"

definition fw_arena_used :: "fw_arena option \<Rightarrow> usize" where
  "fw_arena_used arena = (case arena of None \<Rightarrow> 0 | Some a \<Rightarrow> ar_offset a)"

definition fw_arena_available :: "fw_arena option \<Rightarrow> usize" where
  "fw_arena_available arena =
     (case arena of None \<Rightarrow> 0
      | Some a \<Rightarrow> if ar_capacity a \<ge> ar_offset a then ar_capacity a - ar_offset a else 0)"

definition fw_arena_peak :: "fw_arena option \<Rightarrow> usize" where
  "fw_arena_peak arena = (case arena of None \<Rightarrow> 0 | Some a \<Rightarrow> ar_peak_used a)"

section \<open>Invariant\<close>

definition arena_wf :: "fw_arena \<Rightarrow> bool" where
  "arena_wf a \<longleftrightarrow> ar_buffer a \<noteq> FW_NULL \<and> nowrap (ar_buffer a) (unat (ar_capacity a))
     \<and> ar_offset a \<le> ar_peak_used a \<and> ar_peak_used a \<le> ar_capacity a"

text \<open>The bytes handed out so far.\<close>

definition arena_live :: "fw_arena \<Rightarrow> ptr \<Rightarrow> bool" where
  "arena_live a x \<longleftrightarrow> in_block (ar_buffer a) (unat (ar_offset a)) x"

lemma arena_init_wf:
  "fw_arena_init (Some a0) buf n = (FW_OK, Some a) \<Longrightarrow> nowrap buf (unat n) \<Longrightarrow> arena_wf a"
  by (auto simp: fw_arena_init_def arena_wf_def split: if_splits)

lemma arena_rewind_wf:
  "arena_wf a \<Longrightarrow> \<exists>a'. snd (fw_arena_rewind dbg m (Some a) mrk) = Some a' \<and> arena_wf a'"
  by (auto simp: fw_arena_rewind_def arena_wf_def)

lemma arena_reset_wf:
  "arena_wf a \<Longrightarrow> \<exists>a'. snd (fw_arena_reset dbg m (Some a)) = Some a' \<and> arena_wf a'"
  by (auto simp: fw_arena_reset_def arena_wf_def)

text \<open>The alignment a request asks for, once the default is filled in.\<close>

definition eff_align :: "usize \<Rightarrow> usize" where
  "eff_align al = (if al = 0 then 4 else al)"

lemma eff_align_pow2:
  assumes "al = 0 \<or> al AND (al - 1) = 0"
  obtains k where "eff_align al = 2 ^ k" and "k < 32"
proof (cases "al = 0")
  case True
  then have "eff_align al = 2 ^ 2" by (simp add: eff_align_def)
  then show ?thesis using that by fastforce
next
  case False
  then have "\<exists>k < LENGTH(32). al = 2 ^ k" using assms word_pow2_of_and by blast
  then show ?thesis using that False by (auto simp: eff_align_def)
qed

text \<open>What an allocation computes, on the naturals.\<close>

lemma arena_alloc_success:
  assumes wf: "arena_wf a" and res: "fw_arena_alloc (Some a) n al = (p, Some a')"
    and p: "p \<noteq> FW_NULL"
  obtains k where "eff_align al = 2 ^ k" and "k < 32" and "2 ^ k dvd unat p"
    and "unat (ar_buffer a) + unat (ar_offset a) \<le> unat p"
    and "unat p < unat (ar_buffer a) + unat (ar_offset a) + 2 ^ k"
    and "unat (ar_offset a') = unat p - unat (ar_buffer a) + unat n"
    and "unat (ar_offset a') \<le> unat (ar_capacity a)"
    and "a' = a\<lparr>ar_offset := ar_offset a',
                ar_peak_used := max (ar_offset a') (ar_peak_used a)\<rparr>"
proof -
  let ?curr = "ar_buffer a + ar_offset a"
  let ?pad = "p - ?curr"
  have al: "al = 0 \<or> al AND (al - 1) = 0" and sz: "n \<noteq> 0"
    using res p by (auto simp: fw_arena_alloc_def split: if_splits)
  then obtain k where k: "eff_align al = 2 ^ k" "k < 32" using eff_align_pow2 by blast
  have pe: "p = align_up ?curr (eff_align al)"
    and room: "\<not> (?pad > ar_capacity a - ar_offset a \<or> n > ar_capacity a - ar_offset a - ?pad)"
    and a': "ar_offset a' = ar_offset a + (?pad + n)"
      "a' = a\<lparr>ar_offset := ar_offset a', ar_peak_used := max (ar_offset a') (ar_peak_used a)\<rparr>"
    using res p by (auto simp: fw_arena_alloc_def Let_def eff_align_def max_def not_less
        split: if_splits)
  have off: "unat (ar_offset a) \<le> unat (ar_capacity a)"
    and cap: "unat (ar_buffer a) + unat (ar_capacity a) \<le> 2 ^ 32"
    and b0: "0 < unat (ar_buffer a)"
    using wf by (auto simp: arena_wf_def nowrap_def word_le_nat_alt unat_gt_0)
  have "unat ?pad + unat n \<le> unat (ar_capacity a - ar_offset a)"
    using room sub_bounds_iff [of "ar_capacity a - ar_offset a" ?pad n] by blast
  then have fit: "unat (ar_offset a) + unat ?pad + unat n \<le> unat (ar_capacity a)"
    using off by (simp add: unat_sub_le word_le_nat_alt)
  have szp: "0 < unat n" using sz by (simp add: unat_gt_0)
  have curr: "unat ?curr = unat (ar_buffer a) + unat (ar_offset a)"
    using fit cap szp by (intro unat_add_nowrap) simp
  have nw: "unat ?curr + 2 ^ k - 1 < 2 ^ 32"
  proof (rule ccontr)
    assume "\<not> ?thesis"
    then have "p = 0" using pe k align_up_wrap [of "eff_align al" k ?curr] by simp
    with p show False by simp
  qed
  note up = align_up_nowrap [OF k nw, folded pe]
  have pad: "unat ?pad = unat p - unat ?curr"
    using up(1) by (simp add: unat_sub_le word_le_nat_alt)
  have padn: "unat (?pad + n) = unat ?pad + unat n"
    using fit unat_lt32 [of "ar_capacity a"] by (intro unat_add_nowrap) simp
  have "unat (ar_offset a + (?pad + n)) = unat (ar_offset a) + unat (?pad + n)"
    using fit padn unat_lt32 [of "ar_capacity a"] by (intro unat_add_nowrap) simp
  then have "unat (ar_offset a') = unat (ar_offset a) + (unat ?pad + unat n)"
    by (simp only: a'(1) padn)
  then have "unat (ar_offset a') = unat p - unat (ar_buffer a) + unat n"
    and "unat (ar_offset a') \<le> unat (ar_capacity a)"
    using pad curr up(1) fit by simp_all
  then show ?thesis
    using that [OF k up(3)] up(1,2) curr a'(2) by simp
qed

text \<open>An allocation that returns \<^verbatim>\<open>NULL\<close> changes nothing.\<close>

lemma arena_alloc_null:
  assumes wf: "arena_wf a" and res: "fw_arena_alloc (Some a) n al = (FW_NULL, Some a')"
  shows "a' = a"
proof (rule ccontr)
  assume "a' \<noteq> a"
  then have "\<not> (n = 0 \<or> (al \<noteq> 0 \<and> al AND (al - 1) \<noteq> 0))"
    and pe: "0 = align_up (ar_buffer a + ar_offset a) (eff_align al)"
    and room: "\<not> (0 - (ar_buffer a + ar_offset a) > ar_capacity a - ar_offset a \<or>
         n > ar_capacity a - ar_offset a - (0 - (ar_buffer a + ar_offset a)))"
    using res by (auto simp: fw_arena_alloc_def Let_def eff_align_def split: if_splits)
  then have sz: "0 < unat n" by (simp add: unat_gt_0)
  let ?pad = "0 - (ar_buffer a + ar_offset a)"
  have off: "unat (ar_offset a) \<le> unat (ar_capacity a)"
    and cap: "unat (ar_buffer a) + unat (ar_capacity a) \<le> 2 ^ 32"
    and b0: "0 < unat (ar_buffer a)"
    using wf by (auto simp: arena_wf_def nowrap_def word_le_nat_alt unat_gt_0)
  have fit: "unat (ar_offset a) + unat ?pad + unat n \<le> unat (ar_capacity a)"
    using room sub_bounds_iff [of "ar_capacity a - ar_offset a" ?pad n] off
    by (simp add: unat_sub_le word_le_nat_alt)
  have curr: "unat (ar_buffer a + ar_offset a) = unat (ar_buffer a) + unat (ar_offset a)"
    using fit cap sz by (intro unat_add_nowrap) simp
  have "unat ?pad = 2 ^ 32 - unat (ar_buffer a + ar_offset a)"
    using unat_sub_wrap [of 0 "ar_buffer a + ar_offset a"] curr b0 by simp
  with fit curr cap sz show False by simp
qed

text \<open>
  A successful arena allocation returns a pointer of the requested alignment whose bytes lie in
  the arena's buffer and outside everything handed out before; the arena stays well formed and
  now covers the new block.  A failed allocation changes nothing.
\<close>

theorem arena_alloc_correct:
  assumes "arena_wf a"
  shows "case fw_arena_alloc (Some a) n al of
      (p, None) \<Rightarrow> False
    | (p, Some a') \<Rightarrow>
        arena_wf a' \<and>
        (if p = FW_NULL then a' = a
         else unat (eff_align al) dvd unat p
           \<and> nowrap p (unat n)
           \<and> (\<forall>x. in_block p (unat n) x \<longrightarrow>
                in_block (ar_buffer a) (unat (ar_capacity a)) x
                \<and> \<not> arena_live a x \<and> arena_live a' x)
           \<and> (\<forall>x. arena_live a x \<longrightarrow> arena_live a' x))"
proof -
  obtain p ao where res: "fw_arena_alloc (Some a) n al = (p, ao)" by (cases "fw_arena_alloc (Some a) n al")
  then obtain a' where ao: "ao = Some a'" by (auto simp: fw_arena_alloc_def Let_def split: if_splits)
  show ?thesis
  proof (cases "p = FW_NULL")
    case False
    with assms res ao obtain k where k: "eff_align al = 2 ^ k" "k < 32" and dv: "2 ^ k dvd unat p"
      and lo: "unat (ar_buffer a) + unat (ar_offset a) \<le> unat p"
      and off: "unat (ar_offset a') = unat p - unat (ar_buffer a) + unat n"
      and le: "unat (ar_offset a') \<le> unat (ar_capacity a)"
      and a': "a' = a\<lparr>ar_offset := ar_offset a', ar_peak_used := max (ar_offset a') (ar_peak_used a)\<rparr>"
      by (auto elim: arena_alloc_success)
    have fields: "ar_buffer a' = ar_buffer a" "ar_capacity a' = ar_capacity a"
      "ar_peak_used a' = max (ar_offset a') (ar_peak_used a)"
      by (subst a', simp)+
    have cap: "unat (ar_buffer a) + unat (ar_capacity a) \<le> 2 ^ 32"
      using assms by (simp add: arena_wf_def nowrap_def)
    have wf': "arena_wf a'"
      using assms le by (auto simp: arena_wf_def fields max_def word_le_nat_alt)
    have nwp: "nowrap p (unat n)" and nwb: "nowrap (ar_buffer a) (unat (ar_capacity a))"
      and nwo: "nowrap (ar_buffer a) (unat (ar_offset a))"
      and nwo': "nowrap (ar_buffer a) (unat (ar_offset a'))"
      using off le lo cap by (simp_all add: nowrap_def)
    have live: "arena_live a x \<longleftrightarrow>
        unat (ar_buffer a) \<le> unat x \<and> unat x < unat (ar_buffer a) + unat (ar_offset a)"
      and live': "arena_live a' x \<longleftrightarrow> unat (ar_buffer a) \<le> unat x \<and> unat x < unat p + unat n" for x
      unfolding arena_live_def fields in_block_iff [OF nwo] in_block_iff [OF nwo']
      using off lo by linarith+
    have "\<forall>x. in_block p (unat n) x \<longrightarrow> in_block (ar_buffer a) (unat (ar_capacity a)) x
        \<and> \<not> arena_live a x \<and> arena_live a' x"
      unfolding in_block_iff [OF nwp] in_block_iff [OF nwb] live live'
      using off le lo by fastforce
    moreover have "\<forall>x. arena_live a x \<longrightarrow> arena_live a' x"
      unfolding live live' using lo by fastforce
    ultimately show ?thesis
      using False res ao wf' dv k nwp by (simp add: unat_pow2)
  next
    case True
    have "a' = a" using arena_alloc_null [OF assms] res ao True by simp
    with True res ao assms show ?thesis by simp
  qed
qed

theorem arena_alloc_correct_witness:
  "arena_wf \<lparr>ar_buffer = 1025, ar_capacity = 64, ar_offset = 3, ar_peak_used = 3\<rparr>
   \<and> (8::nat) dvd 1032
   \<and> fst (fw_arena_alloc (Some \<lparr>ar_buffer = 1025, ar_capacity = 64, ar_offset = 3, ar_peak_used = 3\<rparr>) 10 8)
       = 1032"
proof -
  have wf: "arena_wf \<lparr>ar_buffer = 1025, ar_capacity = 64, ar_offset = 3, ar_peak_used = 3\<rparr>"
    by (simp add: arena_wf_def nowrap_def)
  have r: "fw_arena_alloc (Some \<lparr>ar_buffer = 1025, ar_capacity = 64, ar_offset = 3, ar_peak_used = 3\<rparr>) 10 8
      = (1032, Some \<lparr>ar_buffer = 1025, ar_capacity = 64, ar_offset = 17, ar_peak_used = 17\<rparr>)"
    by (simp add: fw_arena_alloc_def Let_def align_up_def)
  show ?thesis
    using arena_alloc_correct [OF wf, of 10 8] wf by (simp add: r eff_align_def)
qed

end
