(* ===== verification/Hub.thy ===== *)
theory Hub
  imports Pool_Init Arena
begin

text \<open>
  The memory hub of \<^verbatim>\<open>hub.h\<close> and \<^verbatim>\<open>hub.c\<close>: up to eight pools and arenas in three tiers, searched in an order
  the hints of a request choose, each with a reserve a request must leave free.  A backend refers to its
  allocator by a handle; the allocators and the byte memory are the world the operations change.  The
  list \<open>hb_backends\<close> is the part of the array below \<^verbatim>\<open>backend_count\<close>.
\<close>

unbundle bit_operations_syntax

type_synonym fw_mem_tier = u32

definition FW_MEM_TIER_FAST :: fw_mem_tier where "FW_MEM_TIER_FAST = 0"
definition FW_MEM_TIER_DMA :: fw_mem_tier where "FW_MEM_TIER_DMA = 1"
definition FW_MEM_TIER_BULK :: fw_mem_tier where "FW_MEM_TIER_BULK = 2"
definition FW_MEM_TIER_COUNT :: fw_mem_tier where "FW_MEM_TIER_COUNT = 3"

definition FW_MEM_HINT_FAST :: u32 where "FW_MEM_HINT_FAST = push_bit 0 1"
definition FW_MEM_HINT_DMA :: u32 where "FW_MEM_HINT_DMA = push_bit 1 1"

definition FW_MEM_HUB_MAX_BACKENDS :: nat where "FW_MEM_HUB_MAX_BACKENDS = 8"

datatype backend_handle = FW_BACKEND_POOL nat | FW_BACKEND_ARENA nat

record fw_mem_backend =
  be_name :: string
  be_tier :: fw_mem_tier
  be_handle :: backend_handle
  be_reserve_bytes :: usize
  be_allocated_bytes :: usize
  be_peak_used_bytes :: usize

record fw_mem_hub =
  hb_backends :: "fw_mem_backend list"
  hb_total_alloc_ops :: usize
  hb_total_rejected_ops :: usize

record hub_world =
  hw_mem :: mem
  hw_pools :: "nat \<Rightarrow> fw_pool"
  hw_arenas :: "nat \<Rightarrow> fw_arena"

definition fw_mem_hub_init :: "fw_mem_hub option \<Rightarrow> fw_status \<times> fw_mem_hub option" where
  "fw_mem_hub_init hub =
     (if hub = None then (FW_ERR_INVALID_ARG, None)
      else (FW_OK, Some \<lparr>hb_backends = [], hb_total_alloc_ops = 0, hb_total_rejected_ops = 0\<rparr>))"

text \<open>The two registrations differ in the kind of handle and the default name.\<close>

definition add_backend ::
  "fw_mem_hub option \<Rightarrow> fw_mem_tier \<Rightarrow> backend_handle option \<Rightarrow> string \<Rightarrow> usize \<Rightarrow> fw_status \<times> fw_mem_hub option" where
  "add_backend hub tier h nm reserve_bytes =
     (case (hub, h) of
        (Some hb, Some bh) \<Rightarrow>
          if tier \<ge> FW_MEM_TIER_COUNT then (FW_ERR_INVALID_ARG, hub)
          else if length (hb_backends hb) \<ge> FW_MEM_HUB_MAX_BACKENDS then (FW_ERR_BUFFER_OVERFLOW, hub)
          else (FW_OK, Some (hb\<lparr>hb_backends := hb_backends hb @
                 [\<lparr>be_name = nm, be_tier = tier, be_handle = bh, be_reserve_bytes = reserve_bytes,
                   be_allocated_bytes = 0, be_peak_used_bytes = 0\<rparr>]\<rparr>))
      | _ \<Rightarrow> (FW_ERR_INVALID_ARG, hub))"

definition fw_mem_hub_register_pool ::
  "fw_mem_hub option \<Rightarrow> fw_mem_tier \<Rightarrow> nat option \<Rightarrow> string option \<Rightarrow> usize \<Rightarrow> fw_status \<times> fw_mem_hub option" where
  "fw_mem_hub_register_pool hub tier pool nm reserve_bytes =
     add_backend hub tier (map_option FW_BACKEND_POOL pool)
       (case nm of None \<Rightarrow> ''unnamed_pool'' | Some s \<Rightarrow> s) reserve_bytes"

definition fw_mem_hub_register_arena ::
  "fw_mem_hub option \<Rightarrow> fw_mem_tier \<Rightarrow> nat option \<Rightarrow> string option \<Rightarrow> usize \<Rightarrow> fw_status \<times> fw_mem_hub option" where
  "fw_mem_hub_register_arena hub tier arena nm reserve_bytes =
     add_backend hub tier (map_option FW_BACKEND_ARENA arena)
       (case nm of None \<Rightarrow> ''unnamed_arena'' | Some s \<Rightarrow> s) reserve_bytes"

text \<open>Counting an allocation of \<open>n\<close> bytes into a backend.\<close>

definition count_alloc :: "fw_mem_backend \<Rightarrow> usize \<Rightarrow> fw_mem_backend" where
  "count_alloc b n =
     (let used = be_allocated_bytes b + n
      in b\<lparr>be_allocated_bytes := used,
           be_peak_used_bytes := (if used > be_peak_used_bytes b then used else be_peak_used_bytes b)\<rparr>)"

definition arena_free_bytes :: "fw_arena \<Rightarrow> usize" where
  "arena_free_bytes a = (if ar_capacity a > ar_offset a then ar_capacity a - ar_offset a else 0)"

text \<open>None is the undefined behaviour of a broken pool.\<close>

definition try_alloc_from_backend ::
  "fw_mem_backend \<Rightarrow> hub_world \<Rightarrow> usize \<Rightarrow> (ptr \<times> fw_mem_backend \<times> hub_world) option" where
  "try_alloc_from_backend b w n =
     (case be_handle b of
        FW_BACKEND_POOL h \<Rightarrow>
          let pool = hw_pools w h
          in if n > po_block_size pool then Some (FW_NULL, b, w)
             else
               let free_bytes = po_free_count pool * po_block_size pool
               in if free_bytes \<le> be_reserve_bytes b \<or> free_bytes - po_block_size pool < be_reserve_bytes b
                  then Some (FW_NULL, b, w)
                  else
                    (case fw_pool_alloc (hw_mem w) (Some pool) of
                       None \<Rightarrow> None
                     | Some (p, m', pool') \<Rightarrow>
                         let w' = w\<lparr>hw_mem := m', hw_pools := (hw_pools w)(h := the pool')\<rparr>
                         in if p \<noteq> FW_NULL then Some (p, count_alloc b (po_block_size (the pool')), w')
                            else Some (FW_NULL, b, w'))
      | FW_BACKEND_ARENA h \<Rightarrow>
          let arena = hw_arenas w h; free_bytes = arena_free_bytes arena
          in if free_bytes \<le> be_reserve_bytes b \<or> n > free_bytes \<or> free_bytes - n < be_reserve_bytes b
             then Some (FW_NULL, b, w)
             else
               (case fw_arena_alloc (Some arena) n 4 of
                  (p, arena') \<Rightarrow>
                    let w' = w\<lparr>hw_arenas := (hw_arenas w)(h := the arena')\<rparr>
                    in if p \<noteq> FW_NULL then Some (p, count_alloc b n, w') else Some (FW_NULL, b, w')))"

text \<open>The inner loop: the backends of one tier in order of registration.\<close>

fun try_tier ::
  "fw_mem_tier \<Rightarrow> fw_mem_backend list \<Rightarrow> hub_world \<Rightarrow> usize \<Rightarrow> (ptr \<times> fw_mem_backend list \<times> hub_world) option" where
  "try_tier t [] w n = Some (FW_NULL, [], w)"
| "try_tier t (b # bs) w n =
     (if be_tier b = t then
        (case try_alloc_from_backend b w n of
           None \<Rightarrow> None
         | Some (p, b', w') \<Rightarrow>
             if p \<noteq> FW_NULL then Some (p, b' # bs, w')
             else map_option (\<lambda>(p, bs', w'). (p, b' # bs', w')) (try_tier t bs w' n))
      else map_option (\<lambda>(p, bs', w'). (p, b # bs', w')) (try_tier t bs w n))"

fun try_tiers ::
  "fw_mem_tier list \<Rightarrow> fw_mem_backend list \<Rightarrow> hub_world \<Rightarrow> usize \<Rightarrow> (ptr \<times> fw_mem_backend list \<times> hub_world) option" where
  "try_tiers [] bs w n = Some (FW_NULL, bs, w)"
| "try_tiers (t # ts) bs w n =
     (case try_tier t bs w n of
        None \<Rightarrow> None
      | Some (p, bs', w') \<Rightarrow> if p \<noteq> FW_NULL then Some (p, bs', w') else try_tiers ts bs' w' n)"

definition search_order :: "u32 \<Rightarrow> fw_mem_tier list" where
  "search_order hints =
     (if hints AND FW_MEM_HINT_DMA \<noteq> 0 then [FW_MEM_TIER_DMA]
      else if hints AND FW_MEM_HINT_FAST \<noteq> 0 then [FW_MEM_TIER_FAST, FW_MEM_TIER_BULK, FW_MEM_TIER_DMA]
      else [FW_MEM_TIER_BULK, FW_MEM_TIER_FAST, FW_MEM_TIER_DMA])"

definition fw_mem_hub_alloc ::
  "fw_mem_hub option \<Rightarrow> hub_world \<Rightarrow> usize \<Rightarrow> u32 \<Rightarrow> (ptr \<times> fw_mem_hub option \<times> hub_world) option" where
  "fw_mem_hub_alloc hub w n hints =
     (case hub of
        None \<Rightarrow> Some (FW_NULL, None, w)
      | Some hb \<Rightarrow>
          if n = 0 then Some (FW_NULL, hub, w)
          else
            let hb1 = hb\<lparr>hb_total_alloc_ops := hb_total_alloc_ops hb + 1\<rparr>
            in (case try_tiers (search_order hints) (hb_backends hb1) w n of
                  None \<Rightarrow> None
                | Some (p, bs', w') \<Rightarrow>
                    let hb2 = hb1\<lparr>hb_backends := bs'\<rparr>
                    in if p \<noteq> FW_NULL then Some (p, Some hb2, w')
                       else Some (FW_NULL, Some (hb2\<lparr>hb_total_rejected_ops := hb_total_rejected_ops hb2 + 1\<rparr>), w')))"

text \<open>The loop of the release: the first pool whose storage holds the pointer decides.\<close>

fun free_loop ::
  "bool \<Rightarrow> fw_mem_backend list \<Rightarrow> hub_world \<Rightarrow> ptr \<Rightarrow> (fw_status \<times> fw_mem_backend list \<times> hub_world) option" where
  "free_loop dbg [] w p = Some (FW_ERR_NOT_FOUND, [], w)"
| "free_loop dbg (b # bs) w p =
     (let next = map_option (\<lambda>(st, bs', w'). (st, b # bs', w')) (free_loop dbg bs w p)
      in case be_handle b of
           FW_BACKEND_ARENA _ \<Rightarrow> next
         | FW_BACKEND_POOL h \<Rightarrow>
             let pool = hw_pools w h
             in if po_storage pool \<le> p \<and> p < po_storage pool + po_storage_size pool then
                  (case fw_pool_free dbg (hw_mem w) (Some pool) p of
                     None \<Rightarrow> None
                   | Some (res, m', pool') \<Rightarrow>
                       let bsz = po_block_size (the pool');
                           b' = (if res = FW_OK \<and> be_allocated_bytes b \<ge> bsz
                                 then b\<lparr>be_allocated_bytes := be_allocated_bytes b - bsz\<rparr> else b)
                       in Some (res, b' # bs, w\<lparr>hw_mem := m', hw_pools := (hw_pools w)(h := the pool')\<rparr>))
                else next)"

definition fw_mem_hub_free ::
  "bool \<Rightarrow> fw_mem_hub option \<Rightarrow> hub_world \<Rightarrow> ptr \<Rightarrow> (fw_status \<times> fw_mem_hub option \<times> hub_world) option" where
  "fw_mem_hub_free dbg hub w p =
     (case hub of
        None \<Rightarrow> Some (FW_ERR_INVALID_ARG, None, w)
      | Some hb \<Rightarrow>
          if p = FW_NULL then Some (FW_ERR_INVALID_ARG, hub, w)
          else map_option (\<lambda>(st, bs', w'). (st, Some (hb\<lparr>hb_backends := bs'\<rparr>), w'))
                 (free_loop dbg (hb_backends hb) w p))"

definition backend_raw_free :: "hub_world \<Rightarrow> fw_mem_backend \<Rightarrow> usize" where
  "backend_raw_free w b =
     (case be_handle b of
        FW_BACKEND_POOL h \<Rightarrow> po_free_count (hw_pools w h) * po_block_size (hw_pools w h)
      | FW_BACKEND_ARENA h \<Rightarrow> arena_free_bytes (hw_arenas w h))"

definition fw_mem_hub_get_free_space :: "fw_mem_hub option \<Rightarrow> hub_world \<Rightarrow> fw_mem_tier \<Rightarrow> usize" where
  "fw_mem_hub_get_free_space hub w tier =
     (case hub of
        None \<Rightarrow> 0
      | Some hb \<Rightarrow>
          if tier \<ge> FW_MEM_TIER_COUNT then 0
          else fold (\<lambda>b total_free.
                 if be_tier b = tier \<and> backend_raw_free w b > be_reserve_bytes b
                 then total_free + (backend_raw_free w b - be_reserve_bytes b) else total_free) (hb_backends hb) 0)"

definition fw_mem_hub_get_total_used :: "fw_mem_hub option \<Rightarrow> usize" where
  "fw_mem_hub_get_total_used hub =
     (case hub of None \<Rightarrow> 0 | Some hb \<Rightarrow> fold (\<lambda>b used. used + be_allocated_bytes b) (hb_backends hb) 0)"

section \<open>A request takes the first backend that accepts it\<close>

definition backend_wf :: "hub_world \<Rightarrow> fw_mem_backend \<Rightarrow> bool" where
  "backend_wf w b \<longleftrightarrow>
     (case be_handle b of
        FW_BACKEND_POOL h \<Rightarrow> \<exists>fl. pool_inv (hw_mem w) (hw_pools w h) fl
      | FW_BACKEND_ARENA h \<Rightarrow> arena_wf (hw_arenas w h))"

text \<open>The free bytes of a backend as a natural number, and what alignment may cost an arena.\<close>

definition backend_free :: "hub_world \<Rightarrow> fw_mem_backend \<Rightarrow> nat" where
  "backend_free w b =
     (case be_handle b of
        FW_BACKEND_POOL h \<Rightarrow> unat (po_free_count (hw_pools w h)) * unat (po_block_size (hw_pools w h))
      | FW_BACKEND_ARENA h \<Rightarrow> unat (ar_capacity (hw_arenas w h)) - unat (ar_offset (hw_arenas w h)))"

definition backend_slack :: "fw_mem_backend \<Rightarrow> nat" where
  "backend_slack b = (case be_handle b of FW_BACKEND_POOL _ \<Rightarrow> 0 | FW_BACKEND_ARENA _ \<Rightarrow> 3)"

text \<open>A refusing backend leaves everything as it was.\<close>

lemma pool_alloc_null:
  "fw_pool_alloc m (Some p) = Some (FW_NULL, m', p') \<Longrightarrow> m' = m \<and> p' = Some p"
  by (auto simp: fw_pool_alloc_def Let_def split: if_splits option.splits)

lemma try_pool:
  assumes h: "be_handle b = FW_BACKEND_POOL h" and wf: "backend_wf w b"
  shows "\<exists>p b' w'. try_alloc_from_backend b w n = Some (p, b', w')
    \<and> (if p = FW_NULL then b' = b \<and> w' = w
       else b' = count_alloc b (po_block_size (hw_pools w h)) \<and> unat (be_reserve_bytes b) \<le> backend_free w' b)"
proof -
  let ?p = "hw_pools w h"
  obtain fl where inv: "pool_inv (hw_mem w) ?p fl" using wf by (auto simp: backend_wf_def h)
  note g = pool_invD(1) [OF inv]
  have len: "unat (po_free_count ?p) = length fl" by (rule pool_invD(4) [OF inv])
  have "length fl = card (set fl)" using pool_invD(2) [OF inv] by (simp add: distinct_card)
  also have "\<dots> \<le> card {..<unat (po_capacity ?p)}"
    using pool_invD(3) [OF inv] by (intro card_mono) auto
  finally have "length fl * unat (po_block_size ?p) \<le> unat (po_capacity ?p) * unat (po_block_size ?p)"
    by (intro mult_le_mono1) simp
  then have "length fl * unat (po_block_size ?p) < 2 ^ 32" using pool_geomD(4) [OF g] by linarith
  then have free: "unat (po_free_count ?p * po_block_size ?p) = length fl * unat (po_block_size ?p)"
    by (simp add: unat_word_ariths len)
  let ?free = "po_free_count ?p * po_block_size ?p"
  let ?refuse = "n > po_block_size ?p \<or> ?free \<le> be_reserve_bytes b \<or> ?free - po_block_size ?p < be_reserve_bytes b"
  show ?thesis
  proof (cases "?refuse")
    case True
    then have "try_alloc_from_backend b w n = Some (FW_NULL, b, w)"
      by (auto simp: try_alloc_from_backend_def h Let_def)
    then show ?thesis by simp
  next
    case False
    then have "length fl \<noteq> 0" using free by (auto simp: word_le_nat_alt)
    then obtain i fl' where fl: "fl = i # fl'" by (cases fl) auto
    let ?p' = "?p\<lparr>po_free_list := load32 (hw_mem w) (block_addr ?p i), po_free_count := po_free_count ?p - 1\<rparr>"
    obtain m' where m': "fw_pool_alloc (hw_mem w) (Some ?p) = Some (block_addr ?p i, m', Some ?p')"
      using pool_alloc_cons(1) [OF inv [unfolded fl]] by blast
    have nn: "block_addr ?p i \<noteq> FW_NULL"
      using unat_block_addr(4) [OF g pool_invD(3) [OF inv]] fl by simp
    let ?w' = "w\<lparr>hw_mem := m', hw_pools := (hw_pools w)(h := ?p')\<rparr>"
    have t: "try_alloc_from_backend b w n = Some (block_addr ?p i, count_alloc b (po_block_size ?p), ?w')"
      using False m' nn by (simp add: try_alloc_from_backend_def h Let_def)
    have le: "po_block_size ?p \<le> ?free" using free fl by (simp add: word_le_nat_alt)
    have "unat (po_free_count ?p - 1) = length fl'"
      using len fl by (subst unat_sub_le) (simp_all add: word_le_nat_alt)
    then have "backend_free ?w' b = length fl' * unat (po_block_size ?p)" by (simp add: backend_free_def h)
    also have "\<dots> = unat (?free - po_block_size ?p)" using free fl by (simp add: unat_sub_le [OF le])
    finally show ?thesis using False t nn by (simp add: word_le_nat_alt not_less)
  qed
qed

lemma try_arena:
  assumes h: "be_handle b = FW_BACKEND_ARENA h" and wf: "backend_wf w b" and n: "n \<noteq> 0"
  shows "\<exists>p b' w'. try_alloc_from_backend b w n = Some (p, b', w')
    \<and> (if p = FW_NULL then b' = b \<and> w' = w
       else b' = count_alloc b n \<and> unat (be_reserve_bytes b) \<le> backend_free w' b + 3)"
proof -
  let ?a = "hw_arenas w h"
  have awf: "arena_wf ?a" using wf by (simp add: backend_wf_def h)
  have off: "unat (ar_offset ?a) \<le> unat (ar_capacity ?a)" using awf by (auto simp: arena_wf_def word_le_nat_alt)
  let ?free = "arena_free_bytes ?a"
  have free: "unat ?free = unat (ar_capacity ?a) - unat (ar_offset ?a)"
    using off by (auto simp: arena_free_bytes_def unat_sub_le word_le_nat_alt not_less)
  show ?thesis
  proof (cases "?free \<le> be_reserve_bytes b \<or> n > ?free \<or> ?free - n < be_reserve_bytes b")
    case True
    then have "try_alloc_from_backend b w n = Some (FW_NULL, b, w)"
      by (simp add: try_alloc_from_backend_def h Let_def)
    then show ?thesis by simp
  next
    case False
    obtain p ao where r: "fw_arena_alloc (Some ?a) n 4 = (p, ao)" by (cases "fw_arena_alloc (Some ?a) n 4")
    then obtain a' where ao: "ao = Some a'" by (auto simp: fw_arena_alloc_def Let_def split: if_splits)
    let ?w' = "w\<lparr>hw_arenas := (hw_arenas w)(h := a')\<rparr>"
    have t: "try_alloc_from_backend b w n = Some (if p \<noteq> FW_NULL then (p, count_alloc b n, ?w') else (FW_NULL, b, ?w'))"
      using False r ao by (simp add: try_alloc_from_backend_def h Let_def)
    show ?thesis
    proof (cases "p = FW_NULL")
      case True
      then have "a' = ?a" using arena_alloc_null [OF awf] r ao by simp
      then show ?thesis using t True by simp
    next
      case nn: False
      obtain k where k: "eff_align 4 = 2 ^ k" "k < 32"
          "unat p < unat (ar_buffer ?a) + unat (ar_offset ?a) + 2 ^ k"
          "unat (ar_offset a') = unat p - unat (ar_buffer ?a) + unat n" "unat (ar_offset a') \<le> unat (ar_capacity ?a)"
          "unat (ar_buffer ?a) + unat (ar_offset ?a) \<le> unat p"
          "a' = ?a\<lparr>ar_offset := ar_offset a', ar_peak_used := max (ar_offset a') (ar_peak_used ?a)\<rparr>"
        using arena_alloc_success [OF awf r [unfolded ao] nn] by metis
      have cap: "ar_capacity a' = ar_capacity ?a" by (subst k(7), simp)
      have "unat ((2 :: usize) ^ k) = 2 ^ k" by (rule unat_pow2) (use k(2) in simp)
      then have "(2 :: nat) ^ k = 4" using k(1) by (simp add: eff_align_def flip: k(1))
      then have "unat (ar_offset a') \<le> unat (ar_offset ?a) + unat n + 3" using k(3,4,6) by linarith
      moreover have "unat (?free - n) = unat ?free - unat n" using False by (intro unat_sub_le) (simp add: not_less)
      then have "unat (be_reserve_bytes b) \<le> unat ?free - unat n" using False by (simp add: word_le_nat_alt not_less)
      moreover have "unat n \<le> unat ?free" using False by (simp add: word_le_nat_alt not_less)
      ultimately have "unat (be_reserve_bytes b) \<le> unat (ar_capacity ?a) - unat (ar_offset a') + 3"
        using free k(5) by linarith
      then show ?thesis using t nn by (simp add: backend_free_def h cap)
    qed
  qed
qed

text \<open>Whether a backend gives memory for a request.\<close>

definition accepts :: "hub_world \<Rightarrow> usize \<Rightarrow> fw_mem_backend \<Rightarrow> bool" where
  "accepts w n b \<longleftrightarrow>
     (case try_alloc_from_backend b w n of None \<Rightarrow> False | Some (p, _, _) \<Rightarrow> p \<noteq> FW_NULL)"

lemma try_alloc_cases:
  assumes "backend_wf w b" and "n \<noteq> 0"
  shows "\<not> accepts w n b \<Longrightarrow> try_alloc_from_backend b w n = Some (FW_NULL, b, w)"
    and "accepts w n b \<Longrightarrow> \<exists>p b' w'. try_alloc_from_backend b w n = Some (p, b', w') \<and> p \<noteq> FW_NULL
      \<and> unat (be_reserve_bytes b) \<le> backend_free w' b + backend_slack b"
proof -
  obtain p b' w' where t: "try_alloc_from_backend b w n = Some (p, b', w')"
      "if p = FW_NULL then b' = b \<and> w' = w else unat (be_reserve_bytes b) \<le> backend_free w' b + backend_slack b"
  proof (cases "be_handle b")
    case (FW_BACKEND_POOL h)
    then show ?thesis using try_pool [OF FW_BACKEND_POOL assms(1), of n] that by (auto simp: backend_slack_def split: if_splits)
  next
    case (FW_BACKEND_ARENA h)
    then show ?thesis using try_arena [OF FW_BACKEND_ARENA assms] that by (auto simp: backend_slack_def split: if_splits)
  qed
  show "\<not> accepts w n b \<Longrightarrow> try_alloc_from_backend b w n = Some (FW_NULL, b, w)"
    using t by (auto simp: accepts_def split: if_splits)
  show "accepts w n b \<Longrightarrow> \<exists>p b' w'. try_alloc_from_backend b w n = Some (p, b', w') \<and> p \<noteq> FW_NULL
      \<and> unat (be_reserve_bytes b) \<le> backend_free w' b + backend_slack b"
    using t by (auto simp: accepts_def split: if_splits)
qed

definition hub_wf :: "hub_world \<Rightarrow> fw_mem_hub \<Rightarrow> bool" where
  "hub_wf w hb \<longleftrightarrow> (\<forall>b\<in>set (hb_backends hb). backend_wf w b)"

lemma try_tier_find:
  assumes "\<forall>b\<in>set bs. backend_wf w b" and "n \<noteq> 0"
  shows "try_tier t bs w n =
    (case find_idx (\<lambda>b. be_tier b = t \<and> accepts w n b) bs of
       None \<Rightarrow> Some (FW_NULL, bs, w)
     | Some i \<Rightarrow> map_option (\<lambda>(p, b', w'). (p, bs[i := b'], w')) (try_alloc_from_backend (bs ! i) w n))"
  using assms(1)
proof (induction bs)
  case (Cons b bs)
  then have wf: "backend_wf w b" and IH: "try_tier t bs w n =
    (case find_idx (\<lambda>b. be_tier b = t \<and> accepts w n b) bs of
       None \<Rightarrow> Some (FW_NULL, bs, w)
     | Some i \<Rightarrow> map_option (\<lambda>(p, b', w'). (p, bs[i := b'], w')) (try_alloc_from_backend (bs ! i) w n))"
    by simp_all
  show ?case
  proof (cases "be_tier b = t \<and> accepts w n b")
    case True
    then obtain p b' w' where "try_alloc_from_backend b w n = Some (p, b', w')" "p \<noteq> FW_NULL"
      using try_alloc_cases(2) [OF wf assms(2)] by blast
    with True show ?thesis by simp
  next
    case False
    then have "try_tier t (b # bs) w n = map_option (\<lambda>(p, bs', w'). (p, b # bs', w')) (try_tier t bs w n)"
      using try_alloc_cases(1) [OF wf assms(2)] by auto
    then show ?thesis
      using False IH by (auto simp: option.map_comp comp_def case_prod_unfold split: option.splits)
  qed
qed simp

text \<open>No backend of the tiers gives memory, or the first one that does is found.\<close>

definition tiers_refuse :: "hub_world \<Rightarrow> usize \<Rightarrow> fw_mem_tier list \<Rightarrow> fw_mem_backend list \<Rightarrow> bool" where
  "tiers_refuse w n ts bs \<longleftrightarrow> list_all (\<lambda>b. be_tier b \<in> set ts \<longrightarrow> \<not> accepts w n b) bs"

lemma tiers_refuse_Cons:
  "tiers_refuse w n (t # ts) bs \<longleftrightarrow> find_idx (\<lambda>b. be_tier b = t \<and> accepts w n b) bs = None \<and> tiers_refuse w n ts bs"
  by (auto simp: tiers_refuse_def find_idx_None_iff list_all_iff)

lemma try_tiers_find:
  assumes "\<forall>b\<in>set bs. backend_wf w b" and "n \<noteq> 0"
  shows "tiers_refuse w n ts bs \<and> try_tiers ts bs w n = Some (FW_NULL, bs, w)
    \<or> (\<exists>us t vs i p b' w'. ts = us @ t # vs \<and> tiers_refuse w n us bs
        \<and> find_idx (\<lambda>b. be_tier b = t \<and> accepts w n b) bs = Some i
        \<and> try_alloc_from_backend (bs ! i) w n = Some (p, b', w') \<and> p \<noteq> FW_NULL
        \<and> unat (be_reserve_bytes (bs ! i)) \<le> backend_free w' (bs ! i) + backend_slack (bs ! i)
        \<and> try_tiers ts bs w n = Some (p, bs[i := b'], w'))"
proof (induction ts)
  case Nil
  then show ?case by (simp add: tiers_refuse_def list_all_iff)
next
  case (Cons t ts)
  show ?case
  proof (cases "find_idx (\<lambda>b. be_tier b = t \<and> accepts w n b) bs")
    case None
    have tt: "try_tiers (t # ts) bs w n = try_tiers ts bs w n"
      using try_tier_find [OF assms, of t] None by simp
    from Cons.IH show ?thesis
    proof (elim disjE exE conjE)
      assume "tiers_refuse w n ts bs" "try_tiers ts bs w n = Some (FW_NULL, bs, w)"
      then show ?thesis using tt None by (simp add: tiers_refuse_Cons)
    next
      fix us t' vs i p b' w'
      assume "ts = us @ t' # vs" "tiers_refuse w n us bs" and rest:
        "find_idx (\<lambda>b. be_tier b = t' \<and> accepts w n b) bs = Some i"
        "try_alloc_from_backend (bs ! i) w n = Some (p, b', w')" "p \<noteq> FW_NULL"
        "unat (be_reserve_bytes (bs ! i)) \<le> backend_free w' (bs ! i) + backend_slack (bs ! i)"
        "try_tiers ts bs w n = Some (p, bs[i := b'], w')"
      then have "t # ts = (t # us) @ t' # vs" "tiers_refuse w n (t # us) bs"
        using None by (simp_all add: tiers_refuse_Cons)
      moreover have "try_tiers (t # ts) bs w n = Some (p, bs[i := b'], w')" using tt rest(5) by simp
      ultimately show ?thesis using rest(1-4) by (intro disjI2 exI conjI)
    qed
  next
    case (Some i)
    then have i: "i < length bs" "accepts w n (bs ! i)" using find_idx_SomeD [OF Some] by auto
    then obtain p b' w' where p: "try_alloc_from_backend (bs ! i) w n = Some (p, b', w')" "p \<noteq> FW_NULL"
        "unat (be_reserve_bytes (bs ! i)) \<le> backend_free w' (bs ! i) + backend_slack (bs ! i)"
      using try_alloc_cases(2) [OF _ assms(2), of w "bs ! i"] assms(1) by auto
    then have "try_tiers (t # ts) bs w n = Some (p, bs[i := b'], w')"
      using try_tier_find [OF assms, of t] Some by simp
    moreover have "tiers_refuse w n [] bs" by (simp add: tiers_refuse_def list_all_iff)
    moreover have "t # ts = [] @ t # ts" by simp
    ultimately show ?thesis using p Some by (intro disjI2 exI conjI)
  qed
qed

text \<open>C34: a request on a hub of well-formed allocators always returns; it takes the block from the first
  accepting backend in the tier order of the hints, changes only that backend and its allocator, and
  leaves the reserve of the backend free (an arena may lose up to three bytes of it to alignment); when
  every backend of these tiers refuses, nothing but the two counters changes.\<close>

theorem hub_alloc_first_fit:
  assumes "hub_wf w hb" and "n \<noteq> 0"
  shows "\<exists>p hb' w'. fw_mem_hub_alloc (Some hb) w n hints = Some (p, Some hb', w')
    \<and> (if p = FW_NULL then tiers_refuse w n (search_order hints) (hb_backends hb) \<and> w' = w
         \<and> hb' = hb\<lparr>hb_total_alloc_ops := hb_total_alloc_ops hb + 1, hb_total_rejected_ops := hb_total_rejected_ops hb + 1\<rparr>
       else \<exists>us t vs i b'. search_order hints = us @ t # vs \<and> tiers_refuse w n us (hb_backends hb)
         \<and> find_idx (\<lambda>b. be_tier b = t \<and> accepts w n b) (hb_backends hb) = Some i
         \<and> try_alloc_from_backend (hb_backends hb ! i) w n = Some (p, b', w')
         \<and> unat (be_reserve_bytes (hb_backends hb ! i)) \<le> backend_free w' (hb_backends hb ! i) + backend_slack (hb_backends hb ! i)
         \<and> hb' = hb\<lparr>hb_total_alloc_ops := hb_total_alloc_ops hb + 1, hb_backends := (hb_backends hb)[i := b']\<rparr>)"
proof -
  have wf: "\<forall>b\<in>set (hb_backends hb). backend_wf w b" using assms(1) by (simp add: hub_wf_def)
  from try_tiers_find [OF wf assms(2), of "search_order hints"] show ?thesis
  proof (elim disjE exE conjE)
    assume "tiers_refuse w n (search_order hints) (hb_backends hb)"
      "try_tiers (search_order hints) (hb_backends hb) w n = Some (FW_NULL, hb_backends hb, w)"
    then show ?thesis using assms(2) by (simp add: fw_mem_hub_alloc_def Let_def)
  next
    fix us t vs i p b' w'
    assume a: "search_order hints = us @ t # vs" "tiers_refuse w n us (hb_backends hb)"
      "find_idx (\<lambda>b. be_tier b = t \<and> accepts w n b) (hb_backends hb) = Some i"
      "try_alloc_from_backend (hb_backends hb ! i) w n = Some (p, b', w')" "p \<noteq> FW_NULL"
      "unat (be_reserve_bytes (hb_backends hb ! i)) \<le> backend_free w' (hb_backends hb ! i) + backend_slack (hb_backends hb ! i)"
      "try_tiers (search_order hints) (hb_backends hb) w n = Some (p, (hb_backends hb)[i := b'], w')"
    let ?hb = "hb\<lparr>hb_total_alloc_ops := hb_total_alloc_ops hb + 1, hb_backends := (hb_backends hb)[i := b']\<rparr>"
    have "fw_mem_hub_alloc (Some hb) w n hints = Some (p, Some ?hb, w')"
      using a(5,7) assms(2) by (simp add: fw_mem_hub_alloc_def Let_def)
    then show ?thesis
      by (intro exI [of _ p] exI [of _ ?hb] exI [of _ w'] conjI, assumption, subst if_not_P [OF a(5)])
        (rule exI [of _ us], rule exI [of _ t], rule exI [of _ vs], rule exI [of _ i], rule exI [of _ b'], intro conjI a(1-4,6) refl)
  qed
qed

text \<open>One arena of 64 bytes in bulk memory with a reserve of eight.\<close>

definition sample_backend :: fw_mem_backend where
  "sample_backend = \<lparr>be_name = ''heap'', be_tier = FW_MEM_TIER_BULK, be_handle = FW_BACKEND_ARENA 0,
     be_reserve_bytes = 8, be_allocated_bytes = 0, be_peak_used_bytes = 0\<rparr>"

definition sample_hub :: fw_mem_hub where
  "sample_hub = \<lparr>hb_backends = [sample_backend], hb_total_alloc_ops = 0, hb_total_rejected_ops = 0\<rparr>"

definition sample_world :: hub_world where
  "sample_world = \<lparr>hw_mem = (\<lambda>_. 0),
     hw_pools = (\<lambda>_. \<lparr>po_storage = 0, po_storage_size = 0, po_block_size = 0, po_alignment = 0, po_capacity = 0,
       po_free_count = 0, po_free_list = 0, po_alloc_bitmap = 0, po_block_shift = 0\<rparr>),
     hw_arenas = (\<lambda>_. \<lparr>ar_buffer = 1024, ar_capacity = 64, ar_offset = 0, ar_peak_used = 0\<rparr>)\<rparr>"

theorem hub_alloc_first_fit_witness:
  "\<exists>hb' w'. fw_mem_hub_alloc (Some sample_hub) sample_world 10 0 = Some (1024, Some hb', w')
    \<and> 8 \<le> backend_free w' sample_backend + 3 \<and> hb_total_alloc_ops hb' = 1"
proof -
  have wf: "hub_wf sample_world sample_hub"
    by (simp add: hub_wf_def sample_hub_def sample_backend_def sample_world_def backend_wf_def arena_wf_def nowrap_def)
  obtain b' w' where t: "try_alloc_from_backend sample_backend sample_world 10 = Some (1024, b', w')"
    by (simp add: try_alloc_from_backend_def sample_backend_def sample_world_def Let_def arena_free_bytes_def
        fw_arena_alloc_def align_up_def)
  then have acc: "accepts sample_world 10 sample_backend" by (simp add: accepts_def)
  have so: "search_order 0 = [FW_MEM_TIER_BULK, FW_MEM_TIER_FAST, FW_MEM_TIER_DMA]" by (simp add: search_order_def)
  have no: "\<not> tiers_refuse sample_world 10 (search_order 0) (hb_backends sample_hub)"
    using acc by (simp add: tiers_refuse_def so sample_hub_def sample_backend_def)
  obtain p hb' w1 i b1 where r: "fw_mem_hub_alloc (Some sample_hub) sample_world 10 0 = Some (p, Some hb', w1)"
      "i < length (hb_backends sample_hub)"
      "try_alloc_from_backend (hb_backends sample_hub ! i) sample_world 10 = Some (p, b1, w1)"
      "unat (be_reserve_bytes (hb_backends sample_hub ! i)) \<le> backend_free w1 (hb_backends sample_hub ! i)
         + backend_slack (hb_backends sample_hub ! i)"
      "hb_total_alloc_ops hb' = 1"
    using hub_alloc_first_fit [OF wf, of 10 0] no
    by (auto simp: sample_hub_def split: if_splits dest!: find_idx_SomeD)
  then have i: "hb_backends sample_hub ! i = sample_backend" by (simp add: sample_hub_def)
  show ?thesis using r t unfolding i by (auto simp: sample_backend_def backend_slack_def)
qed

end
