(* ===== verification/Sha256.thy ===== *)
theory Sha256
  imports Memory
begin

text \<open>
  The hash of \<^verbatim>\<open>sha256.h\<close> and \<^verbatim>\<open>sha256.c\<close>: context, block function and streaming interface, with the
  arrays of the context as lists.  The reference is the definition of FIPS 180-4: padding, message
  schedule as a recursive function, and the rounds with rotations.
\<close>

unbundle bit_operations_syntax

record fw_sha256_ctx =
  sha_state :: "u32 list"
  sha_bit_count :: u64
  sha_buffer :: "u8 list"

section \<open>The block function\<close>

definition ROTR :: "u32 \<Rightarrow> nat \<Rightarrow> u32" where
  "ROTR x n = drop_bit n x OR push_bit (32 - n) x"

definition CH :: "u32 \<Rightarrow> u32 \<Rightarrow> u32 \<Rightarrow> u32" where
  "CH x y z = (x AND y) XOR (NOT x AND z)"

definition MAJ :: "u32 \<Rightarrow> u32 \<Rightarrow> u32 \<Rightarrow> u32" where
  "MAJ x y z = (x AND y) XOR (x AND z) XOR (y AND z)"

definition SIGMA0 :: "u32 \<Rightarrow> u32" where "SIGMA0 x = ROTR x 2 XOR ROTR x 13 XOR ROTR x 22"
definition SIGMA1 :: "u32 \<Rightarrow> u32" where "SIGMA1 x = ROTR x 6 XOR ROTR x 11 XOR ROTR x 25"
definition sigma0 :: "u32 \<Rightarrow> u32" where "sigma0 x = ROTR x 7 XOR ROTR x 18 XOR drop_bit 3 x"
definition sigma1 :: "u32 \<Rightarrow> u32" where "sigma1 x = ROTR x 17 XOR ROTR x 19 XOR drop_bit 10 x"

text \<open>The round constants, by the rows of the table in the source.\<close>

definition sha_K :: "u32 list" where
  "sha_K = concat [
    [0x428a2f98, 0x71374491, 0xb5c0fbcf, 0xe9b5dba5, 0x3956c25b, 0x59f111f1, 0x923f82a4, 0xab1c5ed5],
    [0xd807aa98, 0x12835b01, 0x243185be, 0x550c7dc3, 0x72be5d74, 0x80deb1fe, 0x9bdc06a7, 0xc19bf174],
    [0xe49b69c1, 0xefbe4786, 0x0fc19dc6, 0x240ca1cc, 0x2de92c6f, 0x4a7484aa, 0x5cb0a9dc, 0x76f988da],
    [0x983e5152, 0xa831c66d, 0xb00327c8, 0xbf597fc7, 0xc6e00bf3, 0xd5a79147, 0x06ca6351, 0x14292967],
    [0x27b70a85, 0x2e1b2138, 0x4d2c6dfc, 0x53380d13, 0x650a7354, 0x766a0abb, 0x81c2c92e, 0x92722c85],
    [0xa2bfe8a1, 0xa81a664b, 0xc24b8b70, 0xc76c51a3, 0xd192e819, 0xd6990624, 0xf40e3585, 0x106aa070],
    [0x19a4c116, 0x1e376c08, 0x2748774c, 0x34b0bcb5, 0x391c0cb3, 0x4ed8aa4a, 0x5b9cca4f, 0x682e6ff3],
    [0x748f82ee, 0x78a5636f, 0x84c87814, 0x8cc70208, 0x90befffa, 0xa4506ceb, 0xbef9a3f7, 0xc67178f2]]"

definition load_be32 :: "u8 list \<Rightarrow> nat \<Rightarrow> u32" where
  "load_be32 bs i = push_bit 24 (ucast (bs ! i)) OR push_bit 16 (ucast (bs ! (i + 1)))
     OR push_bit 8 (ucast (bs ! (i + 2))) OR ucast (bs ! (i + 3))"

text \<open>The schedule array grows by one word per turn; \<open>k\<close> turns are left.\<close>

fun schedule_loop :: "u32 list \<Rightarrow> nat \<Rightarrow> u32 list" where
  "schedule_loop W 0 = W"
| "schedule_loop W (Suc k) =
     (let i = length W
      in schedule_loop (W @ [sigma1 (W ! (i - 2)) + W ! (i - 7) + sigma0 (W ! (i - 15)) + W ! (i - 16)]) k)"

type_synonym sha_vars = "u32 \<times> u32 \<times> u32 \<times> u32 \<times> u32 \<times> u32 \<times> u32 \<times> u32"

fun sha_round :: "u32 \<Rightarrow> u32 \<Rightarrow> sha_vars \<Rightarrow> sha_vars" where
  "sha_round k w (a, b, c, d, e, f, g, h) =
     (let T1 = h + SIGMA1 e + CH e f g + k + w;
          T2 = SIGMA0 a + MAJ a b c
      in (T1 + T2, a, b, c, d + T1, e, f, g))"

fun round_loop :: "u32 list \<Rightarrow> u32 list \<Rightarrow> sha_vars \<Rightarrow> sha_vars" where
  "round_loop (k # ks) (w # ws) v = round_loop ks ws (sha_round k w v)"
| "round_loop _ _ v = v"

definition sha256_transform :: "u32 list \<Rightarrow> u8 list \<Rightarrow> u32 list" where
  "sha256_transform state data =
     (let W = schedule_loop (map (\<lambda>i. load_be32 data (i * 4)) [0..<16]) 48
      in case round_loop sha_K W (state ! 0, state ! 1, state ! 2, state ! 3, state ! 4, state ! 5, state ! 6, state ! 7) of
           (a, b, c, d, e, f, g, h) \<Rightarrow>
             [state ! 0 + a, state ! 1 + b, state ! 2 + c, state ! 3 + d,
              state ! 4 + e, state ! 5 + f, state ! 6 + g, state ! 7 + h])"

section \<open>Streaming\<close>

definition FW_SHA256_BLOCK_SIZE :: nat where "FW_SHA256_BLOCK_SIZE = 64"
definition FW_SHA256_DIGEST_SIZE :: nat where "FW_SHA256_DIGEST_SIZE = 32"

definition fw_sha256_init :: "fw_sha256_ctx option \<Rightarrow> fw_sha256_ctx option" where
  "fw_sha256_init ctx =
     map_option (\<lambda>c. c\<lparr>sha_state := [0x6a09e667, 0xbb67ae85, 0x3c6ef372, 0xa54ff53a,
                                     0x510e527f, 0x9b05688c, 0x1f83d9ab, 0x5be0cd19],
                      sha_bit_count := 0\<rparr>) ctx"

text \<open>\<^verbatim>\<open>memcpy\<close> into the buffer at an index.\<close>

definition put_at :: "u8 list \<Rightarrow> nat \<Rightarrow> u8 list \<Rightarrow> u8 list" where
  "put_at buf i bs = take i buf @ bs @ drop (i + length bs) buf"

text \<open>The loop over the bytes not yet consumed.\<close>

partial_function (option) update_loop :: "u32 list \<Rightarrow> u8 list \<Rightarrow> nat \<Rightarrow> u8 list \<Rightarrow> (u32 list \<times> u8 list) option" where
  "update_loop state buffer buffer_idx p =
     (if length p > 0 then
        let to_copy = min (FW_SHA256_BLOCK_SIZE - buffer_idx) (length p);
            buffer' = put_at buffer buffer_idx (take to_copy p);
            idx' = buffer_idx + to_copy
        in if idx' = FW_SHA256_BLOCK_SIZE
           then update_loop (sha256_transform state buffer') buffer' 0 (drop to_copy p)
           else update_loop state buffer' idx' (drop to_copy p)
      else Some (state, buffer))"

definition fw_sha256_update ::
  "mem \<Rightarrow> fw_sha256_ctx option \<Rightarrow> ptr \<Rightarrow> usize \<Rightarrow> fw_sha256_ctx option option" where
  "fw_sha256_update m ctx data len =
     (case ctx of
        None \<Rightarrow> Some None
      | Some c \<Rightarrow>
          if data = FW_NULL \<or> len = 0 then Some ctx
          else
            let buffer_idx = unat (sha_bit_count c div 8) mod FW_SHA256_BLOCK_SIZE
            in (case update_loop (sha_state c) (sha_buffer c) buffer_idx (mem_read m data (unat len)) of
                  None \<Rightarrow> None
                | Some (state', buffer') \<Rightarrow>
                    Some (Some (c\<lparr>sha_state := state', sha_bit_count := sha_bit_count c + ucast len * 8,
                                  sha_buffer := buffer'\<rparr>))))"

definition be32 :: "u32 \<Rightarrow> u8 list" where
  "be32 v = [ucast (drop_bit 24 v), ucast (drop_bit 16 v), ucast (drop_bit 8 v), ucast v]"

definition be64 :: "u64 \<Rightarrow> u8 list" where
  "be64 v = map (\<lambda>i. ucast (drop_bit (56 - i * 8) v)) [0..<8]"

definition fw_sha256_final :: "mem \<Rightarrow> fw_sha256_ctx option \<Rightarrow> ptr \<Rightarrow> mem \<times> fw_sha256_ctx option" where
  "fw_sha256_final m ctx digest =
     (case ctx of
        None \<Rightarrow> (m, None)
      | Some c \<Rightarrow>
          if digest = FW_NULL then (m, ctx)
          else
            let idx = unat (sha_bit_count c div 8) mod FW_SHA256_BLOCK_SIZE;
                buf = (sha_buffer c)[idx := 0x80];
                (state, buf, idx) =
                  (if idx + 1 > 56
                   then let buf = put_at buf (idx + 1) (replicate (FW_SHA256_BLOCK_SIZE - (idx + 1)) 0)
                        in (sha256_transform (sha_state c) buf, buf, 0)
                   else (sha_state c, buf, idx + 1));
                buf = put_at buf idx (replicate (56 - idx) 0);
                buf = put_at buf 56 (be64 (sha_bit_count c));
                state = sha256_transform state buf
            in (mem_write m digest (concat (map be32 state)), Some (c\<lparr>sha_state := state, sha_buffer := buf\<rparr>)))"

text \<open>The context on the stack starts with indeterminate contents \<open>junk\<close>.\<close>

definition fw_sha256_digest :: "fw_sha256_ctx \<Rightarrow> mem \<Rightarrow> ptr \<Rightarrow> usize \<Rightarrow> ptr \<Rightarrow> mem option" where
  "fw_sha256_digest junk m data len digest =
     (case fw_sha256_update m (fw_sha256_init (Some junk)) data len of
        None \<Rightarrow> None
      | Some ctx \<Rightarrow> Some (fst (fw_sha256_final m ctx digest)))"

section \<open>FIPS 180-4\<close>

definition fips_S0 :: "u32 \<Rightarrow> u32" where "fips_S0 x = word_rotr 2 x XOR word_rotr 13 x XOR word_rotr 22 x"
definition fips_S1 :: "u32 \<Rightarrow> u32" where "fips_S1 x = word_rotr 6 x XOR word_rotr 11 x XOR word_rotr 25 x"
definition fips_s0 :: "u32 \<Rightarrow> u32" where "fips_s0 x = word_rotr 7 x XOR word_rotr 18 x XOR drop_bit 3 x"
definition fips_s1 :: "u32 \<Rightarrow> u32" where "fips_s1 x = word_rotr 17 x XOR word_rotr 19 x XOR drop_bit 10 x"

text \<open>The message schedule of a block, as the recursive definition of the standard.\<close>

fun fips_W :: "u8 list \<Rightarrow> nat \<Rightarrow> u32" where
  "fips_W M t =
     (if t < 16 then load_be32 M (4 * t)
      else fips_s1 (fips_W M (t - 2)) + fips_W M (t - 7) + fips_s0 (fips_W M (t - 15)) + fips_W M (t - 16))"

declare fips_W.simps [simp del]

definition fips_round :: "u8 list \<Rightarrow> nat \<Rightarrow> sha_vars \<Rightarrow> sha_vars" where
  "fips_round M t v =
     (case v of (a, b, c, d, e, f, g, h) \<Rightarrow>
        let T1 = h + fips_S1 e + CH e f g + sha_K ! t + fips_W M t;
            T2 = fips_S0 a + MAJ a b c
        in (T1 + T2, a, b, c, d + T1, e, f, g))"

definition fips_compress :: "u8 list \<Rightarrow> u32 list \<Rightarrow> u32 list" where
  "fips_compress M H =
     (case fold (fips_round M) [0..<64] (H ! 0, H ! 1, H ! 2, H ! 3, H ! 4, H ! 5, H ! 6, H ! 7) of
        (a, b, c, d, e, f, g, h) \<Rightarrow>
          [a + H ! 0, b + H ! 1, c + H ! 2, d + H ! 3, e + H ! 4, f + H ! 5, g + H ! 6, h + H ! 7])"

definition fips_pad :: "u8 list \<Rightarrow> u8 list" where
  "fips_pad msg = msg @ 0x80 # replicate ((119 - length msg mod 64) mod 64) 0 @ be64 (of_nat (8 * length msg))"

definition fips_H0 :: "u32 list" where
  "fips_H0 = [0x6a09e667, 0xbb67ae85, 0x3c6ef372, 0xa54ff53a, 0x510e527f, 0x9b05688c, 0x1f83d9ab, 0x5be0cd19]"

definition fips_block :: "u8 list \<Rightarrow> nat \<Rightarrow> u8 list" where
  "fips_block bs i = take 64 (drop (64 * i) bs)"

definition fips_sha256 :: "u8 list \<Rightarrow> u8 list" where
  "fips_sha256 msg =
     (let P = fips_pad msg
      in concat (map be32 (fold (\<lambda>i. fips_compress (fips_block P i)) [0..<length P div 64] fips_H0)))"

section \<open>The block function is the compression of the standard\<close>

lemma ROTR_rotr: "n < 32 \<Longrightarrow> 0 < n \<Longrightarrow> ROTR x n = word_rotr n x"
proof (rule bit_word_eqI)
  fix i assume n: "n < 32" "0 < n" and "i < LENGTH(32)"
  then have i: "i < 32" by simp
  have "bit (ROTR x n) i \<longleftrightarrow> bit x (n + i) \<or> 32 - n \<le> i \<and> bit x (i - (32 - n))"
    using i by (simp add: ROTR_def bit_simps)
  also have "\<dots> \<longleftrightarrow> bit x ((i + n) mod 32)"
  proof (cases "i + n < 32")
    case True
    then show ?thesis using n by (auto simp: add.commute)
  next
    case False
    then have "\<not> bit x (n + i)" by (auto dest: bit_imp_le_length)
    moreover have "(i + n) mod 32 = i - (32 - n)" using False i n by (subst mod_if, subst mod_if) simp
    ultimately show ?thesis using False n by auto
  qed
  finally show "bit (ROTR x n) i = bit (word_rotr n x) i"
    using i by (simp add: bit_word_rotr_iff)
qed

lemma sigmas: "SIGMA0 = fips_S0" "SIGMA1 = fips_S1" "sigma0 = fips_s0" "sigma1 = fips_s1"
  by (simp_all add: fun_eq_iff SIGMA0_def SIGMA1_def sigma0_def sigma1_def fips_S0_def fips_S1_def fips_s0_def fips_s1_def ROTR_rotr)

lemma schedule_loop_W:
  "16 \<le> n \<Longrightarrow> schedule_loop (map (fips_W M) [0..<n]) k = map (fips_W M) [0..<n + k]"
proof (induction k arbitrary: n)
  case (Suc k)
  have "schedule_loop (map (fips_W M) [0..<n]) (Suc k) = schedule_loop (map (fips_W M) [0..<Suc n]) k"
    using Suc.prems fips_W.simps [of M n] by (simp add: Let_def sigmas)
  then show ?case using Suc.IH [of "Suc n"] Suc.prems by simp
qed simp

lemma round_loop_fold:
  "length ks = length ws \<Longrightarrow> round_loop ks ws v = fold (\<lambda>(k, w). sha_round k w) (zip ks ws) v"
  by (induction ks ws arbitrary: v rule: list_induct2) simp_all

lemma length_K: "length sha_K = 64"
  by (simp add: sha_K_def)

lemma transform_compress: "sha256_transform H M = fips_compress M H"
proof -
  have first: "map (\<lambda>i. load_be32 M (i * 4)) [0..<16] = map (fips_W M) [0..<16]"
    by (rule nth_equalityI) (simp_all add: fips_W.simps mult.commute del: upt_rec_numeral)
  then have W: "schedule_loop (map (\<lambda>i. load_be32 M (i * 4)) [0..<16]) 48 = map (fips_W M) [0..<64]"
    unfolding first using schedule_loop_W [of 16 M 48] by (simp del: upt_rec_numeral)
  have zip: "zip sha_K (map (fips_W M) [0..<64]) = map (\<lambda>t. (sha_K ! t, fips_W M t)) [0..<64]"
    by (rule nth_equalityI) (simp_all add: length_K del: upt_rec_numeral)
  have r: "(\<lambda>t. sha_round (sha_K ! t) (fips_W M t)) = fips_round M"
    unfolding fips_round_def fun_eq_iff by (simp add: sigmas split: prod.split)
  have "round_loop sha_K (map (fips_W M) [0..<64]) v = fold (fips_round M) [0..<64] v" for v
    by (subst round_loop_fold) (simp_all add: length_K zip fold_map comp_def r del: upt_rec_numeral)
  then show ?thesis
    by (simp add: sha256_transform_def W fips_compress_def Let_def add.commute del: upt_rec_numeral split: prod.split)
qed

section \<open>Streaming equals hashing the whole message\<close>

text \<open>Absorbing bytes: whole blocks are compressed, the rest is kept.\<close>

function absorb :: "u32 list \<Rightarrow> u8 list \<Rightarrow> u32 list \<times> u8 list" where
  "absorb H bs = (if length bs < 64 then (H, bs) else absorb (sha256_transform H (take 64 bs)) (drop 64 bs))"
  by auto
termination by (relation "measure (length \<circ> snd)") auto

declare absorb.simps [simp del]

lemma absorb_short: "length bs < 64 \<Longrightarrow> absorb H bs = (H, bs)"
  by (simp add: absorb.simps)

lemma absorb_block: "length b = 64 \<Longrightarrow> absorb H (b @ bs) = absorb (sha256_transform H b) bs"
  by (subst absorb.simps) simp

lemma absorb_append:
  "absorb H xs = (H', r) \<Longrightarrow> absorb H (xs @ ys) = absorb H' (r @ ys)"
proof (induction H xs rule: absorb.induct)
  case (1 H xs)
  show ?case
  proof (cases "length xs < 64")
    case False
    have "xs @ ys = take 64 xs @ drop 64 xs @ ys" by (metis append.assoc append_take_drop_id)
    then have "absorb H (xs @ ys) = absorb H (take 64 xs @ drop 64 xs @ ys)" by (rule arg_cong)
    also have "\<dots> = absorb (sha256_transform H (take 64 xs)) (drop 64 xs @ ys)"
      by (rule absorb_block) (use False in simp)
    finally have "absorb H (xs @ ys) = absorb (sha256_transform H (take 64 xs)) (drop 64 xs @ ys)" .
    moreover have "absorb (sha256_transform H (take 64 xs)) (drop 64 xs) = (H', r)"
      using "1.prems" False by (simp add: absorb.simps [of H xs])
    ultimately show ?thesis using "1.IH" [OF False] by simp
  qed (use "1.prems" in \<open>simp add: absorb_short\<close>)
qed

lemma absorb_rest: "absorb H xs = (H', r) \<Longrightarrow> length r = length xs mod 64"
proof (induction H xs rule: absorb.induct)
  case (1 H xs)
  show ?case
  proof (cases "length xs < 64")
    case False
    then have "length r = (length xs - 64) mod 64"
      using 1 by (simp add: absorb.simps [of H xs])
    then show ?thesis using False by (simp add: le_mod_geq)
  qed (use "1.prems" in \<open>auto simp: absorb_short\<close>)
qed

lemma length_put_at [simp]: "i + length bs \<le> length buf \<Longrightarrow> length (put_at buf i bs) = length buf"
  by (simp add: put_at_def)

lemma take_put_at: "i + length bs \<le> length buf \<Longrightarrow> take (i + length bs) (put_at buf i bs) = take i buf @ bs"
  by (simp add: put_at_def)

lemma update_loop_absorb:
  assumes "length buf = 64" and "take (length r) buf = r" and "length r < 64"
  shows "\<exists>H' buf' r'. update_loop H buf (length r) bs = Some (H', buf') \<and> absorb H (r @ bs) = (H', r')
    \<and> length buf' = 64 \<and> take (length r') buf' = r'"
  using assms
proof (induction "length bs" arbitrary: H buf r bs rule: less_induct)
  case less
  show ?case
  proof (cases "bs = []")
    case True
    then show ?thesis using less.prems by (subst update_loop.simps) (simp add: absorb_short)
  next
    case False
    define k where "k = min (64 - length r) (length bs)"
    have k: "0 < k" "k \<le> length bs" "length r + k \<le> 64" using False less.prems(3) by (auto simp: k_def)
    let ?buf = "put_at buf (length r) (take k bs)"
    have len: "length ?buf = 64" using k less.prems(1) by simp
    have tk: "take (length r + k) ?buf = r @ take k bs"
      using take_put_at [of "length r" "take k bs" buf] k less.prems(1,2) by simp
    have step: "update_loop H buf (length r) bs =
        (if length r + k = 64 then update_loop (sha256_transform H ?buf) ?buf 0 (drop k bs)
         else update_loop H ?buf (length r + k) (drop k bs))"
      using False by (subst update_loop.simps) (simp add: FW_SHA256_BLOCK_SIZE_def Let_def flip: k_def)
    show ?thesis
    proof (cases "length r + k = 64")
      case True
      then have "?buf = r @ take k bs" using tk len by simp
      then have "absorb H (r @ bs) = absorb (sha256_transform H ?buf) (drop k bs)"
        using absorb_block [of ?buf H "drop k bs"] len by simp
      moreover have "\<exists>H' buf' r'. update_loop (sha256_transform H ?buf) ?buf (length ([] :: u8 list)) (drop k bs) = Some (H', buf')
          \<and> absorb (sha256_transform H ?buf) ([] @ drop k bs) = (H', r') \<and> length buf' = 64 \<and> take (length r') buf' = r'"
        by (rule less.hyps) (use k len in auto)
      ultimately show ?thesis using step True by simp
    next
      case False
      have l: "length (r @ take k bs) = length r + k" using k by simp
      have "\<exists>H' buf' r'. update_loop H ?buf (length (r @ take k bs)) (drop k bs) = Some (H', buf')
          \<and> absorb H ((r @ take k bs) @ drop k bs) = (H', r') \<and> length buf' = 64 \<and> take (length r') buf' = r'"
        by (rule less.hyps) (use k len tk False in auto)
      then show ?thesis using step False unfolding l by simp
    qed
  qed
qed

text \<open>A context that has absorbed a message.\<close>

definition sha_rep :: "fw_sha256_ctx \<Rightarrow> u8 list \<Rightarrow> bool" where
  "sha_rep c msg \<longleftrightarrow>
     (\<exists>r. absorb fips_H0 msg = (sha_state c, r) \<and> length (sha_buffer c) = 64 \<and> take (length r) (sha_buffer c) = r
        \<and> sha_bit_count c = of_nat (8 * length msg))"

lemma buffer_idx: "unat ((of_nat (8 * n) :: u64) div 8) mod 64 = n mod 64"
proof -
  have "unat ((of_nat (8 * n) :: u64) div 8) = (8 * n) mod 2 ^ 64 div 8"
    by (simp add: unat_div_distrib unsigned_of_nat take_bit_eq_mod del: of_nat_mult)
  also have "(8 * n) mod 2 ^ 64 = 8 * (n mod 2 ^ 61)" using mult_mod_right [of 8 n "2 ^ 61"] by simp
  finally show ?thesis using mod_mod_cancel [of 64 "2 ^ 61" n] by simp
qed

lemma sha_init_rep: "length (sha_buffer c) = 64 \<Longrightarrow> \<exists>c'. fw_sha256_init (Some c) = Some c' \<and> sha_rep c' []"
  by (simp add: fw_sha256_init_def sha_rep_def absorb_short fips_H0_def)

text \<open>The bytes an update designates.\<close>

definition chunk_bytes :: "mem \<Rightarrow> ptr \<times> usize \<Rightarrow> u8 list" where
  "chunk_bytes m pn = (if fst pn = FW_NULL then [] else mem_read m (fst pn) (unat (snd pn)))"

lemma sha_update_rep:
  assumes "sha_rep c msg"
  shows "\<exists>c'. fw_sha256_update m (Some c) p n = Some (Some c') \<and> sha_rep c' (msg @ chunk_bytes m (p, n))"
proof (cases "p = FW_NULL \<or> n = 0")
  case True
  then have "chunk_bytes m (p, n) = []" by (auto simp: chunk_bytes_def)
  then show ?thesis using assms True by (simp add: fw_sha256_update_def)
next
  case False
  let ?bs = "mem_read m p (unat n)"
  obtain r where r: "absorb fips_H0 msg = (sha_state c, r)" "length (sha_buffer c) = 64" "take (length r) (sha_buffer c) = r"
      "sha_bit_count c = of_nat (8 * length msg)"
    using assms by (auto simp: sha_rep_def)
  have len: "length r = length msg mod 64" by (rule absorb_rest [OF r(1)])
  obtain H' buf' r' where u: "update_loop (sha_state c) (sha_buffer c) (length r) ?bs = Some (H', buf')"
      "absorb (sha_state c) (r @ ?bs) = (H', r')" "length buf' = 64" "take (length r') buf' = r'"
    using update_loop_absorb [OF r(2,3)] len by fastforce
  have "fw_sha256_update m (Some c) p n = Some (Some (c\<lparr>sha_state := H', sha_bit_count := sha_bit_count c + ucast n * 8,
      sha_buffer := buf'\<rparr>))"
    using False u(1) len by (simp add: fw_sha256_update_def r(4) buffer_idx FW_SHA256_BLOCK_SIZE_def Let_def del: of_nat_mult)
  moreover have "(ucast n :: u64) = of_nat (unat n)" by simp
  then have "sha_bit_count c + ucast n * 8 = of_nat (8 * length (msg @ ?bs))"
    by (simp add: r(4) algebra_simps)
  then have "sha_rep (c\<lparr>sha_state := H', sha_bit_count := sha_bit_count c + ucast n * 8, sha_buffer := buf'\<rparr>) (msg @ ?bs)"
    using u(2-4) absorb_append [OF r(1), of ?bs] by (simp add: sha_rep_def)
  ultimately show ?thesis using False by (simp add: chunk_bytes_def)
qed

lemma absorb_blocks:
  "length P = 64 * k \<Longrightarrow> absorb H P = (fold (\<lambda>i. fips_compress (fips_block P i)) [0..<k] H, [])"
proof (induction k arbitrary: H P)
  case 0
  then show ?case by (simp add: absorb_short)
next
  case (Suc k)
  let ?b = "take 64 P" and ?Q = "drop 64 P"
  have "absorb H (?b @ ?Q) = absorb (sha256_transform H ?b) ?Q" by (rule absorb_block) (use Suc.prems in simp)
  also have "\<dots> = (fold (\<lambda>i. fips_compress (fips_block ?Q i)) [0..<k] (fips_compress ?b H), [])"
    by (subst Suc.IH) (use Suc.prems in \<open>simp_all add: transform_compress\<close>)
  also have "(\<lambda>i. fips_compress (fips_block ?Q i)) = (\<lambda>i. fips_compress (fips_block P (Suc i)))"
    by (simp add: fips_block_def fun_eq_iff add.commute)
  also have "fold (\<lambda>i. fips_compress (fips_block P (Suc i))) [0..<k] (fips_compress ?b H)
      = fold (\<lambda>i. fips_compress (fips_block P i)) [0..<Suc k] H"
    by (simp add: upt_conv_Cons fold_map comp_def fips_block_def flip: map_Suc_upt del: upt_Suc)
  finally show ?case by simp
qed

lemma length_be64 [simp]: "length (be64 v) = 8"
  by (simp add: be64_def)

lemma length_pad: "length (fips_pad msg) = 64 * (length (fips_pad msg) div 64)"
proof -
  let ?l = "length msg mod 64"
  have "length (fips_pad msg) = 64 * (length msg div 64) + (?l + 9 + (119 - ?l) mod 64)"
    by (simp add: fips_pad_def)
  moreover have "(?l + 9 + (119 - ?l) mod 64) mod 64 = 0"
  proof -
    have "(?l + 9 + (119 - ?l) mod 64) mod 64 = (?l + 9 + (119 - ?l)) mod 64" by (rule mod_add_right_eq)
    also have "?l + 9 + (119 - ?l) = 128" using mod_less_divisor [of 64 "length msg"] by linarith
    finally show ?thesis by simp
  qed
  ultimately show ?thesis by (metis dvd_add dvd_mult_div_cancel dvd_triv_left mod_0_imp_dvd)
qed

lemma fips_sha256_absorb: "fips_sha256 msg = concat (map be32 (fst (absorb fips_H0 (fips_pad msg))))"
  by (subst absorb_blocks [OF length_pad]) (simp add: fips_sha256_def Let_def)

lemma put_at_end: "length xs = i \<Longrightarrow> i + length bs = 64 \<Longrightarrow> length buf = 64 \<Longrightarrow> take i buf = xs \<Longrightarrow> put_at buf i bs = xs @ bs"
  by (simp add: put_at_def)

lemma sha_final_digest:
  assumes "sha_rep c msg" and "out \<noteq> FW_NULL"
  shows "fst (fw_sha256_final m (Some c) out) = mem_write m out (fips_sha256 msg)"
proof -
  obtain r where r: "absorb fips_H0 msg = (sha_state c, r)" "length (sha_buffer c) = 64" "take (length r) (sha_buffer c) = r"
      "sha_bit_count c = of_nat (8 * length msg)"
    using assms(1) by (auto simp: sha_rep_def)
  let ?l = "length r" and ?H = "sha_state c" and ?n = "be64 (sha_bit_count c)"
  have l: "?l = length msg mod 64" "?l < 64" using absorb_rest [OF r(1)] by simp_all
  have idx: "unat (sha_bit_count c div 8) mod 64 = ?l" by (simp add: r(4) buffer_idx l(1) del: of_nat_mult)
  define b1 where "b1 = (sha_buffer c)[?l := 0x80]"
  have b1: "length b1 = 64" "take (?l + 1) b1 = r @ [0x80]"
    using r(2,3) l(2) by (simp_all add: b1_def take_Suc_conv_app_nth)
  have pad: "absorb fips_H0 (fips_pad msg) = absorb ?H (r @ 0x80 # replicate ((119 - ?l) mod 64) 0 @ ?n)"
    using absorb_append [OF r(1)] by (simp add: fips_pad_def l(1) r(4))
  show ?thesis
  proof (cases "?l + 1 > 56")
    case True
    define b2 where "b2 = put_at b1 (?l + 1) (replicate (64 - (?l + 1)) 0)"
    have b2: "b2 = r @ 0x80 # replicate (63 - ?l) 0"
      using put_at_end [of "r @ [0x80]" "?l + 1" "replicate (64 - (?l + 1)) 0" b1] b1 l(2) by (simp add: b2_def)
    define b3 where "b3 = put_at (put_at b2 0 (replicate (56 - 0) 0)) 56 ?n"
    have b3: "b3 = replicate 56 0 @ ?n" using b2 l(2) by (simp add: b3_def put_at_def)
    have z: "(119 - ?l) mod 64 = (63 - ?l) + 56" using True l(2) by simp
    have "r @ 0x80 # replicate ((119 - ?l) mod 64) 0 @ ?n = b2 @ b3 @ []"
      unfolding z replicate_add b2 b3 by simp
    then have "absorb fips_H0 (fips_pad msg) = absorb ?H (b2 @ b3 @ [])" using pad by simp
    also have "\<dots> = (sha256_transform (sha256_transform ?H b2) b3, [])"
      using l(2) by (subst absorb_block, simp add: b2, subst absorb_block, simp add: b3) (simp add: absorb_short)
    finally have dig: "fips_sha256 msg = concat (map be32 (sha256_transform (sha256_transform ?H b2) b3))"
      by (simp add: fips_sha256_absorb)
    show ?thesis
      unfolding fw_sha256_final_def option.case(2) if_not_P [OF assms(2)] FW_SHA256_BLOCK_SIZE_def idx Let_def
        if_P [OF True] case_prod_conv b1_def [symmetric] b2_def [symmetric] b3_def [symmetric] fst_conv dig ..
  next
    case False
    define b3 where "b3 = put_at (put_at b1 (?l + 1) (replicate (56 - (?l + 1)) 0)) 56 ?n"
    have tk: "take 56 (put_at b1 (?l + 1) (replicate (56 - (?l + 1)) 0)) = (r @ [0x80]) @ replicate (55 - ?l) 0"
      using take_put_at [of "?l + 1" "replicate (56 - (?l + 1)) 0" b1] b1 False by simp
    have b3: "b3 = ((r @ [0x80]) @ replicate (55 - ?l) 0) @ ?n"
      unfolding b3_def by (rule put_at_end [OF _ _ _ tk]) (use b1 False in simp_all)
    have z: "(119 - ?l) mod 64 = 55 - ?l" using False by (simp add: le_mod_geq)
    have "r @ 0x80 # replicate ((119 - ?l) mod 64) 0 @ ?n = b3 @ []" unfolding z b3 by simp
    then have "absorb fips_H0 (fips_pad msg) = absorb ?H (b3 @ [])" using pad by simp
    also have "\<dots> = (sha256_transform ?H b3, [])"
      using False by (subst absorb_block, simp add: b3) (simp add: absorb_short)
    finally have dig: "fips_sha256 msg = concat (map be32 (sha256_transform ?H b3))"
      by (simp add: fips_sha256_absorb)
    show ?thesis
      unfolding fw_sha256_final_def option.case(2) if_not_P [OF assms(2)] FW_SHA256_BLOCK_SIZE_def idx Let_def
        if_not_P [OF False] case_prod_conv b1_def [symmetric] b3_def [symmetric] fst_conv dig ..
  qed
qed

text \<open>A stream of updates.\<close>

fun sha_updates :: "mem \<Rightarrow> fw_sha256_ctx option \<Rightarrow> (ptr \<times> usize) list \<Rightarrow> fw_sha256_ctx option option" where
  "sha_updates m ctx [] = Some ctx"
| "sha_updates m ctx (c # cs) = Option.bind (fw_sha256_update m ctx (fst c) (snd c)) (\<lambda>ctx'. sha_updates m ctx' cs)"

lemma sha_updates_rep:
  "sha_rep c msg \<Longrightarrow> \<exists>c'. sha_updates m (Some c) cs = Some (Some c') \<and> sha_rep c' (msg @ concat (map (chunk_bytes m) cs))"
proof (induction cs arbitrary: c msg)
  case (Cons pn cs)
  obtain c1 where c1: "fw_sha256_update m (Some c) (fst pn) (snd pn) = Some (Some c1)" "sha_rep c1 (msg @ chunk_bytes m pn)"
    using sha_update_rep [OF Cons.prems, of m "fst pn" "snd pn"] by auto
  then show ?case using Cons.IH [OF c1(2)] by simp
qed simp

text \<open>C33: hashing a stream of chunks, whatever their number and lengths and whatever the context held
  before, returns and yields the FIPS 180-4 hash of their concatenation, and so does the one-shot call.\<close>

theorem sha256_streaming_correct:
  assumes "length (sha_buffer junk) = 64" and "out \<noteq> FW_NULL"
  shows "\<exists>c. sha_updates m (fw_sha256_init (Some junk)) cs = Some (Some c)
    \<and> fst (fw_sha256_final m (Some c) out) = mem_write m out (fips_sha256 (concat (map (chunk_bytes m) cs)))
    \<and> fw_sha256_digest junk m p n out = Some (mem_write m out (fips_sha256 (chunk_bytes m (p, n))))"
proof -
  obtain c0 where c0: "fw_sha256_init (Some junk) = Some c0" "sha_rep c0 []" using sha_init_rep [OF assms(1)] by auto
  obtain c where c: "sha_updates m (Some c0) cs = Some (Some c)" "sha_rep c (concat (map (chunk_bytes m) cs))"
    using sha_updates_rep [OF c0(2)] by auto
  obtain c1 where c1: "fw_sha256_update m (Some c0) p n = Some (Some c1)" "sha_rep c1 (chunk_bytes m (p, n))"
    using sha_update_rep [OF c0(2), of m p n] by auto
  show ?thesis
    using c0(1) c c1 sha_final_digest [OF _ assms(2)] by (simp add: fw_sha256_digest_def)
qed

theorem sha256_streaming_correct_witness:
  "\<exists>c. sha_updates (\<lambda>a. ucast a) (fw_sha256_init (Some \<lparr>sha_state = [], sha_bit_count = 7, sha_buffer = replicate 64 9\<rparr>))
        [(97, 1), (98, 2)] = Some (Some c)
    \<and> fst (fw_sha256_final (\<lambda>a. ucast a) (Some c) 4096) = mem_write (\<lambda>a. ucast a) 4096 (fips_sha256 [97, 98, 99])"
proof -
  have "concat (map (chunk_bytes (\<lambda>a. ucast a)) [(97, 1), (98, 2)]) = [97, 98, 99]"
    by (simp add: chunk_bytes_def mem_read_def upt_rec)
  then show ?thesis
    using sha256_streaming_correct [of "\<lparr>sha_state = [], sha_bit_count = 7, sha_buffer = replicate 64 9\<rparr>" 4096
        "\<lambda>a. ucast a" "[(97, 1), (98, 2)]" 97 1] by auto
qed

end
