(* ===== verification/Chacha20.thy ===== *)
theory Chacha20
  imports Memory
begin

text \<open>
  The stream cipher of \<^verbatim>\<open>chacha20.h\<close> and \<^verbatim>\<open>chacha20.c\<close> over the byte memory; the state is a list of sixteen
  words.  Input and output may be the same buffer, so the bytes are written one by one as the code does.
\<close>

unbundle bit_operations_syntax

record fw_chacha20_ctx =
  cc_state :: "u32 list"

definition ROTL32 :: "u32 \<Rightarrow> nat \<Rightarrow> u32" where
  "ROTL32 v n = push_bit n v OR drop_bit (32 - n) v"

text \<open>The quarter round on four words, and on four places of the state.\<close>

definition quarter :: "u32 \<Rightarrow> u32 \<Rightarrow> u32 \<Rightarrow> u32 \<Rightarrow> u32 \<times> u32 \<times> u32 \<times> u32" where
  "quarter a b c d =
     (let a = a + b; d = ROTL32 (d XOR a) 16;
          c = c + d; b = ROTL32 (b XOR c) 12;
          a = a + b; d = ROTL32 (d XOR a) 8;
          c = c + d; b = ROTL32 (b XOR c) 7
      in (a, b, c, d))"

definition QR :: "nat \<Rightarrow> nat \<Rightarrow> nat \<Rightarrow> nat \<Rightarrow> u32 list \<Rightarrow> u32 list" where
  "QR i j k l x =
     (case quarter (x ! i) (x ! j) (x ! k) (x ! l) of
        (a, b, c, d) \<Rightarrow> x[i := a, j := b, k := c, l := d])"

definition load_le32 :: "mem \<Rightarrow> ptr \<Rightarrow> u32" where
  "load_le32 m p = ucast (m p) OR push_bit 8 (ucast (m (p + 1))) OR push_bit 16 (ucast (m (p + 2)))
     OR push_bit 24 (ucast (m (p + 3)))"

definition store_le32 :: "u32 \<Rightarrow> u8 list" where
  "store_le32 v = [ucast v, ucast (drop_bit 8 v), ucast (drop_bit 16 v), ucast (drop_bit 24 v)]"

definition fw_chacha20_init ::
  "mem \<Rightarrow> fw_chacha20_ctx option \<Rightarrow> ptr \<Rightarrow> ptr \<Rightarrow> u32 \<Rightarrow> fw_chacha20_ctx option" where
  "fw_chacha20_init m ctx key nonce counter =
     (if ctx = None \<or> key = FW_NULL \<or> nonce = FW_NULL then ctx
      else Some \<lparr>cc_state = [0x61707865, 0x3320646e, 0x79622d32, 0x6b206574]
             @ map (\<lambda>i. load_le32 m (key + of_nat (i * 4))) [0..<8]
             @ [counter, load_le32 m (nonce + 0), load_le32 m (nonce + 4), load_le32 m (nonce + 8)]\<rparr>)"

definition double_round :: "u32 list \<Rightarrow> u32 list" where
  "double_round x =
     (let x = QR 0 4 8 12 x; x = QR 1 5 9 13 x; x = QR 2 6 10 14 x; x = QR 3 7 11 15 x;
          x = QR 0 5 10 15 x; x = QR 1 6 11 12 x; x = QR 2 7 8 13 x; x = QR 3 4 9 14 x
      in x)"

definition chacha20_block :: "fw_chacha20_ctx \<Rightarrow> u8 list \<times> fw_chacha20_ctx" where
  "chacha20_block ctx =
     (let st = cc_state ctx; x = (double_round ^^ 10) st
      in (concat (map (\<lambda>i. store_le32 (x ! i + st ! i)) [0..<16]), ctx\<lparr>cc_state := st[12 := st ! 12 + 1]\<rparr>))"

text \<open>The inner loop of \<^verbatim>\<open>fw_chacha20_crypt\<close>: one byte per turn, \<open>i\<close> is its index.\<close>

fun xor_loop :: "mem \<Rightarrow> ptr \<Rightarrow> ptr \<Rightarrow> nat \<Rightarrow> u8 list \<Rightarrow> mem" where
  "xor_loop m p q i [] = m"
| "xor_loop m p q i (k # ks) = xor_loop (mem_write m (q + of_nat i) [m (p + of_nat i) XOR k]) p q (i + 1) ks"

partial_function (option) crypt_loop ::
  "mem \<Rightarrow> fw_chacha20_ctx \<Rightarrow> ptr \<Rightarrow> ptr \<Rightarrow> usize \<Rightarrow> (mem \<times> fw_chacha20_ctx) option" where
  "crypt_loop m ctx inp out n =
     (if n > 0 then
        (case chacha20_block ctx of
           (keystream, ctx') \<Rightarrow>
             let chunk = (if n > 64 then 64 else n)
             in crypt_loop (xor_loop m inp out 0 (take (unat chunk) keystream)) ctx' (inp + chunk) (out + chunk) (n - chunk))
      else Some (m, ctx))"

definition fw_chacha20_crypt ::
  "mem \<Rightarrow> fw_chacha20_ctx option \<Rightarrow> ptr \<Rightarrow> ptr \<Rightarrow> usize \<Rightarrow> (mem \<times> fw_chacha20_ctx option) option" where
  "fw_chacha20_crypt m ctx inp out n =
     (case ctx of
        None \<Rightarrow> Some (m, None)
      | Some c \<Rightarrow>
          if inp = FW_NULL \<or> out = FW_NULL \<or> n = 0 then Some (m, ctx)
          else map_option (\<lambda>(m', c'). (m', Some c')) (crypt_loop m c inp out n))"

text \<open>The quarter round test vector of RFC 8439, section 2.1.1.\<close>

lemma quarter_rfc8439:
  "quarter 0x11111111 0x01020304 0x9b8d6f43 0x01234567 = (0xea2a92f4, 0xcb1cf8ce, 0x4581472e, 0x5881c4bb)"
  by (simp add: quarter_def ROTL32_def Let_def)

section \<open>The cipher adds a key stream\<close>

fun key_blocks :: "fw_chacha20_ctx \<Rightarrow> nat \<Rightarrow> u8 list" where
  "key_blocks c 0 = []"
| "key_blocks c (Suc k) = fst (chacha20_block c) @ key_blocks (snd (chacha20_block c)) k"

definition keystream :: "fw_chacha20_ctx \<Rightarrow> nat \<Rightarrow> u8 list" where
  "keystream c n = take n (key_blocks c ((n + 63) div 64))"

definition xor_bytes :: "u8 list \<Rightarrow> u8 list \<Rightarrow> u8 list" where
  "xor_bytes xs ks = map2 (XOR) xs ks"

text \<open>No byte is overwritten before it is read: the same buffer, or disjoint buffers.\<close>

definition forward_ok :: "ptr \<Rightarrow> ptr \<Rightarrow> nat \<Rightarrow> bool" where
  "forward_ok p q n \<longleftrightarrow> (\<forall>j < n. \<forall>k < j. p + of_nat j \<noteq> q + of_nat k)"

lemma of_nat_inj32: "i < 2 ^ 32 \<Longrightarrow> j < 2 ^ 32 \<Longrightarrow> (of_nat i :: 32 word) = of_nat j \<longleftrightarrow> i = j"
  by (auto dest!: arg_cong [where f = unat] simp: unat_of_nat_small simp del: unsigned_of_nat)

lemma forward_ok_same: "n \<le> 2 ^ 32 \<Longrightarrow> forward_ok p p n"
  by (auto simp: forward_ok_def of_nat_inj32)

lemma forward_ok_disjoint: "disjoint_blocks p n q n \<Longrightarrow> n \<le> 2 ^ 32 \<Longrightarrow> forward_ok p q n"
proof (unfold forward_ok_def, intro allI impI notI)
  fix j k assume d: "disjoint_blocks p n q n" "n \<le> 2 ^ 32" and j: "j < n" "k < j" "p + of_nat j = q + of_nat k"
  have "in_block p n (p + of_nat j)" "in_block q n (q + of_nat k)"
    using d(2) j(1,2) by (subst in_block_offset; simp)+
  with d(1) j(3) show False by (auto simp: disjoint_blocks_def)
qed

lemma forward_ok_shift: "forward_ok p q (c + n) \<Longrightarrow> forward_ok (p + of_nat c) (q + of_nat c) n"
  unfolding forward_ok_def by (intro allI impI, drule_tac x = "c + j" in spec) (simp, drule_tac x = "c + k" in spec, simp add: add.assoc)

text \<open>Reading ahead of what has been written.\<close>

lemma read_ahead:
  assumes "forward_ok p q (length bs + n)" and "length bs + n \<le> 2 ^ 32"
  shows "mem_read (mem_write m q bs) (p + of_nat (length bs)) n = mem_read m (p + of_nat (length bs)) n"
proof (rule nth_equalityI)
  fix j assume "j < length (mem_read (mem_write m q bs) (p + of_nat (length bs)) n)"
  then have j: "j < n" by simp
  have "\<not> in_block q (length bs) (p + of_nat (length bs + j))"
  proof
    let ?a = "p + of_nat (length bs + j)"
    assume "in_block q (length bs) ?a"
    then have "unat (?a - q) < length bs" by (simp add: in_block_def)
    moreover have "?a = q + of_nat (unat (?a - q))" by simp
    ultimately show False using assms(1) j unfolding forward_ok_def by (meson add_less_cancel_left trans_less_add1)
  qed
  then show "mem_read (mem_write m q bs) (p + of_nat (length bs)) n ! j = mem_read m (p + of_nat (length bs)) n ! j"
    using j by (simp add: mem_write_out add.assoc)
qed simp

lemma xor_bytes_append:
  "length xs = length ks \<Longrightarrow> xor_bytes (xs @ ys) (ks @ ls) = xor_bytes xs ks @ xor_bytes ys ls"
  by (simp add: xor_bytes_def zip_append)

lemma length_xor_bytes [simp]: "length (xor_bytes xs ks) = min (length xs) (length ks)"
  by (simp add: xor_bytes_def)

lemma xor_loop_shift: "xor_loop m p q (i + j) ks = xor_loop m (p + of_nat i) (q + of_nat i) j ks"
  by (induction ks arbitrary: m j) (simp_all add: add.assoc flip: of_nat_add add_Suc_right)

lemma xor_loop_stream:
  "forward_ok p q (length ks) \<Longrightarrow> length ks \<le> 2 ^ 32 \<Longrightarrow>
     xor_loop m p q 0 ks = mem_write m q (xor_bytes (mem_read m p (length ks)) ks)"
proof (induction ks arbitrary: m p q)
  case (Cons k ks)
  let ?b = "[m p XOR k]" and ?m = "mem_write m q [m p XOR k]"
  have ahead: "mem_read ?m (p + 1) (length ks) = mem_read m (p + 1) (length ks)"
    using read_ahead [of p q ?b "length ks" m] Cons.prems by simp
  have "xor_loop m p q 0 (k # ks) = xor_loop ?m (p + 1) (q + 1) 0 ks"
    using xor_loop_shift [of ?m p q 1 0 ks] by simp
  also have "\<dots> = mem_write ?m (q + 1) (xor_bytes (mem_read ?m (p + 1) (length ks)) ks)"
    using Cons.prems forward_ok_shift [of p q 1 "length ks"] by (intro Cons.IH) simp_all
  also have "\<dots> = mem_write m q (?b @ xor_bytes (mem_read m (p + 1) (length ks)) ks)"
    using mem_write_append [of ?b "xor_bytes (mem_read m (p + 1) (length ks)) ks" m q] Cons.prems(2) by (simp add: ahead)
  also have "?b @ xor_bytes (mem_read m (p + 1) (length ks)) ks = xor_bytes (mem_read m p (length (k # ks))) (k # ks)"
    using mem_read_append [of m p 1 "length ks"] by (simp add: xor_bytes_def mem_read_def)
  finally show ?case .
qed (simp add: xor_bytes_def)

lemma length_block: "length (fst (chacha20_block c)) = 64"
  by (simp add: chacha20_block_def Let_def store_le32_def length_concat comp_def sum_list_triv)

lemma length_key_blocks: "length (key_blocks c k) = 64 * k"
  by (induction k arbitrary: c) (simp_all add: length_block)

lemma length_keystream [simp]: "length (keystream c n) = n"
proof -
  have "(n + 63) mod 64 < 64" by simp
  then have "n \<le> 64 * ((n + 63) div 64)" using div_mult_mod_eq [of "n + 63" 64] by linarith
  then show ?thesis by (simp add: keystream_def length_key_blocks)
qed

lemma keystream_chunk:
  assumes "64 < n"
  shows "keystream c n = fst (chacha20_block c) @ keystream (snd (chacha20_block c)) (n - 64)"
proof -
  have "(n + 63) div 64 = Suc ((n - 64 + 63) div 64)" using assms by (simp add: div_if)
  then show ?thesis using assms by (simp add: keystream_def length_block)
qed

lemma keystream_last:
  assumes "0 < n" and "n \<le> 64"
  shows "keystream c n = take n (fst (chacha20_block c))"
proof -
  have "(n + 63) div 64 = Suc 0" using assms by (intro div_nat_eqI) simp_all
  then show ?thesis using assms by (simp add: keystream_def length_block)
qed

lemma crypt_loop_stream:
  assumes "forward_ok p q (unat n)"
  shows "\<exists>c'. crypt_loop m c p q n = Some (mem_write m q (xor_bytes (mem_read m p (unat n)) (keystream c (unat n))), c')"
  using assms
proof (induction "unat n" arbitrary: m c p q n rule: less_induct)
  case less
  have n32: "unat n \<le> 2 ^ 32" using unat_le32 [of n] by simp
  obtain ks c1 where blk: "chacha20_block c = (ks, c1)" by (cases "chacha20_block c")
  then have ks: "length ks = 64" using length_block [of c] by simp
  consider "n = 0" | "0 < unat n \<and> unat n \<le> 64" | "64 < unat n" by (cases "n = 0"; cases "unat n \<le> 64") (auto simp: unat_gt_0)
  then show ?case
  proof cases
    case 1
    then show ?thesis by (subst crypt_loop.simps) (simp add: xor_bytes_def)
  next
    case 2
    then have pos: "n > 0" and small: "\<not> n > 64" by (auto simp: word_less_nat_alt)
    have "crypt_loop m c p q n = Some (xor_loop m p q 0 (take (unat n) ks), c1)"
      using pos small blk by (subst crypt_loop.simps, subst crypt_loop.simps) (simp add: Let_def)
    then show ?thesis
      using xor_loop_stream [of p q "take (unat n) ks" m] less.prems 2 ks keystream_last [of "unat n" c] blk n32 by simp
  next
    case 3
    then have pos: "n > 0" and big: "n > 64" by (auto simp: word_less_nat_alt)
    let ?r = "unat n - 64" and ?X = "xor_bytes (mem_read m p 64) ks"
    have r: "unat (n - 64) = ?r" using 3 by (simp add: unat_sub_le word_le_nat_alt)
    have fwd: "forward_ok p q (64 + ?r)" using less.prems 3 by simp
    have "forward_ok p q (length ks)" using less.prems 3 ks by (simp add: forward_ok_def)
    then have x: "xor_loop m p q 0 ks = mem_write m q ?X" using xor_loop_stream [of p q ks m] ks by simp
    have lenX: "length ?X = 64" by (simp add: ks)
    have step: "crypt_loop m c p q n = crypt_loop (mem_write m q ?X) c1 (p + 64) (q + 64) (n - 64)"
      using pos big blk ks x by (subst crypt_loop.simps) (simp add: Let_def)
    have "forward_ok (p + 64) (q + 64) (unat (n - 64))" using forward_ok_shift [OF fwd] by (simp add: r)
    then obtain c' where c': "crypt_loop (mem_write m q ?X) c1 (p + 64) (q + 64) (n - 64) =
        Some (mem_write (mem_write m q ?X) (q + 64) (xor_bytes (mem_read (mem_write m q ?X) (p + 64) ?r) (keystream c1 ?r)), c')"
      using less.hyps [of "n - 64" "p + 64" "q + 64" "mem_write m q ?X" c1] 3 by (auto simp: r)
    have ahead: "mem_read (mem_write m q ?X) (p + 64) ?r = mem_read m (p + 64) ?r"
      using read_ahead [of p q ?X ?r m] fwd n32 3 by (simp add: lenX del: length_xor_bytes)
    have "mem_write (mem_write m q ?X) (q + 64) (xor_bytes (mem_read m (p + 64) ?r) (keystream c1 ?r))
        = mem_write m q (?X @ xor_bytes (mem_read m (p + 64) ?r) (keystream c1 ?r))"
      using mem_write_append [of ?X "xor_bytes (mem_read m (p + 64) ?r) (keystream c1 ?r)" m q] n32 3 by (simp add: ks)
    moreover have "?X @ xor_bytes (mem_read m (p + 64) ?r) (keystream c1 ?r) =
        xor_bytes (mem_read m p 64 @ mem_read m (p + 64) ?r) (ks @ keystream c1 ?r)"
      by (rule xor_bytes_append [symmetric]) (simp add: ks)
    moreover have "mem_read m p 64 @ mem_read m (p + 64) ?r = mem_read m p (unat n)"
      using mem_read_append [of m p 64 ?r] 3 by simp
    moreover have "ks @ keystream c1 ?r = keystream c (unat n)" using keystream_chunk [OF 3, of c] blk by simp
    ultimately show ?thesis using step c' ahead by simp
  qed
qed

lemma xor_bytes_twice: "length xs = length ks \<Longrightarrow> xor_bytes (xor_bytes xs ks) ks = xs"
  by (rule nth_equalityI) (simp_all add: xor_bytes_def xor.assoc)

text \<open>C35: encryption writes the input combined with the key stream of the context to the output and
  nothing else, in place or between disjoint buffers, and always ends; decrypting with the same context
  gives the plain text back.\<close>

theorem chacha20_roundtrip:
  assumes "p \<noteq> FW_NULL" and "q \<noteq> FW_NULL" and "p = q \<or> disjoint_blocks p (unat n) q (unat n)"
  shows "\<exists>m1 c1 m2 c2. fw_chacha20_crypt m (Some c) p q n = Some (m1, Some c1)
    \<and> m1 = mem_write m q (xor_bytes (mem_read m p (unat n)) (keystream c (unat n)))
    \<and> fw_chacha20_crypt m1 (Some c) q p n = Some (m2, Some c2)
    \<and> mem_read m2 p (unat n) = mem_read m p (unat n)"
proof -
  let ?n = "unat n" and ?ks = "keystream c (unat n)"
  have n32: "?n \<le> 2 ^ 32" using unat_le32 [of n] by simp
  have run: "\<exists>c'. fw_chacha20_crypt mm (Some c) a b n = Some (mem_write mm b (xor_bytes (mem_read mm a ?n) ?ks), Some c')"
    if ok: "forward_ok a b ?n" and "a \<noteq> FW_NULL" "b \<noteq> FW_NULL" for mm a b
  proof (cases "n = 0")
    case False
    then show ?thesis using crypt_loop_stream [OF ok, of mm c] that by (auto simp: fw_chacha20_crypt_def)
  qed (use that in \<open>simp add: fw_chacha20_crypt_def xor_bytes_def\<close>)
  have fwd: "forward_ok p q ?n" "forward_ok q p ?n"
    using assms(3) n32 forward_ok_same [of ?n p] forward_ok_disjoint [of p ?n q] forward_ok_disjoint [of q ?n p]
    by (auto simp: disjoint_blocks_sym)
  let ?m1 = "mem_write m q (xor_bytes (mem_read m p ?n) ?ks)"
  have rd: "mem_read ?m1 q ?n = xor_bytes (mem_read m p ?n) ?ks"
    using mem_read_write_same [of "xor_bytes (mem_read m p ?n) ?ks" m q] n32 by simp
  obtain c1 where c1: "fw_chacha20_crypt m (Some c) p q n = Some (?m1, Some c1)" using run [OF fwd(1) assms(1,2)] by blast
  obtain c2 where c2: "fw_chacha20_crypt ?m1 (Some c) q p n =
      Some (mem_write ?m1 p (xor_bytes (mem_read ?m1 q ?n) ?ks), Some c2)" using run [OF fwd(2) assms(2,1)] by blast
  have "mem_read (mem_write ?m1 p (mem_read m p ?n)) p ?n = mem_read m p ?n"
    using mem_read_write_same [of "mem_read m p ?n" ?m1 p] n32 by simp
  then show ?thesis using c1 c2 by (simp add: rd xor_bytes_twice)
qed

theorem chacha20_roundtrip_witness:
  "\<exists>m1 c1 m2 c2. fw_chacha20_crypt (\<lambda>a. ucast a) (Some \<lparr>cc_state = replicate 16 7\<rparr>) 100 100 70 = Some (m1, Some c1)
    \<and> fw_chacha20_crypt m1 (Some \<lparr>cc_state = replicate 16 7\<rparr>) 100 100 70 = Some (m2, Some c2)
    \<and> mem_read m2 100 70 = mem_read (\<lambda>a. ucast a) 100 70"
  using chacha20_roundtrip [of 100 100 70 "\<lambda>a. ucast a" "\<lparr>cc_state = replicate 16 7\<rparr>"]
  by fastforce

end
