(* ===== verification/Timer.thy ===== *)
theory Timer
  imports Prelude "HOL-Library.Signed_Division"
begin

text \<open>
  The time base of \<^verbatim>\<open>timer.h\<close> and \<^verbatim>\<open>timer.c\<close>: the bare-metal tick counter, the POSIX host clock, the
  software timeouts and the busy-wait delays.  A reading of the clock is an argument of the
  operations that take one; a loop that polls it gets the sequence of readings.
\<close>

section \<open>Bare-metal tick counter\<close>

record systick =
  s_embedded_millis :: u32

definition fw_timer_systick_tick :: "systick \<Rightarrow> systick" where
  "fw_timer_systick_tick s = s\<lparr>s_embedded_millis := s_embedded_millis s + 1\<rparr>"

definition fw_timer_get_millis :: "systick \<Rightarrow> u32" where
  "fw_timer_get_millis s = s_embedded_millis s"

definition fw_timer_get_micros :: "systick \<Rightarrow> u64" where
  "fw_timer_get_micros s = ucast (s_embedded_millis s) * 1000"

text \<open>\<^verbatim>\<open>count--\<close> tests the value before the decrement: the loop body runs \<^verbatim>\<open>us * 8\<close> times, modulo the width.\<close>

function spin_loop :: "u32 \<Rightarrow> nat \<Rightarrow> nat" where
  "spin_loop count rounds = (if count = 0 then rounds else spin_loop (count - 1) (rounds + 1))"
  by auto
termination
  by (relation "measure (\<lambda>(count, rounds). unat count)") (auto simp: unat_minus_one unat_gt_0)

declare spin_loop.simps [simp del]

definition fw_delay_micros_spins :: "u32 \<Rightarrow> nat" where
  "fw_delay_micros_spins us = spin_loop (us * 8) 0"

section \<open>POSIX host clock\<close>

record timespec =
  tv_sec :: int
  tv_nsec :: int

record host_timer =
  s_start_time :: timespec
  s_timer_initialized :: bool

text \<open>\<open>now\<close> is what \<^verbatim>\<open>clock_gettime(CLOCK_MONOTONIC)\<close> reports; the first call also takes it as the start.\<close>

definition init_host_timer :: "timespec \<Rightarrow> host_timer \<Rightarrow> host_timer" where
  "init_host_timer now h =
     (if \<not> s_timer_initialized h then \<lparr>s_start_time = now, s_timer_initialized = True\<rparr> else h)"

definition host_get_micros :: "timespec \<Rightarrow> timespec \<Rightarrow> host_timer \<Rightarrow> u64 \<times> host_timer" where
  "host_get_micros first now h =
     (let h' = init_host_timer first h;
          sec = (of_int (tv_sec now - tv_sec (s_start_time h')) :: u64);
          nsec = tv_nsec now - tv_nsec (s_start_time h')
      in (sec * 1000000 + of_int (nsec sdiv 1000), h'))"

definition host_get_millis :: "timespec \<Rightarrow> timespec \<Rightarrow> host_timer \<Rightarrow> u32 \<times> host_timer" where
  "host_get_millis first now h =
     (case host_get_micros first now h of (us, h') \<Rightarrow> (ucast (us div 1000), h'))"

section \<open>Windows host clock\<close>

text \<open>
  The performance counter and its frequency are 64-bit signed values.  \<open>freq\<close> and \<open>first\<close> are what the
  first call gets from the system, \<open>now\<close> is the reading of this call; a frequency of 0 divides by zero.
\<close>

record win_timer =
  s_timer_freq :: int
  s_timer_start :: int
  win_timer_initialized :: bool

definition win_init_host_timer :: "int \<Rightarrow> int \<Rightarrow> win_timer \<Rightarrow> win_timer" where
  "win_init_host_timer freq first w =
     (if \<not> win_timer_initialized w then \<lparr>s_timer_freq = freq, s_timer_start = first, win_timer_initialized = True\<rparr> else w)"

definition win_get_micros :: "int \<Rightarrow> int \<Rightarrow> int \<Rightarrow> win_timer \<Rightarrow> (u64 \<times> win_timer) option" where
  "win_get_micros freq first now w =
     (let w' = win_init_host_timer freq first w;
          elapsed = (of_int (now - s_timer_start w') :: u64);
          ticks = (of_int (s_timer_freq w') :: u64)
      in if ticks = 0 then None else Some ((elapsed * 1000000) div ticks, w'))"

definition win_get_millis :: "int \<Rightarrow> int \<Rightarrow> int \<Rightarrow> win_timer \<Rightarrow> (u32 \<times> win_timer) option" where
  "win_get_millis freq first now w =
     map_option (\<lambda>(us, w'). (ucast (us div 1000), w')) (win_get_micros freq first now w)"

section \<open>Busy-wait delays\<close>

text \<open>
  \<open>clock k\<close> is the k-th reading of the clock.  The loop returns the number of the reading that ended
  it; a clock that stands still never ends it (None).
\<close>

partial_function (option) delay_loop :: "(nat \<Rightarrow> 'a::len word) \<Rightarrow> 'a word \<Rightarrow> 'a word \<Rightarrow> nat \<Rightarrow> nat option" where
  "delay_loop clock start d k =
     (if clock k - start < d then delay_loop clock start d (k + 1) else Some k)"

definition fw_delay_millis :: "(nat \<Rightarrow> u32) \<Rightarrow> u32 \<Rightarrow> nat option" where
  "fw_delay_millis clock ms = delay_loop clock (clock 0) ms 1"

definition host_delay_micros :: "(nat \<Rightarrow> u64) \<Rightarrow> u32 \<Rightarrow> nat option" where
  "host_delay_micros clock us = delay_loop clock (clock 0) (ucast us) 1"

definition win_delay_micros :: "(nat \<Rightarrow> u64) \<Rightarrow> u32 \<Rightarrow> nat option" where
  "win_delay_micros clock us = delay_loop clock (clock 0) (ucast us) 1"

definition win_delay_millis :: "(nat \<Rightarrow> u32) \<Rightarrow> u32 \<Rightarrow> nat option" where
  "win_delay_millis clock ms = delay_loop clock (clock 0) ms 1"

section \<open>Software timeouts\<close>

record fw_timeout =
  to_start_ms :: u32
  to_duration_ms :: u32

definition fw_timeout_start :: "u32 \<Rightarrow> fw_timeout option \<Rightarrow> u32 \<Rightarrow> fw_timeout option" where
  "fw_timeout_start now t duration =
     (case t of None \<Rightarrow> None | Some _ \<Rightarrow> Some \<lparr>to_start_ms = now, to_duration_ms = duration\<rparr>)"

definition fw_timeout_is_expired :: "u32 \<Rightarrow> fw_timeout option \<Rightarrow> bool" where
  "fw_timeout_is_expired now t =
     (case t of None \<Rightarrow> True | Some x \<Rightarrow> now - to_start_ms x \<ge> to_duration_ms x)"

definition fw_timeout_remaining_ms :: "u32 \<Rightarrow> fw_timeout option \<Rightarrow> u32" where
  "fw_timeout_remaining_ms now t =
     (case t of
        None \<Rightarrow> 0
      | Some x \<Rightarrow>
          let elapsed = now - to_start_ms x
          in if elapsed < to_duration_ms x then to_duration_ms x - elapsed else 0)"

section \<open>Time that does not wrap\<close>

text \<open>The difference of two readings of a wrapping counter is the true time between them.\<close>

lemma wrapped_difference:
  assumes "a \<le> b" and "b - a < 2 ^ LENGTH('a)"
  shows "unat ((of_nat b :: 'a::len word) - of_nat a) = b - a"
proof -
  have "(of_nat b :: 'a word) - of_nat a = of_nat (b - a)" using assms(1) by simp
  then show ?thesis using assms(2) by (simp only: unat_of_nat_small)
qed

lemma spin_loop_eq: "spin_loop count rounds = rounds + unat count"
proof (induction count rounds rule: spin_loop.induct)
  case (1 count rounds)
  show ?case
  proof (cases "count = 0")
    case False
    then have "unat count = Suc (unat (count - 1))"
      by (simp add: unat_minus_one unat_gt_0)
    with False 1 show ?thesis by (subst spin_loop.simps) simp
  qed (simp add: spin_loop.simps)
qed

text \<open>
  A software timeout measures true time across the wrap of the millisecond counter: for readings of
  a counter that runs without wrapping, started at \<open>a\<close> and asked at \<open>b\<close> less than \<open>2 ^ 32\<close> ms later, it
  is expired exactly when the duration has passed, and until then elapsed and remaining time add up.
\<close>

theorem timeout_exact_across_wrap:
  assumes "a \<le> b" and "b - a < 2 ^ 32"
  shows "(fw_timeout_is_expired (of_nat b) (fw_timeout_start (of_nat a) (Some t) d) \<longleftrightarrow> unat d \<le> b - a)
    \<and> unat (fw_timeout_remaining_ms (of_nat b) (fw_timeout_start (of_nat a) (Some t) d)) = unat d - (b - a)"
proof -
  have u: "unat ((of_nat b :: u32) - of_nat a) = b - a"
    using wrapped_difference [OF assms(1), where 'a = 32] assms(2) by simp
  have le: "d \<le> of_nat b - of_nat a \<longleftrightarrow> unat d \<le> b - a"
    by (simp only: word_le_nat_alt u)
  have lt: "of_nat b - of_nat a < d \<longleftrightarrow> b - a < unat d"
    by (simp only: word_less_nat_alt u)
  have "of_nat b - of_nat a < d \<Longrightarrow> unat (d - (of_nat b - of_nat a)) = unat d - (b - a)"
    by (subst unat_sub_le) (simp_all only: u order.strict_implies_order)
  then show ?thesis
    using le lt by (auto simp: fw_timeout_is_expired_def fw_timeout_start_def fw_timeout_remaining_ms_def Let_def)
qed

theorem timeout_exact_across_wrap_witness:
  "\<not> fw_timeout_is_expired (of_nat 4294967300)
      (fw_timeout_start (of_nat 4294967290) (Some \<lparr>to_start_ms = 0, to_duration_ms = 0\<rparr>) 11)
   \<and> fw_timeout_is_expired (of_nat 4294967301)
      (fw_timeout_start (of_nat 4294967290) (Some \<lparr>to_start_ms = 0, to_duration_ms = 0\<rparr>) 11)"
  using timeout_exact_across_wrap [of 4294967290 4294967300 "\<lparr>to_start_ms = 0, to_duration_ms = 0\<rparr>" 11]
    timeout_exact_across_wrap [of 4294967290 4294967301 "\<lparr>to_start_ms = 0, to_duration_ms = 0\<rparr>" 11] by simp

lemma delay_loop_first:
  assumes "\<And>i. k \<le> i \<Longrightarrow> i < n \<Longrightarrow> clock i - start < d" and "\<not> clock n - start < d" and "k \<le> n"
  shows "delay_loop clock start d k = Some n"
  using assms
proof (induction "n - k" arbitrary: k)
  case 0
  then show ?case by (subst delay_loop.simps) simp
next
  case (Suc m)
  then have "k < n" by simp
  moreover have "delay_loop clock start d (k + 1) = Some n"
    using Suc.prems Suc.hyps(2) by (intro Suc.hyps(1)) simp_all
  ultimately show ?case using Suc.prems by (subst delay_loop.simps) simp
qed

text \<open>
  A busy-wait delay ends, at the first poll at which the requested time has passed, also across the
  wrap of the counter: it needs a clock that is read in order, moves on, and never jumps past the
  window \<open>[d, 2 ^ 32)\<close> between two polls.
\<close>

theorem delay_millis_returns:
  assumes mono: "\<And>i. tm i \<le> tm (Suc i)" and goes: "\<exists>i. tm 0 + unat d \<le> tm i"
    and jump: "\<And>i. tm (Suc i) - tm i \<le> 2 ^ 32 - unat d" and pos: "0 < d"
  shows "\<exists>n. fw_delay_millis (\<lambda>i. of_nat (tm i)) d = Some n \<and> tm 0 + unat d \<le> tm n
    \<and> (\<forall>i<n. tm i < tm 0 + unat d)"
proof -
  define n where "n = (LEAST i. tm 0 + unat d \<le> tm i)"
  have n: "tm 0 + unat d \<le> tm n" using goes unfolding n_def by (auto intro: LeastI)
  have before: "tm i < tm 0 + unat d" if "i < n" for i
    using that not_less_Least unfolding n_def by (fastforce simp: not_le)
  have d: "0 < unat d" using pos by (simp add: unat_gt_0)
  then have "n \<noteq> 0" using n by (cases n) auto
  then obtain m where m: "n = Suc m" by (cases n) auto
  have ge: "tm 0 \<le> tm i" for i by (induction i) (auto intro: le_trans mono)
  have dlt: "unat d < 2 ^ 32" using unat_lt32 [of d] by simp
  have step: "tm n < tm 0 + 2 ^ 32"
    using before [of m] jump [of m] mono [of m] dlt unfolding m by linarith
  have u: "unat ((of_nat (tm i) :: u32) - of_nat (tm 0)) = tm i - tm 0" if "tm i < tm 0 + 2 ^ 32" for i
    using wrapped_difference [OF ge [of i], where 'a = 32] that ge [of i] by simp
  have small: "tm i < tm 0 + 2 ^ 32" if "i < n" for i using before [OF that] dlt by linarith
  have "delay_loop (\<lambda>i. of_nat (tm i)) (of_nat (tm 0)) d 1 = Some n"
  proof (rule delay_loop_first)
    fix i assume "1 \<le> i" "i < n"
    then show "(of_nat (tm i) :: u32) - of_nat (tm 0) < d"
      using before [OF \<open>i < n\<close>] ge [of i] u [OF small [OF \<open>i < n\<close>]] d
      unfolding word_less_nat_alt by linarith
  next
    show "\<not> (of_nat (tm n) :: u32) - of_nat (tm 0) < d"
      unfolding word_less_nat_alt u [OF step] using n by simp
  qed (use m in simp)
  then show ?thesis using n before unfolding fw_delay_millis_def by blast
qed

theorem delay_millis_returns_witness:
  "\<exists>n. fw_delay_millis (\<lambda>i. of_nat (4294967290 + i)) 20 = Some n \<and> 4294967310 \<le> 4294967290 + n"
  using delay_millis_returns [of "\<lambda>i. 4294967290 + i" 20] by (auto intro: exI [of _ 20])

section \<open>The POSIX clock runs forward\<close>

definition ts_valid :: "timespec \<Rightarrow> bool" where
  "ts_valid t \<longleftrightarrow> 0 \<le> tv_nsec t \<and> tv_nsec t < 1000000000"

definition ts_nanos :: "timespec \<Rightarrow> int" where
  "ts_nanos t = tv_sec t * 1000000000 + tv_nsec t"

lemma sdiv_1000: "(n :: int) sdiv 1000 = (if n < 0 then - (- n div 1000) else n div 1000)"
  by (simp add: signed_divide_int_def sgn_if)

definition elapsed_micros :: "timespec \<Rightarrow> timespec \<Rightarrow> int" where
  "elapsed_micros s t = (tv_sec t - tv_sec s) * 1000000 + (tv_nsec t - tv_nsec s) sdiv 1000"

lemma div_1000_bounds: "1000 * (n div 1000) \<le> n" "n < 1000 * (n div 1000) + 1000" for n :: int
  using mult_div_mod_eq [of 1000 n] pos_mod_bound [of 1000 n] pos_mod_sign [of 1000 n] by linarith+

lemma sdiv_1000_bounds:
  "0 \<le> n \<Longrightarrow> 1000 * (n sdiv 1000) \<le> n \<and> n < 1000 * (n sdiv 1000) + 1000"
  "n < 0 \<Longrightarrow> n \<le> 1000 * (n sdiv 1000) \<and> 1000 * (n sdiv 1000) < n + 1000" for n :: int
  using div_1000_bounds [of n] div_1000_bounds [of "- n"] by (simp_all add: sdiv_1000)

lemma sdiv_1000_sign: "n < 0 \<Longrightarrow> n sdiv 1000 \<le> 0" "0 \<le> n \<Longrightarrow> 0 \<le> n sdiv 1000" for n :: int
  using sdiv_1000_bounds [of n] by (simp_all; linarith)+

lemma sdiv_1000_mono: "x \<le> y \<Longrightarrow> x sdiv 1000 \<le> y sdiv 1000" for x y :: int
  using sdiv_1000_bounds [of x] sdiv_1000_bounds [of y] sdiv_1000_sign [of x] sdiv_1000_sign [of y]
  by (cases "x < 0"; cases "y < 0"; simp; linarith)

lemma sdiv_1000_carry:
  fixes x y :: int
  assumes "x - y < 1000000000"
  shows "x sdiv 1000 \<le> y sdiv 1000 + 1000000"
proof -
  have "(y + 1000000000) sdiv 1000 \<le> y sdiv 1000 + 1000000"
    using sdiv_1000_bounds [of y] sdiv_1000_bounds [of "y + 1000000000"] sdiv_1000_sign [of y]
    by (cases "y < 0"; cases "y + 1000000000 < 0"; simp; linarith)
  moreover have "x sdiv 1000 \<le> (y + 1000000000) sdiv 1000" using assms by (intro sdiv_1000_mono) simp
  ultimately show ?thesis by linarith
qed

lemma elapsed_micros_near:
  "elapsed_micros s t * 1000 - (ts_nanos t - ts_nanos s) < 1000
   \<and> (ts_nanos t - ts_nanos s) - elapsed_micros s t * 1000 < 1000"
proof -
  define n where "n = tv_nsec t - tv_nsec s"
  have "(n sdiv 1000) * 1000 - n < 1000 \<and> n - (n sdiv 1000) * 1000 < 1000"
    using sdiv_1000_bounds [of n] by (cases "n < 0"; simp; linarith)
  moreover have "ts_nanos t - ts_nanos s = (tv_sec t - tv_sec s) * 1000000000 + n"
    by (simp add: ts_nanos_def n_def algebra_simps)
  moreover have "elapsed_micros s t * 1000 = (tv_sec t - tv_sec s) * 1000000000 + (n sdiv 1000) * 1000"
    by (simp add: elapsed_micros_def n_def algebra_simps)
  ultimately show ?thesis by linarith
qed

lemma elapsed_micros_mono:
  assumes "ts_valid a" "ts_valid b" "ts_nanos a \<le> ts_nanos b"
  shows "elapsed_micros s a \<le> elapsed_micros s b"
proof -
  define x where "x = tv_nsec a - tv_nsec s"
  define y where "y = tv_nsec b - tv_nsec s"
  have xy: "x - y < 1000000000" "y - x < 1000000000"
    using assms(1,2) by (simp_all add: ts_valid_def x_def y_def)
  have carry: "x sdiv 1000 \<le> y sdiv 1000 + 1000000"
    using xy(1) by (rule sdiv_1000_carry)
  show ?thesis
  proof (cases "tv_sec a = tv_sec b")
    case True
    then have "x \<le> y" using assms(3) by (simp add: ts_nanos_def x_def y_def)
    then have "x sdiv 1000 \<le> y sdiv 1000" by (rule sdiv_1000_mono)
    then show ?thesis using True by (simp add: elapsed_micros_def x_def y_def)
  next
    case False
    have "tv_sec a < tv_sec b" using False assms by (auto simp: ts_nanos_def ts_valid_def)
    then have "tv_sec a * 1000000 + 1000000 \<le> tv_sec b * 1000000" by simp
    then show ?thesis using carry by (simp add: elapsed_micros_def x_def y_def algebra_simps)
  qed
qed

lemma host_micros_eq:
  assumes "s_timer_initialized h" and "0 \<le> elapsed_micros (s_start_time h) t"
    and "elapsed_micros (s_start_time h) t < 2 ^ 64"
  shows "unat (fst (host_get_micros t t h)) = nat (elapsed_micros (s_start_time h) t)"
proof -
  have "fst (host_get_micros t t h) = of_int (elapsed_micros (s_start_time h) t)"
    using assms(1) by (simp add: host_get_micros_def init_host_timer_def elapsed_micros_def Let_def)
  also have "\<dots> = of_nat (nat (elapsed_micros (s_start_time h) t))" using assms(2) by simp
  finally have eq: "fst (host_get_micros t t h) = of_nat (nat (elapsed_micros (s_start_time h) t))" .
  have "nat (elapsed_micros (s_start_time h) t) < 2 ^ LENGTH(64)" using assms(2,3) by simp
  then show ?thesis unfolding eq by (rule unat_of_nat_small)
qed

text \<open>
  The POSIX uptime in microseconds never runs backwards and is within one microsecond of the time
  since the first call, although the nanosecond difference it adds may be negative.
\<close>

theorem host_clock_monotone:
  assumes "s_timer_initialized h" and "ts_valid t1" and "ts_valid t2" and "ts_valid (s_start_time h)"
    and "ts_nanos (s_start_time h) \<le> ts_nanos t1" and "ts_nanos t1 \<le> ts_nanos t2"
    and "ts_nanos t2 - ts_nanos (s_start_time h) < 2 ^ 64"
  shows "fst (host_get_micros t1 t1 h) \<le> fst (host_get_micros t2 t2 h)
    \<and> \<bar>1000 * uint (fst (host_get_micros t1 t1 h)) - (ts_nanos t1 - ts_nanos (s_start_time h))\<bar> < 1000"
proof -
  let ?s = "s_start_time h"
  have "elapsed_micros ?s ?s = 0" by (simp add: elapsed_micros_def sdiv_1000)
  then have nonneg: "0 \<le> elapsed_micros ?s t1" "elapsed_micros ?s t1 \<le> elapsed_micros ?s t2"
    using elapsed_micros_mono [of ?s t1 ?s] elapsed_micros_mono [of t1 t2 ?s] assms by simp_all
  have "elapsed_micros ?s t2 * 1000 - (ts_nanos t2 - ts_nanos ?s) < 1000"
    using elapsed_micros_near by blast
  then have lt: "elapsed_micros ?s t2 < 2 ^ 64" using assms(7) by simp
  have m1: "unat (fst (host_get_micros t1 t1 h)) = nat (elapsed_micros ?s t1)"
    using host_micros_eq [OF assms(1)] nonneg lt by simp
  have m2: "unat (fst (host_get_micros t2 t2 h)) = nat (elapsed_micros ?s t2)"
    using host_micros_eq [OF assms(1)] nonneg lt by simp
  have "uint (fst (host_get_micros t1 t1 h)) = elapsed_micros ?s t1"
    using m1 nonneg(1) by (metis uint_nat int_nat_eq)
  then show ?thesis
    using m1 m2 nonneg elapsed_micros_near [of ?s t1] by (auto simp: word_le_nat_alt)
qed

theorem host_clock_monotone_witness:
  "fst (host_get_micros \<lparr>tv_sec = 8, tv_nsec = 100\<rparr> \<lparr>tv_sec = 8, tv_nsec = 100\<rparr>
        \<lparr>s_start_time = \<lparr>tv_sec = 7, tv_nsec = 2000\<rparr>, s_timer_initialized = True\<rparr>)
    \<le> fst (host_get_micros \<lparr>tv_sec = 8, tv_nsec = 3000\<rparr> \<lparr>tv_sec = 8, tv_nsec = 3000\<rparr>
        \<lparr>s_start_time = \<lparr>tv_sec = 7, tv_nsec = 2000\<rparr>, s_timer_initialized = True\<rparr>)"
  using host_clock_monotone [of "\<lparr>s_start_time = \<lparr>tv_sec = 7, tv_nsec = 2000\<rparr>, s_timer_initialized = True\<rparr>"
      "\<lparr>tv_sec = 8, tv_nsec = 100\<rparr>" "\<lparr>tv_sec = 8, tv_nsec = 3000\<rparr>"]
  by (simp add: ts_valid_def ts_nanos_def)

section \<open>The Windows clock\<close>

text \<open>
  C24: the Windows uptime in microseconds is the ticks since the first call, times a million and modulo
  \<open>2 ^ 64\<close>, divided by the frequency: exact, and never behind an earlier reading, while the product fits
  64 bits.  Past that it starts again from 0, at 10 MHz after 21 days, long before 64 bits of microseconds are used up.
\<close>

theorem windows_clock_range:
  assumes "win_timer_initialized w" and "0 < s_timer_freq w" and "s_timer_freq w < 2 ^ 63"
    and "s_timer_start w \<le> now" and "now - s_timer_start w < 2 ^ 63"
  shows "\<exists>us. win_get_micros freq first now w = Some (us, w)
    \<and> uint us = ((now - s_timer_start w) * 1000000 mod 2 ^ 64) div s_timer_freq w
    \<and> ((now - s_timer_start w) * 1000000 < 2 ^ 64 \<longrightarrow>
         uint us = (now - s_timer_start w) * 1000000 div s_timer_freq w
         \<and> (\<forall>t us'. s_timer_start w \<le> t \<and> t \<le> now \<and> win_get_micros freq first t w = Some (us', w) \<longrightarrow> us' \<le> us))"
proof -
  let ?f = "of_int (s_timer_freq w) :: u64"
  have f: "uint ?f = s_timer_freq w" using assms(2,3) by (simp add: uint_word_of_int_eq take_bit_int_eq_self)
  then have f0: "?f \<noteq> 0" using assms(2) by auto
  have run: "win_get_micros freq first t w = Some (of_int (t - s_timer_start w) * 1000000 div ?f, w)" for t
    using assms(1) f0 by (simp add: win_get_micros_def win_init_host_timer_def Let_def)
  have prod: "uint (of_int d * 1000000 :: u64) = d * 1000000 mod 2 ^ 64" for d
  proof -
    have "(of_int d * 1000000 :: u64) = of_int (d * 1000000)" by simp
    then show ?thesis by (simp only: uint_word_of_int_eq take_bit_eq_mod) simp
  qed
  have val: "uint (of_int d * 1000000 div ?f) = (d * 1000000 mod 2 ^ 64) div s_timer_freq w" for d
    by (simp only: uint_div prod f)
  show ?thesis
  proof (intro exI [of _ "of_int (now - s_timer_start w) * 1000000 div ?f"] conjI impI allI)
    assume fit: "(now - s_timer_start w) * 1000000 < 2 ^ 64"
    show "uint (of_int (now - s_timer_start w) * 1000000 div ?f) = (now - s_timer_start w) * 1000000 div s_timer_freq w"
      using fit assms(4) by (simp only: val) simp
    fix t us'
    assume t: "s_timer_start w \<le> t \<and> t \<le> now \<and> win_get_micros freq first t w = Some (us', w)"
    then have us': "us' = of_int (t - s_timer_start w) * 1000000 div ?f" by (simp add: run)
    have "(t - s_timer_start w) * 1000000 \<le> (now - s_timer_start w) * 1000000" using t by simp
    then show "us' \<le> of_int (now - s_timer_start w) * 1000000 div ?f"
      unfolding us' word_le_def val using t fit assms(2) by (simp add: zdiv_mono1)
  qed (simp_all only: run val)
qed

theorem windows_clock_range_witness:
  "let w = \<lparr>s_timer_freq = 10000000, s_timer_start = 5, win_timer_initialized = True\<rparr>
   in (\<exists>us. win_get_micros 0 0 18446744073714 w = Some (us, w) \<and> uint us = 1844674407370)
     \<and> (\<exists>us. win_get_micros 0 0 18446744073715 w = Some (us, w) \<and> uint us = 0)"
  using windows_clock_range [of "\<lparr>s_timer_freq = 10000000, s_timer_start = 5, win_timer_initialized = True\<rparr>" 18446744073714 0 0]
    windows_clock_range [of "\<lparr>s_timer_freq = 10000000, s_timer_start = 5, win_timer_initialized = True\<rparr>" 18446744073715 0 0]
  unfolding Let_def by fastforce

end
