(* ===== verification/Watchdog.thy ===== *)
theory Watchdog
  imports Timer
begin

text \<open>
  The multi-task watchdog supervisor of \<^verbatim>\<open>watchdog.h\<close> and \<^verbatim>\<open>watchdog.c\<close>.  The hardware kick and the
  fault handler are values of types \<open>'k\<close> and \<open>'f\<close> (None is \<^verbatim>\<open>NULL\<close>); what they do to the world is a
  parameter.  The millisecond clock is read once per operation: its value is the argument \<open>now\<close>.
\<close>

unbundle bit_operations_syntax

definition FW_WDT_MAX_TASKS :: nat where "FW_WDT_MAX_TASKS = 32"

record ('k, 'f) fw_wdt_supervisor =
  wd_registered_mask :: u32
  wd_reported_mask :: u32
  wd_timeout_ms :: u32
  wd_last_kick_ms :: u32
  wd_hw_kick_fn :: "'k option"
  wd_fault_fn :: "'f option"

definition fw_wdt_init ::
  "u32 \<Rightarrow> ('k, 'f) fw_wdt_supervisor option \<Rightarrow> u32 \<Rightarrow> 'k option \<Rightarrow> 'f option \<Rightarrow>
   fw_status \<times> ('k, 'f) fw_wdt_supervisor option" where
  "fw_wdt_init now wdt timeout_ms hw_kick_fn fault_fn =
     (if wdt = None \<or> timeout_ms = 0 then (FW_ERR_INVALID_ARG, wdt)
      else (FW_OK, Some \<lparr>wd_registered_mask = 0, wd_reported_mask = 0, wd_timeout_ms = timeout_ms,
              wd_last_kick_ms = now, wd_hw_kick_fn = hw_kick_fn, wd_fault_fn = fault_fn\<rparr>))"

definition task_bit :: "u8 \<Rightarrow> u32" where
  "task_bit task_id = push_bit (unat task_id) 1"

definition fw_wdt_register_task ::
  "('k, 'f) fw_wdt_supervisor option \<Rightarrow> u8 \<Rightarrow> fw_status \<times> ('k, 'f) fw_wdt_supervisor option" where
  "fw_wdt_register_task wdt task_id =
     (case wdt of
        None \<Rightarrow> (FW_ERR_INVALID_ARG, None)
      | Some d \<Rightarrow>
          if unat task_id \<ge> FW_WDT_MAX_TASKS then (FW_ERR_INVALID_ARG, Some d)
          else (FW_OK, Some (d\<lparr>wd_registered_mask := wd_registered_mask d OR task_bit task_id,
                               wd_reported_mask := wd_reported_mask d OR task_bit task_id\<rparr>)))"

definition fw_wdt_unregister_task ::
  "('k, 'f) fw_wdt_supervisor option \<Rightarrow> u8 \<Rightarrow> fw_status \<times> ('k, 'f) fw_wdt_supervisor option" where
  "fw_wdt_unregister_task wdt task_id =
     (case wdt of
        None \<Rightarrow> (FW_ERR_INVALID_ARG, None)
      | Some d \<Rightarrow>
          if unat task_id \<ge> FW_WDT_MAX_TASKS then (FW_ERR_INVALID_ARG, Some d)
          else (FW_OK, Some (d\<lparr>wd_registered_mask := wd_registered_mask d AND NOT (task_bit task_id),
                               wd_reported_mask := wd_reported_mask d AND NOT (task_bit task_id)\<rparr>)))"

definition fw_wdt_heartbeat ::
  "('k, 'f) fw_wdt_supervisor option \<Rightarrow> u8 \<Rightarrow> ('k, 'f) fw_wdt_supervisor option" where
  "fw_wdt_heartbeat wdt task_id =
     (case wdt of
        None \<Rightarrow> None
      | Some d \<Rightarrow>
          if unat task_id < FW_WDT_MAX_TASKS
          then Some (d\<lparr>wd_reported_mask := wd_reported_mask d OR task_bit task_id\<rparr>) else Some d)"

definition fw_wdt_get_starving_tasks :: "('k, 'f) fw_wdt_supervisor option \<Rightarrow> u32" where
  "fw_wdt_get_starving_tasks wdt =
     (case wdt of None \<Rightarrow> 0 | Some d \<Rightarrow> wd_registered_mask d AND NOT (wd_reported_mask d))"

text \<open>The callbacks may use the supervisor, as code that holds a pointer to it can.\<close>

record ('k, 'f, 'w) wdt_app =
  app_kick :: "'k \<Rightarrow> ('k, 'f) fw_wdt_supervisor \<times> 'w \<Rightarrow> ('k, 'f) fw_wdt_supervisor \<times> 'w"
  app_fault :: "'f \<Rightarrow> u32 \<Rightarrow> ('k, 'f) fw_wdt_supervisor \<times> 'w \<Rightarrow> ('k, 'f) fw_wdt_supervisor \<times> 'w"

definition fw_wdt_service ::
  "('k, 'f, 'w) wdt_app \<Rightarrow> u32 \<Rightarrow> ('k, 'f) fw_wdt_supervisor option \<Rightarrow> 'w \<Rightarrow>
   bool \<times> ('k, 'f) fw_wdt_supervisor option \<times> 'w" where
  "fw_wdt_service app now wdt w =
     (case wdt of
        None \<Rightarrow> (False, None, w)
      | Some d \<Rightarrow>
          let starving = fw_wdt_get_starving_tasks (Some d)
          in if starving = 0 then
               let (d', w') = (case wd_hw_kick_fn d of None \<Rightarrow> (d, w) | Some k \<Rightarrow> app_kick app k (d, w))
               in (True, Some (d'\<lparr>wd_reported_mask := 0, wd_last_kick_ms := now\<rparr>), w')
             else if now - wd_last_kick_ms d \<ge> wd_timeout_ms d then
               let (d', w') = (case wd_fault_fn d of None \<Rightarrow> (d, w) | Some f \<Rightarrow> app_fault app f starving (d, w))
               in (False, Some d', w')
             else (True, Some d, w))"

section \<open>Masks as sets of tasks\<close>

lemma bit_task_bit: "unat i < 32 \<Longrightarrow> t < 32 \<Longrightarrow> bit (task_bit i) t \<longleftrightarrow> unat i = t"
  by (simp add: task_bit_def bit_exp_iff possible_bit_def eq_commute)

lemma starving_zero_iff:
  "fw_wdt_get_starving_tasks (Some d) = 0 \<longleftrightarrow>
     (\<forall>t<32. bit (wd_registered_mask d) t \<longrightarrow> bit (wd_reported_mask d) t)"
  by (auto simp: fw_wdt_get_starving_tasks_def bit_eq_iff bit_and_iff bit_not_iff dest: bit_imp_le_length)

lemma wdt_service_some: "\<exists>r d' w'. fw_wdt_service app now (Some d) w = (r, Some d', w')"
  by (cases "fw_wdt_service app now (Some d) w") (auto simp: fw_wdt_service_def Let_def split: prod.splits if_splits)

text \<open>What the tasks do between two calls of the supervisor, and whom that leaves reported.\<close>

datatype wdt_op = Register u8 | Unregister u8 | Heartbeat u8

fun wdt_run :: "wdt_op list \<Rightarrow> ('k, 'f) fw_wdt_supervisor \<Rightarrow> ('k, 'f) fw_wdt_supervisor" where
  "wdt_run [] d = d"
| "wdt_run (Register i # ops) d = wdt_run ops (the (snd (fw_wdt_register_task (Some d) i)))"
| "wdt_run (Unregister i # ops) d = wdt_run ops (the (snd (fw_wdt_unregister_task (Some d) i)))"
| "wdt_run (Heartbeat i # ops) d = wdt_run ops (the (fw_wdt_heartbeat (Some d) i))"

fun enrolled_after :: "wdt_op list \<Rightarrow> nat \<Rightarrow> bool \<Rightarrow> bool" where
  "enrolled_after [] t b = b"
| "enrolled_after (Register i # ops) t b = enrolled_after ops t (unat i = t \<or> b)"
| "enrolled_after (Unregister i # ops) t b = enrolled_after ops t (unat i \<noteq> t \<and> b)"
| "enrolled_after (Heartbeat i # ops) t b = enrolled_after ops t b"

fun reported_after :: "wdt_op list \<Rightarrow> nat \<Rightarrow> bool \<Rightarrow> bool" where
  "reported_after [] t b = b"
| "reported_after (Register i # ops) t b = reported_after ops t (unat i = t \<or> b)"
| "reported_after (Unregister i # ops) t b = reported_after ops t (unat i \<noteq> t \<and> b)"
| "reported_after (Heartbeat i # ops) t b = reported_after ops t (unat i = t \<or> b)"

lemma reported_by_op:
  "reported_after ops t b \<Longrightarrow> b \<or> (\<exists>i. unat i = t \<and> (Register i \<in> set ops \<or> Heartbeat i \<in> set ops))"
  by (induction ops t b rule: reported_after.induct) auto

lemma wdt_run_masks:
  assumes "t < 32"
  shows "bit (wd_registered_mask (wdt_run ops d)) t = enrolled_after ops t (bit (wd_registered_mask d) t)
    \<and> bit (wd_reported_mask (wdt_run ops d)) t = reported_after ops t (bit (wd_reported_mask d) t)
    \<and> wd_timeout_ms (wdt_run ops d) = wd_timeout_ms d \<and> wd_last_kick_ms (wdt_run ops d) = wd_last_kick_ms d
    \<and> wd_hw_kick_fn (wdt_run ops d) = wd_hw_kick_fn d \<and> wd_fault_fn (wdt_run ops d) = wd_fault_fn d"
proof (induction ops d rule: wdt_run.induct)
  case (2 i ops d)
  show ?case
  proof (cases "unat i < 32")
    case True
    then show ?thesis
      using 2 assms by (simp add: fw_wdt_register_task_def FW_WDT_MAX_TASKS_def bit_or_iff bit_task_bit disj_commute)
  next
    case False
    then have "unat i \<noteq> t" using assms by simp
    then show ?thesis using 2 False by (simp add: fw_wdt_register_task_def FW_WDT_MAX_TASKS_def)
  qed
next
  case (3 i ops d)
  show ?case
  proof (cases "unat i < 32")
    case True
    then show ?thesis
      using 3 assms
      by (simp add: fw_wdt_unregister_task_def FW_WDT_MAX_TASKS_def bit_and_iff bit_not_iff bit_task_bit conj_commute)
  next
    case False
    then have "unat i \<noteq> t" using assms by simp
    then show ?thesis using 3 False by (simp add: fw_wdt_unregister_task_def FW_WDT_MAX_TASKS_def)
  qed
next
  case (4 i ops d)
  show ?case
  proof (cases "unat i < 32")
    case True
    then show ?thesis
      using 4 assms by (simp add: fw_wdt_heartbeat_def FW_WDT_MAX_TASKS_def bit_or_iff bit_task_bit disj_commute)
  next
    case False
    then have "unat i \<noteq> t" using assms by simp
    then show ?thesis using 4 False by (simp add: fw_wdt_heartbeat_def FW_WDT_MAX_TASKS_def)
  qed
qed simp

text \<open>
  C25: the supervisor refreshes the hardware watchdog exactly when every task registered by then has
  reported since the previous refresh; when one has not, and the timeout has passed on the wrapping
  clock, it raises the fault with the mask of exactly the silent tasks and does not refresh; otherwise
  it waits without a change.
\<close>

theorem wdt_kick_iff_all_alive:
  assumes "fw_wdt_service app t0 (Some d0) w0 = (True, Some d1, w1)" and "fw_wdt_get_starving_tasks (Some d0) = 0"
    and "fw_wdt_service app t1 (Some (wdt_run ops d1)) w = (r, Some d2, w2)"
    and "wd_hw_kick_fn d1 = Some k" and "wd_fault_fn d1 = Some f"
    and keep: "\<And>x v. fst (app_kick app k (x, v)) = x" "\<And>m x v. fst (app_fault app f m (x, v)) = x"
  shows "let silent = (\<lambda>t. t < 32 \<and> enrolled_after ops t (bit (wd_registered_mask d1) t) \<and> \<not> reported_after ops t False)
    in if (\<nexists>t. silent t) then r \<and> wd_last_kick_ms d2 = t1 \<and> wd_reported_mask d2 = 0
           \<and> w2 = snd (app_kick app k (wdt_run ops d1, w))
       else if t1 - t0 \<ge> wd_timeout_ms d1 then \<not> r \<and> d2 = wdt_run ops d1
           \<and> (\<exists>m. (\<forall>t. bit m t \<longleftrightarrow> silent t) \<and> w2 = snd (app_fault app f m (wdt_run ops d1, w)))
       else r \<and> d2 = wdt_run ops d1 \<and> w2 = w"
proof -
  let ?d = "wdt_run ops d1"
  let ?silent = "\<lambda>t. t < 32 \<and> enrolled_after ops t (bit (wd_registered_mask d1) t) \<and> \<not> reported_after ops t False"
  have d1: "wd_reported_mask d1 = 0" "wd_last_kick_ms d1 = t0"
    using assms(1,2) by (auto simp: fw_wdt_service_def Let_def split: prod.splits)
  have run: "wd_timeout_ms ?d = wd_timeout_ms d1" "wd_last_kick_ms ?d = t0" "wd_hw_kick_fn ?d = Some k"
      "wd_fault_fn ?d = Some f"
    using wdt_run_masks [of 0 ops d1] d1 assms(4,5) by simp_all
  let ?s = "fw_wdt_get_starving_tasks (Some ?d)"
  have bits: "bit ?s t \<longleftrightarrow> ?silent t" for t
    using wdt_run_masks [of t ops d1] d1
    by (auto simp: fw_wdt_get_starving_tasks_def bit_and_iff bit_not_iff dest: bit_imp_le_length)
  then have zero: "?s = 0 \<longleftrightarrow> (\<nexists>t. ?silent t)" by (auto simp: bit_eq_iff)
  obtain dk wk where kick: "app_kick app k (?d, w) = (dk, wk)" by (rule prod.exhaust)
  obtain df wf where fault: "app_fault app f ?s (?d, w) = (df, wf)" by (rule prod.exhaust)
  have "dk = ?d" "df = ?d" using keep(1) [of ?d w] keep(2) [of ?s ?d w] kick fault by simp_all
  then have svc: "fw_wdt_service app t1 (Some ?d) w =
      (if ?s = 0 then (True, Some (?d\<lparr>wd_reported_mask := 0, wd_last_kick_ms := t1\<rparr>), wk)
       else if t1 - t0 \<ge> wd_timeout_ms d1 then (False, Some ?d, wf) else (True, Some ?d, w))"
    using kick fault by (simp add: fw_wdt_service_def run Let_def)
  show ?thesis
  proof (cases "?s = 0")
    case True
    then show ?thesis using assms(3) zero svc kick unfolding Let_def by auto
  next
    case False
    then have ex: "\<not> (\<nexists>t. ?silent t)" using zero by blast
    show ?thesis
    proof (cases "t1 - t0 \<ge> wd_timeout_ms d1")
      case True
      then have "r = False" "d2 = ?d" "w2 = snd (app_fault app f ?s (?d, w))"
        using assms(3) False svc fault by simp_all
      then show ?thesis unfolding Let_def if_not_P [OF ex] if_P [OF True] using bits by blast
    next
      case wait: False
      then have "r = True" "d2 = ?d" "w2 = w" using assms(3) False svc by simp_all
      then show ?thesis unfolding Let_def if_not_P [OF ex] if_not_P [OF wait] by simp
    qed
  qed
qed

theorem wdt_kick_iff_all_alive_witness:
  "let app = \<lparr>app_kick = (\<lambda>k (d, w). (d, w @ [0])), app_fault = (\<lambda>f m (d, w). (d, w @ [m]))\<rparr>;
       d0 = \<lparr>wd_registered_mask = 3, wd_reported_mask = 3, wd_timeout_ms = 50, wd_last_kick_ms = 0,
             wd_hw_kick_fn = Some (), wd_fault_fn = Some ()\<rparr>;
       d1 = the (fst (snd (fw_wdt_service app 10 (Some d0) [])))
   in fst (fw_wdt_service app 60 (Some (wdt_run [Heartbeat 1] d1)) [0]) = False"
proof -
  define app :: "(unit, unit, u32 list) wdt_app" where
    "app = \<lparr>app_kick = (\<lambda>k (d, w). (d, w @ [0])), app_fault = (\<lambda>f m (d, w). (d, w @ [m]))\<rparr>"
  define d0 :: "(unit, unit) fw_wdt_supervisor" where
    "d0 = \<lparr>wd_registered_mask = 3, wd_reported_mask = 3, wd_timeout_ms = 50, wd_last_kick_ms = 0,
             wd_hw_kick_fn = Some (), wd_fault_fn = Some ()\<rparr>"
  define d1 where "d1 = d0\<lparr>wd_reported_mask := 0, wd_last_kick_ms := 10\<rparr>"
  have s: "fw_wdt_get_starving_tasks (Some d0) = 0" by (simp add: d0_def fw_wdt_get_starving_tasks_def)
  then have 1: "fw_wdt_service app 10 (Some d0) [] = (True, Some d1, [0])"
    by (simp add: fw_wdt_service_def d0_def d1_def app_def)
  obtain r d2 w2 where 2: "fw_wdt_service app 60 (Some (wdt_run [Heartbeat 1] d1)) [0] = (r, Some d2, w2)"
    using wdt_service_some [of app 60 _ "[0]"] by blast
  have "0 < (32 :: nat) \<and> enrolled_after [Heartbeat 1] 0 (bit (wd_registered_mask d1) 0) \<and> \<not> reported_after [Heartbeat 1] 0 False"
    by (simp add: d1_def d0_def)
  then have "\<not> r"
    using wdt_kick_iff_all_alive [OF 1 s 2, of "()" "()"]
    by (auto simp: d1_def d0_def app_def Let_def dest: spec [of _ 0] split: if_splits)
  then show ?thesis using 1 2 by (simp add: app_def d0_def Let_def)
qed

end
