(* ===== verification/Boot_Guard.thy ===== *)
theory Boot_Guard
  imports Prelude
begin

text \<open>The boot loop guard of \<^verbatim>\<open>boot_guard.h\<close> and \<^verbatim>\<open>boot_guard.c\<close>.\<close>

definition FW_BOOT_GUARD_DEFAULT_MAX_CRASHES :: u32 where "FW_BOOT_GUARD_DEFAULT_MAX_CRASHES = 3"

record fw_boot_guard =
  bg_boot_attempts :: u32
  bg_consecutive_crashes :: u32
  bg_max_allowed_crashes :: u32
  bg_safe_mode_active :: bool

definition fw_boot_guard_init :: "fw_boot_guard option \<Rightarrow> u32 \<Rightarrow> fw_status \<times> fw_boot_guard option" where
  "fw_boot_guard_init guard max_crashes =
     (case guard of
        None \<Rightarrow> (FW_ERR_INVALID_ARG, None)
      | Some g \<Rightarrow>
          let mx = (if max_crashes = 0 then FW_BOOT_GUARD_DEFAULT_MAX_CRASHES else max_crashes);
              g1 = g\<lparr>bg_max_allowed_crashes := mx\<rparr>;
              g2 = g1\<lparr>bg_boot_attempts := bg_boot_attempts g1 + 1\<rparr>;
              g3 = g2\<lparr>bg_consecutive_crashes := bg_consecutive_crashes g2 + 1\<rparr>
          in (FW_OK, Some (if bg_consecutive_crashes g3 \<ge> bg_max_allowed_crashes g3
                           then g3\<lparr>bg_safe_mode_active := True\<rparr> else g3)))"

definition fw_boot_guard_mark_success :: "fw_boot_guard option \<Rightarrow> fw_status \<times> fw_boot_guard option" where
  "fw_boot_guard_mark_success guard =
     (case guard of
        None \<Rightarrow> (FW_ERR_INVALID_ARG, None)
      | Some g \<Rightarrow> (FW_OK, Some (g\<lparr>bg_consecutive_crashes := 0, bg_safe_mode_active := False\<rparr>)))"

definition fw_boot_guard_set_safe_mode :: "fw_boot_guard option \<Rightarrow> bool \<Rightarrow> fw_status \<times> fw_boot_guard option" where
  "fw_boot_guard_set_safe_mode guard enable =
     (case guard of
        None \<Rightarrow> (FW_ERR_INVALID_ARG, None)
      | Some g \<Rightarrow> (FW_OK, Some (g\<lparr>bg_safe_mode_active := enable\<rparr>)))"

definition fw_boot_guard_is_safe_mode :: "fw_boot_guard option \<Rightarrow> bool" where
  "fw_boot_guard_is_safe_mode guard = (case guard of None \<Rightarrow> False | Some g \<Rightarrow> bg_safe_mode_active g)"

section \<open>The life of a guard\<close>

text \<open>
  What happens to a guard that is kept over resets: a boot calls \<open>fw_boot_guard_init\<close>, firmware that has come up
  calls \<open>fw_boot_guard_mark_success\<close>, and an operator may set or clear safe mode by hand.  The limit is the
  one the firmware gives at every boot.
\<close>

datatype guard_event = Boot_Started | Boot_Succeeded | Safe_Mode_Set bool

fun guard_op :: "u32 \<Rightarrow> guard_event \<Rightarrow> fw_boot_guard option \<Rightarrow> fw_status \<times> fw_boot_guard option" where
  "guard_op mx Boot_Started g = fw_boot_guard_init g mx"
| "guard_op mx Boot_Succeeded g = fw_boot_guard_mark_success g"
| "guard_op mx (Safe_Mode_Set b) g = fw_boot_guard_set_safe_mode g b"

fun guard_run :: "u32 \<Rightarrow> guard_event list \<Rightarrow> fw_boot_guard option \<Rightarrow> fw_boot_guard option" where
  "guard_run mx [] g = g"
| "guard_run mx (e # es) g = guard_run mx es (snd (guard_op mx e g))"

definition effective_max :: "u32 \<Rightarrow> u32" where
  "effective_max mx = (if mx = 0 then 3 else mx)"

text \<open>The boots since the last one marked successful, the running one included; \<open>c\<close> were counted before.\<close>

definition unmarked_boots :: "nat \<Rightarrow> guard_event list \<Rightarrow> nat" where
  "unmarked_boots c es = (if Boot_Succeeded \<in> set es then 0 else c)
     + length (filter ((=) Boot_Started) (takeWhile ((\<noteq>) Boot_Succeeded) (rev es)))"

definition switches_on :: "u32 \<Rightarrow> nat \<Rightarrow> guard_event list \<Rightarrow> guard_event \<Rightarrow> bool" where
  "switches_on mx c before e \<longleftrightarrow> e = Safe_Mode_Set True
     \<or> e = Boot_Started \<and> unat (effective_max mx) \<le> unmarked_boots c (before @ [e])"

definition switches_off :: "guard_event \<Rightarrow> bool" where
  "switches_off e \<longleftrightarrow> e = Boot_Succeeded \<or> e = Safe_Mode_Set False"

text \<open>Something has switched safe mode on and nothing after it has switched it off.\<close>

definition left_on :: "u32 \<Rightarrow> nat \<Rightarrow> guard_event list \<Rightarrow> bool" where
  "left_on mx c es \<longleftrightarrow>
     (\<exists>pre e post. es = pre @ e # post \<and> switches_on mx c pre e \<and> (\<forall>x\<in>set post. \<not> switches_off x))"

lemma guard_run_append: "guard_run mx (xs @ ys) g = guard_run mx ys (guard_run mx xs g)"
  by (induction xs arbitrary: g) simp_all

lemma unmarked_boots_snoc:
  "unmarked_boots c (es @ [e]) = (case e of Boot_Started \<Rightarrow> Suc (unmarked_boots c es)
     | Boot_Succeeded \<Rightarrow> 0 | Safe_Mode_Set b \<Rightarrow> unmarked_boots c es)"
  by (cases e) (simp_all add: unmarked_boots_def)

lemma unmarked_boots_le: "unmarked_boots c es \<le> c + length es"
  by (induction es rule: rev_induct)
    (auto simp: unmarked_boots_snoc split: guard_event.split, simp add: unmarked_boots_def)

lemma effective_max_pos: "0 < unat (effective_max mx)"
  by (simp add: effective_max_def unat_gt_0)

text \<open>The guard after any events: its count and its flag.\<close>

lemma guard_run_snoc:
  assumes "guard_run mx es (Some g) = Some h" and "unat (bg_consecutive_crashes h) + 1 < 2 ^ 32"
  shows "\<exists>h'. guard_run mx (es @ [e]) (Some g) = Some h'
    \<and> unat (bg_consecutive_crashes h') = (case e of Boot_Started \<Rightarrow> Suc (unat (bg_consecutive_crashes h))
         | Boot_Succeeded \<Rightarrow> 0 | Safe_Mode_Set b \<Rightarrow> unat (bg_consecutive_crashes h))
    \<and> (bg_safe_mode_active h' \<longleftrightarrow> e = Safe_Mode_Set True
         \<or> e = Boot_Started \<and> unat (effective_max mx) \<le> Suc (unat (bg_consecutive_crashes h))
         \<or> bg_safe_mode_active h \<and> \<not> switches_off e)"
proof -
  have "unat (bg_consecutive_crashes h + 1) = Suc (unat (bg_consecutive_crashes h))"
    using assms(2) unat_add_nowrap [of "bg_consecutive_crashes h" 1] by simp
  moreover have "(if mx = 0 then FW_BOOT_GUARD_DEFAULT_MAX_CRASHES else mx) = effective_max mx"
    by (simp add: effective_max_def FW_BOOT_GUARD_DEFAULT_MAX_CRASHES_def)
  ultimately show ?thesis
    using assms(1) by (cases e) (auto simp: guard_run_append fw_boot_guard_init_def fw_boot_guard_mark_success_def
        fw_boot_guard_set_safe_mode_def switches_off_def word_le_nat_alt Let_def)
qed

lemma left_on_Nil [simp]: "\<not> left_on mx c []"
  by (simp add: left_on_def)

lemma left_on_snoc:
  "left_on mx c (es @ [x]) \<longleftrightarrow> switches_on mx c es x \<or> left_on mx c es \<and> \<not> switches_off x"
proof
  assume "left_on mx c (es @ [x])"
  then obtain pre e post where s: "es @ [x] = pre @ e # post" "switches_on mx c pre e" "\<forall>y\<in>set post. \<not> switches_off y"
    unfolding left_on_def by blast
  show "switches_on mx c es x \<or> left_on mx c es \<and> \<not> switches_off x"
  proof (cases post rule: rev_cases)
    case Nil
    then show ?thesis using s by simp
  next
    case (snoc ys y)
    then have "es = pre @ e # ys" "y = x" using s(1) by simp_all
    then show ?thesis using s snoc unfolding left_on_def by auto
  qed
next
  assume "switches_on mx c es x \<or> left_on mx c es \<and> \<not> switches_off x"
  then show "left_on mx c (es @ [x])"
  proof
    assume "switches_on mx c es x"
    then show ?thesis unfolding left_on_def by (intro exI [of _ es] exI [of _ x] exI [of _ "[]"]) simp
  next
    assume "left_on mx c es \<and> \<not> switches_off x"
    then obtain pre e post where s: "es = pre @ e # post" "switches_on mx c pre e" "\<forall>y\<in>set post. \<not> switches_off y"
        "\<not> switches_off x"
      unfolding left_on_def by blast
    then show ?thesis
      unfolding left_on_def by (intro exI [of _ pre] exI [of _ e] exI [of _ "post @ [x]"]) auto
  qed
qed

lemma guard_run_state:
  fixes g :: fw_boot_guard and mx :: u32
  defines "c \<equiv> unat (bg_consecutive_crashes g)"
  assumes "c + length es < 2 ^ 32"
  shows "\<exists>h. guard_run mx es (Some g) = Some h \<and> unat (bg_consecutive_crashes h) = unmarked_boots c es
    \<and> (bg_safe_mode_active h \<longleftrightarrow>
         left_on mx c es \<or> bg_safe_mode_active g \<and> (\<forall>x\<in>set es. \<not> switches_off x))
    \<and> (c = 0 \<and> \<not> bg_safe_mode_active g \<and> (\<forall>b. Safe_Mode_Set b \<notin> set es) \<longrightarrow>
         (bg_safe_mode_active h \<longleftrightarrow> unat (effective_max mx) \<le> unmarked_boots c es))"
  using assms(2)
proof (induction es rule: rev_induct)
  case Nil
  then show ?case using effective_max_pos [of mx] by (simp add: unmarked_boots_def c_def)
next
  case (snoc e es)
  then obtain h where h: "guard_run mx es (Some g) = Some h" "unat (bg_consecutive_crashes h) = unmarked_boots c es"
    and on: "bg_safe_mode_active h \<longleftrightarrow>
         left_on mx c es \<or> bg_safe_mode_active g \<and> (\<forall>x\<in>set es. \<not> switches_off x)"
    and cold: "c = 0 \<and> \<not> bg_safe_mode_active g \<and> (\<forall>b. Safe_Mode_Set b \<notin> set es) \<longrightarrow>
         (bg_safe_mode_active h \<longleftrightarrow> unat (effective_max mx) \<le> unmarked_boots c es)"
    by auto
  have "unat (bg_consecutive_crashes h) + 1 < 2 ^ 32"
    using h(2) unmarked_boots_le [of c es] snoc.prems by simp
  from guard_run_snoc [OF h(1) this, of e] obtain h' where h': "guard_run mx (es @ [e]) (Some g) = Some h'"
      "unat (bg_consecutive_crashes h') = unmarked_boots c (es @ [e])"
    and on': "bg_safe_mode_active h' \<longleftrightarrow> switches_on mx c es e \<or> bg_safe_mode_active h \<and> \<not> switches_off e"
    by (auto simp: h(2) unmarked_boots_snoc switches_on_def split: guard_event.splits)
  have "bg_safe_mode_active h' \<longleftrightarrow>
      left_on mx c (es @ [e]) \<or> bg_safe_mode_active g \<and> (\<forall>x\<in>set (es @ [e]). \<not> switches_off x)"
    unfolding on' on left_on_snoc by auto
  moreover have "c = 0 \<and> \<not> bg_safe_mode_active g \<and> (\<forall>b. Safe_Mode_Set b \<notin> set (es @ [e])) \<longrightarrow>
      (bg_safe_mode_active h' \<longleftrightarrow> unat (effective_max mx) \<le> unmarked_boots c (es @ [e]))"
    using cold on' effective_max_pos [of mx]
    by (cases e) (auto simp: unmarked_boots_snoc switches_on_def switches_off_def)
  ultimately show ?case using h' by blast
qed

text \<open>
  C40: after any history of boots, success marks and manual settings, and at any moment of it (so also while a
  boot is running), safe mode is on exactly when something has switched it on and nothing after that has switched it off:
  a boot switches it on when the boots since the last successful one, the running boot included, have
  reached the limit (three when it is given as zero), a manual setting does either, and a success mark switches it off.
  Without manual settings, from a cold start, this is: safe mode is on exactly when that number of
  boots has reached the limit.  With limit \<open>n\<close> the boot after \<open>n - 1\<close> failed ones is therefore already in safe mode.
\<close>

theorem safe_mode_iff_unmarked_boots:
  assumes "c = unat (bg_consecutive_crashes g)" and "c + length es < 2 ^ 32"
  shows "(fw_boot_guard_is_safe_mode (guard_run mx es (Some g)) \<longleftrightarrow>
        left_on mx c es \<or> bg_safe_mode_active g \<and> (\<forall>x\<in>set es. \<not> switches_off x))
    \<and> (c = 0 \<and> \<not> bg_safe_mode_active g \<and> (\<forall>b. Safe_Mode_Set b \<notin> set es) \<longrightarrow>
        (fw_boot_guard_is_safe_mode (guard_run mx es (Some g)) \<longleftrightarrow> unat (effective_max mx) \<le> unmarked_boots 0 es))"
proof -
  obtain h where h: "guard_run mx es (Some g) = Some h"
    and s: "(bg_safe_mode_active h \<longleftrightarrow>
         left_on mx c es \<or> bg_safe_mode_active g \<and> (\<forall>x\<in>set es. \<not> switches_off x))
      \<and> (c = 0 \<and> \<not> bg_safe_mode_active g \<and> (\<forall>b. Safe_Mode_Set b \<notin> set es) \<longrightarrow>
         (bg_safe_mode_active h \<longleftrightarrow> unat (effective_max mx) \<le> unmarked_boots c es))"
    using guard_run_state [of g es mx] assms by blast
  have "fw_boot_guard_is_safe_mode (guard_run mx es (Some g)) = bg_safe_mode_active h"
    by (simp add: fw_boot_guard_is_safe_mode_def h)
  then show ?thesis using s by metis
qed

text \<open>The third boot in a row is in safe mode after two failed ones; a manual clear holds although three are counted.\<close>

theorem safe_mode_iff_unmarked_boots_witness:
  "let g = \<lparr>bg_boot_attempts = 0, bg_consecutive_crashes = 0, bg_max_allowed_crashes = 0, bg_safe_mode_active = False\<rparr>;
       three = [Boot_Started, Boot_Succeeded, Boot_Started, Boot_Started, Boot_Started]
   in fw_boot_guard_is_safe_mode (guard_run 0 three (Some g))
      \<and> \<not> fw_boot_guard_is_safe_mode (guard_run 0 (three @ [Safe_Mode_Set False]) (Some g))"
proof -
  let ?g = "\<lparr>bg_boot_attempts = 0, bg_consecutive_crashes = 0, bg_max_allowed_crashes = 0, bg_safe_mode_active = False\<rparr>"
  let ?three = "[Boot_Started, Boot_Succeeded, Boot_Started, Boot_Started, Boot_Started]"
  have "3 \<le> unmarked_boots 0 ?three" by (simp add: unmarked_boots_def)
  then have "fw_boot_guard_is_safe_mode (guard_run 0 ?three (Some ?g))"
    using safe_mode_iff_unmarked_boots [of 0 ?g ?three 0, THEN conjunct2] by (simp del: guard_run.simps add: effective_max_def)
  moreover have "\<not> left_on 0 0 (?three @ [Safe_Mode_Set False])"
    unfolding left_on_snoc by (simp add: switches_on_def switches_off_def)
  then have "\<not> fw_boot_guard_is_safe_mode (guard_run 0 (?three @ [Safe_Mode_Set False]) (Some ?g))"
    using safe_mode_iff_unmarked_boots [of 0 ?g "?three @ [Safe_Mode_Set False]" 0, THEN conjunct1]
    by (simp del: guard_run.simps)
  ultimately show ?thesis by (simp add: Let_def)
qed

end
