(* ===== verification/Monitor.thy ===== *)
theory Monitor
  imports Memory
begin

text \<open>
  The stack profiler and task monitor of \<^verbatim>\<open>monitor.h\<close> and \<^verbatim>\<open>monitor.c\<close>.  Stacks are ranges of the byte
  memory, read and written as 32-bit words; the static metric table is the record \<open>task_monitor\<close>.
\<close>

definition FW_STACK_PAINT_CANARY :: u32 where "FW_STACK_PAINT_CANARY = 0x5A5A5A5A"
definition FW_MONITOR_MAX_TASKS :: nat where "FW_MONITOR_MAX_TASKS = 16"

section \<open>Stack watermark\<close>

fun paint_loop :: "ptr \<Rightarrow> nat \<Rightarrow> mem \<Rightarrow> mem" where
  "paint_loop words 0 m = m"
| "paint_loop words (Suc i) m = store32 (paint_loop words i m) (words + of_nat (4 * i)) FW_STACK_PAINT_CANARY"

definition fw_task_stack_paint :: "ptr \<Rightarrow> usize \<Rightarrow> mem \<Rightarrow> fw_status \<times> mem" where
  "fw_task_stack_paint stack_base stack_size m =
     (if stack_base = FW_NULL \<or> stack_size < 4 then (FW_ERR_INVALID_ARG, m)
      else (FW_OK, paint_loop stack_base (unat (stack_size div 4)) m))"

text \<open>The scan from index i on, with the words counted so far.\<close>

function unused_loop :: "mem \<Rightarrow> ptr \<Rightarrow> nat \<Rightarrow> nat \<Rightarrow> nat \<Rightarrow> nat" where
  "unused_loop m words count i unused_words =
     (if i < count then
        if load32 m (words + of_nat (4 * i)) = FW_STACK_PAINT_CANARY
        then unused_loop m words count (i + 1) (unused_words + 1) else unused_words
      else unused_words)"
  by auto
termination by (relation "measure (\<lambda>(m, words, count, i, u). count - i)") auto

declare unused_loop.simps [simp del]

definition fw_task_stack_unused :: "ptr \<Rightarrow> usize \<Rightarrow> mem \<Rightarrow> usize" where
  "fw_task_stack_unused stack_base stack_size m =
     (if stack_base = FW_NULL \<or> stack_size < 4 then 0
      else of_nat (unused_loop m stack_base (unat (stack_size div 4)) 0 0) * 4)"

definition fw_task_stack_peak :: "ptr \<Rightarrow> usize \<Rightarrow> mem \<Rightarrow> usize" where
  "fw_task_stack_peak stack_base stack_size m =
     (let unused = fw_task_stack_unused stack_base stack_size m
      in if unused \<ge> stack_size then 0 else stack_size - unused)"

section \<open>Task metrics\<close>

record fw_task_metric =
  tm_task_id :: u32
  tm_total_runtime_us :: u32
  tm_execution_count :: u32
  tm_stack_size :: usize
  tm_stack_peak_bytes :: usize

record task_monitor =
  s_metrics :: "fw_task_metric list"
  s_metric_count :: nat

definition fw_task_monitor_record :: "u32 \<Rightarrow> u32 \<Rightarrow> usize \<Rightarrow> task_monitor \<Rightarrow> fw_status \<times> task_monitor" where
  "fw_task_monitor_record task_id runtime_us peak_stack s =
     (case find_idx (\<lambda>m. tm_task_id m = task_id) (take (s_metric_count s) (s_metrics s)) of
        Some i \<Rightarrow>
          let m = s_metrics s ! i;
              m1 = m\<lparr>tm_total_runtime_us := tm_total_runtime_us m + runtime_us,
                     tm_execution_count := tm_execution_count m + 1\<rparr>;
              m2 = (if peak_stack > tm_stack_peak_bytes m1 then m1\<lparr>tm_stack_peak_bytes := peak_stack\<rparr> else m1)
          in (FW_OK, s\<lparr>s_metrics := (s_metrics s)[i := m2]\<rparr>)
      | None \<Rightarrow>
          if s_metric_count s \<ge> FW_MONITOR_MAX_TASKS then (FW_ERR_BUFFER_OVERFLOW, s)
          else (FW_OK, s\<lparr>s_metrics := (s_metrics s)[s_metric_count s :=
                  \<lparr>tm_task_id = task_id, tm_total_runtime_us = runtime_us, tm_execution_count = 1,
                   tm_stack_size = 0, tm_stack_peak_bytes = peak_stack\<rparr>],
                 s_metric_count := s_metric_count s + 1\<rparr>))"

text \<open>The out parameter: None is \<^verbatim>\<open>NULL\<close>, Some x what it holds before the call.\<close>

definition fw_task_monitor_get ::
  "u32 \<Rightarrow> fw_task_metric option \<Rightarrow> task_monitor \<Rightarrow> fw_status \<times> fw_task_metric option" where
  "fw_task_monitor_get task_id out_metric s =
     (if out_metric = None then (FW_ERR_INVALID_ARG, None)
      else case find_idx (\<lambda>m. tm_task_id m = task_id) (take (s_metric_count s) (s_metrics s)) of
             Some i \<Rightarrow> (FW_OK, Some (s_metrics s ! i))
           | None \<Rightarrow> (FW_ERR_NOT_FOUND, out_metric))"

definition zero_metric :: fw_task_metric where
  "zero_metric = \<lparr>tm_task_id = 0, tm_total_runtime_us = 0, tm_execution_count = 0, tm_stack_size = 0,
     tm_stack_peak_bytes = 0\<rparr>"

definition fw_task_monitor_reset :: "task_monitor \<Rightarrow> task_monitor" where
  "fw_task_monitor_reset s = \<lparr>s_metrics = replicate FW_MONITOR_MAX_TASKS zero_metric, s_metric_count = 0\<rparr>"

section \<open>The watermark measures the stack\<close>

lemma word_block:
  assumes "nowrap p (4 * n)" and "i < n"
  shows "unat (p + of_nat (4 * i)) = unat p + 4 * i" and "nowrap (p + of_nat (4 * i)) 4"
proof -
  have "unat p + 4 * i < 2 ^ 32" using assms by (simp add: nowrap_def)
  then show u: "unat (p + of_nat (4 * i)) = unat p + 4 * i" using unat_add_of_nat [of p "4 * i"] by simp
  show "nowrap (p + of_nat (4 * i)) 4" using assms unfolding nowrap_def u by simp
qed

lemma word_blocks_disjoint:
  assumes "nowrap p (4 * n)" and "i < n" and "j < n" and "i \<noteq> j"
  shows "disjoint_blocks (p + of_nat (4 * i)) 4 (p + of_nat (4 * j)) 4"
  using assms word_block [OF assms(1,2)] word_block [OF assms(1,3)]
  by (intro disjoint_blocksI) (auto simp only:)

lemma load32_paint_loop:
  assumes "nowrap p (4 * n)" and "i < n"
  shows "k \<le> n \<Longrightarrow> load32 (paint_loop p k m) (p + of_nat (4 * i)) =
    (if i < k then FW_STACK_PAINT_CANARY else load32 m (p + of_nat (4 * i)))"
proof (induction k)
  case (Suc k)
  show ?case
  proof (cases "i = k")
    case True
    then show ?thesis by (simp add: load32_store32_same del: of_nat_mult)
  next
    case False
    have "disjoint_blocks (p + of_nat (4 * k)) 4 (p + of_nat (4 * i)) 4"
      using word_blocks_disjoint [OF assms(1) _ assms(2), of k] Suc.prems False by simp
    then have "load32 (paint_loop p (Suc k) m) (p + of_nat (4 * i)) = load32 (paint_loop p k m) (p + of_nat (4 * i))"
      by (simp only: paint_loop.simps load32_store32_disjoint)
    then show ?thesis using Suc False by simp
  qed
qed simp

lemma paint_loop_outside:
  assumes "nowrap p (4 * n)"
  shows "k \<le> n \<Longrightarrow> \<not> in_block p (4 * n) a \<Longrightarrow> paint_loop p k m a = m a"
proof (induction k)
  case (Suc k)
  have blk: "nowrap (p + of_nat (4 * k)) 4" "unat (p + of_nat (4 * k)) = unat p + 4 * k"
    using word_block [OF assms, of k] Suc.prems by simp_all
  then have "\<not> in_block (p + of_nat (4 * k)) (length (le32 FW_STACK_PAINT_CANARY)) a"
    using in_block_within [OF assms blk(1), of a] Suc.prems by auto
  then show ?case using Suc by (simp add: store32_def mem_write_out del: of_nat_mult)
qed simp

lemma unused_loop_eq:
  assumes "\<And>j. i \<le> j \<Longrightarrow> j < u \<Longrightarrow> load32 m (p + of_nat (4 * j)) = FW_STACK_PAINT_CANARY"
    and "u = n \<or> load32 m (p + of_nat (4 * u)) \<noteq> FW_STACK_PAINT_CANARY" and "i \<le> u" and "u \<le> n"
  shows "unused_loop m p n i c = c + (u - i)"
  using assms
proof (induction "u - i" arbitrary: i c)
  case 0
  then show ?case by (subst unused_loop.simps) (auto simp del: of_nat_mult)
next
  case (Suc d)
  then have "i < u" by simp
  moreover have "unused_loop m p n (i + 1) (c + 1) = c + 1 + (u - (i + 1))"
    using Suc.prems Suc.hyps(2) by (intro Suc.hyps(1)) simp_all
  moreover have "load32 m (p + of_nat (4 * i)) = FW_STACK_PAINT_CANARY"
    using Suc.prems(1) [of i] \<open>i < u\<close> by simp
  ultimately show ?case using Suc.prems(4) by (subst unused_loop.simps) (simp del: of_nat_mult)
qed

lemma stack_unused_eq:
  assumes "p \<noteq> FW_NULL" and "4 \<le> sz" and "u \<le> unat sz div 4"
    and "\<And>j. j < u \<Longrightarrow> load32 m (p + of_nat (4 * j)) = FW_STACK_PAINT_CANARY"
    and "u = unat sz div 4 \<or> load32 m (p + of_nat (4 * u)) \<noteq> FW_STACK_PAINT_CANARY"
  shows "unat (fw_task_stack_unused p sz m) = 4 * u"
    and "unat (fw_task_stack_peak p sz m) = unat sz - 4 * u"
proof -
  have n: "unat (sz div 4) = unat sz div 4" by (simp add: unat_div)
  have "\<not> sz < 4" using assms(2) by (simp only: not_less)
  note guards = assms(1) this
  have le: "4 * u \<le> unat sz" using assms(3) by (simp add: less_eq_div_iff_mult_less_eq mult.commute)
  have "unused_loop m p (unat sz div 4) 0 0 = u"
    using unused_loop_eq [of 0 u m p "unat sz div 4" 0] assms(3-5) by simp
  then have "fw_task_stack_unused p sz m = of_nat (4 * u)"
    using guards by (simp add: fw_task_stack_unused_def n mult.commute)
  moreover have "4 * u < 2 ^ 32" using le unat_lt32 [of sz] by simp
  ultimately show u: "unat (fw_task_stack_unused p sz m) = 4 * u"
    using unat_of_nat_small [where 'a = 32, of "4 * u"] by (simp del: of_nat_mult)
  show "unat (fw_task_stack_peak p sz m) = unat sz - 4 * u"
  proof (cases "sz \<le> fw_task_stack_unused p sz m")
    case True
    then have "unat sz \<le> 4 * u" by (simp only: word_le_nat_alt u)
    then show ?thesis using True by (simp add: fw_task_stack_peak_def)
  next
    case False
    then have "fw_task_stack_unused p sz m \<le> sz" by simp
    then show ?thesis using False u by (simp add: fw_task_stack_peak_def Let_def unat_sub_le)
  qed
qed

text \<open>
  A stack painted before use reports its exact high-water mark: when the task has left the lowest
  \<open>u\<close> words as they were painted and has overwritten word \<open>u\<close>, the unused space is \<open>4 * u\<close> bytes and the
  peak is the rest of the stack; painting touches nothing outside the stack.
\<close>

theorem stack_watermark_exact:
  assumes "p \<noteq> FW_NULL" and "4 \<le> sz" and "nowrap p (unat sz)"
    and paint: "fw_task_stack_paint p sz m0 = (st, m1)"
    and kept: "\<And>a. in_block p (4 * u) a \<Longrightarrow> m a = m1 a" and u: "u < unat sz div 4"
    and used: "load32 m (p + of_nat (4 * u)) \<noteq> FW_STACK_PAINT_CANARY"
  shows "st = FW_OK \<and> unat (fw_task_stack_unused p sz m) = 4 * u
    \<and> unat (fw_task_stack_peak p sz m) = unat sz - 4 * u
    \<and> (\<forall>a. \<not> in_block p (unat sz) a \<longrightarrow> m1 a = m0 a)"
proof -
  let ?n = "unat sz div 4"
  have n: "unat (sz div 4) = ?n" by (simp add: unat_div)
  have m1: "st = FW_OK" "m1 = paint_loop p ?n m0"
    using paint assms(1) not_less [THEN iffD2, OF assms(2)] by (simp_all add: fw_task_stack_paint_def n)
  have nw: "nowrap p (4 * ?n)" using assms(3) by (rule nowrap_mono) simp
  have canary: "load32 m (p + of_nat (4 * j)) = FW_STACK_PAINT_CANARY" if j: "j < u" for j
  proof -
    have blk: "nowrap (p + of_nat (4 * j)) 4" "unat (p + of_nat (4 * j)) = unat p + 4 * j"
      using word_block [OF nw, of j] j u by simp_all
    have "nowrap p (4 * u)" using nw by (rule nowrap_mono) (use u in simp)
    then have "in_block p (4 * u) a" if "in_block (p + of_nat (4 * j)) 4 a" for a
      using in_block_within [OF _ blk(1) _ _ that] blk(2) j by simp
    then have "mem_read m (p + of_nat (4 * j)) 4 = mem_read m1 (p + of_nat (4 * j)) 4"
      by (intro mem_read_cong kept) simp_all
    then have "load32 m (p + of_nat (4 * j)) = load32 m1 (p + of_nat (4 * j))" by (rule load32_cong)
    also have "\<dots> = FW_STACK_PAINT_CANARY"
      unfolding m1(2) using load32_paint_loop [OF nw, of j ?n m0] j u by simp
    finally show ?thesis .
  qed
  have "m1 a = m0 a" if "\<not> in_block p (unat sz) a" for a
  proof -
    have "\<not> in_block p (4 * ?n) a" using that by (auto simp: in_block_def)
    then show ?thesis unfolding m1(2) using paint_loop_outside [OF nw] by simp
  qed
  then show ?thesis
    using m1(1) stack_unused_eq [OF assms(1,2) _ canary, of u] u used by (simp del: of_nat_mult)
qed

theorem stack_watermark_exact_witness:
  "fst (fw_task_stack_paint 0x1000 8 (\<lambda>_. 0)) = FW_OK
   \<and> unat (fw_task_stack_unused 0x1000 8 ((snd (fw_task_stack_paint 0x1000 8 (\<lambda>_. 0)))(0x1004 := 0))) = 4
   \<and> unat (fw_task_stack_peak 0x1000 8 ((snd (fw_task_stack_paint 0x1000 8 (\<lambda>_. 0)))(0x1004 := 0))) = 4"
proof -
  obtain st m1 where paint: "fw_task_stack_paint 0x1000 8 (\<lambda>_. 0) = (st, m1)" by (rule prod.exhaust)
  define m where "m = m1(0x1004 := 0)"
  have used: "load32 m (0x1000 + of_nat (4 * 1)) \<noteq> FW_STACK_PAINT_CANARY"
  proof
    assume "load32 m (0x1000 + of_nat (4 * 1)) = FW_STACK_PAINT_CANARY"
    moreover have "ucast (load32 m (0x1000 + of_nat (4 * 1))) = (0 :: u8)"
      unfolding load32_def of_le32_def m_def by (rule bit_word_eqI) (auto simp: bit_simps)
    ultimately show False by (simp add: FW_STACK_PAINT_CANARY_def)
  qed
  have "m a = m1 a" if "in_block 0x1000 (4 * 1) a" for a
    using that by (auto simp: in_block_def m_def)
  moreover have "nowrap 0x1000 (unat (8 :: usize))" by (simp add: nowrap_def)
  moreover have "1 < unat (8 :: usize) div 4" "(4 :: usize) \<le> 8" "(0x1000 :: ptr) \<noteq> FW_NULL" by simp_all
  ultimately have "st = FW_OK \<and> unat (fw_task_stack_unused 0x1000 8 m) = 4 * 1
    \<and> unat (fw_task_stack_peak 0x1000 8 m) = unat (8 :: usize) - 4 * 1"
    using stack_watermark_exact [OF _ _ _ paint _ _ used] by blast
  then show ?thesis unfolding paint m_def by simp
qed

section \<open>The metric table as a map\<close>

definition monitor_wf :: "task_monitor \<Rightarrow> bool" where
  "monitor_wf s \<longleftrightarrow> length (s_metrics s) = FW_MONITOR_MAX_TASKS \<and> s_metric_count s \<le> FW_MONITOR_MAX_TASKS
     \<and> distinct (map tm_task_id (take (s_metric_count s) (s_metrics s)))"

definition monitor_lookup :: "task_monitor \<Rightarrow> u32 \<Rightarrow> fw_task_metric option" where
  "monitor_lookup s tid = map_option (\<lambda>i. s_metrics s ! i)
     (find_idx (\<lambda>m. tm_task_id m = tid) (take (s_metric_count s) (s_metrics s)))"

text \<open>What recording one slice makes of the metric of its task.\<close>

definition add_slice :: "u32 \<Rightarrow> u32 \<Rightarrow> usize \<Rightarrow> fw_task_metric option \<Rightarrow> fw_task_metric" where
  "add_slice tid runtime peak old =
     (case old of
        None \<Rightarrow> \<lparr>tm_task_id = tid, tm_total_runtime_us = runtime, tm_execution_count = 1, tm_stack_size = 0,
                 tm_stack_peak_bytes = peak\<rparr>
      | Some m \<Rightarrow> m\<lparr>tm_total_runtime_us := tm_total_runtime_us m + runtime,
                    tm_execution_count := tm_execution_count m + 1,
                    tm_stack_peak_bytes := max (tm_stack_peak_bytes m) peak\<rparr>)"

lemma find_idx_update_same:
  "i < length xs \<Longrightarrow> f x = f (xs ! i) \<Longrightarrow> find_idx (\<lambda>m. f m = k) (xs[i := x]) = find_idx (\<lambda>m. f m = k) xs"
  by (induction xs arbitrary: i) (auto split: nat.splits)

lemma find_idx_snoc:
  "find_idx P (xs @ [x]) = (case find_idx P xs of Some i \<Rightarrow> Some i | None \<Rightarrow> if P x then Some (length xs) else None)"
  by (induction xs) (auto split: option.splits)

lemma monitor_record_step:
  assumes "monitor_wf s" and "fw_task_monitor_record tid runtime peak s = (st, s')"
  shows "monitor_wf s' \<and>
    (if monitor_lookup s tid = None \<and> s_metric_count s = FW_MONITOR_MAX_TASKS
     then st = FW_ERR_BUFFER_OVERFLOW \<and> s' = s
     else st = FW_OK \<and> monitor_lookup s' = (monitor_lookup s)(tid \<mapsto> add_slice tid runtime peak (monitor_lookup s tid)))"
proof (cases "find_idx (\<lambda>m. tm_task_id m = tid) (take (s_metric_count s) (s_metrics s))")
  case (Some i)
  let ?n = "s_metric_count s" and ?ms = "s_metrics s"
  define m2 where "m2 = add_slice tid runtime peak (Some (?ms ! i))"
  have i: "i < ?n" "i < length ?ms" "tm_task_id (?ms ! i) = tid"
    using find_idx_SomeD [OF Some] by auto
  have r: "st = FW_OK" "s' = s\<lparr>s_metrics := ?ms[i := m2]\<rparr>"
    using assms(2) Some by (auto simp: fw_task_monitor_record_def m2_def add_slice_def Let_def max_def not_less)
  have id2: "tm_task_id m2 = tm_task_id (?ms ! i)" by (simp add: m2_def add_slice_def)
  have tk: "take ?n (?ms[i := m2]) = (take ?n ?ms)[i := m2]" by (simp add: take_update_swap)
  have keys: "map tm_task_id ((take ?n ?ms)[i := m2]) = map tm_task_id (take ?n ?ms)"
    using i by (simp add: map_update id2) (metis list_update_id map_update nth_map nth_take length_take min_less_iff_conj)
  have "monitor_wf s'" using assms(1) keys by (simp add: monitor_wf_def r(2) tk)
  moreover have "monitor_lookup s' k = ((monitor_lookup s)(tid \<mapsto> m2)) k" for k
  proof -
    have "find_idx (\<lambda>m. tm_task_id m = k) (take ?n (?ms[i := m2])) = find_idx (\<lambda>m. tm_task_id m = k) (take ?n ?ms)"
      unfolding tk using i id2 by (intro find_idx_update_same) simp_all
    moreover have "j \<noteq> i" if "find_idx (\<lambda>m. tm_task_id m = k) (take ?n ?ms) = Some j" "k \<noteq> tid" for j
      using find_idx_SomeD [OF that(1)] that(2) i by auto
    ultimately show ?thesis
      using i Some
      by (cases "find_idx (\<lambda>m. tm_task_id m = k) (take ?n ?ms)")
        (auto simp: monitor_lookup_def r(2) nth_list_update eq_commute [of i])
  qed
  ultimately show ?thesis using r(1) Some by (auto simp: monitor_lookup_def m2_def)
next
  case None
  let ?n = "s_metric_count s" and ?ms = "s_metrics s"
  show ?thesis
  proof (cases "?n = FW_MONITOR_MAX_TASKS")
    case True
    then show ?thesis using assms None by (simp add: fw_task_monitor_record_def monitor_lookup_def)
  next
    case False
    then have n: "?n < FW_MONITOR_MAX_TASKS" "?n < length ?ms" using assms(1) by (auto simp: monitor_wf_def)
    let ?m = "add_slice tid runtime peak None"
    have r: "st = FW_OK" "s' = s\<lparr>s_metrics := ?ms[?n := ?m], s_metric_count := ?n + 1\<rparr>"
      using assms(2) None n by (auto simp: fw_task_monitor_record_def add_slice_def)
    have tk: "take (?n + 1) (?ms[?n := ?m]) = take ?n ?ms @ [?m]"
      using n by (simp add: take_Suc_conv_app_nth take_update_cancel)
    have idm: "tm_task_id ?m = tid" by (simp add: add_slice_def)
    have "tid \<notin> tm_task_id ` set (take ?n ?ms)" using None by (auto simp: find_idx_None_iff)
    then have "monitor_wf s'" using assms(1) n tk idm by (simp add: monitor_wf_def r(2))
    moreover have "monitor_lookup s' k = ((monitor_lookup s)(tid \<mapsto> ?m)) k" for k
    proof (cases "find_idx (\<lambda>m. tm_task_id m = k) (take ?n ?ms)")
      case (Some j)
      then have "j < ?n" "k \<noteq> tid" using find_idx_SomeD [OF Some] None by auto
      then show ?thesis using Some tk by (simp add: monitor_lookup_def r(2) find_idx_snoc)
    next
      case none: None
      then show ?thesis using tk idm n by (auto simp: monitor_lookup_def r(2) find_idx_snoc)
    qed
    moreover have "monitor_lookup s tid = None" using None by (simp add: monitor_lookup_def)
    ultimately show ?thesis using r(1) False by auto
  qed
qed

text \<open>
  The task monitor is a map from task ids to metrics of at most 16 tasks: recording a slice adds its
  run time, counts one execution and keeps the larger stack peak for that task only, a seventeenth task
  is refused without a change, and a query returns exactly what the map holds.
\<close>

theorem monitor_refines_map:
  assumes "monitor_wf s" and "fw_task_monitor_record tid runtime peak s = (st, s')"
  shows "monitor_wf s' \<and>
    (if monitor_lookup s tid = None \<and> s_metric_count s = FW_MONITOR_MAX_TASKS
     then st = FW_ERR_BUFFER_OVERFLOW \<and> s' = s
     else st = FW_OK \<and> monitor_lookup s' = (monitor_lookup s)(tid \<mapsto> add_slice tid runtime peak (monitor_lookup s tid)))
    \<and> fw_task_monitor_get k (Some out) s' =
       (case monitor_lookup s' k of Some m \<Rightarrow> (FW_OK, Some m) | None \<Rightarrow> (FW_ERR_NOT_FOUND, Some out))"
  using monitor_record_step [OF assms]
  by (auto simp: fw_task_monitor_get_def monitor_lookup_def split: option.splits)

lemma monitor_reset_wf: "monitor_wf (fw_task_monitor_reset s) \<and> monitor_lookup (fw_task_monitor_reset s) = Map.empty"
  by (simp add: monitor_wf_def fw_task_monitor_reset_def monitor_lookup_def fun_eq_iff)

theorem monitor_refines_map_witness:
  "monitor_lookup (snd (fw_task_monitor_record 7 100 64
      (fw_task_monitor_reset \<lparr>s_metrics = [], s_metric_count = 0\<rparr>))) 7 = Some (add_slice 7 100 64 None)"
proof -
  let ?s = "fw_task_monitor_reset \<lparr>s_metrics = [], s_metric_count = 0\<rparr>"
  obtain st s' where eq: "fw_task_monitor_record 7 100 64 ?s = (st, s')" by (rule prod.exhaust)
  have z: "monitor_lookup ?s 7 = None" "s_metric_count ?s = 0"
    using monitor_reset_wf by (simp_all add: fw_task_monitor_reset_def)
  show ?thesis
    using monitor_refines_map [OF conjunct1 [OF monitor_reset_wf] eq, of 7 zero_metric]
    unfolding z eq by (simp add: FW_MONITOR_MAX_TASKS_def)
qed

end
