(* ===== verification/Gpio.thy ===== *)
theory Gpio
  imports Prelude
begin

text \<open>
  The virtual GPIO driver of \<^verbatim>\<open>gpio.h\<close> and \<^verbatim>\<open>gpio.c\<close>: eight ports of sixteen pins, a state and a
  direction mask per port.  The bit-fields of a pin descriptor are words of their range.
\<close>

unbundle bit_operations_syntax

datatype fw_gpio_mode = FW_GPIO_MODE_INPUT | FW_GPIO_MODE_OUTPUT_PP | FW_GPIO_MODE_OUTPUT_OD
  | FW_GPIO_MODE_AF_PP | FW_GPIO_MODE_AF_OD | FW_GPIO_MODE_ANALOG

record fw_gpio =
  gp_port :: "4 word"
  gp_pin :: "4 word"
  gp_mode :: fw_gpio_mode
  gp_pull :: "2 word"
  gp_speed :: "2 word"

record gpio_state =
  s_virtual_gpio_state :: "u16 list"
  s_virtual_gpio_dir :: "u16 list"

text \<open>\<^verbatim>\<open>pin.pin >= 16\<close> cannot hold of a four-bit field; the test is kept as the code has it.\<close>

definition gpio_bad :: "nat \<Rightarrow> nat \<Rightarrow> bool" where
  "gpio_bad port pin \<longleftrightarrow> port \<ge> 8 \<or> pin \<ge> 16"

definition gpio_mask :: "nat \<Rightarrow> u16" where
  "gpio_mask pin = push_bit pin 1"

definition fw_gpio_init :: "fw_gpio \<Rightarrow> gpio_state \<Rightarrow> fw_status \<times> gpio_state" where
  "fw_gpio_init pin s =
     (let port = unat (gp_port pin); n = unat (gp_pin pin); mask = gpio_mask n; dir = s_virtual_gpio_dir s
      in if gpio_bad port n then (FW_ERR_INVALID_ARG, s)
         else if gp_mode pin = FW_GPIO_MODE_OUTPUT_PP \<or> gp_mode pin = FW_GPIO_MODE_OUTPUT_OD
         then (FW_OK, s\<lparr>s_virtual_gpio_dir := dir[port := dir ! port OR mask]\<rparr>)
         else (FW_OK, s\<lparr>s_virtual_gpio_dir := dir[port := dir ! port AND NOT mask]\<rparr>))"

definition gpio_set :: "nat \<Rightarrow> nat \<Rightarrow> bool \<Rightarrow> gpio_state \<Rightarrow> gpio_state" where
  "gpio_set port n level s =
     (let mask = gpio_mask n; st = s_virtual_gpio_state s
      in if level then s\<lparr>s_virtual_gpio_state := st[port := st ! port OR mask]\<rparr>
         else s\<lparr>s_virtual_gpio_state := st[port := st ! port AND NOT mask]\<rparr>)"

definition fw_gpio_write :: "fw_gpio \<Rightarrow> bool \<Rightarrow> gpio_state \<Rightarrow> gpio_state" where
  "fw_gpio_write pin level s =
     (if gpio_bad (unat (gp_port pin)) (unat (gp_pin pin)) then s
      else gpio_set (unat (gp_port pin)) (unat (gp_pin pin)) level s)"

definition fw_gpio_read :: "fw_gpio \<Rightarrow> gpio_state \<Rightarrow> bool" where
  "fw_gpio_read pin s =
     (if gpio_bad (unat (gp_port pin)) (unat (gp_pin pin)) then False
      else s_virtual_gpio_state s ! unat (gp_port pin) AND gpio_mask (unat (gp_pin pin)) \<noteq> 0)"

definition fw_gpio_toggle :: "fw_gpio \<Rightarrow> gpio_state \<Rightarrow> gpio_state" where
  "fw_gpio_toggle pin s =
     (if gpio_bad (unat (gp_port pin)) (unat (gp_pin pin)) then s
      else let port = unat (gp_port pin); st = s_virtual_gpio_state s
           in s\<lparr>s_virtual_gpio_state := st[port := st ! port XOR gpio_mask (unat (gp_pin pin))]\<rparr>)"

definition fw_gpio_mock_get_port :: "nat \<Rightarrow> gpio_state \<Rightarrow> u16" where
  "fw_gpio_mock_get_port port s = (if port \<ge> 8 then 0 else s_virtual_gpio_state s ! port)"

definition fw_gpio_mock_set_input :: "nat \<Rightarrow> nat \<Rightarrow> bool \<Rightarrow> gpio_state \<Rightarrow> gpio_state" where
  "fw_gpio_mock_set_input port pin level s =
     (if port \<ge> 8 \<or> pin \<ge> 16 then s else gpio_set port pin level s)"

section \<open>Pins are independent\<close>

definition gpio_wf :: "gpio_state \<Rightarrow> bool" where
  "gpio_wf s \<longleftrightarrow> length (s_virtual_gpio_state s) = 8 \<and> length (s_virtual_gpio_dir s) = 8"

definition pin_level :: "gpio_state \<Rightarrow> nat \<Rightarrow> nat \<Rightarrow> bool" where
  "pin_level s port pin \<longleftrightarrow> port < 8 \<and> bit (s_virtual_gpio_state s ! port) pin"

lemma unat_pin_lt: "unat (gp_pin pin) < 16"
  using unsigned_less [of "gp_pin pin", where ?'a = nat] by simp

lemma bit_gpio_mask: "bit (gpio_mask n) k \<longleftrightarrow> n < 16 \<and> n = k"
  by (auto simp: gpio_mask_def bit_exp_iff possible_bit_def)

lemma and_gpio_mask: "n < 16 \<Longrightarrow> w AND gpio_mask n \<noteq> 0 \<longleftrightarrow> bit w n"
  unfolding gpio_mask_def using word_and_pow2_iff [of n w] by simp

lemma gpio_ops:
  assumes "gpio_wf s"
  shows "gpio_wf (fw_gpio_write pin v s) \<and> gpio_wf (fw_gpio_toggle pin s)"
    and "pin_level (fw_gpio_write pin v s) p k =
      (if unat (gp_port pin) = p \<and> unat (gp_pin pin) = k \<and> p < 8 then v else pin_level s p k)"
    and "pin_level (fw_gpio_toggle pin s) p k =
      (if unat (gp_port pin) = p \<and> unat (gp_pin pin) = k \<and> p < 8 then \<not> pin_level s p k else pin_level s p k)"
    and "fw_gpio_read pin s = pin_level s (unat (gp_port pin)) (unat (gp_pin pin))"
  using assms unat_pin_lt [of pin]
  by (auto simp: gpio_wf_def fw_gpio_write_def fw_gpio_toggle_def fw_gpio_read_def gpio_set_def gpio_bad_def
      pin_level_def Let_def nth_list_update bit_or_iff bit_and_iff bit_not_iff bit_xor_iff bit_gpio_mask
      and_gpio_mask dest: bit_imp_le_length)

end
