(* ===== verification/Uart.thy ===== *)
theory Uart
  imports Spsc Span
begin

text \<open>
  The queued UART driver of \<^verbatim>\<open>uart.h\<close> and \<^verbatim>\<open>uart.c\<close>, a client of the byte ring.  The two queues are the
  control blocks the driver points to (None is \<^verbatim>\<open>NULL\<close>); the interrupt handler has an empty body in
  the source, its work being left to the target port.
\<close>

record 'hw fw_uart =
  ua_hardware_instance :: 'hw
  ua_tx_queue :: "fw_spsc option"
  ua_rx_queue :: "fw_spsc option"
  ua_is_initialized :: bool

definition fw_uart_init ::
  "'hw fw_uart option \<Rightarrow> 'hw \<Rightarrow> 'cfg \<Rightarrow> fw_spsc option \<Rightarrow> fw_spsc option \<Rightarrow> fw_status \<times> 'hw fw_uart option" where
  "fw_uart_init uart hw_inst cfg tx_q rx_q =
     (case uart of
        None \<Rightarrow> (FW_ERR_INVALID_ARG, None)
      | Some _ \<Rightarrow> (FW_OK, Some \<lparr>ua_hardware_instance = hw_inst, ua_tx_queue = tx_q, ua_rx_queue = rx_q,
                            ua_is_initialized = True\<rparr>))"

definition fw_uart_write ::
  "mem \<Rightarrow> 'hw fw_uart option \<Rightarrow> fw_cspan \<Rightarrow> usize \<times> mem \<times> 'hw fw_uart option" where
  "fw_uart_write m uart d =
     (case uart of
        None \<Rightarrow> (0, m, None)
      | Some u \<Rightarrow>
          if \<not> ua_is_initialized u \<or> cspan_data d = FW_NULL \<or> cspan_length d = 0 then (0, m, Some u)
          else if ua_tx_queue u \<noteq> None then
            (case fw_spsc_write m (ua_tx_queue u) (cspan_data d) (cspan_length d) of
               (n, m', q') \<Rightarrow> (n, m', Some (u\<lparr>ua_tx_queue := q'\<rparr>)))
          else (0, m, Some u))"

definition fw_uart_read ::
  "mem \<Rightarrow> 'hw fw_uart option \<Rightarrow> fw_span \<Rightarrow> usize \<times> mem \<times> 'hw fw_uart option" where
  "fw_uart_read m uart buf =
     (case uart of
        None \<Rightarrow> (0, m, None)
      | Some u \<Rightarrow>
          if \<not> ua_is_initialized u \<or> span_data buf = FW_NULL \<or> span_length buf = 0 then (0, m, Some u)
          else if ua_rx_queue u \<noteq> None then
            (case fw_spsc_read m (ua_rx_queue u) (span_data buf) (span_length buf) of
               (n, m', q') \<Rightarrow> (n, m', Some (u\<lparr>ua_rx_queue := q'\<rparr>)))
          else (0, m, Some u))"

definition fw_uart_mock_inject_rx :: "mem \<Rightarrow> 'hw fw_uart option \<Rightarrow> u8 \<Rightarrow> mem \<times> 'hw fw_uart option" where
  "fw_uart_mock_inject_rx m uart byte =
     (case uart of
        None \<Rightarrow> (m, None)
      | Some u \<Rightarrow>
          if ua_rx_queue u \<noteq> None then
            (case fw_spsc_push m (ua_rx_queue u) byte of (st, m', q') \<Rightarrow> (m', Some (u\<lparr>ua_rx_queue := q'\<rparr>)))
          else (m, Some u))"

definition fw_uart_mock_extract_tx ::
  "mem \<Rightarrow> 'hw fw_uart option \<Rightarrow> u8 option \<Rightarrow> bool \<times> u8 option \<times> 'hw fw_uart option" where
  "fw_uart_mock_extract_tx m uart out_byte =
     (case uart of
        None \<Rightarrow> (False, out_byte, None)
      | Some u \<Rightarrow>
          if ua_tx_queue u \<noteq> None \<and> out_byte \<noteq> None then
            (case fw_spsc_pop m (ua_tx_queue u) out_byte of
               (st, q', out') \<Rightarrow> (st = FW_OK, out', Some (u\<lparr>ua_tx_queue := q'\<rparr>)))
          else (False, out_byte, Some u))"

section \<open>The driver queues bytes in order\<close>

lemma uart_write_queues:
  assumes "ua_is_initialized u" and "ua_tx_queue u = Some q" and "spsc_wf q"
    and "cspan_data d \<noteq> FW_NULL" and "cspan_length d \<noteq> 0" and "spsc_apart q (cspan_data d) (cspan_length d)"
    and "fw_uart_write m (Some u) d = (n, m', Some u')"
  shows "\<exists>q'. ua_tx_queue u' = Some q' \<and> spsc_wf q'
    \<and> spsc_bytes m' q' = spsc_bytes m q @ take (unat n) (mem_read m (cspan_data d) (unat (cspan_length d)))
    \<and> unat n = min (unat (cspan_length d)) (unat (sq_capacity q) - length (spsc_bytes m q))"
proof -
  let ?len = "unat (cspan_length d)"
  define w where "w = min ?len (unat (sq_capacity q) - unat (sq_head q - sq_tail q))"
  let ?q' = "q\<lparr>sq_head := sq_head q + of_nat w\<rparr>"
  have "w \<le> ?len" by (simp add: w_def)
  then have w32: "w < 2 ^ 32" using unat_lt32 [of "cspan_length d"] by simp
  have r: "n = of_nat w" "m' = ring_store m (sq_buffer q) (sq_mask q) (sq_head q) (mem_read m (cspan_data d) w)"
      "ua_tx_queue u' = Some ?q'"
    using assms(1,2,4,5,7) spsc_write_store [OF assms(3,4,6), of m, folded w_def]
    by (auto simp: fw_uart_write_def)
  have un: "unat n = w" unfolding r(1) using w32 by (intro unat_of_nat_small) simp
  have "unat (sq_head q - sq_tail q) \<le> unat (sq_capacity q)"
    using assms(3) by (simp add: spsc_wf_def word_le_nat_alt)
  then have fit: "unat (sq_head q - sq_tail q) + length (mem_read m (cspan_data d) w) \<le> unat (sq_capacity q)"
    by (simp add: w_def)
  have "spsc_wf ?q'" "spsc_bytes m' ?q' = spsc_bytes m q @ mem_read m (cspan_data d) w"
    using spsc_store_bytes [OF assms(3) fit] r(2) by simp_all
  moreover have "take w (mem_read m (cspan_data d) ?len) = mem_read m (cspan_data d) w"
    using \<open>w \<le> ?len\<close> by (rule mem_read_take)
  ultimately show ?thesis using r(3) un by (simp add: w_def)
qed

lemma uart_extract_pops:
  assumes "ua_tx_queue u = Some q" and "spsc_wf q"
  shows "case spsc_bytes m q of
      [] \<Rightarrow> fst (fw_uart_mock_extract_tx m (Some u) (Some b)) = False
    | x # xs \<Rightarrow> \<exists>u' q'. fw_uart_mock_extract_tx m (Some u) (Some b) = (True, Some x, Some u')
        \<and> ua_tx_queue u' = Some q' \<and> spsc_wf q' \<and> spsc_bytes m q' = xs"
proof (cases "spsc_bytes m q")
  case Nil
  then have "sq_head q = sq_tail q" using length_spsc_bytes [of m q] by (simp add: unat_eq_zero)
  then show ?thesis using Nil assms by (simp add: fw_uart_mock_extract_tx_def fw_spsc_pop_def Let_def)
next
  case (Cons x xs)
  have len: "0 < unat (sq_head q - sq_tail q)" using Cons length_spsc_bytes [of m q] by simp
  then have ne: "sq_head q \<noteq> sq_tail q" by auto
  let ?q' = "q\<lparr>sq_tail := sq_tail q + of_nat 1\<rparr>"
  have q': "spsc_wf ?q'" "spsc_bytes m ?q' = xs"
    using spsc_drop_bytes [OF assms(2), of 1] len Cons by simp_all
  obtain st q'' out where pop: "fw_spsc_pop m (Some q) (Some b) = (st, q'', out)" by (rule prod_cases3)
  have "spsc_bytes m q ! 0 = m (sq_buffer q + (sq_tail q AND sq_mask q))"
    using len by (simp add: spsc_bytes_def ring_read_def ring_addr_def)
  then have "st = FW_OK" "q'' = Some ?q'" "out = Some x"
    using pop ne Cons by (auto simp: fw_spsc_pop_def Let_def)
  then show ?thesis using Cons assms(1) pop q' by (simp add: fw_uart_mock_extract_tx_def)
qed

end
