(* ===== verification/Text_Format.thy ===== *)
theory Text_Format
  imports Prelude
begin

text \<open>
  The conversions of \<^verbatim>\<open>snprintf\<close> the library uses, \<^verbatim>\<open>%08X\<close> and \<^verbatim>\<open>%u\<close>, and its contract on a buffer:
  at most \<open>cap - 1\<close> characters are stored, and the length of the whole text is returned.
\<close>

definition hex_digit :: "nat \<Rightarrow> char" where
  "hex_digit d = ''0123456789ABCDEF'' ! d"

definition hex8 :: "u32 \<Rightarrow> string" where
  "hex8 v = map (\<lambda>i. hex_digit (unat v div 16 ^ i mod 16)) [7, 6, 5, 4, 3, 2, 1, 0]"

fun dec_digits :: "nat \<Rightarrow> string" where
  "dec_digits n = (if n < 10 then [''0123456789'' ! n] else dec_digits (n div 10) @ [''0123456789'' ! (n mod 10)])"

declare dec_digits.simps [simp del]

definition dec_padded :: "nat \<Rightarrow> nat \<Rightarrow> string" where
  "dec_padded width n = replicate (width - length (dec_digits n)) CHR ''0'' @ dec_digits n"

text \<open>What a buffer of \<open>cap\<close> bytes holds after \<^verbatim>\<open>snprintf\<close> of a text, and what the call returns.\<close>

definition snprintf_text :: "nat \<Rightarrow> string \<Rightarrow> string \<times> nat" where
  "snprintf_text cap txt = (take (cap - 1) txt, length txt)"

lemma length_hex8 [simp]: "length (hex8 v) = 8"
  by (simp add: hex8_def)

lemma length_dec_digits: "0 < k \<Longrightarrow> n < 10 ^ k \<Longrightarrow> length (dec_digits n) \<le> k"
proof (induction n arbitrary: k rule: dec_digits.induct)
  case (1 n)
  show ?case
  proof (cases "n < 10")
    case True
    then show ?thesis using 1(2) by (subst dec_digits.simps) simp
  next
    case False
    then obtain j where k: "k = Suc (Suc j)"
      using 1(3) by (cases k; cases "k - 1") (auto simp: less_Suc_eq_0_disj)
    have "n div 10 < 10 ^ Suc j" using 1(3) k by (simp add: less_mult_imp_div_less)
    then have "length (dec_digits (n div 10)) \<le> Suc j" using 1(1) False by simp
    then show ?thesis using False k by (subst dec_digits.simps) simp
  qed
qed

end
