(* ===== verification/Log_Queue.thy ===== *)
theory Log_Queue
  imports Ring Text_Format
begin

text \<open>
  The deferred logger of \<^verbatim>\<open>log.h\<close> and \<^verbatim>\<open>log.c\<close>: a ring of \<open>capacity\<close> slots that holds at most
  \<open>capacity - 1\<close> entries, filled by \<^verbatim>\<open>fw_log_post_fast\<close> and drained by \<^verbatim>\<open>fw_log_flush\<close>.  The static
  variables are the record \<open>log_state\<close>; formatting a message with its two arguments is a parameter
  (the format string is the application's), the surrounding line is the code's.
\<close>

record fw_log_entry =
  le_timestamp_ms :: u32
  le_tag :: string
  le_fmt :: string
  le_arg1 :: u32
  le_arg2 :: u32
  le_level :: u8

record 's log_state =
  s_sink :: "'s option"
  s_entries :: "fw_log_entry list option"
  s_capacity :: usize
  s_head :: usize
  s_tail :: usize

definition fw_log_init ::
  "'s \<Rightarrow> 's option \<Rightarrow> fw_log_entry list option \<Rightarrow> usize \<Rightarrow> 's log_state \<Rightarrow> fw_status \<times> 's log_state" where
  "fw_log_init default_stdout_sink sink storage capacity s =
     (if storage = None \<or> capacity < 2 then (FW_ERR_INVALID_ARG, s)
      else (FW_OK, \<lparr>s_sink = (if sink \<noteq> None then sink else Some default_stdout_sink), s_entries = storage,
                    s_capacity = capacity, s_head = 0, s_tail = 0\<rparr>))"

definition fw_log_post_fast ::
  "u32 \<Rightarrow> u8 \<Rightarrow> string option \<Rightarrow> string option \<Rightarrow> u32 \<Rightarrow> u32 \<Rightarrow> 's log_state \<Rightarrow> 's log_state" where
  "fw_log_post_fast now level tag fmt arg1 arg2 s =
     (case s_entries s of
        None \<Rightarrow> s
      | Some es \<Rightarrow>
          if s_capacity s = 0 then s
          else
            let next_head = (s_head s + 1) mod s_capacity s
            in if next_head = s_tail s then s
               else s\<lparr>s_entries := Some (es[unat (s_head s) :=
                        \<lparr>le_timestamp_ms = now, le_tag = (case tag of None \<Rightarrow> ''SYS'' | Some t \<Rightarrow> t),
                         le_fmt = (case fmt of None \<Rightarrow> '''' | Some f \<Rightarrow> f), le_arg1 = arg1, le_arg2 = arg2,
                         le_level = level\<rparr>]),
                      s_head := next_head\<rparr>)"

definition ESC :: string where "ESC = [CHR 27]"

definition level_prefix :: "u8 \<Rightarrow> string" where
  "level_prefix level =
     (if level = 1 then ESC @ ''[1;31m[E]'' else if level = 2 then ESC @ ''[1;33m[W]''
      else if level = 3 then ESC @ ''[1;32m[I]'' else if level = 4 then ESC @ ''[1;36m[D]''
      else ESC @ ''[0m[?]'')"

text \<open>\<open>fmt_msg\<close> is the text the entry's own format yields; the message buffer keeps 191 characters of it.\<close>

definition log_line :: "(string \<Rightarrow> u32 \<Rightarrow> u32 \<Rightarrow> string) \<Rightarrow> fw_log_entry \<Rightarrow> string" where
  "log_line fmt_msg e =
     (let msg_buf = fst (snprintf_text 192 (fmt_msg (le_fmt e) (le_arg1 e) (le_arg2 e)))
      in level_prefix (le_level e) @ '' '' @ dec_padded 5 (unat (le_timestamp_ms e)) @ '']['' @ le_tag e @ ''] ''
         @ msg_buf @ ESC @ ''[0m'' @ [CHR 10])"

text \<open>What the sink does with a buffer of text and a length.\<close>

type_synonym ('s, 'w) sink_sem = "'s \<Rightarrow> string \<Rightarrow> nat \<Rightarrow> 'w \<Rightarrow> 'w"

text \<open>The drain loop; it stops by itself after at most \<open>capacity\<close> rounds, the fuel.\<close>

fun flush_loop ::
  "(string \<Rightarrow> u32 \<Rightarrow> u32 \<Rightarrow> string) \<Rightarrow> ('s, 'w) sink_sem \<Rightarrow> nat \<Rightarrow> usize \<Rightarrow> usize \<Rightarrow> 's log_state \<Rightarrow> 'w \<Rightarrow>
   usize \<times> 's log_state \<times> 'w" where
  "flush_loop fmt_msg sink 0 max_entries flushed s w = (flushed, s, w)"
| "flush_loop fmt_msg sink (Suc n) max_entries flushed s w =
     (if s_tail s \<noteq> s_head s then
        if max_entries > 0 \<and> flushed \<ge> max_entries then (flushed, s, w)
        else
          let e = the (s_entries s) ! unat (s_tail s);
              (line_buf, len) = snprintf_text 256 (log_line fmt_msg e);
              w' = (if len > 0 then sink (the (s_sink s)) line_buf len w else w);
              s' = s\<lparr>s_tail := (s_tail s + 1) mod s_capacity s\<rparr>
          in flush_loop fmt_msg sink n max_entries (flushed + 1) s' w'
      else (flushed, s, w))"

definition fw_log_flush ::
  "(string \<Rightarrow> u32 \<Rightarrow> u32 \<Rightarrow> string) \<Rightarrow> ('s, 'w) sink_sem \<Rightarrow> usize \<Rightarrow> 's log_state \<Rightarrow> 'w \<Rightarrow>
   usize \<times> 's log_state \<times> 'w" where
  "fw_log_flush fmt_msg sink max_entries s w =
     (if s_entries s = None \<or> s_sink s = None then (0, s, w)
      else flush_loop fmt_msg sink (unat (s_capacity s)) max_entries 0 s w)"

section \<open>The ring as a bounded FIFO queue\<close>

definition log_inv :: "'s log_state \<Rightarrow> bool" where
  "log_inv s \<longleftrightarrow> (\<exists>es. s_entries s = Some es \<and> length es = unat (s_capacity s)) \<and> 2 \<le> unat (s_capacity s)
     \<and> unat (s_head s) < unat (s_capacity s) \<and> unat (s_tail s) < unat (s_capacity s) \<and> s_sink s \<noteq> None"

definition log_count :: "'s log_state \<Rightarrow> nat" where
  "log_count s = (if unat (s_tail s) \<le> unat (s_head s) then unat (s_head s) - unat (s_tail s)
     else unat (s_head s) + unat (s_capacity s) - unat (s_tail s))"

definition log_slot :: "'s log_state \<Rightarrow> nat \<Rightarrow> nat" where
  "log_slot s i = (if unat (s_tail s) + i < unat (s_capacity s) then unat (s_tail s) + i
     else unat (s_tail s) + i - unat (s_capacity s))"

definition log_items :: "'s log_state \<Rightarrow> fw_log_entry list" where
  "log_items s = map (\<lambda>i. the (s_entries s) ! log_slot s i) [0..<log_count s]"

definition log_cap :: "'s log_state \<Rightarrow> nat" where
  "log_cap s = unat (s_capacity s) - 1"

definition log_enq :: "fw_log_entry \<Rightarrow> 's log_state \<Rightarrow> fw_status \<times> 's log_state" where
  "log_enq e s =
     (if (s_head s + 1) mod s_capacity s = s_tail s then FW_ERR_BUFFER_OVERFLOW else FW_OK,
      fw_log_post_fast (le_timestamp_ms e) (le_level e) (Some (le_tag e)) (Some (le_fmt e)) (le_arg1 e) (le_arg2 e) s)"

definition log_deq :: "'s log_state \<Rightarrow> (fw_log_entry \<times> 's log_state) option" where
  "log_deq s = (if s_tail s = s_head s then None
     else Some (the (s_entries s) ! unat (s_tail s), fst (snd (fw_log_flush (\<lambda>f a b. f) (\<lambda>k t n w. w) 1 s ()))))"

lemma unat_next_index:
  assumes "unat (i :: usize) < unat c"
  shows "unat ((i + 1) mod c) = (if unat i + 1 < unat c then unat i + 1 else 0)"
proof -
  have "unat i + unat (1 :: usize) < 2 ^ LENGTH(32)" using assms unat_lt32 [of c] by simp
  then have "unat (i + 1) = unat i + 1" by (simp add: unat_add_nowrap)
  then show ?thesis using assms by (auto simp: unat_mod not_less le_Suc_eq)
qed

lemma log_post_room:
  fixes s :: "'s log_state" and e :: fw_log_entry
  assumes inv: "log_inv s" and room: "(s_head s + 1) mod s_capacity s \<noteq> s_tail s"
  defines "s' \<equiv> snd (log_enq e s)"
  shows "log_inv s' \<and> log_items s' = log_items s @ [e] \<and> log_cap s' = log_cap s"
proof -
  obtain es where es: "s_entries s = Some es" "length es = unat (s_capacity s)"
    using inv by (auto simp: log_inv_def)
  let ?c = "unat (s_capacity s)" and ?h = "unat (s_head s)" and ?t = "unat (s_tail s)"
  have b: "2 \<le> ?c" "?h < ?c" "?t < ?c" using inv by (simp_all add: log_inv_def)
  have cap: "s_capacity s \<noteq> 0" using b(1) by auto
  have s': "s' = s\<lparr>s_entries := Some (es[?h := e]), s_head := (s_head s + 1) mod s_capacity s\<rparr>"
    using room cap by (cases e) (simp add: s'_def log_enq_def fw_log_post_fast_def es(1) Let_def)
  have h': "unat (s_head s') = (if ?h + 1 < ?c then ?h + 1 else 0)"
    using unat_next_index [OF b(2)] by (simp add: s')
  have tl: "s_tail s' = s_tail s" "s_capacity s' = s_capacity s" by (simp_all add: s')
  have ne: "unat (s_head s') \<noteq> ?t" using room by (simp add: s' word_unat_eq_iff)
  have cnt: "log_count s' = Suc (log_count s)"
    using b h' ne by (auto simp: log_count_def tl split: if_splits)
  have last: "log_slot s (log_count s) = ?h"
    using b by (auto simp: log_slot_def log_count_def split: if_splits)
  have other: "log_slot s i \<noteq> ?h" if "i < log_count s" for i
    using that b by (auto simp: log_slot_def log_count_def split: if_splits)
  have slot: "log_slot s' i = log_slot s i" for i by (simp add: log_slot_def tl)
  have ent: "the (s_entries s') = es[?h := e]" by (simp add: s')
  have "es[?h := e] ! log_slot s i = es ! log_slot s i" if "i < log_count s" for i
    using other [OF that] by (intro nth_list_update_neq) simp
  then have "log_items s' = log_items s @ [e]"
    using last b(2) es by (simp add: log_items_def cnt slot ent)
  moreover have "log_inv s'"
    using inv es h' b tl ent by (auto simp: log_inv_def s' split: if_splits)
  ultimately show ?thesis by (simp add: log_cap_def tl)
qed

lemma log_advance:
  assumes inv: "log_inv s" and ne: "s_tail s \<noteq> s_head s"
  defines "s' \<equiv> s\<lparr>s_tail := (s_tail s + 1) mod s_capacity s\<rparr>"
  shows "log_inv s' \<and> log_items s = the (s_entries s) ! unat (s_tail s) # log_items s' \<and> log_cap s' = log_cap s"
proof -
  let ?c = "unat (s_capacity s)" and ?h = "unat (s_head s)" and ?t = "unat (s_tail s)"
  have b: "2 \<le> ?c" "?h < ?c" "?t < ?c" using inv by (simp_all add: log_inv_def)
  have nn: "?t \<noteq> ?h" using ne by (simp add: word_unat_eq_iff)
  have t': "unat (s_tail s') = (if ?t + 1 < ?c then ?t + 1 else 0)"
    using unat_next_index [OF b(3)] by (simp add: s'_def)
  have f: "s_head s' = s_head s" "s_capacity s' = s_capacity s" "s_entries s' = s_entries s" "s_sink s' = s_sink s"
    by (simp_all add: s'_def)
  have cnt: "log_count s = Suc (log_count s')"
    using b nn t' by (auto simp: log_count_def f split: if_splits)
  have lt: "log_count s < ?c" using b by (auto simp: log_count_def split: if_splits)
  have slot0: "log_slot s 0 = ?t" using b by (simp add: log_slot_def)
  have slot: "log_slot s (Suc i) = log_slot s' i" if "i < log_count s'" for i
    using that b t' cnt lt by (auto simp: log_slot_def f split: if_splits)
  have up: "[0..<Suc n] = 0 # map Suc [0..<n]" for n by (simp add: upt_conv_Cons map_Suc_upt del: upt_Suc)
  have "log_items s = the (s_entries s) ! ?t # log_items s'"
    unfolding log_items_def cnt up by (simp add: slot0 slot f o_def)
  moreover have "log_inv s'" using inv b t' f by (auto simp: log_inv_def)
  ultimately show ?thesis by (simp add: log_cap_def f)
qed

lemma log_empty_iff: "log_inv s \<Longrightarrow> log_items s = [] \<longleftrightarrow> s_tail s = s_head s"
  by (auto simp: log_items_def log_count_def log_inv_def word_unat_eq_iff)

lemma log_full_iff: "log_inv s \<Longrightarrow> length (log_items s) = log_cap s \<longleftrightarrow> (s_head s + 1) mod s_capacity s = s_tail s"
  using unat_next_index [of "s_head s" "s_capacity s"]
  by (auto simp: log_items_def log_count_def log_inv_def log_cap_def word_unat_eq_iff split: if_splits)

lemma log_items_le: "log_inv s \<Longrightarrow> length (log_items s) \<le> log_cap s"
  by (auto simp: log_items_def log_count_def log_inv_def log_cap_def split: if_splits)

lemma log_deq_next:
  assumes "log_inv s" and "s_tail s \<noteq> s_head s"
  shows "log_deq s = Some (the (s_entries s) ! unat (s_tail s), s\<lparr>s_tail := (s_tail s + 1) mod s_capacity s\<rparr>)"
proof -
  have "2 \<le> unat (s_capacity s)" using assms(1) by (simp add: log_inv_def)
  then obtain k where k: "unat (s_capacity s) = Suc (Suc k)" by (metis Suc_le_D numeral_2_eq_2 Suc_le_mono)
  obtain es k2 where "s_entries s = Some es" "s_sink s = Some k2" using assms(1) by (auto simp: log_inv_def)
  then show ?thesis
    using assms(2) by (simp add: log_deq_def fw_log_flush_def k Let_def snprintf_text_def)
qed

interpretation log_queue: bounded_queue log_enq log_deq log_items log_cap log_inv
proof unfold_locales
  fix s :: "'a log_state" and x :: fw_log_entry and xs
  assume inv: "log_inv s"
  show "length (log_items s) \<le> log_cap s" using log_items_le [OF inv] .
  show "\<exists>s'. log_enq x s = (FW_OK, s') \<and> log_inv s' \<and> log_items s' = log_items s @ [x] \<and> log_cap s' = log_cap s"
    if "length (log_items s) < log_cap s"
    using log_post_room [OF inv, of x] log_full_iff [OF inv] that by (simp add: log_enq_def)
  show "log_enq x s = (FW_ERR_BUFFER_OVERFLOW, s)" if "length (log_items s) = log_cap s"
    using log_full_iff [OF inv] that
    by (simp add: log_enq_def fw_log_post_fast_def Let_def split: option.splits)
  show "log_deq s = None" if "log_items s = []" using that log_empty_iff [OF inv] by (simp add: log_deq_def)
  show "\<exists>s'. log_deq s = Some (x, s') \<and> log_inv s' \<and> log_items s' = xs \<and> log_cap s' = log_cap s"
    if "log_items s = x # xs"
    using that log_empty_iff [OF inv] log_deq_next [OF inv] log_advance [OF inv] by auto
qed

section \<open>Flushing\<close>

definition emit :: "(string \<Rightarrow> u32 \<Rightarrow> u32 \<Rightarrow> string) \<Rightarrow> ('s, 'w) sink_sem \<Rightarrow> 's \<Rightarrow> fw_log_entry \<Rightarrow> 'w \<Rightarrow> 'w" where
  "emit fmt_msg sink k e w = sink k (take 255 (log_line fmt_msg e)) (length (log_line fmt_msg e)) w"

lemma log_line_nonempty: "log_line fmt_msg e \<noteq> []"
  by (simp add: log_line_def Let_def)

lemma flush_loop_spec:
  assumes "log_inv s" and "length (log_items s) \<le> n" and "unat flushed + n < 2 ^ 32"
    and "max_entries = 0 \<or> flushed \<le> max_entries"
    and "k = (if max_entries = 0 then length (log_items s)
      else min (unat max_entries - unat flushed) (length (log_items s)))"
  shows "\<exists>s'. flush_loop fmt_msg sink n max_entries flushed s w =
      (flushed + of_nat k, s', fold (emit fmt_msg sink (the (s_sink s))) (take k (log_items s)) w)
    \<and> log_inv s' \<and> log_items s' = drop k (log_items s)"
  using assms
proof (induction n arbitrary: s flushed w k)
  case 0
  then show ?case by (cases "log_items s") simp_all
next
  case (Suc n)
  show ?case
  proof (cases "s_tail s = s_head s")
    case True
    then have "log_items s = []" using log_empty_iff [OF Suc.prems(1)] by simp
    then show ?thesis using True Suc.prems(1,5) by simp
  next
    case False
    let ?s = "s\<lparr>s_tail := (s_tail s + 1) mod s_capacity s\<rparr>"
    let ?e = "the (s_entries s) ! unat (s_tail s)"
    have adv: "log_inv ?s" "log_items s = ?e # log_items ?s"
      using log_advance [OF Suc.prems(1) False] by simp_all
    show ?thesis
    proof (cases "max_entries > 0 \<and> flushed \<ge> max_entries")
      case True
      then have "flushed = max_entries" "max_entries \<noteq> 0" using Suc.prems(4) by auto
      then have "k = 0" using Suc.prems(5) by simp
      then show ?thesis using True False Suc.prems(1) by auto
    next
      case go: False
      have uf: "unat (flushed + 1) = unat flushed + 1" using Suc.prems(3) by (simp add: unat_add_nowrap)
      have lt: "max_entries = 0 \<or> unat flushed < unat max_entries"
        using go by (auto simp: word_le_nat_alt word_gt_0)
      then have le: "max_entries = 0 \<or> flushed + 1 \<le> max_entries" using uf by (auto simp: word_le_nat_alt)
      have line: "snprintf_text 256 (log_line fmt_msg ?e) = (take 255 (log_line fmt_msg ?e), length (log_line fmt_msg ?e))"
        by (simp add: snprintf_text_def)
      let ?w = "emit fmt_msg sink (the (s_sink s)) ?e w"
      have step: "flush_loop fmt_msg sink (Suc n) max_entries flushed s w =
          flush_loop fmt_msg sink n max_entries (flushed + 1) ?s ?w"
        using False go by (simp add: line emit_def log_line_nonempty Let_def del: de_Morgan_conj)
      define k' where "k' = (if max_entries = 0 then length (log_items ?s)
          else min (unat max_entries - unat (flushed + 1)) (length (log_items ?s)))"
      have "length (log_items ?s) \<le> n" "unat (flushed + 1) + n < 2 ^ 32"
        using Suc.prems(2,3) adv(2) uf by simp_all
      from Suc.IH [OF adv(1) this le k'_def, of ?w] obtain s' where
          IH: "flush_loop fmt_msg sink n max_entries (flushed + 1) ?s ?w =
          (flushed + 1 + of_nat k', s', fold (emit fmt_msg sink (the (s_sink ?s))) (take k' (log_items ?s)) ?w)"
          "log_inv s'" "log_items s' = drop k' (log_items ?s)"
        by blast
      have k: "k = Suc k'" using lt uf adv(2) Suc.prems(5) by (auto simp: k'_def)
      show ?thesis unfolding k step IH(1) using IH(2,3) adv(2) by simp
    qed
  qed
qed

text \<open>
  C37: posting and flushing keep the log a bounded first-in first-out queue: a full log drops the new
  entry and nothing else, and a flush hands the sink the lines of the oldest entries, in order, as many
  as asked for or all of them, and leaves the rest queued.
\<close>

theorem log_flush_in_order:
  assumes "log_inv s" and "fw_log_flush fmt_msg sink max_entries s w = (n, s', w')"
    and "fw_log_post_fast now level (Some tag) (Some fmt) a1 a2 s = s2"
  shows "let k = (if max_entries = 0 then length (log_items s) else min (unat max_entries) (length (log_items s)))
    in n = of_nat k \<and> w' = fold (emit fmt_msg sink (the (s_sink s))) (take k (log_items s)) w
      \<and> log_inv s' \<and> log_items s' = drop k (log_items s)
      \<and> log_inv s2 \<and> log_items s2 = (if length (log_items s) = log_cap s then log_items s
          else log_items s @ [\<lparr>le_timestamp_ms = now, le_tag = tag, le_fmt = fmt, le_arg1 = a1, le_arg2 = a2, le_level = level\<rparr>])"
proof -
  let ?e = "\<lparr>le_timestamp_ms = now, le_tag = tag, le_fmt = fmt, le_arg1 = a1, le_arg2 = a2, le_level = level\<rparr>"
  define k where "k = (if max_entries = 0 then length (log_items s) else min (unat max_entries) (length (log_items s)))"
  have cap: "length (log_items s) \<le> unat (s_capacity s)"
    using log_items_le [OF assms(1)] by (simp add: log_cap_def)
  have eq: "fw_log_flush fmt_msg sink max_entries s w = flush_loop fmt_msg sink (unat (s_capacity s)) max_entries 0 s w"
    using assms(1) by (auto simp: fw_log_flush_def log_inv_def)
  have bound: "unat (0 :: usize) + unat (s_capacity s) < 2 ^ 32" using unat_lt32 [of "s_capacity s"] by simp
  have k0: "k = (if max_entries = 0 then length (log_items s)
      else min (unat max_entries - unat (0 :: usize)) (length (log_items s)))" by (simp add: k_def)
  have flush: "n = of_nat k \<and> w' = fold (emit fmt_msg sink (the (s_sink s))) (take k (log_items s)) w
      \<and> log_inv s' \<and> log_items s' = drop k (log_items s)"
    using flush_loop_spec [OF assms(1) cap bound _ k0, of fmt_msg sink w] assms(2) eq by auto
  have post: "s2 = snd (log_enq ?e s)" using assms(3) by (simp add: log_enq_def)
  have "log_inv s2 \<and> log_items s2 = (if length (log_items s) = log_cap s then log_items s else log_items s @ [?e])"
    by (rule log_queue.enq_cases [OF assms(1), of ?e]) (auto simp: post assms(1))
  then show ?thesis using flush unfolding k_def Let_def by blast
qed

theorem log_flush_in_order_witness:
  "let e = (\<lambda>t. \<lparr>le_timestamp_ms = t, le_tag = ''A'', le_fmt = ''x'', le_arg1 = 0, le_arg2 = 0, le_level = 3\<rparr>);
       s = \<lparr>s_sink = Some (), s_entries = Some [e 1, e 2, e 3], s_capacity = 3, s_head = 2, s_tail = 0\<rparr>;
       r = fw_log_flush (\<lambda>f a b. f) (\<lambda>k t n w. w @ [n]) 1 s []
   in fst r = 1 \<and> log_items (fst (snd r)) = [e 2]"
proof -
  define e where "e = (\<lambda>t. \<lparr>le_timestamp_ms = t, le_tag = ''A'', le_fmt = ''x'', le_arg1 = 0, le_arg2 = 0, le_level = 3\<rparr>)"
  define s where "s = \<lparr>s_sink = Some (), s_entries = Some [e 1, e 2, e 3], s_capacity = 3, s_head = 2, s_tail = 0\<rparr>"
  have inv: "log_inv s" and items: "log_items s = [e 1, e 2]"
    by (simp_all add: s_def log_inv_def log_items_def log_count_def log_slot_def upt_rec)
  obtain n s' w' where r: "fw_log_flush (\<lambda>f a b. f) (\<lambda>k t n w. w @ [n]) 1 s [] = (n, s', w')" by (rule prod_cases3)
  have "n = 1 \<and> log_items s' = [e 2]"
    using log_flush_in_order [OF inv r refl, of 0 0 "[]" "[]" 0 0] items by (simp add: Let_def)
  then show ?thesis using r by (simp add: Let_def s_def e_def)
qed

end
