(* ===== verification/Power_Mgmt.thy ===== *)
theory Power_Mgmt
  imports Prelude
begin

text \<open>
  The sleep accounting of \<^verbatim>\<open>power.h\<close> and \<^verbatim>\<open>power.c\<close>.  The sleep itself (WFI, Sleep, nanosleep) only
  lets time pass: the two readings of the microsecond clock around it are arguments.
\<close>

record pm_state =
  s_period_start_us :: u64
  s_last_wake_us :: u64
  s_total_active_us :: u64
  s_total_sleep_us :: u64
  s_sleep_count :: u32
  s_pm_initialized :: bool

record fw_pm_metrics =
  pm_total_active_us :: u64
  pm_total_sleep_us :: u64
  pm_sleep_count :: u32
  pm_cpu_load_permille :: u16

definition fw_pm_init :: "u64 \<Rightarrow> pm_state \<Rightarrow> pm_state" where
  "fw_pm_init now s = \<lparr>s_period_start_us = now, s_last_wake_us = now, s_total_active_us = 0,
     s_total_sleep_us = 0, s_sleep_count = 0, s_pm_initialized = True\<rparr>"

text \<open>\<open>first\<close> is the reading of an initialisation done on the way, \<open>enter_us\<close> and \<open>exit_us\<close> those around the sleep.\<close>

definition fw_pm_enter_sleep :: "u64 \<Rightarrow> u64 \<Rightarrow> u64 \<Rightarrow> pm_state \<Rightarrow> pm_state" where
  "fw_pm_enter_sleep first enter_us exit_us s0 =
     (let s = (if \<not> s_pm_initialized s0 then fw_pm_init first s0 else s0);
          s1 = s\<lparr>s_total_active_us := s_total_active_us s + (enter_us - s_last_wake_us s)\<rparr>;
          sleep_delta = (if exit_us \<ge> enter_us then exit_us - enter_us else 0)
      in s1\<lparr>s_total_sleep_us := s_total_sleep_us s1 + sleep_delta,
            s_sleep_count := s_sleep_count s1 + 1, s_last_wake_us := exit_us\<rparr>)"

definition fw_pm_get_metrics :: "u64 \<Rightarrow> fw_pm_metrics option \<Rightarrow> pm_state \<Rightarrow> fw_pm_metrics option" where
  "fw_pm_get_metrics now out_metrics s =
     (if out_metrics = None then None
      else
        let current_active = s_total_active_us s + (now - s_last_wake_us s);
            total_time = current_active + s_total_sleep_us s
        in Some \<lparr>pm_total_active_us = current_active, pm_total_sleep_us = s_total_sleep_us s,
                 pm_sleep_count = s_sleep_count s,
                 pm_cpu_load_permille = (if total_time > 0 then ucast (current_active * 1000 div total_time) else 0)\<rparr>)"

definition fw_pm_reset_metrics :: "u64 \<Rightarrow> pm_state \<Rightarrow> pm_state" where
  "fw_pm_reset_metrics now s = fw_pm_init now s"

section \<open>Time is accounted for\<close>

text \<open>A history of sleeps: each a pair of clock readings, in order from the start \<open>t0\<close>.\<close>

fun sleeps_from :: "nat \<Rightarrow> (nat \<times> nat) list \<Rightarrow> bool" where
  "sleeps_from t [] = True"
| "sleeps_from t ((a, b) # r) = (t \<le> a \<and> a \<le> b \<and> sleeps_from b r)"

fun pm_run :: "(nat \<times> nat) list \<Rightarrow> pm_state \<Rightarrow> pm_state" where
  "pm_run [] s = s"
| "pm_run ((a, b) # r) s = pm_run r (fw_pm_enter_sleep (of_nat a) (of_nat a) (of_nat b) s)"

fun last_wake :: "nat \<Rightarrow> (nat \<times> nat) list \<Rightarrow> nat" where
  "last_wake t [] = t"
| "last_wake t ((a, b) # r) = last_wake b r"

definition slept :: "(nat \<times> nat) list \<Rightarrow> nat" where
  "slept r = sum_list (map (\<lambda>(a, b). b - a) r)"

lemma last_wake_mono: "sleeps_from t r \<Longrightarrow> t + slept r \<le> last_wake t r"
  by (induction r arbitrary: t) (fastforce simp: slept_def)+

lemma pm_run_state:
  assumes "s_pm_initialized s" and "s_last_wake_us s = of_nat t" and "sleeps_from t r" and "last_wake t r < 2 ^ 64"
  shows "s_last_wake_us (pm_run r s) = of_nat (last_wake t r) \<and> s_pm_initialized (pm_run r s)
    \<and> s_total_sleep_us (pm_run r s) = s_total_sleep_us s + of_nat (slept r)
    \<and> s_total_active_us (pm_run r s) + of_nat (slept r) = s_total_active_us s + of_nat (last_wake t r) - of_nat t
    \<and> s_sleep_count (pm_run r s) = s_sleep_count s + of_nat (length r)"
  using assms
proof (induction r arbitrary: s t)
  case Nil
  then show ?case by (simp add: slept_def)
next
  case (Cons ab r)
  obtain a b where ab: "ab = (a, b)" by (rule prod.exhaust)
  have o: "t \<le> a" "a \<le> b" "sleeps_from b r" using Cons.prems(3) ab by simp_all
  have lt: "b < 2 ^ 64" "a < 2 ^ 64" using last_wake_mono [OF o(3)] Cons.prems(4) ab o(2) by simp_all
  then have u: "unat (of_nat a :: u64) = a" "unat (of_nat b :: u64) = b"
    using unat_of_nat_small [where 'a = 64] by simp_all
  have le: "(of_nat a :: u64) \<le> of_nat b" using o(2) by (simp only: word_le_nat_alt u)
  let ?s = "fw_pm_enter_sleep (of_nat a) (of_nat a) (of_nat b) s"
  have s: "s_pm_initialized ?s" "s_last_wake_us ?s = of_nat b"
      "s_total_sleep_us ?s = s_total_sleep_us s + (of_nat b - of_nat a)"
      "s_total_active_us ?s = s_total_active_us s + (of_nat a - of_nat t)"
      "s_sleep_count ?s = s_sleep_count s + 1"
    using Cons.prems(1,2) le by (simp_all add: fw_pm_enter_sleep_def Let_def)
  have sl: "of_nat (slept ((a, b) # r)) = (of_nat b - of_nat a) + (of_nat (slept r) :: u64)"
    using o(2) by (simp add: slept_def)
  show ?case
    using Cons.IH [OF s(1,2) o(3)] Cons.prems(4) unfolding ab pm_run.simps last_wake.simps sl s(3-5)
    by (simp add: algebra_simps)
qed

lemma div_mult_self_le: "k * n div n \<le> (k :: nat)"
  by (cases "n = 0") simp_all

text \<open>
  Over any history of sleeps every microsecond since the start is counted once, as active or as
  sleep, and the reported load is the active share in permille, never above 1000 (for up times below
  \<open>2 ^ 54\<close> microseconds, where its product does not overflow).
\<close>

theorem pm_accounts_all_time:
  assumes "sleeps_from t r" and "last_wake t r \<le> now" and "now - t < 2 ^ 54" and "now < 2 ^ 64"
    and "fw_pm_get_metrics (of_nat now) (Some out) (pm_run r (fw_pm_init (of_nat t) s)) = Some mt"
  shows "unat (pm_total_active_us mt) + unat (pm_total_sleep_us mt) = now - t
    \<and> unat (pm_total_sleep_us mt) = slept r \<and> pm_sleep_count mt = of_nat (length r)
    \<and> unat (pm_cpu_load_permille mt) = (now - t - slept r) * 1000 div (now - t)
    \<and> unat (pm_cpu_load_permille mt) \<le> 1000"
proof -
  let ?init = "fw_pm_init (of_nat t) s" and ?s = "pm_run r (fw_pm_init (of_nat t) s)"
  have sl: "t + slept r \<le> last_wake t r" using last_wake_mono [OF assms(1)] .
  have run: "s_last_wake_us ?s = of_nat (last_wake t r)" "s_total_sleep_us ?s = of_nat (slept r)"
      "s_total_active_us ?s + of_nat (slept r) = of_nat (last_wake t r) - of_nat t"
      "s_sleep_count ?s = of_nat (length r)"
    using pm_run_state [of ?init t r] assms by (simp_all add: fw_pm_init_def)
  have act: "s_total_active_us ?s + (of_nat now - s_last_wake_us ?s) = of_nat (now - t - slept r)"
  proof -
    have "s_total_active_us ?s = of_nat (last_wake t r) - of_nat t - of_nat (slept r)"
      using run(3) by (simp add: eq_diff_eq)
    then have "s_total_active_us ?s + (of_nat now - s_last_wake_us ?s) = of_nat now - of_nat t - of_nat (slept r)"
      using run(1) by simp
    also have "\<dots> = of_nat (now - t - slept r)" using sl assms(2) by simp
    finally show ?thesis .
  qed
  define A where "A = now - t - slept r"
  have tot: "now - t = A + slept r" using sl assms(2) by (simp add: A_def)
  have lt: "A + slept r < 2 ^ 54" using tot assms(3) by simp
  have u: "unat (of_nat A :: u64) = A" "unat (of_nat (slept r) :: u64) = slept r"
      "unat (of_nat A + of_nat (slept r) :: u64) = A + slept r" "unat (of_nat A * 1000 :: u64) = A * 1000"
    using lt unat_of_nat_small [where 'a = 64, of A] unat_of_nat_small [where 'a = 64, of "slept r"]
      unat_of_nat_small [where 'a = 64, of "A + slept r"] unat_of_nat_small [where 'a = 64, of "A * 1000"] by simp_all
  have "A * 1000 \<le> 1000 * (A + slept r)" by simp
  then have "A * 1000 div (A + slept r) \<le> 1000 * (A + slept r) div (A + slept r)" by (rule div_le_mono)
  also have "\<dots> \<le> 1000" by (rule div_mult_self_le)
  finally have q: "A * 1000 div (A + slept r) \<le> 1000" .
  have mt: "pm_total_active_us mt = of_nat A" "pm_total_sleep_us mt = of_nat (slept r)"
      "pm_sleep_count mt = of_nat (length r)"
      "pm_cpu_load_permille mt = (if (of_nat A + of_nat (slept r) :: u64) > 0
         then ucast (of_nat A * 1000 div (of_nat A + of_nat (slept r) :: u64)) else 0)"
    using assms(5) act run(2,4) unfolding A_def [symmetric] by (auto simp: fw_pm_get_metrics_def Let_def)
  have "unat (pm_cpu_load_permille mt) = A * 1000 div (A + slept r)"
  proof (cases "A + slept r = 0")
    case True
    then show ?thesis using mt(4) by simp
  next
    case False
    then have "(of_nat A + of_nat (slept r) :: u64) > 0" unfolding word_less_nat_alt u(3) by simp
    moreover have "unat (of_nat A * 1000 div (of_nat A + of_nat (slept r) :: u64)) = A * 1000 div (A + slept r)"
      by (simp only: unat_div u)
    ultimately show ?thesis
      using mt(4) q by (simp add: unsigned_ucast_eq take_bit_nat_eq_self del: of_nat_add of_nat_mult)
  qed
  then show ?thesis using mt(1-3) u q tot by simp
qed

theorem pm_accounts_all_time_witness:
  "unat (pm_cpu_load_permille (the (fw_pm_get_metrics (of_nat 1000) (Some \<lparr>pm_total_active_us = 0, pm_total_sleep_us = 0,
       pm_sleep_count = 0, pm_cpu_load_permille = 0\<rparr>) (pm_run [(100, 400), (500, 900)] (fw_pm_init (of_nat 0)
       \<lparr>s_period_start_us = 0, s_last_wake_us = 0, s_total_active_us = 0, s_total_sleep_us = 0, s_sleep_count = 0,
        s_pm_initialized = False\<rparr>))))) = 300"
proof -
  obtain mt where mt: "fw_pm_get_metrics (of_nat 1000) (Some \<lparr>pm_total_active_us = 0, pm_total_sleep_us = 0,
       pm_sleep_count = 0, pm_cpu_load_permille = 0\<rparr>) (pm_run [(100, 400), (500, 900)] (fw_pm_init (of_nat 0)
       \<lparr>s_period_start_us = 0, s_last_wake_us = 0, s_total_active_us = 0, s_total_sleep_us = 0, s_sleep_count = 0,
        s_pm_initialized = False\<rparr>)) = Some mt"
    by (simp add: fw_pm_get_metrics_def Let_def)
  show ?thesis
    unfolding mt using pm_accounts_all_time [OF _ _ _ _ mt] by (simp add: slept_def)
qed

end
