(* ===== verification/Dma.thy ===== *)
theory Dma
  imports Memory
begin

text \<open>
  The portable DMA engine of \<^verbatim>\<open>dma.h\<close> and \<^verbatim>\<open>hal/dma.c\<close>: copies and fills over the byte memory, with a
  burst path of 32-bit words and a strided two-dimensional copy, and the static transfer counters.
\<close>

unbundle bit_operations_syntax

record fw_dma_stats =
  dma_total_transfers :: u32
  dma_total_bytes :: u32
  dma_total_2d_transfers :: u32

text \<open>\<^verbatim>\<open>d32[i] = s32[i]\<close> for i below the number of words, in order.\<close>

fun burst_copy :: "ptr \<Rightarrow> ptr \<Rightarrow> nat \<Rightarrow> mem \<Rightarrow> mem" where
  "burst_copy d s 0 m = m"
| "burst_copy d s (Suc i) m =
     (let m1 = burst_copy d s i m
      in store32 m1 (d + of_nat (4 * i)) (load32 m1 (s + of_nat (4 * i))))"

definition fw_dma_memcpy :: "ptr \<Rightarrow> ptr \<Rightarrow> usize \<Rightarrow> mem \<Rightarrow> fw_dma_stats \<Rightarrow> fw_status \<times> mem \<times> fw_dma_stats" where
  "fw_dma_memcpy dst src len m st =
     (if dst = FW_NULL \<or> src = FW_NULL then (FW_ERR_INVALID_ARG, m, st)
      else if len = 0 then (FW_OK, m, st)
      else
        let m' = (if (dst OR src) AND 3 = 0 \<and> len AND 3 = 0
                  then burst_copy dst src (unat (drop_bit 2 len)) m
                  else memcpy m dst src len)
        in (FW_OK, m', st\<lparr>dma_total_transfers := dma_total_transfers st + 1,
                          dma_total_bytes := dma_total_bytes st + len\<rparr>))"

definition fw_dma_memset :: "ptr \<Rightarrow> u8 \<Rightarrow> usize \<Rightarrow> mem \<Rightarrow> fw_dma_stats \<Rightarrow> fw_status \<times> mem \<times> fw_dma_stats" where
  "fw_dma_memset dst v len m st =
     (if dst = FW_NULL then (FW_ERR_INVALID_ARG, m, st)
      else if len = 0 then (FW_OK, m, st)
      else (FW_OK, memset m dst v len,
            st\<lparr>dma_total_transfers := dma_total_transfers st + 1,
               dma_total_bytes := dma_total_bytes st + len\<rparr>))"

fun copy_lines :: "ptr \<Rightarrow> usize \<Rightarrow> ptr \<Rightarrow> usize \<Rightarrow> usize \<Rightarrow> nat \<Rightarrow> mem \<Rightarrow> mem" where
  "copy_lines d dstride s sstride width 0 m = m"
| "copy_lines d dstride s sstride width (Suc i) m =
     memcpy (copy_lines d dstride s sstride width i m) (d + of_nat i * dstride) (s + of_nat i * sstride) width"

definition fw_dma_copy_2d ::
  "ptr \<Rightarrow> usize \<Rightarrow> ptr \<Rightarrow> usize \<Rightarrow> usize \<Rightarrow> usize \<Rightarrow> mem \<Rightarrow> fw_dma_stats \<Rightarrow> fw_status \<times> mem \<times> fw_dma_stats" where
  "fw_dma_copy_2d dst dst_stride src src_stride width_bytes height_lines m st =
     (if dst = FW_NULL \<or> src = FW_NULL \<or> width_bytes = 0 \<or> height_lines = 0 then (FW_ERR_INVALID_ARG, m, st)
      else if dst_stride < width_bytes \<or> src_stride < width_bytes then (FW_ERR_INVALID_ARG, m, st)
      else (FW_OK, copy_lines dst dst_stride src src_stride width_bytes (unat height_lines) m,
            st\<lparr>dma_total_transfers := dma_total_transfers st + 1,
               dma_total_2d_transfers := dma_total_2d_transfers st + 1,
               dma_total_bytes := dma_total_bytes st + width_bytes * height_lines\<rparr>))"

definition fw_dma_get_stats :: "fw_dma_stats option \<Rightarrow> fw_dma_stats \<Rightarrow> fw_dma_stats option" where
  "fw_dma_get_stats out_stats st = (case out_stats of None \<Rightarrow> None | Some _ \<Rightarrow> Some st)"

definition fw_dma_reset_stats :: "fw_dma_stats \<Rightarrow> fw_dma_stats" where
  "fw_dma_reset_stats st = \<lparr>dma_total_transfers = 0, dma_total_bytes = 0, dma_total_2d_transfers = 0\<rparr>"

section \<open>The burst path is a byte copy\<close>

lemma burst_copy_memcpy:
  assumes "nowrap d (4 * n)" and "nowrap s (4 * n)" and "disjoint_blocks d (4 * n) s (4 * n)"
  shows "k \<le> n \<Longrightarrow> burst_copy d s k m = mem_write m d (mem_read m s (4 * k))"
proof (induction k)
  case (Suc k)
  let ?xs = "mem_read m s (4 * k)" and ?w = "s + of_nat (4 * k)"
  have bound: "4 * n \<le> 2 ^ 32" using assms(1) by (simp add: nowrap_def)
  have "disjoint_blocks d (length ?xs) ?w 4"
    unfolding disjoint_blocks_def
  proof (intro allI impI notI)
    fix a assume a: "in_block d (length ?xs) a" "in_block ?w 4 a"
    have "in_block d (4 * n) a" using a(1) Suc.prems by (simp add: in_block_def)
    moreover have off: "unat (of_nat (4 * k) :: ptr) = 4 * k"
      using Suc.prems bound by (intro unat_of_nat_small) simp
    have "in_block s (4 * n) a"
      using in_block_sub [of "of_nat (4 * k)" 4 "4 * n" s a] a(2) Suc.prems bound by (simp only: off)
    ultimately show False using assms(3) by (simp add: disjoint_blocks_def)
  qed
  then have "le32 (load32 (mem_write m d ?xs) ?w) = mem_read m ?w 4"
    by (simp only: load32_mem_write_disjoint le32_load32)
  then have "burst_copy d s (Suc k) m = mem_write (mem_write m d ?xs) (d + of_nat (length ?xs)) (mem_read m ?w 4)"
    using Suc by (simp add: Let_def store32_def del: of_nat_mult)
  also have "\<dots> = mem_write m d (?xs @ mem_read m ?w 4)"
    using Suc.prems bound by (intro mem_write_append) simp
  also have "?xs @ mem_read m ?w 4 = mem_read m s (4 * Suc k)"
    using mem_read_append [of m s "4 * k" 4] by (simp add: add.commute)
  finally show ?case .
qed simp

lemma mask3_multiple: "len AND 3 = 0 \<Longrightarrow> unat (len :: usize) = 4 * unat (drop_bit 2 len)"
proof -
  assume "len AND 3 = 0"
  then have "unat len mod 4 = 0" using unat_and_pow2_minus_one [of len 2] by simp
  then have "4 * (unat len div 4) = unat len" by (metis mult_div_mod_eq add_0_right)
  moreover have "unat (drop_bit 2 len) = unat len div 4"
    by (simp add: drop_bit_eq_div unat_div)
  ultimately show ?thesis by simp
qed

lemma dma_memcpy_bytes:
  assumes "dst \<noteq> FW_NULL" "src \<noteq> FW_NULL" "nowrap dst (unat len)" "nowrap src (unat len)"
    and "disjoint_blocks dst (unat len) src (unat len)"
  shows "fst (snd (fw_dma_memcpy dst src len m st)) = memcpy m dst src len
    \<and> fst (fw_dma_memcpy dst src len m st) = FW_OK"
proof (cases "(dst OR src) AND 3 = 0 \<and> len AND 3 = 0")
  case True
  then have n: "unat len = 4 * unat (drop_bit 2 len)" using mask3_multiple by simp
  have "burst_copy dst src (unat (drop_bit 2 len)) m = memcpy m dst src len"
    unfolding memcpy_def n
    by (rule burst_copy_memcpy [OF assms(3-5) [unfolded n]]) simp
  then show ?thesis using True assms(1,2) by (simp add: fw_dma_memcpy_def Let_def memcpy_def)
next
  case False
  then show ?thesis using assms(1,2) by (auto simp: fw_dma_memcpy_def Let_def memcpy_def)
qed

section \<open>Two-dimensional copy\<close>

text \<open>The cell at column \<open>x\<close> of line \<open>y\<close> of a picture with a stride.\<close>

definition cell :: "ptr \<Rightarrow> usize \<Rightarrow> nat \<Rightarrow> nat \<Rightarrow> ptr" where
  "cell p stride y x = p + of_nat y * stride + of_nat x"

lemma unat_cell:
  assumes "nowrap p (h * unat stride)" and "y < h" and "x < unat stride"
  shows "unat (cell p stride y x) = unat p + y * unat stride + x"
proof -
  have le: "y * unat stride + x < h * unat stride"
  proof -
    have "Suc y * unat stride \<le> h * unat stride" using assms(2) by (intro mult_le_mono1) simp
    then show ?thesis using assms(3) by simp
  qed
  have eq: "cell p stride y x = p + of_nat (y * unat stride + x)" by (simp add: cell_def)
  have "unat p + (y * unat stride + x) < 2 ^ 32" using le assms(1) by (simp add: nowrap_def)
  then show ?thesis unfolding eq using unat_add_of_nat [of p "y * unat stride + x"] by simp
qed

lemma cell_inj:
  assumes "nowrap p (h * unat stride)" "y < h" "x < unat stride" "y' < h" "x' < unat stride"
    and "cell p stride y x = cell p stride y' x'"
  shows "y = y' \<and> x = x'"
proof -
  have eq: "y * unat stride + x = y' * unat stride + x'"
    using unat_cell [OF assms(1-3)] unat_cell [OF assms(1,4,5)] assms(6) by simp
  have "(y * unat stride + x) div unat stride = y" "(y' * unat stride + x') div unat stride = y'"
    using assms(3,5) by simp_all
  then have "y = y'" using eq by simp
  then show ?thesis using eq by simp
qed

lemma in_line_iff:
  assumes "nowrap p (h * unat stride)" "y < h" "w \<le> unat stride"
  shows "in_block (p + of_nat y * stride) w a \<longleftrightarrow> (\<exists>x<w. a = cell p stride y x)"
proof
  assume "in_block (p + of_nat y * stride) w a"
  then show "\<exists>x<w. a = cell p stride y x"
    by (intro exI [of _ "unat (a - (p + of_nat y * stride))"]) (simp add: in_block_def cell_def)
next
  assume "\<exists>x<w. a = cell p stride y x"
  then obtain x where x: "x < w" "a = cell p stride y x" by blast
  then have "x < 2 ^ 32" using assms(3) unat_lt32 [of stride] by simp
  then show "in_block (p + of_nat y * stride) w a"
    unfolding x(2) cell_def using x(1) in_block_offset by blast
qed

lemma copy_lines_spec:
  assumes d: "nowrap d (h * unat ds)" and s: "nowrap s (h * unat ss)"
    and w: "unat w \<le> unat ds" "unat w \<le> unat ss"
    and apart: "disjoint_blocks d (h * unat ds) s (h * unat ss)"
  shows "n \<le> h \<Longrightarrow>
    (\<forall>y<n. \<forall>x<unat w. copy_lines d ds s ss w n m (cell d ds y x) = m (cell s ss y x))
    \<and> (\<forall>a. (\<forall>y<n. \<forall>x<unat w. a \<noteq> cell d ds y x) \<longrightarrow> copy_lines d ds s ss w n m a = m a)"
proof (induction n)
  case (Suc n)
  let ?m = "copy_lines d ds s ss w n m"
  have IH: "\<And>y x. y < n \<Longrightarrow> x < unat w \<Longrightarrow> ?m (cell d ds y x) = m (cell s ss y x)"
      "\<And>a. (\<And>y x. y < n \<Longrightarrow> x < unat w \<Longrightarrow> a \<noteq> cell d ds y x) \<Longrightarrow> ?m a = m a"
    using Suc by simp_all
  have n: "n < h" using Suc.prems by simp
  have src: "?m (cell s ss n x) = m (cell s ss n x)" if x: "x < unat w" for x
  proof (rule IH(2))
    fix y' x' assume yx: "y' < n" "x' < unat w"
    have blk: "in_block p (h * unat st) (cell p st y v)"
      if "nowrap p (h * unat st)" "y < h" "v < unat st" for p st y v
    proof -
      have "Suc y * unat st \<le> h * unat st" using that(2) by (intro mult_le_mono1) simp
      then show ?thesis unfolding in_block_iff [OF that(1)] unat_cell [OF that] using that(3) by simp
    qed
    have "in_block d (h * unat ds) (cell d ds y' x')" using blk [OF d, of y' x'] yx n w by simp
    moreover have "in_block s (h * unat ss) (cell s ss n x)" using blk [OF s, of n x] x n w by simp
    ultimately show "cell s ss n x \<noteq> cell d ds y' x'" using apart by (auto simp: disjoint_blocks_def)
  qed
  have step: "copy_lines d ds s ss w (Suc n) m a =
      (if in_block (d + of_nat n * ds) (unat w) a
       then mem_read ?m (s + of_nat n * ss) (unat w) ! unat (a - (d + of_nat n * ds)) else ?m a)" for a
    by (simp add: memcpy_def mem_write_def in_block_def)
  have line: "copy_lines d ds s ss w (Suc n) m (cell d ds n x) = m (cell s ss n x)" if x: "x < unat w" for x
  proof -
    have x32: "x < 2 ^ 32" using x unat_lt32 [of w] by simp
    have "cell d ds n x - (d + of_nat n * ds) = of_nat x" by (simp add: cell_def)
    moreover have "unat (of_nat x :: ptr) = x" using x32 by (intro unat_of_nat_small) simp
    moreover have "in_block (d + of_nat n * ds) (unat w) (cell d ds n x)"
      using in_line_iff [OF d n w(1)] x by blast
    ultimately show ?thesis using step [of "cell d ds n x"] x src by (simp add: cell_def)
  qed
  have earlier: "copy_lines d ds s ss w (Suc n) m (cell d ds y x) = ?m (cell d ds y x)"
    if "y < n" "x < unat w" for y x
  proof -
    have "\<not> in_block (d + of_nat n * ds) (unat w) (cell d ds y x)"
      using in_line_iff [OF d n w(1)] cell_inj [OF d _ _ n] that n w
      by (metis dual_order.strict_trans less_irrefl order.strict_trans2)
    then show ?thesis using step by simp
  qed
  have other: "copy_lines d ds s ss w (Suc n) m a = m a"
    if "\<And>y x. y < Suc n \<Longrightarrow> x < unat w \<Longrightarrow> a \<noteq> cell d ds y x" for a
  proof -
    have "\<not> in_block (d + of_nat n * ds) (unat w) a" using in_line_iff [OF d n w(1)] that by blast
    moreover have "?m a = m a" by (rule IH(2)) (use that in simp)
    ultimately show ?thesis using step by simp
  qed
  show ?case using line earlier other IH(1) by (metis less_SucE)
qed simp

text \<open>
  For ranges that do not overlap, the engine copies bytes: the word-burst path taken for aligned
  transfers gives exactly the memory the byte copy gives, and a two-dimensional copy moves every cell of
  every line and changes no byte outside the destination lines.
\<close>

theorem dma_copies_bytes:
  assumes "dst \<noteq> FW_NULL" and "src \<noteq> FW_NULL"
    and "nowrap dst (unat len)" and "nowrap src (unat len)" and "disjoint_blocks dst (unat len) src (unat len)"
    and "w \<noteq> 0" and "h \<noteq> 0" and "w \<le> ds" and "w \<le> ss"
    and "nowrap dst (unat h * unat ds)" and "nowrap src (unat h * unat ss)"
    and "disjoint_blocks dst (unat h * unat ds) src (unat h * unat ss)"
  shows "fst (fw_dma_memcpy dst src len m st) = FW_OK
    \<and> fst (snd (fw_dma_memcpy dst src len m st)) = memcpy m dst src len
    \<and> fst (fw_dma_copy_2d dst ds src ss w h m st) = FW_OK
    \<and> (\<forall>y<unat h. \<forall>x<unat w. fst (snd (fw_dma_copy_2d dst ds src ss w h m st)) (cell dst ds y x) = m (cell src ss y x))
    \<and> (\<forall>a. (\<forall>y<unat h. \<forall>x<unat w. a \<noteq> cell dst ds y x) \<longrightarrow>
          fst (snd (fw_dma_copy_2d dst ds src ss w h m st)) a = m a)"
proof -
  have "fw_dma_copy_2d dst ds src ss w h m st = (FW_OK, copy_lines dst ds src ss w (unat h) m,
      st\<lparr>dma_total_transfers := dma_total_transfers st + 1,
         dma_total_2d_transfers := dma_total_2d_transfers st + 1,
         dma_total_bytes := dma_total_bytes st + w * h\<rparr>)"
    using assms(1,2,6-9) by (simp add: fw_dma_copy_2d_def not_less)
  then show ?thesis
    using copy_lines_spec [OF assms(10,11) _ _ assms(12), of w "unat h" m] assms(8,9)
      dma_memcpy_bytes [OF assms(1-5), of m st] by (simp add: word_le_nat_alt)
qed

theorem dma_copies_bytes_witness:
  "fst (snd (fw_dma_memcpy 0x1000 0x2000 8 (\<lambda>a. ucast a)
      \<lparr>dma_total_transfers = 0, dma_total_bytes = 0, dma_total_2d_transfers = 0\<rparr>))
    = memcpy (\<lambda>a. ucast a) 0x1000 0x2000 8"
  using dma_copies_bytes [where dst = "0x1000" and src = "0x2000" and len = 8 and w = 2 and h = 2 and ds = 4 and ss = 4]
  by (simp add: nowrap_def disjoint_blocksI)

end
