(* ===== verification/Cache.thy ===== *)
theory Cache
  imports Memory
begin

text \<open>
  Cache maintenance of \<^verbatim>\<open>cache.h\<close> and \<^verbatim>\<open>hal/cache.c\<close>: the ARMv5 line loops, whose coprocessor
  instructions are the list of line addresses they are issued for, and the operation counters every
  variant keeps.  A loop whose line address wraps never ends (None).
\<close>

unbundle bit_operations_syntax

definition FW_CACHE_LINE_SIZE :: usize where "FW_CACHE_LINE_SIZE = 32"

record cache_ops =
  s_cache_clean_ops :: u32
  s_cache_invalidate_ops :: u32

partial_function (option) line_loop :: "ptr \<Rightarrow> ptr \<Rightarrow> ptr list option" where
  "line_loop line end_addr =
     (if line < end_addr
      then Option.bind (line_loop (line + FW_CACHE_LINE_SIZE) end_addr) (\<lambda>ls. Some (line # ls))
      else Some [])"

definition cache_lines :: "ptr \<Rightarrow> usize \<Rightarrow> ptr list option" where
  "cache_lines addr sz = line_loop (addr AND NOT (FW_CACHE_LINE_SIZE - 1)) (addr + sz)"

text \<open>\<open>armv5\<close> selects the variant with line instructions; the portable one only orders memory.\<close>

definition fw_cache_clean :: "bool \<Rightarrow> ptr \<Rightarrow> usize \<Rightarrow> cache_ops \<Rightarrow> (ptr list \<times> cache_ops) option" where
  "fw_cache_clean armv5 addr sz s =
     (if addr = FW_NULL \<or> sz = 0 then Some ([], s)
      else case (if armv5 then cache_lines addr sz else Some []) of
             None \<Rightarrow> None
           | Some ls \<Rightarrow> Some (ls, s\<lparr>s_cache_clean_ops := s_cache_clean_ops s + 1\<rparr>))"

definition fw_cache_invalidate :: "bool \<Rightarrow> ptr \<Rightarrow> usize \<Rightarrow> cache_ops \<Rightarrow> (ptr list \<times> cache_ops) option" where
  "fw_cache_invalidate armv5 addr sz s =
     (if addr = FW_NULL \<or> sz = 0 then Some ([], s)
      else case (if armv5 then cache_lines addr sz else Some []) of
             None \<Rightarrow> None
           | Some ls \<Rightarrow> Some (ls, s\<lparr>s_cache_invalidate_ops := s_cache_invalidate_ops s + 1\<rparr>))"

definition fw_cache_flush_all :: "cache_ops \<Rightarrow> cache_ops" where
  "fw_cache_flush_all s = s\<lparr>s_cache_clean_ops := s_cache_clean_ops s + 1,
     s_cache_invalidate_ops := s_cache_invalidate_ops s + 1\<rparr>"

section \<open>Every byte of the range is in a line\<close>

lemma line_loop_covers:
  assumes "unat e + 32 \<le> 2 ^ 32"
  shows "\<exists>ls. line_loop l e = Some ls \<and>
    (\<forall>a. unat l \<le> unat a \<longrightarrow> unat a < unat e \<longrightarrow> (\<exists>x\<in>set ls. in_block x 32 a))
    \<and> (\<forall>x\<in>set ls. unat l \<le> unat x \<and> unat x < unat e)"
proof (induction "unat e - unat l" arbitrary: l rule: less_induct)
  case less
  show ?case
  proof (cases "l < e")
    case False
    then have "line_loop l e = Some []" by (subst line_loop.simps) simp
    then show ?thesis using False by (auto simp: word_less_nat_alt)
  next
    case True
    then have lt: "unat l < unat e" by (simp add: word_less_nat_alt)
    have l32: "unat (l + FW_CACHE_LINE_SIZE) = unat l + 32"
      using lt assms by (simp add: FW_CACHE_LINE_SIZE_def unat_add_nowrap)
    have "unat e - unat (l + FW_CACHE_LINE_SIZE) < unat e - unat l" using lt l32 by simp
    from less [OF this] obtain ls where ls: "line_loop (l + FW_CACHE_LINE_SIZE) e = Some ls"
        "\<And>a. unat l + 32 \<le> unat a \<Longrightarrow> unat a < unat e \<Longrightarrow> \<exists>x\<in>set ls. in_block x 32 a"
        "\<And>x. x \<in> set ls \<Longrightarrow> unat l + 32 \<le> unat x \<and> unat x < unat e"
      unfolding l32 by blast
    have nw: "nowrap l 32" using lt assms by (simp add: nowrap_def)
    have "line_loop l e = Some (l # ls)" using True ls(1) by (subst line_loop.simps) simp
    moreover have "\<exists>x\<in>set (l # ls). in_block x 32 a" if "unat l \<le> unat a" "unat a < unat e" for a
    proof (cases "unat a < unat l + 32")
      case True
      then show ?thesis using that(1) by (simp add: in_block_iff [OF nw])
    next
      case False
      then show ?thesis using ls(2) [of a] that(2) by auto
    qed
    ultimately show ?thesis using ls(3) lt by fastforce
  qed
qed

lemma cache_clean_covers:
  assumes "addr \<noteq> FW_NULL" and "sz \<noteq> 0" and "unat addr + unat sz + 32 \<le> 2 ^ 32"
  shows "\<exists>ls. fw_cache_clean True addr sz s = Some (ls, s\<lparr>s_cache_clean_ops := s_cache_clean_ops s + 1\<rparr>)
    \<and> (\<forall>a. in_block addr (unat sz) a \<longrightarrow> (\<exists>x\<in>set ls. in_block x 32 a))"
proof -
  let ?l = "addr AND NOT (FW_CACHE_LINE_SIZE - 1)"
  have e: "unat (addr + sz) = unat addr + unat sz" using assms(3) by (intro unat_add_nowrap) simp
  have le: "unat ?l \<le> unat addr"
    using unat_and_not_mask [of addr 5] by (simp add: FW_CACHE_LINE_SIZE_def)
  obtain ls where ls: "line_loop ?l (addr + sz) = Some ls"
      "\<And>a. unat ?l \<le> unat a \<Longrightarrow> unat a < unat (addr + sz) \<Longrightarrow> \<exists>x\<in>set ls. in_block x 32 a"
    using line_loop_covers [of "addr + sz" ?l] assms(3) e by auto
  have "nowrap addr (unat sz)" using assms(3) by (simp add: nowrap_def)
  then have "\<exists>x\<in>set ls. in_block x 32 a" if "in_block addr (unat sz) a" for a
    using that ls(2) [of a] le e by (simp add: in_block_iff)
  then show ?thesis using assms(1,2) ls(1) by (simp add: fw_cache_clean_def cache_lines_def)
qed

end
