(* ===== verification/Crash_Dump.thy ===== *)
theory Crash_Dump
  imports Text_Format
begin

text \<open>
  The crash dump capturer of \<^verbatim>\<open>crash_dump.h\<close> and \<^verbatim>\<open>crash_dump.c\<close>.  A dump is its sixteen words; the
  retention memory is the dump the static pointer designates, the default buffer or the one the
  application gave, whose contents after a reset are arbitrary.
\<close>

unbundle bit_operations_syntax

definition FW_CRASH_DUMP_MAGIC :: u32 where "FW_CRASH_DUMP_MAGIC = 0x43525348"

record fw_crash_dump =
  cd_magic :: u32
  cd_timestamp_ms :: u32
  cd_r0 :: u32
  cd_r1 :: u32
  cd_r2 :: u32
  cd_r3 :: u32
  cd_r12 :: u32
  cd_sp :: u32
  cd_lr :: u32
  cd_pc :: u32
  cd_xpsr :: u32
  cd_cfsr :: u32
  cd_hfsr :: u32
  cd_mmar :: u32
  cd_bfar :: u32
  cd_checksum :: u32

text \<open>The words in front of the checksum, as the cast to \<^verbatim>\<open>uint32_t *\<close> reads them.\<close>

definition dump_words :: "fw_crash_dump \<Rightarrow> u32 list" where
  "dump_words d = [cd_magic d, cd_timestamp_ms d, cd_r0 d, cd_r1 d, cd_r2 d, cd_r3 d, cd_r12 d, cd_sp d,
     cd_lr d, cd_pc d, cd_xpsr d, cd_cfsr d, cd_hfsr d, cd_mmar d, cd_bfar d]"

definition checksum_loop :: "u32 list \<Rightarrow> u32 \<Rightarrow> u32" where
  "checksum_loop ws acc = fold (\<lambda>w acc. push_bit 1 acc XOR w) ws acc"

definition calculate_checksum :: "fw_crash_dump \<Rightarrow> u32" where
  "calculate_checksum d = checksum_loop (dump_words d) 0xA5A55A5A"

record crash_retention =
  s_default_retention_buffer :: fw_crash_dump
  s_retention_custom :: "fw_crash_dump option"

definition retained :: "crash_retention \<Rightarrow> fw_crash_dump" where
  "retained s = (case s_retention_custom s of None \<Rightarrow> s_default_retention_buffer s | Some d \<Rightarrow> d)"

definition set_retained :: "fw_crash_dump \<Rightarrow> crash_retention \<Rightarrow> crash_retention" where
  "set_retained d s =
     (case s_retention_custom s of None \<Rightarrow> s\<lparr>s_default_retention_buffer := d\<rparr>
      | Some _ \<Rightarrow> s\<lparr>s_retention_custom := Some d\<rparr>)"

text \<open>The retention buffer argument is what the memory there holds; None is \<^verbatim>\<open>NULL\<close>.  A dump is 64 bytes.\<close>

definition fw_crash_dump_init :: "fw_crash_dump option \<Rightarrow> usize \<Rightarrow> crash_retention \<Rightarrow> crash_retention" where
  "fw_crash_dump_init retention_buf buf_size s =
     s\<lparr>s_retention_custom := (if retention_buf \<noteq> None \<and> buf_size \<ge> 64 then retention_buf else None)\<rparr>"

definition fw_crash_dump_capture :: "fw_crash_dump option \<Rightarrow> crash_retention \<Rightarrow> fw_status \<times> crash_retention" where
  "fw_crash_dump_capture dump s =
     (case dump of
        None \<Rightarrow> (FW_ERR_INVALID_ARG, s)
      | Some d \<Rightarrow>
          let d1 = d\<lparr>cd_magic := FW_CRASH_DUMP_MAGIC\<rparr>
          in (FW_OK, set_retained (d1\<lparr>cd_checksum := calculate_checksum d1\<rparr>) s))"

definition fw_crash_dump_has_valid :: "crash_retention \<Rightarrow> bool" where
  "fw_crash_dump_has_valid s =
     (if cd_magic (retained s) \<noteq> FW_CRASH_DUMP_MAGIC then False
      else cd_checksum (retained s) = calculate_checksum (retained s))"

definition fw_crash_dump_get :: "fw_crash_dump option \<Rightarrow> crash_retention \<Rightarrow> fw_status \<times> fw_crash_dump option" where
  "fw_crash_dump_get out_dump s =
     (if out_dump = None then (FW_ERR_INVALID_ARG, None)
      else if \<not> fw_crash_dump_has_valid s then (FW_ERR_NOT_FOUND, out_dump)
      else (FW_OK, Some (retained s)))"

definition zero_dump :: fw_crash_dump where
  "zero_dump = \<lparr>cd_magic = 0, cd_timestamp_ms = 0, cd_r0 = 0, cd_r1 = 0, cd_r2 = 0, cd_r3 = 0, cd_r12 = 0,
     cd_sp = 0, cd_lr = 0, cd_pc = 0, cd_xpsr = 0, cd_cfsr = 0, cd_hfsr = 0, cd_mmar = 0, cd_bfar = 0, cd_checksum = 0\<rparr>"

definition fw_crash_dump_clear :: "crash_retention \<Rightarrow> crash_retention" where
  "fw_crash_dump_clear s = set_retained zero_dump s"

section \<open>Report\<close>

text \<open>
  The causes are appended to a buffer of 256 bytes: the state is its text and \<^verbatim>\<open>cause_len\<close>, the sum of
  the lengths the calls report.  Past the end the remaining size would wrap: None.
\<close>

definition append_cause :: "bool \<Rightarrow> string \<Rightarrow> (string \<times> nat) option \<Rightarrow> (string \<times> nat) option" where
  "append_cause c txt st =
     (case st of
        None \<Rightarrow> None
      | Some (buf, n) \<Rightarrow>
          if \<not> c then Some (buf, n)
          else if n > 256 then None
          else case snprintf_text (256 - n) txt of (stored, k) \<Rightarrow> Some (take n buf @ stored, n + k))"

definition cfsr_has :: "fw_crash_dump \<Rightarrow> nat \<Rightarrow> bool" where
  "cfsr_has d k \<longleftrightarrow> cd_cfsr d AND push_bit k 1 \<noteq> 0"

definition fault_causes :: "fw_crash_dump \<Rightarrow> (string \<times> nat) option" where
  "fault_causes d =
     append_cause (cfsr_has d 1) '' [MemManage: Instruction Access Violation]''
     (append_cause (cfsr_has d 0)
        (if cfsr_has d 7 then '' [MemManage: Data Access Violation at 0x'' @ hex8 (cd_mmar d) @ '']''
         else '' [MemManage: Data Access Violation]'')
     (append_cause (cfsr_has d 9)
        (if cfsr_has d 15 then '' [BusFault: Precise Data Access Error at 0x'' @ hex8 (cd_bfar d) @ '']''
         else '' [BusFault: Precise Data Access Error]'')
     (append_cause (cfsr_has d 16) '' [UsageFault: Undefined Instruction]''
     (append_cause (cfsr_has d 24) '' [UsageFault: Unaligned Access]''
     (append_cause (cfsr_has d 25) '' [UsageFault: Divide-by-Zero]'' (Some ([], 0)))))))"

definition report_text :: "string \<Rightarrow> fw_crash_dump \<Rightarrow> string" where
  "report_text cause d =
     ''=== HARDFAULT CRASH DUMP ==='' @ [CHR 10] @
     ''  * Fault Root Cause: '' @ cause @ [CHR 10] @
     ''  * Program Counter : 0x'' @ hex8 (cd_pc d) @ '' (PC)'' @ [CHR 10] @
     ''  * Link Register   : 0x'' @ hex8 (cd_lr d) @ '' (LR)'' @ [CHR 10] @
     ''  * Stack Pointer   : 0x'' @ hex8 (cd_sp d) @ '' (SP)'' @ [CHR 10] @
     ''  * Status (xPSR)   : 0x'' @ hex8 (cd_xpsr d) @ [CHR 10] @
     ''  * Registers R0..R3: [0x'' @ hex8 (cd_r0 d) @ '', 0x'' @ hex8 (cd_r1 d) @ '', 0x'' @ hex8 (cd_r2 d)
       @ '', 0x'' @ hex8 (cd_r3 d) @ '']'' @ [CHR 10] @
     ''  * Register R12    : 0x'' @ hex8 (cd_r12 d) @ [CHR 10] @
     ''  * HFSR / CFSR     : HFSR=0x'' @ hex8 (cd_hfsr d) @ '', CFSR=0x'' @ hex8 (cd_cfsr d) @ [CHR 10] @
     ''  * Uptime at Crash : '' @ dec_digits (unat (cd_timestamp_ms d)) @ '' ms'' @ [CHR 10] @
     ''============================''"

text \<open>The characters left in \<^verbatim>\<open>out_str\<close> and the returned length.\<close>

definition fw_crash_dump_format_report ::
  "fw_crash_dump option \<Rightarrow> string option \<Rightarrow> nat \<Rightarrow> (string option \<times> nat) option" where
  "fw_crash_dump_format_report dump out_str max_len =
     (case (dump, out_str) of
        (Some d, Some _) \<Rightarrow>
          if max_len = 0 then Some (out_str, 0)
          else (case fault_causes d of
                  None \<Rightarrow> None
                | Some (buf, n) \<Rightarrow>
                    let cause = (if n = 0 then fst (snprintf_text 256
                           ('' [Forced HardFault / Unknown (CFSR: 0x'' @ hex8 (cd_cfsr d) @ '')]'')) else buf)
                    in (case snprintf_text max_len (report_text cause d) of
                          (stored, written) \<Rightarrow>
                            Some (Some stored, if written > 0 \<and> written < max_len then written else max_len - 1)))
      | _ \<Rightarrow> Some (out_str, 0))"

section \<open>The checksum sees a change unless it is shifted out\<close>

lemma checksum_loop_xor:
  "checksum_loop ws (s XOR \<delta>) = checksum_loop ws s XOR push_bit (length ws) \<delta>"
proof (induction ws arbitrary: s \<delta>)
  case (Cons w ws)
  have "push_bit 1 (s XOR \<delta>) XOR w = (push_bit 1 s XOR w) XOR push_bit 1 \<delta>"
    by (simp only: push_bit_xor ac_simps)
  then have "checksum_loop (w # ws) (s XOR \<delta>) = checksum_loop ws ((push_bit 1 s XOR w) XOR push_bit 1 \<delta>)"
    by (simp only: checksum_loop_def fold_simps)
  also have "\<dots> = checksum_loop ws (push_bit 1 s XOR w) XOR push_bit (length ws) (push_bit 1 \<delta>)"
    by (rule Cons.IH)
  also have "push_bit (length ws) (push_bit 1 \<delta>) = push_bit (length (w # ws)) \<delta>"
    by (simp add: push_bit_push_bit)
  also have "checksum_loop ws (push_bit 1 s XOR w) = checksum_loop (w # ws) s"
    by (simp only: checksum_loop_def fold_simps)
  finally show ?case .
qed (simp add: checksum_loop_def)

lemma checksum_loop_append: "checksum_loop (xs @ ys) s = checksum_loop ys (checksum_loop xs s)"
  by (simp add: checksum_loop_def)

lemma checksum_word_change:
  assumes "i < length ws"
  shows "checksum_loop (ws[i := ws ! i XOR \<delta>]) s = checksum_loop ws s XOR push_bit (length ws - 1 - i) \<delta>"
proof -
  let ?xs = "take i ws" and ?ys = "drop (Suc i) ws"
  have "ws[i := ws ! i XOR \<delta>] = ?xs @ (ws ! i XOR \<delta>) # ?ys" using assms by (rule upd_conv_take_nth_drop)
  then have "checksum_loop (ws[i := ws ! i XOR \<delta>]) s =
      checksum_loop ?ys ((push_bit 1 (checksum_loop ?xs s) XOR ws ! i) XOR \<delta>)"
    by (simp only: checksum_loop_append) (simp only: checksum_loop_def fold_simps xor.assoc)
  also have "\<dots> = checksum_loop ?ys (push_bit 1 (checksum_loop ?xs s) XOR ws ! i) XOR push_bit (length ?ys) \<delta>"
    by (rule checksum_loop_xor)
  also have "checksum_loop ?ys (push_bit 1 (checksum_loop ?xs s) XOR ws ! i) = checksum_loop (?xs @ ws ! i # ?ys) s"
    by (simp only: checksum_loop_append) (simp only: checksum_loop_def fold_simps)
  also have "?xs @ ws ! i # ?ys = ws" using assms by (simp add: id_take_nth_drop [symmetric])
  finally show ?thesis by simp
qed

lemma capture_stores:
  assumes "fw_crash_dump_capture (Some d) s = (st, s1)"
  defines "d1 \<equiv> d\<lparr>cd_magic := FW_CRASH_DUMP_MAGIC\<rparr>"
  shows "st = FW_OK" and "retained s1 = d1\<lparr>cd_checksum := calculate_checksum d1\<rparr>"
  using assms by (auto simp: fw_crash_dump_capture_def Let_def retained_def set_retained_def d1_def split: option.splits)

lemma checksum_ignores_itself: "calculate_checksum (d\<lparr>cd_checksum := c\<rparr>) = calculate_checksum d"
  by (simp add: calculate_checksum_def dump_words_def)

text \<open>
  C36: a captured dump is valid and read back with the caller's registers, a cleared one is not; and a
  change of one word of the retained dump is noticed exactly when the rotation-free checksum does not
  shift it out: a change of word \<open>i\<close> passes unseen when it lies in its \<open>14 - i\<close> highest bits.
\<close>

theorem crash_dump_integrity:
  assumes "fw_crash_dump_capture (Some d) s = (st, s1)"
    and "0 < i" and "i < 15"
    and "dump_words (retained s2) = (dump_words (retained s1))[i := dump_words (retained s1) ! i XOR \<delta>]"
    and "cd_checksum (retained s2) = cd_checksum (retained s1)"
  shows "st = FW_OK
    \<and> (\<exists>c. fw_crash_dump_get (Some out) s1 = (FW_OK, Some (d\<lparr>cd_magic := FW_CRASH_DUMP_MAGIC, cd_checksum := c\<rparr>)))
    \<and> fst (fw_crash_dump_get (Some out) (fw_crash_dump_clear s1)) = FW_ERR_NOT_FOUND
    \<and> (fw_crash_dump_has_valid s2 \<longleftrightarrow> push_bit (14 - i) \<delta> = 0)"
proof -
  let ?d1 = "d\<lparr>cd_magic := FW_CRASH_DUMP_MAGIC\<rparr>"
  have st: "st = FW_OK" and r: "retained s1 = ?d1\<lparr>cd_checksum := calculate_checksum ?d1\<rparr>"
    using capture_stores [OF assms(1)] by simp_all
  have valid: "fw_crash_dump_has_valid s1"
    by (simp add: fw_crash_dump_has_valid_def r checksum_ignores_itself)
  have len: "length (dump_words x) = 15" for x by (simp add: dump_words_def)
  have "dump_words (retained s2) ! 0 = dump_words (retained s1) ! 0" using assms(2,4) by simp
  then have magic: "cd_magic (retained s2) = FW_CRASH_DUMP_MAGIC" by (simp add: dump_words_def r)
  have "calculate_checksum (retained s2) = calculate_checksum (retained s1) XOR push_bit (14 - i) \<delta>"
    unfolding calculate_checksum_def assms(4) using checksum_word_change [of i "dump_words (retained s1)" \<delta>] assms(3)
    by (simp add: len)
  moreover have "cd_checksum (retained s2) = calculate_checksum (retained s1)"
    using assms(5) by (simp add: r checksum_ignores_itself)
  ultimately have "fw_crash_dump_has_valid s2 \<longleftrightarrow>
      calculate_checksum (retained s1) = calculate_checksum (retained s1) XOR push_bit (14 - i) \<delta>"
    using magic by (simp add: fw_crash_dump_has_valid_def)
  also have "\<dots> \<longleftrightarrow> push_bit (14 - i) \<delta> = 0"
    using xor_left_cancel [of "calculate_checksum (retained s1)" 0 "push_bit (14 - i) \<delta>"] by auto
  finally have "fw_crash_dump_has_valid s2 \<longleftrightarrow> push_bit (14 - i) \<delta> = 0" .
  moreover have "retained (fw_crash_dump_clear s1) = zero_dump"
    by (simp add: fw_crash_dump_clear_def retained_def set_retained_def split: option.split)
  then have "fst (fw_crash_dump_get (Some out) (fw_crash_dump_clear s1)) = FW_ERR_NOT_FOUND"
    by (simp add: fw_crash_dump_get_def fw_crash_dump_has_valid_def zero_dump_def FW_CRASH_DUMP_MAGIC_def)
  moreover have "fw_crash_dump_get (Some out) s1 =
      (FW_OK, Some (d\<lparr>cd_magic := FW_CRASH_DUMP_MAGIC, cd_checksum := calculate_checksum ?d1\<rparr>))"
    using valid r by (simp add: fw_crash_dump_get_def)
  ultimately show ?thesis using st by blast
qed

theorem crash_dump_integrity_witness:
  "let s1 = snd (fw_crash_dump_capture (Some (zero_dump\<lparr>cd_pc := 0x08001234\<rparr>))
              \<lparr>s_default_retention_buffer = zero_dump, s_retention_custom = None\<rparr>)
   in fw_crash_dump_has_valid (s1\<lparr>s_default_retention_buffer := (retained s1)\<lparr>cd_r0 := 0x80000000\<rparr>\<rparr>)"
proof -
  let ?s0 = "\<lparr>s_default_retention_buffer = zero_dump, s_retention_custom = None\<rparr>"
  let ?d = "zero_dump\<lparr>cd_pc := 0x08001234\<rparr>"
  obtain st s1 where c: "fw_crash_dump_capture (Some ?d) ?s0 = (st, s1)" by (rule prod.exhaust)
  let ?s2 = "s1\<lparr>s_default_retention_buffer := (retained s1)\<lparr>cd_r0 := 0x80000000\<rparr>\<rparr>"
  have "s_retention_custom s1 = None"
    using c by (auto simp: fw_crash_dump_capture_def set_retained_def Let_def)
  then have r2: "retained ?s2 = (retained s1)\<lparr>cd_r0 := 0x80000000\<rparr>" by (simp add: retained_def)
  have "cd_r0 (retained s1) = 0" using capture_stores(2) [OF c] by (simp add: zero_dump_def)
  then have "dump_words (retained ?s2) = (dump_words (retained s1))[2 := dump_words (retained s1) ! 2 XOR 0x80000000]"
    by (simp add: r2 dump_words_def)
  moreover have "cd_checksum (retained ?s2) = cd_checksum (retained s1)" by (simp add: r2)
  ultimately have "fw_crash_dump_has_valid ?s2 \<longleftrightarrow> push_bit (14 - 2) (0x80000000 :: u32) = 0"
    using crash_dump_integrity [OF c, of 2 ?s2 "0x80000000"] by simp
  then show ?thesis using c by (simp add: Let_def)
qed

section \<open>The report fits\<close>

lemma append_cause_fits:
  "length buf = n \<Longrightarrow> n + length txt \<le> 255 \<Longrightarrow>
     append_cause c txt (Some (buf, n)) = Some (if c then (buf @ txt, n + length txt) else (buf, n))"
  by (simp add: append_cause_def snprintf_text_def)

lemma append_causes_fit:
  "length buf + sum_list (map (\<lambda>x. length (snd x)) cs) \<le> 255 \<Longrightarrow>
     \<exists>buf'. fold (\<lambda>(c, tx). append_cause c tx) cs (Some (buf, length buf)) = Some (buf', length buf')
       \<and> length buf' \<le> length buf + sum_list (map (\<lambda>x. length (snd x)) cs)"
proof (induction cs arbitrary: buf)
  case (Cons ct cs)
  obtain c tx where ct: "ct = (c, tx)" by (rule prod.exhaust)
  have "append_cause c tx (Some (buf, length buf)) =
      Some (if c then buf @ tx else buf, length (if c then buf @ tx else buf))"
    using append_cause_fits [of buf "length buf" tx c] Cons.prems ct by simp
  moreover have "length (if c then buf @ tx else buf) + sum_list (map (\<lambda>x. length (snd x)) cs) \<le> 255"
    using Cons.prems ct by simp
  then obtain buf' where "fold (\<lambda>(c, tx). append_cause c tx) cs
        (Some (if c then buf @ tx else buf, length (if c then buf @ tx else buf))) = Some (buf', length buf')"
      "length buf' \<le> length (if c then buf @ tx else buf) + sum_list (map (\<lambda>x. length (snd x)) cs)"
    using Cons.IH by blast
  ultimately show ?case using ct by (intro exI [of _ buf']) (simp split: if_splits)
qed simp

lemma fault_causes_fit: "\<exists>buf. fault_causes d = Some (buf, length buf) \<and> length buf \<le> 242"
proof -
  let ?cs = "[(cfsr_has d 25, '' [UsageFault: Divide-by-Zero]''), (cfsr_has d 24, '' [UsageFault: Unaligned Access]''),
      (cfsr_has d 16, '' [UsageFault: Undefined Instruction]''),
      (cfsr_has d 9, if cfsr_has d 15 then '' [BusFault: Precise Data Access Error at 0x'' @ hex8 (cd_bfar d) @ '']''
         else '' [BusFault: Precise Data Access Error]''),
      (cfsr_has d 0, if cfsr_has d 7 then '' [MemManage: Data Access Violation at 0x'' @ hex8 (cd_mmar d) @ '']''
         else '' [MemManage: Data Access Violation]''),
      (cfsr_has d 1, '' [MemManage: Instruction Access Violation]'')]"
  have "fault_causes d = fold (\<lambda>(c, tx). append_cause c tx) ?cs (Some ([], 0))"
    by (simp only: fault_causes_def fold_simps prod.case)
  moreover have "sum_list (map (\<lambda>x. length (snd x)) ?cs) \<le> 242" by simp
  ultimately show ?thesis using append_causes_fit [of "[]" ?cs] by fastforce
qed

text \<open>
  The report of every dump names its causes in full: they fit the 256 bytes whatever the fault status
  register holds, and the returned length never exceeds what the caller's buffer keeps.
\<close>

lemma format_report_fits:
  assumes "0 < n"
  shows "\<exists>tx k. fw_crash_dump_format_report (Some d) (Some old) n = Some (Some tx, k)
    \<and> length tx \<le> n - 1 \<and> k \<le> n - 1"
proof -
  obtain buf where buf: "fault_causes d = Some (buf, length buf)" using fault_causes_fit by blast
  define cause where "cause = (if length buf = 0 then fst (snprintf_text 256
      ('' [Forced HardFault / Unknown (CFSR: 0x'' @ hex8 (cd_cfsr d) @ '')]'')) else buf)"
  define T where "T = report_text cause d"
  have "fw_crash_dump_format_report (Some d) (Some old) n =
      Some (Some (take (n - 1) T), if length T > 0 \<and> length T < n then length T else n - 1)"
    using assms unfolding T_def cause_def
    by (simp only: fw_crash_dump_format_report_def buf snprintf_text_def Let_def prod.case option.case fst_conv
        neq0_conv [symmetric] if_False refl)
  then show ?thesis by auto
qed

end
