(* ===== verification/Rtos_Baremetal.thy ===== *)
theory Rtos_Baremetal
  imports Timer
begin

text \<open>
  The bare-metal fallback of the RTOS interface (\<^verbatim>\<open>rtos.h\<close>, \<^verbatim>\<open>rtos_baremetal.c\<close>).  There is one thread
  of execution: a task is only its entry point, and the locks and semaphores always succeed at once.
  An out parameter is None for \<^verbatim>\<open>NULL\<close>; handles are the pointer values the code stores.
\<close>

record 'e fw_task_config =
  tc_name :: string
  tc_stack_size :: u32
  tc_priority :: u8
  tc_entry_point :: 'e
  tc_argument :: ptr

datatype 'e handle = Entry 'e | Token nat

definition fw_task_create ::
  "'e fw_task_config option \<Rightarrow> 'e handle option \<Rightarrow> fw_status \<times> 'e handle option" where
  "fw_task_create cfg out_handle =
     (case cfg of
        None \<Rightarrow> (FW_ERR_INVALID_ARG, out_handle)
      | Some c \<Rightarrow> (FW_OK, if out_handle \<noteq> None then Some (Entry (tc_entry_point c)) else None))"

definition fw_task_delay_ms :: "(nat \<Rightarrow> u32) \<Rightarrow> u32 \<Rightarrow> nat option" where
  "fw_task_delay_ms clock ms = fw_delay_millis clock ms"

definition fw_mutex_init :: "'e handle option \<Rightarrow> fw_status \<times> 'e handle option" where
  "fw_mutex_init out_mutex = (FW_OK, if out_mutex \<noteq> None then Some (Token 1) else None)"

definition fw_mutex_lock :: "'e handle \<Rightarrow> u32 \<Rightarrow> fw_status" where
  "fw_mutex_lock mutex timeout_ms = FW_OK"

definition fw_mutex_unlock :: "'e handle \<Rightarrow> fw_status" where
  "fw_mutex_unlock mutex = FW_OK"

definition fw_sem_init :: "'e handle option \<Rightarrow> u32 \<Rightarrow> u32 \<Rightarrow> fw_status \<times> 'e handle option" where
  "fw_sem_init out_sem init_count max_count = (FW_OK, if out_sem \<noteq> None then Some (Token 1) else None)"

definition fw_sem_take :: "'e handle \<Rightarrow> u32 \<Rightarrow> fw_status" where
  "fw_sem_take sem timeout_ms = FW_OK"

definition fw_sem_give :: "'e handle \<Rightarrow> fw_status" where
  "fw_sem_give sem = FW_OK"

text \<open>With one thread nothing ever waits: no lock or semaphore call reports a timeout or a busy resource.\<close>

lemma baremetal_never_blocks:
  "fw_mutex_lock h t = FW_OK" "fw_sem_take h t = FW_OK" "fst (fw_mutex_init o1) = FW_OK" "fst (fw_sem_init o1 a b) = FW_OK"
  by (simp_all add: fw_mutex_lock_def fw_sem_take_def fw_mutex_init_def fw_sem_init_def)

end
