(* ===== verification/Baremetal_Adapter.thy ===== *)
theory Baremetal_Adapter
  imports Rtos_Baremetal
begin

text \<open>
  The second bare-metal port (\<^verbatim>\<open>rtos/baremetal_adapter.c\<close>).  It differs from \<^verbatim>\<open>rtos_baremetal.c\<close> in its delay,
  a counted loop instead of a wait on the clock; \<^verbatim>\<open>fw_task_yield\<close> has an empty body.
\<close>

definition adapter_task_create ::
  "'e fw_task_config option \<Rightarrow> 'e handle option \<Rightarrow> fw_status \<times> 'e handle option" where
  "adapter_task_create cfg out_handle =
     (case cfg of
        None \<Rightarrow> (FW_ERR_INVALID_ARG, out_handle)
      | Some c \<Rightarrow> (FW_OK, if out_handle \<noteq> None then Some (Entry (tc_entry_point c)) else None))"

text \<open>The counter after the loop, and the number of turns made: \<^verbatim>\<open>while (count--)\<close>.\<close>

partial_function (option) spin_loop :: "u32 \<Rightarrow> nat \<Rightarrow> (u32 \<times> nat) option" where
  "spin_loop count turns =
     (if count \<noteq> 0 then spin_loop (count - 1) (turns + 1) else Some (count - 1, turns))"

definition adapter_task_delay_ms :: "u32 \<Rightarrow> (u32 \<times> nat) option" where
  "adapter_task_delay_ms ms = spin_loop (ms * 8000) 0"

definition adapter_mutex_init :: "'e handle option \<Rightarrow> fw_status \<times> 'e handle option" where
  "adapter_mutex_init out_mutex = (FW_OK, if out_mutex \<noteq> None then Some (Token 1) else None)"

definition adapter_mutex_lock :: "'e handle \<Rightarrow> u32 \<Rightarrow> fw_status" where
  "adapter_mutex_lock mutex timeout_ms = FW_OK"

definition adapter_mutex_unlock :: "'e handle \<Rightarrow> fw_status" where
  "adapter_mutex_unlock mutex = FW_OK"

definition adapter_sem_init :: "'e handle option \<Rightarrow> u32 \<Rightarrow> u32 \<Rightarrow> fw_status \<times> 'e handle option" where
  "adapter_sem_init out_sem init_count max_count = (FW_OK, if out_sem \<noteq> None then Some (Token 1) else None)"

definition adapter_sem_take :: "'e handle \<Rightarrow> u32 \<Rightarrow> fw_status" where
  "adapter_sem_take sem timeout_ms = FW_OK"

definition adapter_sem_give :: "'e handle \<Rightarrow> fw_status" where
  "adapter_sem_give sem = FW_OK"

lemma spin_loop_turns: "spin_loop count t = Some (- 1, t + unat count)"
proof (induction "unat count" arbitrary: count t)
  case 0
  then show ?case by (subst spin_loop.simps) (simp add: unat_eq_zero)
next
  case (Suc n)
  then have "count \<noteq> 0" by auto
  moreover have "unat (count - 1) = n" using Suc.hyps(2) \<open>count \<noteq> 0\<close> by (subst unat_minus_one) simp_all
  ultimately show ?case using Suc.hyps(1) [of "count - 1" "t + 1"] Suc.hyps(2) by (subst spin_loop.simps) simp
qed

text \<open>The delay ends after 8000 turns per millisecond, counted modulo the width of the counter: beyond 536870 ms
  it is shorter than asked.\<close>

lemma adapter_delay_turns: "adapter_task_delay_ms ms = Some (- 1, 8000 * unat ms mod 2 ^ 32)"
  by (simp add: adapter_task_delay_ms_def spin_loop_turns unat_word_ariths mult.commute)

lemma adapter_delay_wraps: "adapter_task_delay_ms 536871 = Some (- 1, 704)"
  by (simp add: adapter_delay_turns)

end
