(* ===== verification/Dwt.thy ===== *)
theory Dwt
  imports Memory
begin

text \<open>
  The cycle counter of \<^verbatim>\<open>dwt.h\<close> on ARM: the three registers are words of the memory.  Between two readings
  the hardware counts; the elapsed cycles are right across one wrap of the counter.
\<close>

unbundle bit_operations_syntax

definition fw_dwt_init :: "mem \<Rightarrow> mem" where
  "fw_dwt_init m =
     (let demcr = 0xE000EDFC; dwt_ctrl = 0xE0001000; dwt_cyccnt = 0xE0001004;
          m1 = store32 m demcr (load32 m demcr OR 0x01000000);
          m2 = store32 m1 dwt_cyccnt 0
      in store32 m2 dwt_ctrl (load32 m2 dwt_ctrl OR 1))"

definition fw_dwt_get_cycles :: "mem \<Rightarrow> u32" where
  "fw_dwt_get_cycles m = load32 m 0xE0001004"

definition fw_dwt_elapsed_cycles :: "u32 \<Rightarrow> u32 \<Rightarrow> u32" where
  "fw_dwt_elapsed_cycles start_cycles end_cycles =
     (if end_cycles \<ge> start_cycles then end_cycles - start_cycles
      else (0xFFFFFFFF - start_cycles) + end_cycles + 1)"

lemma dwt_init_zero: "fw_dwt_get_cycles (fw_dwt_init m) = 0"
proof -
  have "disjoint_blocks (0xE0001000 :: ptr) 4 0xE0001004 4" by (rule disjoint_blocksI) (simp_all add: nowrap_def)
  then show ?thesis
    by (simp add: fw_dwt_get_cycles_def fw_dwt_init_def Let_def load32_store32_disjoint load32_store32_same)
qed

lemma dwt_elapsed_sub: "fw_dwt_elapsed_cycles s e = e - s"
  by (simp add: fw_dwt_elapsed_cycles_def)

lemma dwt_elapsed_exact: "n < 2 ^ 32 \<Longrightarrow> unat (fw_dwt_elapsed_cycles s (s + of_nat n)) = n"
  unfolding dwt_elapsed_sub by (simp add: unat_of_nat_small del: unsigned_of_nat)

end
