(* ===== verification/Demo_Common.thy ===== *)
theory Demo_Common
  imports Spsc Tasklet Gpio Timer
begin

text \<open>
  What the example programs share: control blocks as static storage leaves them, deferred work that
  toggles a LED, and the loop that polls a timeout.
\<close>

definition zero_spsc :: fw_spsc where
  "zero_spsc = \<lparr>sq_buffer = FW_NULL, sq_capacity = 0, sq_mask = 0, sq_head = 0, sq_tail = 0\<rparr>"

definition zero_tasklet_queue :: "('h, 'c) fw_tasklet_queue" where
  "zero_tasklet_queue = \<lparr>tq_storage = [], tq_capacity = 0, tq_mask = 0, tq_head = 0, tq_tail = 0\<rparr>"

text \<open>A ring and a work queue just initialised.\<close>

lemma fresh_spsc:
  assumes "b \<noteq> FW_NULL" and "nowrap b 64"
  defines "q \<equiv> \<lparr>sq_buffer = b, sq_capacity = 64, sq_mask = 63, sq_head = 0, sq_tail = 0\<rparr>"
  shows "fw_spsc_init (Some q0) b 64 = (FW_OK, Some q)" and "spsc_wf q" and "spsc_bytes m q = []"
  using assms by (simp_all add: fw_spsc_init_def spsc_wf_def spsc_bytes_def ring_read_def)

lemma fresh_tasklet_queue:
  assumes "length st = 16"
  defines "q \<equiv> \<lparr>tq_storage = st, tq_capacity = 16, tq_mask = 15, tq_head = 0, tq_tail = 0\<rparr>"
  shows "fw_tasklet_queue_init (Some q0) (Some st) 16 = (FW_OK, Some q)" and "tasklet_inv q" and "tasklet_pending q = []"
  using assms by (simp_all add: fw_tasklet_queue_init_def tasklet_inv_def tasklet_wf_def tasklet_items_def tasklet_pending_def)

section \<open>Work that toggles a LED\<close>

lemma fold_toggle:
  assumes act: "\<And>h c a g. act h c a g = fw_gpio_toggle pin g" and "unat (gp_port pin) < 8"
  shows "gpio_wf g \<Longrightarrow> gpio_wf (fold (\<lambda>(h, c, a). act h c a) xs g)
    \<and> (pin_level (fold (\<lambda>(h, c, a). act h c a) xs g) (unat (gp_port pin)) (unat (gp_pin pin))
        \<longleftrightarrow> (pin_level g (unat (gp_port pin)) (unat (gp_pin pin)) \<noteq> odd (length xs)))"
proof (induction xs arbitrary: g)
  case (Cons x xs)
  have "gpio_wf (fw_gpio_toggle pin g)" using gpio_ops(1) [OF Cons.prems] by blast
  moreover have "pin_level (fw_gpio_toggle pin g) (unat (gp_port pin)) (unat (gp_pin pin))
      \<longleftrightarrow> \<not> pin_level g (unat (gp_port pin)) (unat (gp_pin pin))"
    using gpio_ops(3) [OF Cons.prems, of pin "unat (gp_port pin)" "unat (gp_pin pin)"] assms(2) by simp
  ultimately show ?case using Cons.IH by (auto simp: act split: prod.splits)
qed simp

lemma dispatch_toggles:
  assumes act: "\<And>h c a g. act h c a g = fw_gpio_toggle pin g" and "unat (gp_port pin) < 8"
    and "tasklet_inv q" and "gpio_wf g"
  shows "\<exists>g' q'. fw_tasklet_dispatch_all (\<lambda>h c a (w, q). (act h c a w, q)) g (Some q) =
        Some (of_nat (length (tasklet_pending q)), g', Some q')
    \<and> tasklet_inv q' \<and> tasklet_pending q' = [] \<and> gpio_wf g'
    \<and> (pin_level g' (unat (gp_port pin)) (unat (gp_pin pin))
        \<longleftrightarrow> (pin_level g (unat (gp_port pin)) (unat (gp_pin pin)) \<noteq> odd (length (tasklet_pending q))))"
proof -
  let ?xs = "tasklet_pending q"
  obtain q' where d: "dispatch_loop (\<lambda>h c a (w, q). (act h c a w, q)) 0 g (Some q)
      = Some (0 + of_nat (length ?xs), fold (\<lambda>(h, c, a). act h c a) ?xs g, Some q')"
      "tasklet_inv q'" "tasklet_pending q' = []"
    using dispatch_loop_drain [OF _ assms(3), of "\<lambda>h c a (w, q). (act h c a w, q)" act 0 g] by auto
  then show ?thesis
    using fold_toggle [where act = act, OF act assms(2,4), of ?xs]
    by (intro exI [of _ "fold (\<lambda>(h, c, a). act h c a) ?xs g"] exI [of _ q']) (simp add: fw_tasklet_dispatch_all_def)
qed

section \<open>Polling a timeout\<close>

text \<open>\<open>clock j\<close> is the j-th reading; the loop returns the number of the reading that ended it.\<close>

partial_function (option) poll_timeout :: "(nat \<Rightarrow> u32) \<Rightarrow> fw_timeout option \<Rightarrow> nat \<Rightarrow> nat option" where
  "poll_timeout clock t j = (if \<not> fw_timeout_is_expired (clock j) t then poll_timeout clock t (j + 1) else Some j)"

lemma poll_timeout_returns:
  assumes "k \<le> n" and "d \<le> clock n - s"
  shows "\<exists>j. poll_timeout clock (Some \<lparr>to_start_ms = s, to_duration_ms = d\<rparr>) k = Some j"
  using assms
proof (induction "n - k" arbitrary: k)
  case 0
  then show ?case by (subst poll_timeout.simps) (simp add: fw_timeout_is_expired_def)
next
  case (Suc x)
  then have "\<exists>j. poll_timeout clock (Some \<lparr>to_start_ms = s, to_duration_ms = d\<rparr>) (k + 1) = Some j"
    by (intro Suc.hyps(1)) simp_all
  then show ?case by (subst poll_timeout.simps) auto
qed

end
