(* ===== verification/Loopback.thy ===== *)
theory Loopback
  imports Uart Zerowire
begin

text \<open>
  The path of a frame through the host simulation (\<^verbatim>\<open>examples/host_sim/main.c\<close>): the encoder fills a wire
  buffer, the UART driver queues it, the simulated line moves it byte by byte from the transmit to the
  receive ring, and the receiver reads and decodes it.  It composes the protocol, the UART driver and
  the two byte rings.
\<close>

text \<open>The loop that stands for the line.\<close>

partial_function (option) line_loop ::
  "mem \<Rightarrow> 'hw fw_uart option \<Rightarrow> u8 option \<Rightarrow> (mem \<times> 'hw fw_uart option) option" where
  "line_loop m u byte =
     (case fw_uart_mock_extract_tx m u byte of
        (got, byte', u1) \<Rightarrow>
          if got then (case fw_uart_mock_inject_rx m u1 (the byte') of (m', u2) \<Rightarrow> line_loop m' u2 byte')
          else Some (m, u1))"

definition host_loopback ::
  "mem \<Rightarrow> 'hw fw_uart \<Rightarrow> fw_zerowire_frame \<Rightarrow> fw_span \<Rightarrow> fw_span \<Rightarrow> fw_zerowire_frame \<Rightarrow>
   (fw_status \<times> fw_zerowire_frame option) option" where
  "host_loopback m uart frame_out wire_span rx_span frame_in =
     (case fw_zerowire_encode m (Some frame_out) wire_span of
        (encoded, m1) \<Rightarrow>
      (case fw_uart_write m1 (Some uart) (fw_cspan_make (span_data wire_span) encoded) of
        (queued, m2, u1) \<Rightarrow>
      (case line_loop m2 u1 (Some 0) of
         None \<Rightarrow> None
       | Some (m3, u2) \<Rightarrow>
      (case fw_uart_read m3 u2 rx_span of
         (rx_len, m4, u3) \<Rightarrow>
           Some (fw_zerowire_decode m4 (fw_cspan_make (span_data rx_span) rx_len) (Some frame_in))))))"

section \<open>The two rings\<close>

lemma spsc_bytes_cong:
  assumes "spsc_wf q" and "\<And>a. in_block (sq_buffer q) (unat (sq_capacity q)) a \<Longrightarrow> m' a = m a"
  shows "spsc_bytes m' q = spsc_bytes m q"
proof -
  obtain k where k: "k < 32" "sq_mask q = 2 ^ k - 1" "unat (sq_capacity q) = 2 ^ k"
    using assms(1) by (rule spsc_wfE)
  have "in_block (sq_buffer q) (unat (sq_capacity q)) (ring_addr (sq_buffer q) (sq_mask q) t i)" for t i
    unfolding k(2,3) by (rule ring_addr_in_block [OF k(1)])
  then show ?thesis using assms(2) by (simp add: spsc_bytes_def ring_read_def)
qed

lemma spsc_push_bytes:
  assumes "spsc_wf q" and "length (spsc_bytes m q) < unat (sq_capacity q)"
  shows "\<exists>m' q'. fw_spsc_push m (Some q) b = (FW_OK, m', Some q') \<and> spsc_wf q' \<and> spsc_bytes m' q' = spsc_bytes m q @ [b]
    \<and> sq_capacity q' = sq_capacity q \<and> sq_buffer q' = sq_buffer q
    \<and> (\<forall>a. \<not> in_block (sq_buffer q) (unat (sq_capacity q)) a \<longrightarrow> m' a = m a)"
proof -
  obtain k where k: "k < 32" "sq_mask q = 2 ^ k - 1" "unat (sq_capacity q) = 2 ^ k"
    using assms(1) by (rule spsc_wfE)
  let ?slot = "sq_buffer q + (sq_head q AND sq_mask q)" and ?q = "q\<lparr>sq_head := sq_head q + 1\<rparr>"
  have "fw_spsc_push m (Some q) b = (FW_OK, m(?slot := b), Some ?q)"
    using assms(2) by (simp add: fw_spsc_push_def Let_def word_le_nat_alt)
  moreover have "spsc_wf ?q" "spsc_bytes (m(?slot := b)) ?q = spsc_bytes m q @ [b]"
    using spsc_store_bytes(1) [OF assms(1), of "[b]"] spsc_store_bytes(2) [OF assms(1), of "[b]" m] assms(2) by simp_all
  moreover have "in_block (sq_buffer q) (unat (sq_capacity q)) ?slot"
    using ring_addr_in_block [OF k(1), of "sq_buffer q" "sq_head q" 0] by (simp add: ring_addr_def k(2,3))
  ultimately show ?thesis by (intro exI [of _ "m(?slot := b)"] exI [of _ ?q]) auto
qed

text \<open>A push onto a full ring drops the byte.\<close>

lemma spsc_push_or_drop:
  assumes "spsc_wf q"
  shows "\<exists>st m' q'. fw_spsc_push m (Some q) b = (st, m', Some q') \<and> spsc_wf q' \<and> sq_capacity q' = sq_capacity q
    \<and> sq_buffer q' = sq_buffer q
    \<and> spsc_bytes m' q' = spsc_bytes m q @ take (unat (sq_capacity q) - length (spsc_bytes m q)) [b]
    \<and> (\<forall>a. \<not> in_block (sq_buffer q) (unat (sq_capacity q)) a \<longrightarrow> m' a = m a)"
proof (cases "length (spsc_bytes m q) < unat (sq_capacity q)")
  case True
  then have "take (unat (sq_capacity q) - length (spsc_bytes m q)) [b] = [b]" by (simp add: take_Cons')
  then show ?thesis using spsc_push_bytes [OF assms True, of b] by auto
next
  case False
  then have "fw_spsc_push m (Some q) b = (FW_ERR_BUFFER_OVERFLOW, m, Some q)"
    by (simp add: fw_spsc_push_def Let_def word_le_nat_alt)
  then show ?thesis using False assms by simp
qed

section \<open>The line\<close>

text \<open>The loop ends, empties the transmit ring and appends to the receive ring what it has room for.\<close>

lemma line_loop_result:
  assumes "ua_tx_queue u = Some tx" and "ua_rx_queue u = Some rx" and "spsc_wf tx" and "spsc_wf rx"
    and "disjoint_blocks (sq_buffer tx) (unat (sq_capacity tx)) (sq_buffer rx) (unat (sq_capacity rx))"
  shows "\<exists>m' u' tx' rx'. line_loop m (Some u) (Some b) = Some (m', Some u')
    \<and> ua_is_initialized u' = ua_is_initialized u
    \<and> ua_tx_queue u' = Some tx' \<and> spsc_wf tx' \<and> sq_buffer tx' = sq_buffer tx \<and> sq_capacity tx' = sq_capacity tx
    \<and> sq_head tx' = sq_tail tx'
    \<and> ua_rx_queue u' = Some rx' \<and> spsc_wf rx' \<and> sq_buffer rx' = sq_buffer rx \<and> sq_capacity rx' = sq_capacity rx
    \<and> spsc_bytes m' rx' = spsc_bytes m rx
        @ take (unat (sq_capacity rx) - length (spsc_bytes m rx)) (spsc_bytes m tx)
    \<and> (\<forall>a. \<not> in_block (sq_buffer rx) (unat (sq_capacity rx)) a \<longrightarrow> m' a = m a)"
  using assms
proof (induction "length (spsc_bytes m tx)" arbitrary: m u tx rx b)
  case 0
  then have ht: "sq_head tx = sq_tail tx" by (simp add: unat_eq_zero)
  then have e: "fw_uart_mock_extract_tx m (Some u) (Some b) = (False, Some b, Some u)"
    using 0 by (simp add: fw_uart_mock_extract_tx_def fw_spsc_pop_def Let_def)
  have "spsc_bytes m tx = []" using 0 by (simp del: length_spsc_bytes)
  then show ?case
    using 0 ht by (intro exI [of _ m] exI [of _ u] exI [of _ tx] exI [of _ rx]) (subst line_loop.simps, simp add: e)
next
  case (Suc n)
  obtain x xs where xs: "spsc_bytes m tx = x # xs" using Suc.hyps(2) by (cases "spsc_bytes m tx") auto
  have n: "n = length xs" using Suc.hyps(2) xs by (simp del: length_spsc_bytes)
  have len: "0 < unat (sq_head tx - sq_tail tx)" using xs length_spsc_bytes [of m tx] by simp
  then have ne: "sq_tail tx \<noteq> sq_head tx" by auto
  let ?tx = "tx\<lparr>sq_tail := sq_tail tx + 1\<rparr>" and ?u1 = "u\<lparr>ua_tx_queue := Some (tx\<lparr>sq_tail := sq_tail tx + 1\<rparr>)\<rparr>"
  have tx': "spsc_wf ?tx" "spsc_bytes m ?tx = xs"
    using spsc_drop_bytes [OF Suc.prems(3), of 1] len xs by simp_all
  have "spsc_bytes m tx ! 0 = m (sq_buffer tx + (sq_tail tx AND sq_mask tx))"
    using len by (simp add: spsc_bytes_def ring_read_def ring_addr_def)
  then have ext: "fw_uart_mock_extract_tx m (Some u) (Some b) = (True, Some x, Some ?u1)"
    using Suc.prems(1) ne xs by (simp add: fw_uart_mock_extract_tx_def fw_spsc_pop_def Let_def)
  let ?c = "unat (sq_capacity rx)"
  obtain st m' rx' where push: "fw_spsc_push m (Some rx) x = (st, m', Some rx')" "spsc_wf rx'"
      "spsc_bytes m' rx' = spsc_bytes m rx @ take (?c - length (spsc_bytes m rx)) [x]"
      "sq_capacity rx' = sq_capacity rx" "sq_buffer rx' = sq_buffer rx"
      "\<forall>a. \<not> in_block (sq_buffer rx) ?c a \<longrightarrow> m' a = m a"
    using spsc_push_or_drop [OF Suc.prems(4), of m x] by blast
  let ?u2 = "?u1\<lparr>ua_rx_queue := Some rx'\<rparr>"
  have inj: "fw_uart_mock_inject_rx m (Some ?u1) x = (m', Some ?u2)"
    using Suc.prems(2) push(1) by (simp add: fw_uart_mock_inject_rx_def)
  have "spsc_bytes m' ?tx = spsc_bytes m ?tx"
    using Suc.prems(5) push(6) by (intro spsc_bytes_cong [OF tx'(1)]) (auto simp: disjoint_blocks_def)
  then have keep: "spsc_bytes m' ?tx = xs" using tx'(2) by simp
  obtain m'' u'' tx'' rx'' where rec: "line_loop m' (Some ?u2) (Some x) = Some (m'', Some u'')"
      "ua_is_initialized u'' = ua_is_initialized u" "ua_tx_queue u'' = Some tx''" "spsc_wf tx''"
      "sq_buffer tx'' = sq_buffer tx" "sq_capacity tx'' = sq_capacity tx" "sq_head tx'' = sq_tail tx''"
      "ua_rx_queue u'' = Some rx''" "spsc_wf rx''" "sq_buffer rx'' = sq_buffer rx" "sq_capacity rx'' = sq_capacity rx"
      "spsc_bytes m'' rx'' = spsc_bytes m' rx' @ take (?c - length (spsc_bytes m' rx')) xs"
      "\<forall>a. \<not> in_block (sq_buffer rx) ?c a \<longrightarrow> m'' a = m' a"
    using Suc.hyps(1) [of m' ?tx ?u2 rx' x] n keep tx'(1) push(2,4,5) Suc.prems(5)
    by (auto simp del: length_spsc_bytes)
  have "line_loop m (Some u) (Some b) = line_loop m' (Some ?u2) (Some x)"
    by (subst line_loop.simps) (simp add: ext inj)
  moreover have "take d [x] @ take (d - length (take d [x])) xs = take d (x # xs)" for d
    by (cases d) simp_all
  then have "spsc_bytes m'' rx'' = spsc_bytes m rx @ take (?c - length (spsc_bytes m rx)) (x # xs)"
    unfolding rec(12) push(3) length_append diff_diff_left [symmetric] append_assoc by (simp only:)
  ultimately show ?case
    using rec(1-11,13) push(6) unfolding xs
    by (intro exI [of _ m''] exI [of _ u''] exI [of _ tx''] exI [of _ rx'']) simp
qed

lemma line_loop_moves:
  assumes "ua_tx_queue u = Some tx" and "ua_rx_queue u = Some rx" and "spsc_wf tx" and "spsc_wf rx"
    and "disjoint_blocks (sq_buffer tx) (unat (sq_capacity tx)) (sq_buffer rx) (unat (sq_capacity rx))"
    and "length (spsc_bytes m rx) + length (spsc_bytes m tx) \<le> unat (sq_capacity rx)"
  shows "\<exists>m' u' rx'. line_loop m (Some u) (Some b) = Some (m', Some u') \<and> ua_is_initialized u' = ua_is_initialized u
    \<and> ua_rx_queue u' = Some rx' \<and> spsc_wf rx' \<and> sq_buffer rx' = sq_buffer rx \<and> sq_capacity rx' = sq_capacity rx
    \<and> spsc_bytes m' rx' = spsc_bytes m rx @ spsc_bytes m tx"
  using line_loop_result [OF assms(1-5), of m b] assms(6) by (auto simp del: length_spsc_bytes)

text \<open>A frame that fits arrives as it was sent.\<close>

lemma host_loopback_delivers:
  assumes "frame_wf f" and "ua_is_initialized u" and "ua_tx_queue u = Some tx" and "ua_rx_queue u = Some rx"
    and "spsc_wf tx" and "spsc_wf rx" and "sq_head tx = sq_tail tx" and "sq_head rx = sq_tail rx"
    and "disjoint_blocks (sq_buffer tx) (unat (sq_capacity tx)) (sq_buffer rx) (unat (sq_capacity rx))"
    and "span_data wire \<noteq> FW_NULL" and "span_data buf \<noteq> FW_NULL"
    and "unat (zf_length f) + 8 \<le> unat (span_length wire)" and "unat (zf_length f) + 8 \<le> unat (span_length buf)"
    and "unat (zf_length f) + 8 \<le> unat (sq_capacity tx)" and "unat (zf_length f) + 8 \<le> unat (sq_capacity rx)"
    and "spsc_apart tx (span_data wire) (of_nat (unat (zf_length f) + 8))" and "spsc_apart rx (span_data buf) (span_length buf)"
  shows "host_loopback m u f wire buf f0 =
    Some (FW_OK, Some (f\<lparr>zf_payload := take (unat (zf_length f)) (zf_payload f) @ drop (unat (zf_length f)) (zf_payload f0)\<rparr>))"
proof -
  let ?fb = "frame_bytes f" and ?n = "unat (zf_length f) + 8"
  define enc :: usize where "enc = of_nat ?n"
  define m1 where "m1 = mem_write m (span_data wire) ?fb"
  have len: "length ?fb = ?n" by (rule length_frame_bytes [OF assms(1)])
  have n32: "?n < 2 ^ 32" using assms(12) unat_lt32 [of "span_length wire"] by simp
  have uenc: "unat enc = ?n" unfolding enc_def using n32 by (intro unat_of_nat_small) simp
  have e: "fw_zerowire_encode m (Some f) wire = (enc, m1)"
    using encode_bytes [OF assms(1,10,12)] len by (simp add: enc_def m1_def)
  have src: "mem_read m1 (span_data wire) ?n = ?fb"
    using mem_read_write_same [of ?fb m "span_data wire"] n32 len by (simp add: m1_def)
  have tx0: "spsc_bytes mm tx = []" and rx0: "spsc_bytes mm rx = []" for mm
    using assms(7,8) by (simp_all add: spsc_bytes_def ring_read_def)
  let ?d = "fw_cspan_make (span_data wire) enc"
  have d: "cspan_data ?d = span_data wire" "cspan_length ?d = enc" by (simp_all add: fw_cspan_make_def)
  have enc0: "enc \<noteq> 0" using uenc by auto
  obtain q m2 tq where wr: "fw_spsc_write m1 (Some tx) (span_data wire) enc = (q, m2, tq)" by (rule prod_cases3)
  define u1 where "u1 = u\<lparr>ua_tx_queue := tq\<rparr>"
  have w: "fw_uart_write m1 (Some u) ?d = (q, m2, Some u1)"
    using assms(2,3,10) enc0 wr by (simp add: fw_uart_write_def d u1_def)
  have ap: "spsc_apart tx (span_data wire) enc" using assms(16) by (simp add: enc_def)
  note queued = uart_write_queues [OF assms(2,3,5), of ?d m1 q m2 u1, unfolded d, OF assms(10) enc0 ap w]
  obtain tx1 where tx1: "ua_tx_queue u1 = Some tx1" "spsc_wf tx1" "spsc_bytes m2 tx1 = ?fb"
    using queued assms(14) len by (auto simp: tx0 uenc src simp del: length_spsc_bytes)
  have geo: "sq_buffer tx1 = sq_buffer tx" "sq_capacity tx1 = sq_capacity tx"
    using wr tx1(1) spsc_write_store [OF assms(5,10) ap, of m1] by (auto simp: u1_def)
  have u1: "ua_rx_queue u1 = Some rx" "ua_is_initialized u1"
    using assms(2,4) by (simp_all add: u1_def)
  obtain m3 u2 rx2 where l: "line_loop m2 (Some u1) (Some 0) = Some (m3, Some u2)" "ua_is_initialized u2"
      "ua_rx_queue u2 = Some rx2" "spsc_wf rx2" "sq_buffer rx2 = sq_buffer rx" "sq_capacity rx2 = sq_capacity rx"
      "spsc_bytes m3 rx2 = ?fb"
    using line_loop_moves [OF tx1(1) u1(1) tx1(2) assms(6), of m2 0] assms(9,15) tx1(3) len u1(2)
    by (auto simp: geo rx0 simp del: length_spsc_bytes)
  have cnt: "unat (sq_head rx2 - sq_tail rx2) = ?n" using l(7) len length_spsc_bytes [of m3 rx2] by simp
  have apart: "spsc_apart rx2 (span_data buf) (span_length buf)" using assms(17) l(5,6) by (simp add: spsc_apart_def)
  have b0: "span_length buf \<noteq> 0" using assms(13) by auto
  obtain u3 where r: "fw_uart_read m3 (Some u2) buf = (enc, mem_write m3 (span_data buf) ?fb, u3)"
    using spsc_read_store [OF l(4) assms(11) apart, of m3] l(2,3,7) assms(11,13) b0 len
    by (auto simp: fw_uart_read_def cnt min_absorb2 enc_def)
  have "mem_read (mem_write m3 (span_data buf) ?fb) (span_data buf) ?n = ?fb @ []"
    using mem_read_write_same [of ?fb m3 "span_data buf"] n32 len by simp
  then have "fw_zerowire_decode (mem_write m3 (span_data buf) ?fb) (fw_cspan_make (span_data buf) enc) (Some f0)
      = (FW_OK, Some (f\<lparr>zf_payload := take (unat (zf_length f)) (zf_payload f) @ drop (unat (zf_length f)) (zf_payload f0)\<rparr>))"
    using decode_eq [of "fw_cspan_make (span_data buf) enc" "mem_write m3 (span_data buf) ?fb" f0]
      decode_frame_bytes [OF assms(1), of "[]" f0] assms(11)
    by (simp add: fw_cspan_make_def uenc)
  then show ?thesis by (simp add: host_loopback_def e w l(1) r)
qed

text \<open>The configuration of the example: rings of 64 bytes and buffers of 64 bytes.\<close>

definition host_ring :: "ptr \<Rightarrow> fw_spsc" where
  "host_ring p = \<lparr>sq_buffer = p, sq_capacity = 64, sq_mask = 63, sq_head = 0, sq_tail = 0\<rparr>"

end
