(* ===== verification/Demo_Node.thy ===== *)
theory Demo_Node
  imports Demo_Common Loopback Dispatcher Power_Mgmt Pool_Init Text_Format "HOL-Library.Monad_Syntax"
begin

text \<open>
  The firmware node of \<^verbatim>\<open>examples/interactive_demo/main.c\<close>: a superloop that composes the pool, the UART
  with its two rings, the wire protocol, the command dispatcher, the tasklet queue, timeouts and the sleep
  accounting.  The static data of the program are the record \<open>node\<close>, the local variables of \<^verbatim>\<open>main\<close> the
  record \<open>main_locals\<close>; \<open>frame_stack\<close> holds the addresses of the static and stack buffers and what the
  uninitialised ones contain.  What a pass reads from its environment (clock, random numbers, a key) is the
  record \<open>pass_input\<close>.  The texts sent to the console are left out.
\<close>

unbundle bit_operations_syntax

section \<open>Static data\<close>

definition POOL_BLOCKS :: nat where "POOL_BLOCKS = 16"
definition POOL_BLOCK_SIZE :: usize where "POOL_BLOCK_SIZE = 64"
definition UART_BUFFER_SIZE :: usize where "UART_BUFFER_SIZE = 256"
definition TASKLET_CAPACITY :: usize where "TASKLET_CAPACITY = 32"

definition MSG_CMD_PING :: u8 where "MSG_CMD_PING = 0x10"
definition MSG_CMD_SET_LED :: u8 where "MSG_CMD_SET_LED = 0x11"
definition MSG_TELEMETRY_DATA :: u8 where "MSG_TELEMETRY_DATA = 0x20"

definition LED_HEARTBEAT :: fw_gpio where
  "LED_HEARTBEAT = \<lparr>gp_port = 0, gp_pin = 5, gp_mode = FW_GPIO_MODE_OUTPUT_PP, gp_pull = 0, gp_speed = 2\<rparr>"

record node_stats =
  packets_sent :: u32
  packets_received :: u32
  crc_errors :: u32
  tasklets_executed :: u32
  superloop_iterations :: u32
  loops_per_sec :: u32
  auto_heartbeat_enabled :: bool

definition initial_stats :: node_stats where
  "initial_stats = \<lparr>packets_sent = 0, packets_received = 0, crc_errors = 0, tasklets_executed = 0,
     superloop_iterations = 0, loops_per_sec = 0, auto_heartbeat_enabled = True\<rparr>"

datatype demo_rpc = Rpc_ping_handler

datatype demo_tasklet = On_packet_processed

record frame_stack =
  s_pool_memory :: ptr
  s_uart_tx_raw :: ptr
  s_uart_rx_raw :: ptr
  wire_buf :: ptr
  rx_raw :: ptr
  reply_raw :: ptr
  garbage :: ptr
  ping_text :: ptr
  stack_frame :: fw_zerowire_frame
  resp_buf :: "u8 list"

record node =
  node_mem :: mem
  s_telemetry_pool :: fw_pool
  s_device_uart :: "ptr fw_uart"
  s_tasklet_q :: "(demo_tasklet, ptr) fw_tasklet_queue"
  s_rpc_table :: "demo_rpc fw_cmd_table"
  node_gpio :: gpio_state
  node_pm :: pm_state
  g_stats :: node_stats

definition bytes_of :: "string \<Rightarrow> u8 list" where
  "bytes_of s = map of_char s"

definition rpc_ping_handler :: "u8 list \<Rightarrow> u8 \<Rightarrow> u8 list \<Rightarrow> fw_status \<times> u8 list \<times> usize" where
  "rpc_ping_handler resp sq req = (FW_OK, bytes_of ''PONG_FROM_NODE'' @ drop 14 resp, 14)"

definition rpc_call :: "frame_stack \<Rightarrow> (demo_rpc, unit) cmd_sem" where
  "rpc_call k h sq req w =
     (case h of Rpc_ping_handler \<Rightarrow> (case rpc_ping_handler (resp_buf k) sq req of (st, buf, n) \<Rightarrow> (st, buf, n, w)))"

definition s_rpc_entries :: "demo_rpc fw_cmd_entry list" where
  "s_rpc_entries = [\<lparr>ce_msg_id = MSG_CMD_PING, ce_min_payload_len = 0, ce_handler = Some Rpc_ping_handler\<rparr>]"

section \<open>Tasklets\<close>

text \<open>The world of the handler: the statistics and the pins.  Only the LED command has an effect besides text.\<close>

definition on_packet_processed_tasklet :: "ptr \<Rightarrow> u32 \<Rightarrow> node_stats \<times> gpio_state \<Rightarrow> node_stats \<times> gpio_state" where
  "on_packet_processed_tasklet ctxt arg w =
     (case w of (stats, gpio) \<Rightarrow>
        let msg_id = ucast (arg AND 0xFF) :: u8;
            stats' = stats\<lparr>tasklets_executed := tasklets_executed stats + 1\<rparr>
        in if msg_id = MSG_CMD_SET_LED then (stats', fw_gpio_toggle LED_HEARTBEAT gpio) else (stats', gpio))"

definition run_tasklet :: "demo_tasklet \<Rightarrow> ptr \<Rightarrow> u32 \<Rightarrow> node_stats \<times> gpio_state \<Rightarrow> node_stats \<times> gpio_state" where
  "run_tasklet h ctxt arg w = (case h of On_packet_processed \<Rightarrow> on_packet_processed_tasklet ctxt arg w)"

definition dispatch_pending :: "node \<Rightarrow> node option" where
  "dispatch_pending nd =
     map_option (\<lambda>(n, (stats, gpio), q). nd\<lparr>g_stats := stats, node_gpio := gpio, s_tasklet_q := the q\<rparr>)
       (fw_tasklet_dispatch_all (\<lambda>h c a (w, q). (run_tasklet h c a w, q)) (g_stats nd, node_gpio nd)
          (Some (s_tasklet_q nd)))"

section \<open>Communication\<close>

text \<open>A payload longer than the 256 bytes of a frame overruns it.\<close>

definition send_zerowire_packet :: "frame_stack \<Rightarrow> u8 \<Rightarrow> ptr \<Rightarrow> u16 \<Rightarrow> node \<Rightarrow> node option" where
  "send_zerowire_packet k msg_id payload len nd0 =
     (let stats = g_stats nd0;
          nd = nd0\<lparr>g_stats := stats\<lparr>packets_sent := packets_sent stats + 1\<rparr>\<rparr>;
          has_payload = (len > 0 \<and> payload \<noteq> FW_NULL);
          old = zf_payload (stack_frame k);
          frame = \<lparr>zf_seq = ucast (packets_sent (g_stats nd) AND 0xFF), zf_msg_id = msg_id, zf_length = len,
                   zf_payload = (if has_payload then mem_read (node_mem nd) payload (unat len) @ drop (unat len) old
                                 else old)\<rparr>
      in if has_payload \<and> len > 256 then None
         else (case fw_zerowire_encode (node_mem nd) (Some frame) (fw_span_make (wire_buf k) 128) of
                 (encoded, m) \<Rightarrow>
                   if encoded > 0 then
                     (case fw_uart_write m (Some (s_device_uart nd)) (fw_cspan_make (wire_buf k) encoded) of
                        (n, m', u) \<Rightarrow> Some (nd\<lparr>node_mem := m', s_device_uart := the u\<rparr>))
                   else Some (nd\<lparr>node_mem := m\<rparr>)))"

definition service_virtual_wire_loopback :: "node \<Rightarrow> node option" where
  "service_virtual_wire_loopback nd =
     map_option (\<lambda>(m, u). nd\<lparr>node_mem := m, s_device_uart := the u\<rparr>)
       (line_loop (node_mem nd) (Some (s_device_uart nd)) (Some 0))"

text \<open>What the receiver does with a frame it has decoded.\<close>

definition route_frame :: "frame_stack \<Rightarrow> fw_zerowire_frame \<Rightarrow> node \<Rightarrow> node option" where
  "route_frame k rx_frame nd =
     (case fw_cmd_dispatch (rpc_call k) () (Some (s_rpc_table nd)) (Some rx_frame) (Some (stack_frame k)) (Some False) of
        None \<Rightarrow> None
      | Some (rpc_st, w, rpc_reply, has_reply) \<Rightarrow>
          let nd1 = (if rpc_st = FW_OK \<and> has_reply = Some True then
                       (case fw_zerowire_encode (node_mem nd) rpc_reply (fw_span_make (reply_raw k) 64) of
                          (encoded, m) \<Rightarrow>
                            if encoded > 0 then
                              (case fw_uart_write m (Some (s_device_uart nd)) (fw_cspan_make (reply_raw k) encoded) of
                                 (n, m', u) \<Rightarrow> nd\<lparr>node_mem := m', s_device_uart := the u\<rparr>)
                            else nd\<lparr>node_mem := m\<rparr>)
                     else nd);
              arg = push_bit 8 (ucast (zf_seq rx_frame)) OR ucast (zf_msg_id rx_frame)
          in (case fw_tasklet_post (Some (s_tasklet_q nd1)) (Some On_packet_processed) FW_NULL arg of
                (st, q) \<Rightarrow> Some (nd1\<lparr>s_tasklet_q := the q\<rparr>)))"

definition service_uart_rx_stream :: "frame_stack \<Rightarrow> node \<Rightarrow> node option" where
  "service_uart_rx_stream k nd0 =
     (case fw_uart_read (node_mem nd0) (Some (s_device_uart nd0)) (fw_span_make (rx_raw k) 128) of
        (read_bytes, m, u) \<Rightarrow>
          let nd = nd0\<lparr>node_mem := m, s_device_uart := the u\<rparr>; stats = g_stats nd
          in if read_bytes = 0 then Some nd
             else (case fw_zerowire_stream_sync m (fw_cspan_make (rx_raw k) read_bytes) (Some (stack_frame k)) (Some 0) of
                     (st, rx_frame, consumed) \<Rightarrow>
                       if st = FW_OK
                       then route_frame k (the rx_frame)
                              (nd\<lparr>g_stats := stats\<lparr>packets_received := packets_received stats + 1\<rparr>\<rparr>)
                       else if the consumed > 0
                       then Some (nd\<lparr>g_stats := stats\<lparr>crc_errors := crc_errors stats + 1\<rparr>\<rparr>)
                       else Some nd))"

section \<open>Telemetry and the demonstrations\<close>

text \<open>
  The readings are multiples of a tenth and of a hundredth; the single precision of the code is far finer, so
  \<^verbatim>\<open>%.1f\<close> and \<^verbatim>\<open>%.2f\<close> print exactly these digits.  A reading of \<^verbatim>\<open>rand\<close> is a natural number.
\<close>

definition telemetry_text :: "u32 \<Rightarrow> nat \<Rightarrow> nat \<Rightarrow> string" where
  "telemetry_text uptime r1 r2 =
     (let temp = 245 + r1 mod 40; volt = 328 + r2 mod 10
      in ''UP:'' @ dec_digits (unat uptime) @ ''ms|TMP:'' @ dec_digits (temp div 10) @ ''.'' @ dec_digits (temp mod 10)
           @ ''C|VCC:'' @ dec_digits (volt div 100) @ ''.'' @ dec_padded 2 (volt mod 100) @ ''V'')"

definition emit_sensor_telemetry :: "bool \<Rightarrow> frame_stack \<Rightarrow> u32 \<times> nat \<times> nat \<Rightarrow> node \<Rightarrow> node option" where
  "emit_sensor_telemetry dbg k reading nd0 =
     (case reading of (uptime, r1, r2) \<Rightarrow> do {
        (telemetry_str, m, p) \<leftarrow> fw_pool_alloc (node_mem nd0) (Some (s_telemetry_pool nd0));
        let nd = nd0\<lparr>node_mem := m, s_telemetry_pool := the p\<rparr>;
        if telemetry_str = FW_NULL then Some nd
        else do {
          let stored = fst (snprintf_text (unat POOL_BLOCK_SIZE) (telemetry_text uptime r1 r2));
          let nd = nd\<lparr>node_mem := mem_write m telemetry_str (bytes_of stored @ [0])\<rparr>;
          len \<leftarrow> strlen (node_mem nd) telemetry_str 0;
          nd \<leftarrow> send_zerowire_packet k MSG_TELEMETRY_DATA telemetry_str (ucast len) nd;
          (st, m', p') \<leftarrow> fw_pool_free dbg (node_mem nd) (Some (s_telemetry_pool nd)) telemetry_str;
          Some (nd\<lparr>node_mem := m', s_telemetry_pool := the p'\<rparr>)
        }
      })"

fun alloc_blocks :: "nat \<Rightarrow> mem \<times> fw_pool \<Rightarrow> (ptr list \<times> mem \<times> fw_pool) option" where
  "alloc_blocks 0 (m, p) = Some ([], m, p)"
| "alloc_blocks (Suc n) (m, p) = do {
     (b, m', p') \<leftarrow> fw_pool_alloc m (Some p);
     (bs, s) \<leftarrow> alloc_blocks n (m', the p');
     Some (b # bs, s)
   }"

fun free_blocks :: "bool \<Rightarrow> ptr list \<Rightarrow> mem \<times> fw_pool \<Rightarrow> (mem \<times> fw_pool) option" where
  "free_blocks dbg [] (m, p) = Some (m, p)"
| "free_blocks dbg (b # bs) (m, p) = do {
     (st, m', p') \<leftarrow> fw_pool_free dbg m (Some p) b;
     free_blocks dbg bs (m', the p')
   }"

definition stress_pool :: "bool \<Rightarrow> node \<Rightarrow> node option" where
  "stress_pool dbg nd = do {
     (blocks, m, p) \<leftarrow> alloc_blocks POOL_BLOCKS (node_mem nd, s_telemetry_pool nd);
     (m', p') \<leftarrow> free_blocks dbg blocks (m, p);
     Some (nd\<lparr>node_mem := m', s_telemetry_pool := p'\<rparr>)
   }"

definition inject_noise :: "frame_stack \<Rightarrow> node \<Rightarrow> node" where
  "inject_noise k nd =
     (let m = mem_write (node_mem nd) (garbage k) [0xAA, 0x55, 0x01, 0x99, 0x02, 0x00, 0xDE, 0xAD, 0, 0, 0, 0]
      in (case fw_uart_write m (Some (s_device_uart nd)) (fw_cspan_make (garbage k) 12) of
            (n, m', u) \<Rightarrow> nd\<lparr>node_mem := m', s_device_uart := the u\<rparr>))"

definition toggle_led :: "node \<Rightarrow> node" where
  "toggle_led nd = nd\<lparr>node_gpio := fw_gpio_toggle LED_HEARTBEAT (node_gpio nd)\<rparr>"

section \<open>The superloop\<close>

record main_locals =
  timer_heartbeat :: fw_timeout
  timer_1sec_perf :: fw_timeout
  loop_counter :: u32
  start_time :: u32
  auto_step :: nat
  is_running :: bool

text \<open>
  The readings of one pass, in the order of the code: the clock at the heartbeat test, at its restart and
  the telemetry taken there, the clock at the rate test, at its restart and in the automatic sequence, the
  telemetry of an action, the key that waits (only the Windows build polls one) and the readings around
  the sleep.
\<close>

record pass_input =
  pi_heartbeat :: u32
  pi_heartbeat_restart :: u32
  pi_heartbeat_reading :: "u32 \<times> nat \<times> nat"
  pi_perf :: u32
  pi_perf_restart :: u32
  pi_elapsed :: u32
  pi_auto_reading :: "u32 \<times> nat \<times> nat"
  pi_key :: "nat option"
  pi_key_reading :: "u32 \<times> nat \<times> nat"
  pi_sleep :: "u64 \<times> u64 \<times> u64"

definition heartbeat_step :: "bool \<Rightarrow> frame_stack \<Rightarrow> pass_input \<Rightarrow> node \<times> main_locals \<Rightarrow> (node \<times> main_locals) option" where
  "heartbeat_step dbg k inp s =
     (case s of (nd, ml) \<Rightarrow>
        if auto_heartbeat_enabled (g_stats nd) \<and> fw_timeout_is_expired (pi_heartbeat inp) (Some (timer_heartbeat ml))
        then do {
          let ml = ml\<lparr>timer_heartbeat := the (fw_timeout_start (pi_heartbeat_restart inp) (Some (timer_heartbeat ml)) 1000)\<rparr>;
          nd \<leftarrow> emit_sensor_telemetry dbg k (pi_heartbeat_reading inp) nd;
          Some (toggle_led nd, ml)
        }
        else Some (nd, ml))"

definition perf_step :: "pass_input \<Rightarrow> node \<times> main_locals \<Rightarrow> node \<times> main_locals" where
  "perf_step inp s =
     (case s of (nd, ml) \<Rightarrow>
        if fw_timeout_is_expired (pi_perf inp) (Some (timer_1sec_perf ml))
        then (nd\<lparr>g_stats := (g_stats nd)\<lparr>loops_per_sec := loop_counter ml\<rparr>\<rparr>,
              ml\<lparr>timer_1sec_perf := the (fw_timeout_start (pi_perf_restart inp) (Some (timer_1sec_perf ml)) 1000),
                 loop_counter := 0\<rparr>)
        else (nd, ml))"

text \<open>The automatic sequence.\<close>

definition auto_action :: "bool \<Rightarrow> frame_stack \<Rightarrow> pass_input \<Rightarrow> node \<times> main_locals \<Rightarrow> (node \<times> main_locals) option" where
  "auto_action dbg k inp s =
     (case s of (nd, ml) \<Rightarrow>
        let elapsed = pi_elapsed inp - start_time ml; step = auto_step ml
        in if step = 0 \<and> elapsed \<ge> 400 then Some (toggle_led nd, ml\<lparr>auto_step := 1\<rparr>)
           else if step = 1 \<and> elapsed \<ge> 800
           then map_option (\<lambda>nd'. (nd', ml\<lparr>auto_step := 2\<rparr>)) (emit_sensor_telemetry dbg k (pi_auto_reading inp) nd)
           else if step = 2 \<and> elapsed \<ge> 1200
           then map_option (\<lambda>nd'. (nd', ml\<lparr>auto_step := 3\<rparr>)) (send_zerowire_packet k MSG_CMD_PING (ping_text k) 14 nd)
           else if step = 3 \<and> elapsed \<ge> 1600
           then map_option (\<lambda>nd'. (nd', ml\<lparr>auto_step := 4\<rparr>)) (stress_pool dbg nd)
           else if step = 4 \<and> elapsed \<ge> 2000 then Some (inject_noise k nd, ml\<lparr>auto_step := 5\<rparr>)
           else if step = 5 \<and> elapsed \<ge> 2400 then Some (nd, ml\<lparr>auto_step := 6\<rparr>)
           else if step = 6 \<and> elapsed \<ge> 2800 then Some (nd, ml\<lparr>is_running := False\<rparr>)
           else Some (nd, ml))"

text \<open>A key, by its character code.\<close>

definition key_action :: "bool \<Rightarrow> frame_stack \<Rightarrow> pass_input \<Rightarrow> nat \<Rightarrow> node \<times> main_locals \<Rightarrow> (node \<times> main_locals) option" where
  "key_action dbg k inp ch s =
     (case s of (nd, ml) \<Rightarrow>
        if ch = of_char (CHR ''1'') then Some (toggle_led nd, ml)
        else if ch = of_char (CHR ''2'')
        then map_option (\<lambda>nd'. (nd', ml)) (emit_sensor_telemetry dbg k (pi_key_reading inp) nd)
        else if ch = of_char (CHR ''3'')
        then map_option (\<lambda>nd'. (nd', ml)) (send_zerowire_packet k MSG_CMD_PING (ping_text k) 14 nd)
        else if ch = of_char (CHR ''4'') then map_option (\<lambda>nd'. (nd', ml)) (stress_pool dbg nd)
        else if ch = of_char (CHR ''5'') then Some (inject_noise k nd, ml)
        else if ch = of_char (CHR ''6'')
        then Some (nd\<lparr>g_stats := (g_stats nd)\<lparr>auto_heartbeat_enabled := \<not> auto_heartbeat_enabled (g_stats nd)\<rparr>\<rparr>, ml)
        else if ch = of_char (CHR ''q'') \<or> ch = of_char (CHR ''Q'') \<or> ch = 27 then Some (nd, ml\<lparr>is_running := False\<rparr>)
        else Some (nd, ml))"

definition superloop_pass :: "bool \<Rightarrow> bool \<Rightarrow> frame_stack \<Rightarrow> pass_input \<Rightarrow> node \<times> main_locals \<Rightarrow> (node \<times> main_locals) option" where
  "superloop_pass auto_mode dbg k inp s = do {
     let (nd, ml) = s;
     let nd = nd\<lparr>g_stats := (g_stats nd)\<lparr>superloop_iterations := superloop_iterations (g_stats nd) + 1\<rparr>\<rparr>;
     let ml = ml\<lparr>loop_counter := loop_counter ml + 1\<rparr>;
     s1 \<leftarrow> heartbeat_step dbg k inp (nd, ml);
     let (nd, ml) = perf_step inp s1;
     nd \<leftarrow> service_virtual_wire_loopback nd;
     nd \<leftarrow> service_uart_rx_stream k nd;
     nd \<leftarrow> dispatch_pending nd;
     s2 \<leftarrow> (if auto_mode then auto_action dbg k inp (nd, ml) else Some (nd, ml));
     (nd, ml) \<leftarrow> (case pi_key inp of None \<Rightarrow> Some s2 | Some ch \<Rightarrow> key_action dbg k inp ch s2);
     (case pi_sleep inp of (first, enter, leave) \<Rightarrow>
        Some (nd\<lparr>node_pm := fw_pm_enter_sleep first enter leave (node_pm nd)\<rparr>, ml))
   }"

text \<open>The loop over the readings of its passes; it stops when the flag is cleared.\<close>

fun superloop :: "bool \<Rightarrow> bool \<Rightarrow> frame_stack \<Rightarrow> pass_input list \<Rightarrow> node \<times> main_locals \<Rightarrow> (node \<times> main_locals) option" where
  "superloop auto_mode dbg k [] s = Some s"
| "superloop auto_mode dbg k (inp # inps) s =
     (if is_running (snd s)
      then do { s' \<leftarrow> superloop_pass auto_mode dbg k inp s; superloop auto_mode dbg k inps s' }
      else Some s)"

section \<open>Start-up\<close>

text \<open>Static data before \<^verbatim>\<open>main\<close> are zero; the pins are the state \<open>gpio\<close> of the virtual driver.\<close>

definition s_tasklet_items :: "(demo_tasklet, ptr) fw_tasklet_item list" where
  "s_tasklet_items = replicate (unat TASKLET_CAPACITY) \<lparr>ti_handler = None, ti_context = FW_NULL, ti_arg = 0\<rparr>"

definition node_boot :: "frame_stack \<Rightarrow> mem \<Rightarrow> gpio_state \<Rightarrow> pm_state \<Rightarrow> u64 \<Rightarrow> node option" where
  "node_boot k m gpio pm now = do {
     let pm = fw_pm_init now pm;
     let gpio = snd (fw_gpio_init LED_HEARTBEAT gpio);
     let gpio = fw_gpio_write LED_HEARTBEAT False gpio;
     (st, m, pool) \<leftarrow> fw_pool_init m (Some blank_pool) (s_pool_memory k) (of_nat POOL_BLOCKS * POOL_BLOCK_SIZE) POOL_BLOCK_SIZE 8;
     let s_uart_tx_q = snd (fw_spsc_init (Some zero_spsc) (s_uart_tx_raw k) UART_BUFFER_SIZE);
     let s_uart_rx_q = snd (fw_spsc_init (Some zero_spsc) (s_uart_rx_raw k) UART_BUFFER_SIZE);
     let uart = snd (fw_uart_init
        (Some \<lparr>ua_hardware_instance = FW_NULL, ua_tx_queue = None, ua_rx_queue = None, ua_is_initialized = False\<rparr>)
        0x40004400 () s_uart_tx_q s_uart_rx_q);
     let tq = snd (fw_tasklet_queue_init (Some zero_tasklet_queue) (Some s_tasklet_items) TASKLET_CAPACITY);
     let table = snd (fw_cmd_table_init (Some \<lparr>ct_entries = [], ct_entry_count = 0\<rparr>) (Some s_rpc_entries) 1);
     Some \<lparr>node_mem = m, s_telemetry_pool = the pool, s_device_uart = the uart, s_tasklet_q = the tq,
           s_rpc_table = the table, node_gpio = gpio, node_pm = pm, g_stats = initial_stats\<rparr>
   }"

definition initial_locals :: "u32 \<Rightarrow> u32 \<Rightarrow> u32 \<Rightarrow> main_locals" where
  "initial_locals t1 t2 t3 =
     \<lparr>timer_heartbeat = \<lparr>to_start_ms = t1, to_duration_ms = 1000\<rparr>, timer_1sec_perf = \<lparr>to_start_ms = t2, to_duration_ms = 1000\<rparr>,
      loop_counter = 0, start_time = t3, auto_step = 0, is_running = True\<rparr>"

section \<open>The layout and the invariant\<close>

text \<open>The buffers of the program, as the linker and the stack frame place them: apart from each other.\<close>

fun all_apart :: "(ptr \<times> nat) list \<Rightarrow> bool" where
  "all_apart [] \<longleftrightarrow> True"
| "all_apart ((p, n) # bs) \<longleftrightarrow> p \<noteq> FW_NULL \<and> nowrap p n \<and> (\<forall>(q, k)\<in>set bs. disjoint_blocks p n q k) \<and> all_apart bs"

definition demo_layout :: "frame_stack \<Rightarrow> bool" where
  "demo_layout k \<longleftrightarrow>
     all_apart [(s_pool_memory k, 1024), (s_uart_tx_raw k, 256), (s_uart_rx_raw k, 256), (wire_buf k, 128),
                (rx_raw k, 128), (reply_raw k, 64), (garbage k, 12)]
     \<and> 8 dvd unat (s_pool_memory k) \<and> unat (s_pool_memory k) + 1024 < 2 ^ 32
     \<and> length (zf_payload (stack_frame k)) = 256 \<and> length (resp_buf k) = 256 \<and> ping_text k \<noteq> FW_NULL"

text \<open>The pool with its bitmap lies in its static array.\<close>

definition pool_within :: "frame_stack \<Rightarrow> fw_pool \<Rightarrow> bool" where
  "pool_within k p \<longleftrightarrow> pool_in (s_pool_memory k) 1024 p \<and> po_block_size p = 64"

definition ring_at :: "ptr \<Rightarrow> fw_spsc option \<Rightarrow> bool" where
  "ring_at b q \<longleftrightarrow> (\<exists>r. q = Some r \<and> spsc_wf r \<and> sq_buffer r = b \<and> sq_capacity r = 256)"

definition node_inv :: "frame_stack \<Rightarrow> node \<Rightarrow> bool" where
  "node_inv k nd \<longleftrightarrow>
     pool_ok (node_mem nd, s_telemetry_pool nd) \<and> pool_within k (s_telemetry_pool nd)
     \<and> ua_is_initialized (s_device_uart nd) \<and> ring_at (s_uart_tx_raw k) (ua_tx_queue (s_device_uart nd))
     \<and> ring_at (s_uart_rx_raw k) (ua_rx_queue (s_device_uart nd))
     \<and> tasklet_inv (s_tasklet_q nd)
     \<and> ct_entries (s_rpc_table nd) = s_rpc_entries \<and> ct_entry_count (s_rpc_table nd) = 1
     \<and> gpio_wf (node_gpio nd)"

end
