(* ===== verification/Demo_Run.thy ===== *)
theory Demo_Run
  imports Demo_Node
begin

text \<open>
  What the node does: each routine keeps the invariant of all the components it composes and never reaches
  undefined behaviour, so neither does the superloop; a PING frame on the line is answered; the rest of a
  read after the first frame is lost; and the pool holds one block less than the program means it to.
\<close>

section \<open>Buffers apart\<close>

definition tx_bytes :: "node \<Rightarrow> u8 list" where
  "tx_bytes nd = spsc_bytes (node_mem nd) (the (ua_tx_queue (s_device_uart nd)))"

definition rx_bytes :: "node \<Rightarrow> u8 list" where
  "rx_bytes nd = spsc_bytes (node_mem nd) (the (ua_rx_queue (s_device_uart nd)))"

definition aside :: "frame_stack \<Rightarrow> ptr \<Rightarrow> nat \<Rightarrow> bool" where
  "aside k p n \<longleftrightarrow> p \<noteq> FW_NULL \<and> disjoint_blocks p n (s_pool_memory k) 1024
     \<and> disjoint_blocks p n (s_uart_tx_raw k) 256 \<and> disjoint_blocks p n (s_uart_rx_raw k) 256"

lemma layout_aside:
  assumes "demo_layout k"
  shows "aside k (wire_buf k) 128" and "aside k (rx_raw k) 128" and "aside k (reply_raw k) 64"
    and "aside k (garbage k) 12"
    and "disjoint_blocks (s_uart_tx_raw k) 256 (s_pool_memory k) 1024"
    and "disjoint_blocks (s_uart_rx_raw k) 256 (s_pool_memory k) 1024"
    and "disjoint_blocks (s_uart_tx_raw k) 256 (s_uart_rx_raw k) 256"
    and "nowrap (s_pool_memory k) 1024" and "nowrap (rx_raw k) 128" and "rx_raw k \<noteq> FW_NULL"
  using assms by (simp_all add: demo_layout_def aside_def) (auto simp: disjoint_blocks_sym)

lemma aside_mono: "aside k p n \<Longrightarrow> n' \<le> n \<Longrightarrow> aside k p n'"
  by (auto simp: aside_def disjoint_blocks_def in_block_def)

lemma pool_within_in: "pool_within k p \<Longrightarrow> pool_in (s_pool_memory k) 1024 p"
  by (simp only: pool_within_def)

lemmas pool_within_block = pool_in_block [OF _ pool_within_in]

lemmas pool_frame = pool_inv_outside [OF _ pool_within_in]

lemma node_inv_mem:
  assumes "node_inv k nd" and "demo_layout k" and "\<And>a. in_block (s_pool_memory k) 1024 a \<Longrightarrow> m' a = node_mem nd a"
  shows "node_inv k (nd\<lparr>node_mem := m'\<rparr>)"
  using assms(1) pool_frame [where m = "node_mem nd" and p = "s_telemetry_pool nd" and m' = m', OF _ _ layout_aside(8) [OF assms(2)]]
    assms(3)
  by (auto simp: node_inv_def pool_ok_def)

lemma aside_pool: "aside k p n \<Longrightarrow> in_block (s_pool_memory k) 1024 a \<Longrightarrow> length bs \<le> n \<Longrightarrow> mem_write m p bs a = m a"
  by (intro mem_write_out) (auto simp: aside_def disjoint_blocks_def in_block_def)

lemma aside_ring:
  assumes "aside k p n" and "length bs \<le> n" and "spsc_wf q" and "sq_capacity q = 256"
    and "sq_buffer q = s_uart_tx_raw k \<or> sq_buffer q = s_uart_rx_raw k"
  shows "spsc_bytes (mem_write m p bs) q = spsc_bytes m q"
  using assms by (intro spsc_bytes_cong mem_write_out) (auto simp: aside_def disjoint_blocks_def in_block_def)

lemma ring_store_out:
  assumes "spsc_wf q" and "\<not> in_block (sq_buffer q) (unat (sq_capacity q)) a"
  shows "ring_store m (sq_buffer q) (sq_mask q) h bs a = m a"
proof -
  obtain j where j: "j < 32" "sq_mask q = 2 ^ j - 1" "unat (sq_capacity q) = 2 ^ j" using assms(1) by (rule spsc_wfE)
  have "a \<noteq> ring_addr (sq_buffer q) (sq_mask q) h i" for i
    using ring_addr_in_block [OF j(1), of "sq_buffer q" h i] assms(2) unfolding j(2,3) by auto
  then show ?thesis by (intro ring_store_other)
qed

section \<open>Bytes to the line\<close>

text \<open>What every sender of the program does: fill a buffer, hand it to the driver.\<close>

lemma node_transmit:
  assumes inv: "node_inv k nd" and lay: "demo_layout k" and p: "aside k p (length bs)" and bs: "bs \<noteq> []" "length bs \<le> 256"
  shows "\<exists>n m' u'. fw_uart_write (mem_write (node_mem nd) p bs) (Some (s_device_uart nd)) (fw_cspan_make p (of_nat (length bs)))
      = (n, m', Some u')
    \<and> node_inv k (nd\<lparr>node_mem := m', s_device_uart := u'\<rparr>)
    \<and> tx_bytes (nd\<lparr>node_mem := m', s_device_uart := u'\<rparr>) = tx_bytes nd @ take (256 - length (tx_bytes nd)) bs
    \<and> rx_bytes (nd\<lparr>node_mem := m', s_device_uart := u'\<rparr>) = rx_bytes nd
    \<and> (\<forall>a. in_block (s_pool_memory k) 1024 a \<longrightarrow> m' a = node_mem nd a)"
proof -
  let ?m = "node_mem nd" and ?u = "s_device_uart nd" and ?n = "of_nat (length bs) :: usize"
  let ?m1 = "mem_write ?m p bs"
  obtain q r where q: "ua_tx_queue ?u = Some q" "spsc_wf q" "sq_buffer q = s_uart_tx_raw k" "sq_capacity q = 256"
      and r: "ua_rx_queue ?u = Some r" "spsc_wf r" "sq_buffer r = s_uart_rx_raw k" "sq_capacity r = 256"
      and ini: "ua_is_initialized ?u"
    using inv by (auto simp: node_inv_def ring_at_def)
  have un: "unat ?n = length bs" using bs(2) by (intro unat_of_nat_small) simp
  have n0: "?n \<noteq> 0" using un bs(1) by auto
  have p0: "p \<noteq> FW_NULL" using p by (simp add: aside_def)
  have ap: "spsc_apart q p ?n" using p q(3,4) un by (simp add: spsc_apart_def aside_def disjoint_blocks_sym)
  define w where "w = min (length bs) (256 - unat (sq_head q - sq_tail q))"
  let ?q' = "q\<lparr>sq_head := sq_head q + of_nat w\<rparr>"
  let ?m' = "ring_store ?m1 (sq_buffer q) (sq_mask q) (sq_head q) (mem_read ?m1 p w)"
  have wr: "fw_uart_write ?m1 (Some ?u) (fw_cspan_make p ?n) = (of_nat w, ?m', Some (?u\<lparr>ua_tx_queue := Some ?q'\<rparr>))"
    using spsc_write_store [OF q(2) p0 ap, of ?m1] ini q(1,4) p0 n0 un
    by (simp add: fw_uart_write_def fw_cspan_make_def w_def)
  have fit: "unat (sq_head q - sq_tail q) \<le> 256" using q(2,4) by (simp add: spsc_wf_def word_le_nat_alt)
  have src: "mem_read ?m1 p w = take w bs"
    using mem_read_take [of w "length bs" ?m1 p] mem_read_write_same [of bs ?m p] bs(2) by (simp add: w_def)
  have st: "spsc_wf ?q'" "spsc_bytes ?m' ?q' = spsc_bytes ?m1 q @ take w bs"
    using spsc_store_bytes(1) [OF q(2), of "take w bs"] spsc_store_bytes(2) [OF q(2), of "take w bs" ?m1] fit q(4) src
    by (simp_all add: w_def)
  have out: "?m' a = ?m1 a" if "\<not> in_block (s_uart_tx_raw k) 256 a" for a
    using ring_store_out [OF q(2)] that q(3,4) by simp
  have same: "spsc_bytes ?m1 q = spsc_bytes ?m q" "spsc_bytes ?m1 r = spsc_bytes ?m r"
    using aside_ring [OF p _ q(2,4)] aside_ring [OF p _ r(2,4)] q(3) r(3) by simp_all
  have tk: "take w bs = take (256 - length (spsc_bytes ?m q)) bs" by (simp add: w_def min_def)
  have rx: "spsc_bytes ?m' r = spsc_bytes ?m1 r"
    using layout_aside(7) [OF lay] r(3,4) by (intro spsc_bytes_cong [OF r(2)] out) (auto simp: disjoint_blocks_def)
  have keep: "?m' a = ?m a" if "in_block (s_pool_memory k) 1024 a" for a
    using that layout_aside(5) [OF lay] aside_pool [OF p that order_refl] by (subst out) (auto simp: disjoint_blocks_def)
  from keep have "node_inv k (nd\<lparr>node_mem := ?m'\<rparr>)" by (rule node_inv_mem [OF inv lay])
  then have "node_inv k (nd\<lparr>node_mem := ?m', s_device_uart := ?u\<lparr>ua_tx_queue := Some ?q'\<rparr>\<rparr>)"
    using st(1) q by (simp add: node_inv_def ring_at_def)
  then show ?thesis
    using wr st(2) same tk rx q(1) r(1) keep
    by (intro exI [of _ "of_nat w"] exI [of _ ?m'] exI [of _ "?u\<lparr>ua_tx_queue := Some ?q'\<rparr>"])
      (simp add: tx_bytes_def rx_bytes_def del: length_spsc_bytes)
qed

lemma encode_cases:
  assumes "frame_wf f" and "span_data out \<noteq> FW_NULL"
  shows "fw_zerowire_encode m (Some f) out =
    (if unat (zf_length f) + 8 \<le> unat (span_length out)
     then (of_nat (length (frame_bytes f)), mem_write m (span_data out) (frame_bytes f)) else (0, m))"
proof (cases "unat (zf_length f) + 8 \<le> unat (span_length out)")
  case True
  then show ?thesis using encode_bytes [OF assms True] by simp
next
  case False
  then have "span_length out < 6 + ucast (zf_length f) + 2"
    using unat_frame_size(1) [of "zf_length f"] assms(1) by (simp add: word_less_nat_alt frame_wf_def)
  then show ?thesis using False assms(2) by (simp add: fw_zerowire_encode_def Let_def)
qed

text \<open>Encoding a frame into a buffer of the program and sending it.\<close>

lemma node_send_frame:
  assumes inv: "node_inv k nd" and lay: "demo_layout k" and p: "aside k p (unat n)" and f: "frame_wf f" and n: "unat n \<le> 256"
  shows "\<exists>e m1. fw_zerowire_encode (node_mem nd) (Some f) (fw_span_make p n) = (e, m1)
    \<and> (e > 0 \<longleftrightarrow> unat (zf_length f) + 8 \<le> unat n) \<and> (e = 0 \<longrightarrow> m1 = node_mem nd)
    \<and> (e > 0 \<longrightarrow> (\<exists>w m' u'. fw_uart_write m1 (Some (s_device_uart nd)) (fw_cspan_make p e) = (w, m', Some u')
        \<and> node_inv k (nd\<lparr>node_mem := m', s_device_uart := u'\<rparr>)
        \<and> tx_bytes (nd\<lparr>node_mem := m', s_device_uart := u'\<rparr>) = tx_bytes nd @ take (256 - length (tx_bytes nd)) (frame_bytes f)
        \<and> rx_bytes (nd\<lparr>node_mem := m', s_device_uart := u'\<rparr>) = rx_bytes nd
        \<and> (\<forall>a. in_block (s_pool_memory k) 1024 a \<longrightarrow> m' a = node_mem nd a)))"
proof (cases "unat (zf_length f) + 8 \<le> unat n")
  case True
  let ?fb = "frame_bytes f"
  have len: "length ?fb = unat (zf_length f) + 8" by (rule length_frame_bytes [OF f])
  have p0: "p \<noteq> FW_NULL" using p by (simp add: aside_def)
  have e: "fw_zerowire_encode (node_mem nd) (Some f) (fw_span_make p n) = (of_nat (length ?fb), mem_write (node_mem nd) p ?fb)"
    using encode_cases [OF f, of "fw_span_make p n"] True p0 by (simp add: fw_span_make_def)
  have "unat (of_nat (length ?fb) :: usize) = length ?fb" using len True n by (intro unat_of_nat_small) simp
  then have "(of_nat (length ?fb) :: usize) > 0" using len by (simp add: word_gt_0 unat_eq_0 [symmetric])
  moreover have "aside k p (length ?fb)" "?fb \<noteq> []" "length ?fb \<le> 256"
    using aside_mono [OF p] len True n by auto
  ultimately show ?thesis using node_transmit [OF inv lay, of p ?fb] e True by auto
next
  case False
  then show ?thesis using encode_cases [OF f, of "fw_span_make p n"] p by (simp add: fw_span_make_def aside_def)
qed

section \<open>The pool\<close>

definition pool_good :: "frame_stack \<Rightarrow> mem \<Rightarrow> fw_pool \<Rightarrow> nat list \<Rightarrow> bool" where
  "pool_good k m p fl \<longleftrightarrow> pool_inv m p fl \<and> pool_within k p"

lemma pool_within_update [simp]:
  "pool_within k (p\<lparr>po_free_list := l, po_free_count := c\<rparr>) = pool_within k p"
  by (simp add: pool_within_def)

lemma demo_alloc_empty: "pool_good k m p [] \<Longrightarrow> fw_pool_alloc m (Some p) = Some (FW_NULL, m, Some p)"
  by (simp add: pool_good_def pool_alloc_none)

lemma demo_alloc:
  assumes good: "pool_good k m p (i # fl)" and lay: "demo_layout k"
  shows "\<exists>m' p'. fw_pool_alloc m (Some p) = Some (block_addr p i, m', Some p') \<and> pool_good k m' p' fl
    \<and> po_capacity p' = po_capacity p \<and> block_addr p' = block_addr p
    \<and> i < unat (po_capacity p) \<and> i \<notin> set fl \<and> block_addr p i \<noteq> FW_NULL
    \<and> (\<forall>a. \<not> in_block (s_pool_memory k) 1024 a \<longrightarrow> m' a = m a)"
  using pool_alloc_in [of m p i fl, OF _ pool_within_in layout_aside(8) [OF lay]] good
  by (fastforce simp: pool_good_def pool_within_def)

lemma demo_free:
  assumes good: "pool_good k m p fl" and lay: "demo_layout k" and i: "i < unat (po_capacity p)" "i \<notin> set fl"
  shows "\<exists>m' p'. fw_pool_free dbg m (Some p) (block_addr p i) = Some (FW_OK, m', Some p') \<and> pool_good k m' p' (i # fl)
    \<and> po_capacity p' = po_capacity p \<and> block_addr p' = block_addr p
    \<and> (\<forall>a. \<not> in_block (s_pool_memory k) 1024 a \<longrightarrow> m' a = m a)"
  using pool_free_in [of m p fl, OF _ pool_within_in layout_aside(8) [OF lay] i, of dbg] good
  by (fastforce simp: pool_good_def pool_within_def)

lemma demo_free_null:
  assumes "pool_good k m p fl"
  shows "fw_pool_free dbg m (Some p) FW_NULL = Some (FW_ERR_INVALID_ARG, m, Some p)"
  by (simp add: fw_pool_free_def)

lemma alloc_blocks_run:
  assumes "demo_layout k"
  shows "pool_good k m p fl \<Longrightarrow> \<exists>m' p'.
    alloc_blocks n (m, p) = Some (map (block_addr p) (take n fl) @ replicate (n - length fl) FW_NULL, m', p')
    \<and> pool_good k m' p' (drop n fl) \<and> po_capacity p' = po_capacity p \<and> block_addr p' = block_addr p
    \<and> (\<forall>a. \<not> in_block (s_pool_memory k) 1024 a \<longrightarrow> m' a = m a)"
proof (induction n arbitrary: m p fl)
  case (Suc n)
  show ?case
  proof (cases fl)
    case Nil
    then show ?thesis using Suc.IH [OF Suc.prems] demo_alloc_empty [of k m p] Suc.prems by auto
  next
    case (Cons i fl')
    obtain m1 p1 where a: "fw_pool_alloc m (Some p) = Some (block_addr p i, m1, Some p1)" "pool_good k m1 p1 fl'"
        "po_capacity p1 = po_capacity p" "block_addr p1 = block_addr p"
        "\<forall>a. \<not> in_block (s_pool_memory k) 1024 a \<longrightarrow> m1 a = m a"
      using demo_alloc [OF Suc.prems [unfolded Cons] assms] by blast
    then show ?thesis using Suc.IH [OF a(2)] Cons by auto
  qed
qed simp

lemma free_blocks_run:
  assumes "demo_layout k"
  shows "pool_good k m p fl \<Longrightarrow> distinct (is @ fl) \<Longrightarrow> \<forall>i\<in>set is. i < unat (po_capacity p) \<Longrightarrow> \<exists>m' p'.
    free_blocks dbg (map (block_addr p) is @ replicate j FW_NULL) (m, p) = Some (m', p')
    \<and> pool_good k m' p' (rev is @ fl) \<and> po_capacity p' = po_capacity p
    \<and> (\<forall>a. \<not> in_block (s_pool_memory k) 1024 a \<longrightarrow> m' a = m a)"
proof (induction "is" arbitrary: m p fl)
  case Nil
  have "free_blocks dbg (replicate j FW_NULL) (m, p) = Some (m, p)"
    by (induction j) (simp_all add: fw_pool_free_def)
  then show ?case using Nil by simp
next
  case (Cons i "is")
  obtain m1 p1 where f: "fw_pool_free dbg m (Some p) (block_addr p i) = Some (FW_OK, m1, Some p1)" "pool_good k m1 p1 (i # fl)"
      "po_capacity p1 = po_capacity p" "block_addr p1 = block_addr p"
      "\<forall>a. \<not> in_block (s_pool_memory k) 1024 a \<longrightarrow> m1 a = m a"
    using demo_free [OF Cons.prems(1) assms, of i dbg] Cons.prems(2,3) by auto
  then show ?case using Cons.IH [OF f(2)] Cons.prems(2,3) by auto
qed

lemma stress_run:
  assumes lay: "demo_layout k" and good: "pool_good k (node_mem nd) (s_telemetry_pool nd) fl"
  shows "\<exists>m p. stress_pool dbg nd = Some (nd\<lparr>node_mem := m, s_telemetry_pool := p\<rparr>)
    \<and> pool_good k m p (rev (take POOL_BLOCKS fl) @ drop POOL_BLOCKS fl)
    \<and> (\<forall>a. \<not> in_block (s_pool_memory k) 1024 a \<longrightarrow> m a = node_mem nd a)"
proof -
  let ?p = "s_telemetry_pool nd" and ?n = POOL_BLOCKS
  have fl: "distinct fl" "\<And>i. i \<in> set fl \<Longrightarrow> i < unat (po_capacity ?p)"
    using good pool_invD(2,3) unfolding pool_good_def by blast+
  obtain m1 p1 where a: "alloc_blocks ?n (node_mem nd, ?p)
        = Some (map (block_addr ?p) (take ?n fl) @ replicate (?n - length fl) FW_NULL, m1, p1)"
      "pool_good k m1 p1 (drop ?n fl)" "po_capacity p1 = po_capacity ?p" "block_addr p1 = block_addr ?p"
      "\<forall>a. \<not> in_block (s_pool_memory k) 1024 a \<longrightarrow> m1 a = node_mem nd a"
    using alloc_blocks_run [OF lay good, of ?n] by blast
  have "\<forall>i\<in>set (take ?n fl). i < unat (po_capacity p1)" using fl(2) a(3) by (auto dest: in_set_takeD)
  moreover have "distinct (take ?n fl @ drop ?n fl)" using fl(1) by simp
  ultimately obtain m2 p2 where "free_blocks dbg (map (block_addr p1) (take ?n fl) @ replicate (?n - length fl) FW_NULL) (m1, p1)
        = Some (m2, p2)" "pool_good k m2 p2 (rev (take ?n fl) @ drop ?n fl)"
      "\<forall>a. \<not> in_block (s_pool_memory k) 1024 a \<longrightarrow> m2 a = m1 a"
    using free_blocks_run [OF lay a(2), of "take ?n fl" dbg "?n - length fl"] by blast
  then show ?thesis using a by (auto simp: stress_pool_def)
qed

section \<open>The routines\<close>

definition packet :: "frame_stack \<Rightarrow> u8 \<Rightarrow> u8 \<Rightarrow> u8 list \<Rightarrow> fw_zerowire_frame" where
  "packet k sq msg_id bs = \<lparr>zf_seq = sq, zf_msg_id = msg_id, zf_length = of_nat (length bs),
     zf_payload = bs @ drop (length bs) (zf_payload (stack_frame k))\<rparr>"

lemma packet_wf:
  "demo_layout k \<Longrightarrow> length bs \<le> 256 \<Longrightarrow> frame_wf (packet k sq msg_id bs) \<and> unat (zf_length (packet k sq msg_id bs)) = length bs"
  by (simp add: packet_def frame_wf_def demo_layout_def word_le_nat_alt unat_of_nat take_bit_nat_eq_self)

lemma node_send:
  assumes inv: "node_inv k nd" and lay: "demo_layout k" and pl: "payload \<noteq> FW_NULL" and len: "unat len + 8 \<le> 128" "len > 0"
  shows "\<exists>m u. send_zerowire_packet k msg_id payload len nd =
      Some (nd\<lparr>g_stats := (g_stats nd)\<lparr>packets_sent := packets_sent (g_stats nd) + 1\<rparr>, node_mem := m, s_device_uart := u\<rparr>)
    \<and> node_inv k (nd\<lparr>node_mem := m, s_device_uart := u\<rparr>)
    \<and> tx_bytes (nd\<lparr>node_mem := m, s_device_uart := u\<rparr>) = tx_bytes nd @ take (256 - length (tx_bytes nd))
        (frame_bytes (packet k (ucast (packets_sent (g_stats nd) + 1)) msg_id (mem_read (node_mem nd) payload (unat len))))
    \<and> rx_bytes (nd\<lparr>node_mem := m, s_device_uart := u\<rparr>) = rx_bytes nd
    \<and> (\<forall>a. in_block (s_pool_memory k) 1024 a \<longrightarrow> m a = node_mem nd a)"
proof -
  let ?bs = "mem_read (node_mem nd) payload (unat len)"
  let ?f = "packet k (ucast (packets_sent (g_stats nd) + 1)) msg_id ?bs"
  have f: "frame_wf ?f" "unat (zf_length ?f) = unat len" using packet_wf [OF lay, of ?bs] len by simp_all
  have sq: "ucast ((x :: u32) AND 0xFF) = (ucast x :: u8)" for x
    by (rule bit_word_eqI) (use and_pow2_minus_one [of x 8] in \<open>auto simp: bit_simps\<close>)
  have fr: "\<lparr>zf_seq = ucast (packets_sent (g_stats nd) + 1), zf_msg_id = msg_id, zf_length = len,
      zf_payload = pay\<rparr> = ?f" if "pay = ?bs @ drop (unat len) (zf_payload (stack_frame k))" for pay
    using that by (simp add: packet_def)
  have small: "\<not> len > 256" using len(1) by (simp add: word_less_nat_alt)
  obtain e m1 where e: "fw_zerowire_encode (node_mem nd) (Some ?f) (fw_span_make (wire_buf k) 128) = (e, m1)" "e > 0"
      and w: "\<exists>w m' u'. fw_uart_write m1 (Some (s_device_uart nd)) (fw_cspan_make (wire_buf k) e) = (w, m', Some u')
        \<and> node_inv k (nd\<lparr>node_mem := m', s_device_uart := u'\<rparr>)
        \<and> tx_bytes (nd\<lparr>node_mem := m', s_device_uart := u'\<rparr>) = tx_bytes nd @ take (256 - length (tx_bytes nd)) (frame_bytes ?f)
        \<and> rx_bytes (nd\<lparr>node_mem := m', s_device_uart := u'\<rparr>) = rx_bytes nd
        \<and> (\<forall>a. in_block (s_pool_memory k) 1024 a \<longrightarrow> m' a = node_mem nd a)"
    using node_send_frame [OF inv lay _ f(1), of "wire_buf k" 128] layout_aside(1) [OF lay] f(2) len by auto
  from w obtain n m' u' where w: "fw_uart_write m1 (Some (s_device_uart nd)) (fw_cspan_make (wire_buf k) e) = (n, m', Some u')"
      "node_inv k (nd\<lparr>node_mem := m', s_device_uart := u'\<rparr>)"
      "tx_bytes (nd\<lparr>node_mem := m', s_device_uart := u'\<rparr>) = tx_bytes nd @ take (256 - length (tx_bytes nd)) (frame_bytes ?f)"
      "rx_bytes (nd\<lparr>node_mem := m', s_device_uart := u'\<rparr>) = rx_bytes nd"
      "(\<forall>a. in_block (s_pool_memory k) 1024 a \<longrightarrow> m' a = node_mem nd a)" by blast
  show ?thesis
    by (intro exI [of _ m'] exI [of _ u'] conjI w(2-5))
      (use e w(1) small pl len(2) in \<open>simp add: send_zerowire_packet_def Let_def sq fr\<close>)
qed

lemma node_loopback:
  assumes inv: "node_inv k nd" and lay: "demo_layout k"
  shows "\<exists>m u. service_virtual_wire_loopback nd = Some (nd\<lparr>node_mem := m, s_device_uart := u\<rparr>)
    \<and> node_inv k (nd\<lparr>node_mem := m, s_device_uart := u\<rparr>) \<and> tx_bytes (nd\<lparr>node_mem := m, s_device_uart := u\<rparr>) = []
    \<and> rx_bytes (nd\<lparr>node_mem := m, s_device_uart := u\<rparr>) = rx_bytes nd @ take (256 - length (rx_bytes nd)) (tx_bytes nd)"
proof -
  let ?m = "node_mem nd" and ?u = "s_device_uart nd"
  obtain q r where q: "ua_tx_queue ?u = Some q" "spsc_wf q" "sq_buffer q = s_uart_tx_raw k" "sq_capacity q = 256"
      and r: "ua_rx_queue ?u = Some r" "spsc_wf r" "sq_buffer r = s_uart_rx_raw k" "sq_capacity r = 256"
    using inv by (auto simp: node_inv_def ring_at_def)
  have dis: "disjoint_blocks (sq_buffer q) (unat (sq_capacity q)) (sq_buffer r) (unat (sq_capacity r))"
    using layout_aside(7) [OF lay] q(3,4) r(3,4) by simp
  obtain m' u' q' r' where l: "line_loop ?m (Some ?u) (Some 0) = Some (m', Some u')"
      "ua_is_initialized u' = ua_is_initialized ?u"
      "ua_tx_queue u' = Some q'" "spsc_wf q'" "sq_buffer q' = sq_buffer q" "sq_capacity q' = sq_capacity q" "sq_head q' = sq_tail q'"
      "ua_rx_queue u' = Some r'" "spsc_wf r'" "sq_buffer r' = sq_buffer r" "sq_capacity r' = sq_capacity r"
      "spsc_bytes m' r' = spsc_bytes ?m r @ take (unat (sq_capacity r) - length (spsc_bytes ?m r)) (spsc_bytes ?m q)"
      "\<forall>a. \<not> in_block (sq_buffer r) (unat (sq_capacity r)) a \<longrightarrow> m' a = ?m a"
    using line_loop_result [OF q(1) r(1) q(2) r(2) dis, of ?m 0] by blast
  have "m' a = ?m a" if "in_block (s_pool_memory k) 1024 a" for a
    using l(13) that layout_aside(6) [OF lay] r(3,4) by (auto simp: disjoint_blocks_def)
  then have "node_inv k (nd\<lparr>node_mem := m'\<rparr>)" by (rule node_inv_mem [OF inv lay])
  then have "node_inv k (nd\<lparr>node_mem := m', s_device_uart := u'\<rparr>)"
    using l(2-6,8-11) q r by (simp add: node_inv_def ring_at_def)
  moreover have "spsc_bytes m' q' = []" using l(7) by (simp add: spsc_bytes_def ring_read_def)
  ultimately show ?thesis
    using l q r by (intro exI [of _ m'] exI [of _ u'])
      (simp add: service_virtual_wire_loopback_def tx_bytes_def rx_bytes_def del: length_spsc_bytes)
qed

lemma node_read:
  assumes inv: "node_inv k nd" and lay: "demo_layout k"
  defines "n \<equiv> min 128 (length (rx_bytes nd))"
  shows "\<exists>m u. fw_uart_read (node_mem nd) (Some (s_device_uart nd)) (fw_span_make (rx_raw k) 128) = (of_nat n, m, Some u)
    \<and> node_inv k (nd\<lparr>node_mem := m, s_device_uart := u\<rparr>)
    \<and> mem_read m (rx_raw k) n = take n (rx_bytes nd)
    \<and> rx_bytes (nd\<lparr>node_mem := m, s_device_uart := u\<rparr>) = drop n (rx_bytes nd)
    \<and> tx_bytes (nd\<lparr>node_mem := m, s_device_uart := u\<rparr>) = tx_bytes nd"
proof -
  let ?m = "node_mem nd" and ?u = "s_device_uart nd"
  obtain q r where q: "ua_tx_queue ?u = Some q" "spsc_wf q" "sq_buffer q = s_uart_tx_raw k" "sq_capacity q = 256"
      and r: "ua_rx_queue ?u = Some r" "spsc_wf r" "sq_buffer r = s_uart_rx_raw k" "sq_capacity r = 256"
      and ini: "ua_is_initialized ?u"
    using inv by (auto simp: node_inv_def ring_at_def)
  note raw = layout_aside(2) [OF lay]
  have ap: "spsc_apart r (rx_raw k) 128" using raw r(3,4) by (simp add: spsc_apart_def aside_def disjoint_blocks_sym)
  have nr: "n = min 128 (unat (sq_head r - sq_tail r))" by (simp add: n_def rx_bytes_def r(1))
  let ?bs = "take n (spsc_bytes ?m r)" and ?r' = "r\<lparr>sq_tail := sq_tail r + of_nat n\<rparr>"
  let ?m' = "mem_write ?m (rx_raw k) ?bs"
  have rd: "fw_uart_read ?m (Some ?u) (fw_span_make (rx_raw k) 128) = (of_nat n, ?m', Some (?u\<lparr>ua_rx_queue := Some ?r'\<rparr>))"
    using spsc_read_store [OF r(2) layout_aside(10) [OF lay] ap, of ?m] ini r(1) layout_aside(10) [OF lay]
    by (simp add: fw_uart_read_def fw_span_make_def nr)
  have len: "length ?bs = n" using nr by simp
  have le: "length ?bs \<le> 128" using nr by simp
  have drop: "spsc_wf ?r'" "spsc_bytes ?m' ?r' = drop n (spsc_bytes ?m' r)"
    using spsc_drop_bytes [OF r(2), of n] nr by simp_all
  have same: "spsc_bytes ?m' r = spsc_bytes ?m r" "spsc_bytes ?m' q = spsc_bytes ?m q"
    using aside_ring [OF raw le r(2,4)] aside_ring [OF raw le q(2,4)] q(3) r(3) by simp_all
  have "node_inv k (nd\<lparr>node_mem := ?m'\<rparr>)"
    by (rule node_inv_mem [OF inv lay]) (rule aside_pool [OF raw _ le])
  then have "node_inv k (nd\<lparr>node_mem := ?m', s_device_uart := ?u\<lparr>ua_rx_queue := Some ?r'\<rparr>\<rparr>)"
    using drop(1) r by (simp add: node_inv_def ring_at_def)
  moreover have "mem_read ?m' (rx_raw k) n = ?bs"
    using mem_read_write_same [of ?bs ?m "rx_raw k"] le unfolding len by simp
  ultimately show ?thesis
    using rd drop(2) same q(1) r(1)
    by (intro exI [of _ ?m'] exI [of _ "?u\<lparr>ua_rx_queue := Some ?r'\<rparr>"])
      (simp add: tx_bytes_def rx_bytes_def del: length_spsc_bytes)
qed

definition packet_work :: "fw_zerowire_frame \<Rightarrow> (demo_tasklet, ptr) work" where
  "packet_work f = (On_packet_processed, FW_NULL, push_bit 8 (ucast (zf_seq f)) OR ucast (zf_msg_id f))"

lemma post_pending:
  assumes "tasklet_inv q"
  shows "\<exists>st q'. fw_tasklet_post (Some q) (Some h) c a = (st, Some q') \<and> tasklet_inv q'
    \<and> tasklet_pending q' = tasklet_pending q @ (if length (tasklet_pending q) < tasklet_cap q then [(h, c, a)] else [])"
proof -
  have "\<exists>st q'. fw_tasklet_post (Some q) (Some h) c a = (st, Some q')"
    by (cases "tq_head q - tq_tail q \<ge> tq_capacity q") (simp_all add: fw_tasklet_post_def Let_def)
  then obtain st q' where p: "fw_tasklet_post (Some q) (Some h) c a = (st, Some q')" by blast
  then have e: "tasklet_enq (h, c, a) q = (st, q')" by (simp add: tasklet_enq_def)
  from assms show ?thesis
    by (cases rule: tasklet_queue.enq_cases [where x = "(h, c, a)"]) (use p e assms in auto)
qed

definition pong :: "frame_stack \<Rightarrow> u8 \<Rightarrow> fw_zerowire_frame" where
  "pong k sq = packet k sq 0x90 (bytes_of ''PONG_FROM_NODE'')"

lemma bytes_of_length [simp]: "length (bytes_of s) = length s"
  by (simp add: bytes_of_def)

lemma pong_frame:
  "pong k sq = \<lparr>zf_seq = sq, zf_msg_id = 0x90, zf_length = 14,
     zf_payload = bytes_of ''PONG_FROM_NODE'' @ drop 14 (zf_payload (stack_frame k))\<rparr>"
proof -
  have len: "length ''PONG_FROM_NODE'' = 14" by simp
  show ?thesis unfolding pong_def packet_def bytes_of_length len by simp
qed

lemma dispatch_ping:
  assumes "ct_entries t = s_rpc_entries" and "ct_entry_count t = 1"
  shows "fw_cmd_dispatch (rpc_call k) () (Some t) (Some f) (Some (stack_frame k)) (Some False) =
    (if zf_msg_id f = MSG_CMD_PING then Some (FW_OK, (), Some (pong k (zf_seq f)), Some True)
     else Some (FW_ERR_NOT_FOUND, (), Some (stack_frame k), Some False))"
proof -
  have "find_entry s_rpc_entries 1 (zf_msg_id f) 0 =
      (if zf_msg_id f = MSG_CMD_PING then Some (s_rpc_entries ! 0) else None)"
    by (subst find_entry.simps, subst find_entry.simps) (auto simp: s_rpc_entries_def)
  then show ?thesis
    using assms
    by (simp add: fw_cmd_dispatch_def s_rpc_entries_def rpc_call_def rpc_ping_handler_def pong_frame
        MSG_CMD_PING_def)
qed

lemma node_route:
  assumes inv: "node_inv k nd" and lay: "demo_layout k"
  shows "\<exists>m u q. route_frame k f nd = Some (nd\<lparr>node_mem := m, s_device_uart := u, s_tasklet_q := q\<rparr>)
    \<and> node_inv k (nd\<lparr>node_mem := m, s_device_uart := u, s_tasklet_q := q\<rparr>)
    \<and> tx_bytes (nd\<lparr>node_mem := m, s_device_uart := u, s_tasklet_q := q\<rparr>) = tx_bytes nd
        @ (if zf_msg_id f = MSG_CMD_PING then take (256 - length (tx_bytes nd)) (frame_bytes (pong k (zf_seq f))) else [])
    \<and> rx_bytes (nd\<lparr>node_mem := m, s_device_uart := u, s_tasklet_q := q\<rparr>) = rx_bytes nd
    \<and> tasklet_pending q = tasklet_pending (s_tasklet_q nd)
        @ (if length (tasklet_pending (s_tasklet_q nd)) < tasklet_cap (s_tasklet_q nd) then [packet_work f] else [])"
proof -
  have tab: "ct_entries (s_rpc_table nd) = s_rpc_entries" "ct_entry_count (s_rpc_table nd) = 1" and tq: "tasklet_inv (s_tasklet_q nd)"
    using inv by (simp_all add: node_inv_def)
  obtain st q where q: "fw_tasklet_post (Some (s_tasklet_q nd)) (Some On_packet_processed) FW_NULL
        (push_bit 8 (ucast (zf_seq f)) OR ucast (zf_msg_id f)) = (st, Some q)" "tasklet_inv q"
      "tasklet_pending q = tasklet_pending (s_tasklet_q nd)
        @ (if length (tasklet_pending (s_tasklet_q nd)) < tasklet_cap (s_tasklet_q nd) then [packet_work f] else [])"
    using post_pending [OF tq] unfolding packet_work_def by blast
  note d = dispatch_ping [OF tab, of k f]
  show ?thesis
  proof (cases "zf_msg_id f = MSG_CMD_PING")
    case False
    have "node_inv k (nd\<lparr>s_tasklet_q := q\<rparr>)" using inv q(2) by (simp add: node_inv_def)
    then show ?thesis
      using False d q by (intro exI [of _ "node_mem nd"] exI [of _ "s_device_uart nd"] exI [of _ q])
        (simp add: route_frame_def tx_bytes_def rx_bytes_def)
  next
    case True
    let ?p = "pong k (zf_seq f)"
    have p: "frame_wf ?p" "unat (zf_length ?p) = 14"
      using packet_wf [OF lay, of "bytes_of ''PONG_FROM_NODE''"] by (simp_all add: pong_def)
    obtain e m1 where e: "fw_zerowire_encode (node_mem nd) (Some ?p) (fw_span_make (reply_raw k) 64) = (e, m1)" "e > 0"
      and w: "\<exists>w m' u'. fw_uart_write m1 (Some (s_device_uart nd)) (fw_cspan_make (reply_raw k) e) = (w, m', Some u')
        \<and> node_inv k (nd\<lparr>node_mem := m', s_device_uart := u'\<rparr>)
        \<and> tx_bytes (nd\<lparr>node_mem := m', s_device_uart := u'\<rparr>) = tx_bytes nd @ take (256 - length (tx_bytes nd)) (frame_bytes ?p)
        \<and> rx_bytes (nd\<lparr>node_mem := m', s_device_uart := u'\<rparr>) = rx_bytes nd"
      using node_send_frame [OF inv lay _ p(1), of "reply_raw k" 64] layout_aside(3) [OF lay] p(2) by auto
    from w obtain n m' u' where w: "fw_uart_write m1 (Some (s_device_uart nd)) (fw_cspan_make (reply_raw k) e) = (n, m', Some u')"
      "node_inv k (nd\<lparr>node_mem := m', s_device_uart := u'\<rparr>)"
      "tx_bytes (nd\<lparr>node_mem := m', s_device_uart := u'\<rparr>) = tx_bytes nd @ take (256 - length (tx_bytes nd)) (frame_bytes ?p)"
      "rx_bytes (nd\<lparr>node_mem := m', s_device_uart := u'\<rparr>) = rx_bytes nd" by blast
    have "node_inv k (nd\<lparr>node_mem := m', s_device_uart := u', s_tasklet_q := q\<rparr>)"
      using w(2) q(2) by (simp add: node_inv_def)
    then show ?thesis
      using True d q w e by (intro exI [of _ m'] exI [of _ u'] exI [of _ q])
        (simp add: route_frame_def tx_bytes_def rx_bytes_def)
  qed
qed

lemma node_stats_irrelevant [simp]:
  "node_inv k (nd\<lparr>g_stats := st\<rparr>) = node_inv k nd"
  "tx_bytes (nd\<lparr>g_stats := st\<rparr>) = tx_bytes nd" "rx_bytes (nd\<lparr>g_stats := st\<rparr>) = rx_bytes nd"
  by (simp_all add: node_inv_def tx_bytes_def rx_bytes_def)

text \<open>A read that starts with a frame: the frame is routed, the rest of the read is gone.\<close>

lemma sync_at_start:
  assumes f: "frame_wf f" and p: "p \<noteq> FW_NULL" and bs: "mem_read m p (unat n) = frame_bytes f @ rest"
  shows "\<exists>f' c. fw_zerowire_stream_sync m (fw_cspan_make p n) (Some f0) (Some 0) = (FW_OK, Some f', c)
    \<and> zf_seq f' = zf_seq f \<and> zf_msg_id f' = zf_msg_id f"
proof -
  let ?f' = "f\<lparr>zf_payload := take (unat (zf_length f)) (zf_payload f) @ drop (unat (zf_length f)) (zf_payload f0)\<rparr>"
  have len: "8 \<le> unat n"
    using arg_cong [OF bs, of length] length_frame_bytes [OF f] by simp
  have "mem_read m p (unat n) ! 0 = 0xAA" "mem_read m p (unat n) ! 1 = 0x55"
    unfolding bs nth_frame_bytes by simp_all
  then have sof: "m p = 0xAA" "m (p + 1) = 0x55" using len by simp_all
  have "fw_zerowire_decode m (fw_cspan_make p n) (Some f0) = (FW_OK, Some ?f')"
    using decode_eq [of "fw_cspan_make p n" m f0] decode_frame_bytes [OF f, of rest f0] p bs
    by (simp add: fw_cspan_make_def)
  then have "sync_loop m p n 0 (Some f0) = (FW_OK, Some ?f', 6 + ucast (zf_length f) + 2)"
    using len sof by (subst sync_loop.simps) (simp add: Let_def)
  then show ?thesis using p by (simp add: fw_zerowire_stream_sync_def fw_cspan_make_def)
qed

lemma node_rx_first_frame:
  assumes inv: "node_inv k nd" and lay: "demo_layout k" and f: "frame_wf f"
    and rx: "rx_bytes nd = frame_bytes f @ rest" "length (rx_bytes nd) \<le> 128"
    and room: "length (tasklet_pending (s_tasklet_q nd)) < tasklet_cap (s_tasklet_q nd)"
  shows "\<exists>m u q. service_uart_rx_stream k nd = Some (nd\<lparr>node_mem := m, s_device_uart := u, s_tasklet_q := q,
        g_stats := (g_stats nd)\<lparr>packets_received := packets_received (g_stats nd) + 1\<rparr>\<rparr>)
    \<and> node_inv k (nd\<lparr>node_mem := m, s_device_uart := u, s_tasklet_q := q\<rparr>)
    \<and> tx_bytes (nd\<lparr>node_mem := m, s_device_uart := u, s_tasklet_q := q\<rparr>) = tx_bytes nd
        @ (if zf_msg_id f = MSG_CMD_PING then take (256 - length (tx_bytes nd)) (frame_bytes (pong k (zf_seq f))) else [])
    \<and> rx_bytes (nd\<lparr>node_mem := m, s_device_uart := u, s_tasklet_q := q\<rparr>) = []
    \<and> tasklet_pending q = tasklet_pending (s_tasklet_q nd) @ [packet_work f]"
proof -
  let ?n = "length (rx_bytes nd)"
  have n: "min 128 ?n = ?n" using rx(2) by simp
  obtain m u where r: "fw_uart_read (node_mem nd) (Some (s_device_uart nd)) (fw_span_make (rx_raw k) 128) = (of_nat ?n, m, Some u)"
      "node_inv k (nd\<lparr>node_mem := m, s_device_uart := u\<rparr>)" "mem_read m (rx_raw k) ?n = rx_bytes nd"
      "rx_bytes (nd\<lparr>node_mem := m, s_device_uart := u\<rparr>) = []"
      "tx_bytes (nd\<lparr>node_mem := m, s_device_uart := u\<rparr>) = tx_bytes nd"
    using node_read [OF inv lay] n by auto
  have un: "unat (of_nat ?n :: usize) = ?n" using rx(2) by (intro unat_of_nat_small) simp
  have "?n \<noteq> 0" using rx(1) length_frame_bytes [OF f] by simp
  then have n0: "(of_nat ?n :: usize) \<noteq> 0" using un by auto
  obtain f' c where sy: "fw_zerowire_stream_sync m (fw_cspan_make (rx_raw k) (of_nat ?n)) (Some (stack_frame k)) (Some 0)
      = (FW_OK, Some f', c)" "zf_seq f' = zf_seq f" "zf_msg_id f' = zf_msg_id f"
    using sync_at_start [OF f layout_aside(10) [OF lay], of m "of_nat ?n" rest "stack_frame k"] r(3) rx(1) un by auto
  define nd1 where "nd1 = nd\<lparr>node_mem := m, s_device_uart := u,
    g_stats := (g_stats nd)\<lparr>packets_received := packets_received (g_stats nd) + 1\<rparr>\<rparr>"
  have nd1: "node_inv k nd1" "rx_bytes nd1 = []" "tx_bytes nd1 = tx_bytes nd" "s_tasklet_q nd1 = s_tasklet_q nd"
    using r(2,4,5) by (simp_all add: nd1_def)
  have run: "service_uart_rx_stream k nd = route_frame k f' nd1"
    using r(1) n0 sy(1) by (simp add: service_uart_rx_stream_def Let_def nd1_def)
  obtain m' u' q where rt: "route_frame k f' nd1 = Some (nd1\<lparr>node_mem := m', s_device_uart := u', s_tasklet_q := q\<rparr>)"
      "node_inv k (nd1\<lparr>node_mem := m', s_device_uart := u', s_tasklet_q := q\<rparr>)"
      "tx_bytes (nd1\<lparr>node_mem := m', s_device_uart := u', s_tasklet_q := q\<rparr>) = tx_bytes nd1
        @ (if zf_msg_id f' = MSG_CMD_PING then take (256 - length (tx_bytes nd1)) (frame_bytes (pong k (zf_seq f'))) else [])"
      "rx_bytes (nd1\<lparr>node_mem := m', s_device_uart := u', s_tasklet_q := q\<rparr>) = rx_bytes nd1"
      "tasklet_pending q = tasklet_pending (s_tasklet_q nd1)
        @ (if length (tasklet_pending (s_tasklet_q nd1)) < tasklet_cap (s_tasklet_q nd1) then [packet_work f'] else [])"
    using node_route [OF nd1(1) lay, of f'] by blast
  have "packet_work f' = packet_work f" by (simp add: packet_work_def sy(2,3))
  then show ?thesis
    using run rt room nd1 sy(2,3)
    by (intro exI [of _ m'] exI [of _ u'] exI [of _ q]) (simp add: nd1_def tx_bytes_def rx_bytes_def node_inv_def)
qed

definition run_work :: "(demo_tasklet, ptr) work list \<Rightarrow> node_stats \<times> gpio_state \<Rightarrow> node_stats \<times> gpio_state" where
  "run_work = fold (\<lambda>(h, c, a). run_tasklet h c a)"

lemma run_tasklet_gpio: "gpio_wf (snd w) \<Longrightarrow> gpio_wf (snd (run_tasklet h c a w))"
  using gpio_ops(1) [of "snd w" LED_HEARTBEAT True]
  by (cases h; cases w) (simp add: run_tasklet_def on_packet_processed_tasklet_def Let_def)

lemma run_work_gpio: "gpio_wf (snd w) \<Longrightarrow> gpio_wf (snd (run_work xs w))"
proof (induction xs arbitrary: w)
  case (Cons x xs)
  obtain h c a where x: "x = (h, c, a)" by (cases x)
  show ?case using Cons.IH [OF run_tasklet_gpio [OF Cons.prems, of h c a]] by (simp add: run_work_def x)
qed (simp add: run_work_def)

lemma packet_work_id:
  "ucast ((push_bit 8 (ucast (sq :: u8)) OR ucast (mid :: u8) :: u32) AND 0xFF) = mid"
  by (rule bit_word_eqI) (use and_pow2_minus_one [of "push_bit 8 (ucast sq) OR ucast mid :: u32" 8] in \<open>auto simp: bit_simps\<close>)

lemma run_packet_work:
  "run_work [packet_work f] (st, gpio) =
     (st\<lparr>tasklets_executed := tasklets_executed st + 1\<rparr>,
      if zf_msg_id f = MSG_CMD_SET_LED then fw_gpio_toggle LED_HEARTBEAT gpio else gpio)"
  by (simp add: run_work_def packet_work_def run_tasklet_def on_packet_processed_tasklet_def Let_def packet_work_id
      del: word_bitwise_1_simps)

lemma node_dispatch:
  assumes inv: "node_inv k nd"
  shows "\<exists>q. dispatch_pending nd =
      (case run_work (tasklet_pending (s_tasklet_q nd)) (g_stats nd, node_gpio nd) of
         (st, gpio) \<Rightarrow> Some (nd\<lparr>g_stats := st, node_gpio := gpio, s_tasklet_q := q\<rparr>))
    \<and> tasklet_inv q \<and> tasklet_pending q = []"
proof -
  have tq: "tasklet_inv (s_tasklet_q nd)" using inv by (simp add: node_inv_def)
  obtain q where "dispatch_loop (\<lambda>h c a (w, q). (run_tasklet h c a w, q)) 0 (g_stats nd, node_gpio nd) (Some (s_tasklet_q nd))
      = Some (0 + of_nat (length (tasklet_pending (s_tasklet_q nd))),
          fold (\<lambda>(h, c, a). run_tasklet h c a) (tasklet_pending (s_tasklet_q nd)) (g_stats nd, node_gpio nd), Some q)"
      "tasklet_inv q" "tasklet_pending q = []"
    using dispatch_loop_drain [OF _ tq, of "\<lambda>h c a (w, q). (run_tasklet h c a w, q)" run_tasklet 0 "(g_stats nd, node_gpio nd)"]
    by auto
  then show ?thesis
    by (intro exI [of _ q]) (simp add: dispatch_pending_def fw_tasklet_dispatch_all_def run_work_def split: prod.splits)
qed

section \<open>Telemetry\<close>

lemma strlen_stored:
  "\<forall>i<n. m (p + of_nat i) \<noteq> 0 \<Longrightarrow> m (p + of_nat n) = 0 \<Longrightarrow> strlen m p c = Some (c + of_nat n)"
proof (induction n arbitrary: p c)
  case 0
  then show ?case by (subst strlen.simps) simp
next
  case (Suc n)
  have "\<forall>i<n. m (p + 1 + of_nat i) \<noteq> 0" "m (p + 1 + of_nat n) = 0"
    using Suc.prems by (metis Suc_less_eq add.assoc of_nat_Suc, simp add: add.assoc)
  from Suc.IH [OF this, of "c + 1"] show ?case
    using Suc.prems(1) by (subst strlen.simps) (auto simp: add.assoc)
qed

text \<open>The characters of the text; none of them is the terminator.\<close>

definition printable :: "char \<Rightarrow> bool" where
  "printable c \<longleftrightarrow> 32 \<le> (of_char c :: nat)"

lemma printable_byte: "printable c \<Longrightarrow> (of_char c :: u8) \<noteq> 0"
proof
  assume c: "printable c" and z: "(of_char c :: u8) = 0"
  have "unat (of_char c :: u8) = (of_char c :: nat)"
    using nat_of_char_less_256 [of c] by (simp add: unat_of_nat flip: of_nat_of_char [where ?'a = u8])
  then show False using c z by (simp add: printable_def)
qed

lemma printable_digit: "n < 10 \<Longrightarrow> printable (''0123456789'' ! n)"
  by (auto simp: less_Suc_eq numeral_eq_Suc printable_def)

lemma printable_dec: "list_all printable (dec_digits n)"
proof (induction n rule: dec_digits.induct)
  case (1 n)
  then show ?case by (subst dec_digits.simps) (simp add: printable_digit del: nth_Cons_numeral)
qed

lemma telemetry_printable: "list_all printable (telemetry_text u r1 r2)"
  using printable_dec by (simp add: telemetry_text_def dec_padded_def Let_def printable_def list_all_iff ball_Un)

lemma length_telemetry: "0 < length (telemetry_text u r1 r2) \<and> length (telemetry_text u r1 r2) \<le> 35"
proof -
  have "r1 mod 40 < 40" "r2 mod 10 < 10" by simp_all
  then have b: "length (dec_digits ((245 + r1 mod 40) div 10)) \<le> 2" "length (dec_digits ((245 + r1 mod 40) mod 10)) \<le> 1"
      "length (dec_digits ((328 + r2 mod 10) div 100)) \<le> 1" "length (dec_digits ((328 + r2 mod 10) mod 100)) \<le> 2"
    by (intro length_dec_digits; simp; linarith)+
  have "unat u < 2 ^ 32" using unsigned_less [of u, where ?'a = nat] by simp
  then have "length (dec_digits (unat u)) \<le> 10" by (intro length_dec_digits) simp_all
  with b show ?thesis by (simp add: telemetry_text_def dec_padded_def Let_def)
qed

text \<open>A change inside the pool does not touch the rings.\<close>

lemma node_pool_change:
  assumes inv: "node_inv k nd" and lay: "demo_layout k" and good: "pool_good k m p fl"
    and out: "\<forall>a. \<not> in_block (s_pool_memory k) 1024 a \<longrightarrow> m a = node_mem nd a"
  shows "node_inv k (nd\<lparr>node_mem := m, s_telemetry_pool := p\<rparr>)"
    and "tx_bytes (nd\<lparr>node_mem := m, s_telemetry_pool := p\<rparr>) = tx_bytes nd"
    and "rx_bytes (nd\<lparr>node_mem := m, s_telemetry_pool := p\<rparr>) = rx_bytes nd"
proof -
  obtain q r where q: "ua_tx_queue (s_device_uart nd) = Some q" "spsc_wf q" "sq_buffer q = s_uart_tx_raw k" "sq_capacity q = 256"
      and r: "ua_rx_queue (s_device_uart nd) = Some r" "spsc_wf r" "sq_buffer r = s_uart_rx_raw k" "sq_capacity r = 256"
    using inv by (auto simp: node_inv_def ring_at_def)
  show "node_inv k (nd\<lparr>node_mem := m, s_telemetry_pool := p\<rparr>)"
    using inv good by (auto simp: node_inv_def pool_good_def pool_ok_def)
  have "spsc_bytes m q = spsc_bytes (node_mem nd) q"
    using layout_aside(5) [OF lay] out q(3,4) by (intro spsc_bytes_cong [OF q(2)]) (auto simp: disjoint_blocks_def)
  then show "tx_bytes (nd\<lparr>node_mem := m, s_telemetry_pool := p\<rparr>) = tx_bytes nd" using q(1) by (simp add: tx_bytes_def)
  have "spsc_bytes m r = spsc_bytes (node_mem nd) r"
    using layout_aside(6) [OF lay] out r(3,4) by (intro spsc_bytes_cong [OF r(2)]) (auto simp: disjoint_blocks_def)
  then show "rx_bytes (nd\<lparr>node_mem := m, s_telemetry_pool := p\<rparr>) = rx_bytes nd" using r(1) by (simp add: rx_bytes_def)
qed

text \<open>The text in the block: it fits, and \<^verbatim>\<open>strlen\<close> finds its end.\<close>

lemma telemetry_stored:
  fixes u :: u32 and r1 r2 :: nat
  assumes good: "pool_good k m p fl" and lay: "demo_layout k" and i: "i < unat (po_capacity p)" "i \<notin> set fl"
  defines "bs \<equiv> bytes_of (telemetry_text u r1 r2)"
  defines "m' \<equiv> mem_write m (block_addr p i) (bs @ [0])"
  shows "pool_good k m' p fl" and "\<forall>a. \<not> in_block (s_pool_memory k) 1024 a \<longrightarrow> m' a = m a"
    and "strlen m' (block_addr p i) 0 = Some (of_nat (length bs))" and "mem_read m' (block_addr p i) (length bs) = bs"
proof -
  let ?b = "block_addr p i"
  have inv: "pool_inv m p fl" and w: "pool_within k p" using good by (simp_all add: pool_good_def)
  have len: "length bs \<le> 35" using length_telemetry by (simp add: bs_def)
  have len64: "length (bs @ [0]) \<le> unat (po_block_size p)" using len w by (simp add: pool_within_def)
  note wr = pool_write_in [OF inv pool_within_in [OF w] layout_aside(8) [OF lay] i len64, folded m'_def]
  show "pool_good k m' p fl" using wr(1) w by (simp add: pool_good_def)
  show "\<forall>a. \<not> in_block (s_pool_memory k) 1024 a \<longrightarrow> m' a = m a" using wr(2) by blast
  have at: "m' (?b + of_nat j) = (bs @ [0]) ! j" if "j \<le> length bs" for j
    using that len by (simp add: m'_def mem_write_offset)
  have "bs ! j \<noteq> 0" if "j < length bs" for j
    using that telemetry_printable [of u r1 r2] printable_byte by (simp add: bs_def bytes_of_def list_all_length)
  then have "\<forall>j<length bs. m' (?b + of_nat j) \<noteq> 0" using at by (simp add: nth_append)
  then show "strlen m' ?b 0 = Some (of_nat (length bs))"
    using strlen_stored [of "length bs" m' ?b 0] at [of "length bs"] by simp
  show "mem_read m' ?b (length bs) = bs" using at by (intro nth_equalityI) (simp_all add: nth_append)
qed

lemma node_emit:
  assumes inv: "node_inv k nd" and lay: "demo_layout k"
    and good: "pool_good k (node_mem nd) (s_telemetry_pool nd) (i # fl)"
  shows "\<exists>m p u. emit_sensor_telemetry dbg k (up, r1, r2) nd =
      Some (nd\<lparr>g_stats := (g_stats nd)\<lparr>packets_sent := packets_sent (g_stats nd) + 1\<rparr>, node_mem := m,
        s_device_uart := u, s_telemetry_pool := p\<rparr>)
    \<and> node_inv k (nd\<lparr>node_mem := m, s_device_uart := u, s_telemetry_pool := p\<rparr>) \<and> pool_good k m p (i # fl)
    \<and> tx_bytes (nd\<lparr>node_mem := m, s_device_uart := u, s_telemetry_pool := p\<rparr>) = tx_bytes nd
        @ take (256 - length (tx_bytes nd)) (frame_bytes (packet k (ucast (packets_sent (g_stats nd) + 1)) MSG_TELEMETRY_DATA
            (bytes_of (telemetry_text up r1 r2))))
    \<and> rx_bytes (nd\<lparr>node_mem := m, s_device_uart := u, s_telemetry_pool := p\<rparr>) = rx_bytes nd"
proof -
  let ?t = "telemetry_text up r1 r2"
  let ?n = "length ?t"
  obtain m1 p1 where al: "fw_pool_alloc (node_mem nd) (Some (s_telemetry_pool nd)) = Some (block_addr p1 i, m1, Some p1)"
      "pool_good k m1 p1 fl" "i < unat (po_capacity p1)" "i \<notin> set fl" "block_addr p1 i \<noteq> FW_NULL"
      "\<forall>a. \<not> in_block (s_pool_memory k) 1024 a \<longrightarrow> m1 a = node_mem nd a"
    using demo_alloc [OF good lay] by metis
  let ?b = "block_addr p1 i"
  define m2 where "m2 = mem_write m1 ?b (bytes_of ?t @ [0])"
  note st = telemetry_stored [OF al(2) lay al(3,4), of up r1 r2, folded m2_def, unfolded bytes_of_length]
  define nd2 where "nd2 = nd\<lparr>s_telemetry_pool := p1, node_mem := m2\<rparr>"
  have nd2': "nd2 = nd\<lparr>node_mem := m2, s_telemetry_pool := p1\<rparr>" by (simp add: nd2_def)
  have out2: "\<forall>a. \<not> in_block (s_pool_memory k) 1024 a \<longrightarrow> m2 a = node_mem nd a" using st(2) al(6) by simp
  note nd2 = node_pool_change [OF inv lay st(1) out2, folded nd2']
  have len: "0 < ?n" "?n \<le> 35" using length_telemetry by blast+
  have un: "unat (ucast (of_nat ?n :: usize) :: u16) = ?n"
    using len(2) by (simp add: unsigned_ucast_eq unsigned_of_nat take_bit_nat_eq_self)
  then have n0: "(ucast (of_nat ?n :: usize) :: u16) > 0" using len(1) by (metis gr0I less_irrefl unat_0 word_gt_0)
  have rd: "mem_read (node_mem nd2) ?b ?n = bytes_of ?t" using st(4) by (simp add: nd2_def)
  obtain m3 u where sd: "send_zerowire_packet k MSG_TELEMETRY_DATA ?b (ucast (of_nat ?n :: usize)) nd2 =
        Some (nd2\<lparr>g_stats := (g_stats nd2)\<lparr>packets_sent := packets_sent (g_stats nd2) + 1\<rparr>, node_mem := m3, s_device_uart := u\<rparr>)"
      "node_inv k (nd2\<lparr>node_mem := m3, s_device_uart := u\<rparr>)"
      "tx_bytes (nd2\<lparr>node_mem := m3, s_device_uart := u\<rparr>) = tx_bytes nd2 @ take (256 - length (tx_bytes nd2))
        (frame_bytes (packet k (ucast (packets_sent (g_stats nd2) + 1)) MSG_TELEMETRY_DATA (bytes_of ?t)))"
      "rx_bytes (nd2\<lparr>node_mem := m3, s_device_uart := u\<rparr>) = rx_bytes nd2"
      "\<forall>a. in_block (s_pool_memory k) 1024 a \<longrightarrow> m3 a = node_mem nd2 a"
    using node_send [OF nd2(1) lay al(5) _ n0, of MSG_TELEMETRY_DATA] un len(2) rd by auto
  have g3: "pool_good k m3 p1 fl"
    using pool_frame [of m2 p1 fl k m3] st(1) sd(5) layout_aside(8) [OF lay] by (simp add: pool_good_def nd2_def)
  obtain m4 p4 where fr: "fw_pool_free dbg m3 (Some p1) ?b = Some (FW_OK, m4, Some p4)" "pool_good k m4 p4 (i # fl)"
      "\<forall>a. \<not> in_block (s_pool_memory k) 1024 a \<longrightarrow> m4 a = m3 a"
    using demo_free [OF g3 lay al(3,4), of dbg] by blast
  have nd4': "nd2\<lparr>s_device_uart := u, node_mem := m4, s_telemetry_pool := p4\<rparr>
      = nd\<lparr>node_mem := m4, s_device_uart := u, s_telemetry_pool := p4\<rparr>"
    by (simp add: nd2_def)
  note nd4 = node_pool_change [OF sd(2) lay fr(2), simplified, OF fr(3), unfolded nd4']
  have run: "emit_sensor_telemetry dbg k (up, r1, r2) nd =
      Some (nd\<lparr>g_stats := (g_stats nd)\<lparr>packets_sent := packets_sent (g_stats nd) + 1\<rparr>, node_mem := m4,
        s_device_uart := u, s_telemetry_pool := p4\<rparr>)"
    using al(1,5) st(3) sd(1) fr(1) len(2) unfolding m2_def nd2_def
    by (simp add: emit_sensor_telemetry_def snprintf_text_def POOL_BLOCK_SIZE_def Let_def)
  show ?thesis
    by (intro exI [of _ m4] exI [of _ p4] exI [of _ u] conjI run nd4(1) fr(2))
      (use nd4(2,3) nd2(2,3) sd(3,4) in \<open>simp_all add: nd2_def\<close>)
qed

lemma node_emit_exhausted:
  assumes "pool_good k (node_mem nd) (s_telemetry_pool nd) []"
  shows "emit_sensor_telemetry dbg k (up, r1, r2) nd = Some nd"
  using demo_alloc_empty [OF assms] by (simp add: emit_sensor_telemetry_def)

section \<open>Start-up\<close>

lemma demo_pool_layout:
  assumes "8 dvd b"
  shows "pool_layout 3 b 1024 64 = (b, 64, 8, 15)"
proof -
  have "round_up 3 b = b" using round_up_id [of 3 b] assms by simp
  moreover have "round_up 3 64 = 64" "round_up 3 4 = 8" by (simp_all add: round_up_def)
  ultimately show ?thesis by (simp add: pool_layout_def Let_def)
qed

text \<open>The bitmap takes the place of one block: 15 blocks, not \<^verbatim>\<open>POOL_BLOCKS\<close>.\<close>

lemma demo_pool_init:
  assumes lay: "demo_layout k"
  shows "\<exists>m' p. fw_pool_init m (Some p0) (s_pool_memory k) (of_nat POOL_BLOCKS * POOL_BLOCK_SIZE) POOL_BLOCK_SIZE 8
      = Some (FW_OK, m', Some p) \<and> pool_inv m' p [0..<15] \<and> pool_within k p \<and> po_capacity p = 15"
proof -
  let ?b = "s_pool_memory k"
  have b: "?b \<noteq> FW_NULL" "8 dvd unat ?b" "unat ?b + 1024 < 2 ^ 32" using lay by (simp_all add: demo_layout_def)
  note init = pool_init_layout [where buffer = ?b and sz = 1024 and al = 8 and bs = 64 and ?k0.0 = 3 and m = m and ?p0.0 = p0
      and start = "unat ?b" and b = 64 and bytes = 8 and c = 15]
  obtain m' p where p: "fw_pool_init m (Some p0) ?b 1024 64 8 = Some (FW_OK, m', Some p)"
      "pool_inv m' p [0..<15]" "unat (po_capacity p) = 15" "unat (po_block_size p) = 64" "unat (po_storage p) = unat ?b + 8"
    using init b demo_pool_layout [OF b(2)] by auto
  have "po_alloc_bitmap p = align_up ?b 8" using pool_init_bitmap [OF p(1)] by simp
  then have "unat (po_alloc_bitmap p) = unat ?b"
    using align_up_round [of 3 ?b] b round_up_id [of 3 "unat ?b"] by simp
  moreover have "po_block_size p = 64" "po_capacity p = 15"
    using p(3,4) by (simp_all add: word_unat_eq_iff)
  ultimately show ?thesis
    using p by (intro exI [of _ m'] exI [of _ p]) (simp add: pool_within_def pool_in_def POOL_BLOCKS_def POOL_BLOCK_SIZE_def)
qed

lemma boot_ring:
  assumes "nowrap b 256" and "b \<noteq> FW_NULL"
  shows "\<exists>q. snd (fw_spsc_init (Some zero_spsc) b UART_BUFFER_SIZE) = Some q \<and> ring_at b (Some q) \<and> spsc_bytes m q = []"
  using spsc_init_wf [of zero_spsc b 256] assms
  by (simp add: fw_spsc_init_def UART_BUFFER_SIZE_def ring_at_def)

lemma boot_tasklets:
  "\<exists>q. snd (fw_tasklet_queue_init (Some zero_tasklet_queue) (Some s_tasklet_items) TASKLET_CAPACITY) = Some q
     \<and> tasklet_inv q \<and> tasklet_pending q = []"
  using tasklet_init_wf [of zero_tasklet_queue s_tasklet_items TASKLET_CAPACITY]
  by (simp add: fw_tasklet_queue_init_def TASKLET_CAPACITY_def s_tasklet_items_def tasklet_inv_def tasklet_pending_def)

lemma node_boot_inv:
  assumes lay: "demo_layout k" and gpio: "gpio_wf gpio"
  shows "\<exists>nd. node_boot k m gpio pm now = Some nd \<and> node_inv k nd \<and> tx_bytes nd = [] \<and> rx_bytes nd = []
    \<and> tasklet_pending (s_tasklet_q nd) = [] \<and> g_stats nd = initial_stats
    \<and> pool_inv (node_mem nd) (s_telemetry_pool nd) [0..<15] \<and> po_capacity (s_telemetry_pool nd) = 15"
proof -
  obtain m' p where p: "fw_pool_init m (Some blank_pool) (s_pool_memory k) (of_nat POOL_BLOCKS * POOL_BLOCK_SIZE) POOL_BLOCK_SIZE 8
      = Some (FW_OK, m', Some p)" "pool_inv m' p [0..<15]" "pool_within k p" "po_capacity p = 15"
    using demo_pool_init [OF lay] by blast
  have nw: "nowrap (s_uart_tx_raw k) 256" "s_uart_tx_raw k \<noteq> FW_NULL" "nowrap (s_uart_rx_raw k) 256" "s_uart_rx_raw k \<noteq> FW_NULL"
    using lay by (simp_all add: demo_layout_def)
  obtain tx where tx: "snd (fw_spsc_init (Some zero_spsc) (s_uart_tx_raw k) UART_BUFFER_SIZE) = Some tx"
      "ring_at (s_uart_tx_raw k) (Some tx)" "spsc_bytes m' tx = []"
    using boot_ring [OF nw(1,2)] by blast
  obtain rx where rx: "snd (fw_spsc_init (Some zero_spsc) (s_uart_rx_raw k) UART_BUFFER_SIZE) = Some rx"
      "ring_at (s_uart_rx_raw k) (Some rx)" "spsc_bytes m' rx = []"
    using boot_ring [OF nw(3,4)] by blast
  obtain tq where tq: "snd (fw_tasklet_queue_init (Some zero_tasklet_queue) (Some s_tasklet_items) TASKLET_CAPACITY) = Some tq"
      "tasklet_inv tq" "tasklet_pending tq = []"
    using boot_tasklets by blast
  have "gpio_wf (snd (fw_gpio_init LED_HEARTBEAT gpio))"
    using gpio by (simp add: fw_gpio_init_def Let_def gpio_wf_def)
  then have g: "gpio_wf (fw_gpio_write LED_HEARTBEAT False (snd (fw_gpio_init LED_HEARTBEAT gpio)))"
    using gpio_ops(1) by blast
  have ok: "pool_ok (m', p)" using p(2) by (auto simp: pool_ok_def)
  show ?thesis
    using p tx rx tq g ok
    by (simp add: node_boot_def Let_def fw_uart_init_def fw_cmd_table_init_def node_inv_def tx_bytes_def rx_bytes_def)
qed

section \<open>A frame comes in\<close>

text \<open>
  C8: a frame that waits for transmission is received in one pass of the communication part of the
  superloop and processed: a PING is answered by a PONG with its sequence number, an LED command toggles
  the pin, the counters advance by one, and every byte that followed the frame in the same read is lost.
\<close>

theorem node_answers_frame:
  assumes "demo_layout k" and "node_inv k nd" and "frame_wf f" and "tx_bytes nd = frame_bytes f @ rest"
    and "length (tx_bytes nd) \<le> 128" and "rx_bytes nd = []" and "tasklet_pending (s_tasklet_q nd) = []"
  shows "\<exists>nd'. (service_virtual_wire_loopback nd \<bind> service_uart_rx_stream k) \<bind> dispatch_pending = Some nd'
    \<and> node_inv k nd' \<and> rx_bytes nd' = [] \<and> tasklet_pending (s_tasklet_q nd') = []
    \<and> tx_bytes nd' = (if zf_msg_id f = MSG_CMD_PING then frame_bytes (pong k (zf_seq f)) else [])
    \<and> g_stats nd' = (g_stats nd)\<lparr>packets_received := packets_received (g_stats nd) + 1,
        tasklets_executed := tasklets_executed (g_stats nd) + 1\<rparr>
    \<and> node_gpio nd' = (if zf_msg_id f = MSG_CMD_SET_LED then fw_gpio_toggle LED_HEARTBEAT (node_gpio nd) else node_gpio nd)"
proof -
  obtain m u where l: "service_virtual_wire_loopback nd = Some (nd\<lparr>node_mem := m, s_device_uart := u\<rparr>)"
      "node_inv k (nd\<lparr>node_mem := m, s_device_uart := u\<rparr>)" "tx_bytes (nd\<lparr>node_mem := m, s_device_uart := u\<rparr>) = []"
      "rx_bytes (nd\<lparr>node_mem := m, s_device_uart := u\<rparr>) = frame_bytes f @ rest"
    using node_loopback [OF assms(2,1)] assms(4-6) by auto
  let ?nd1 = "nd\<lparr>node_mem := m, s_device_uart := u\<rparr>"
  have tq: "tasklet_inv (s_tasklet_q nd)" using assms(2) by (simp add: node_inv_def)
  then have "0 < tasklet_cap (s_tasklet_q nd)"
    by (simp add: tasklet_cap_def tasklet_inv_def tasklet_wf_def unat_gt_0)
  then have room: "length (tasklet_pending (s_tasklet_q ?nd1)) < tasklet_cap (s_tasklet_q ?nd1)" using assms(7) by simp
  have le: "length (rx_bytes ?nd1) \<le> 128" using l(4) assms(4,5) by simp
  obtain m' u' q where r: "service_uart_rx_stream k ?nd1 = Some (?nd1\<lparr>node_mem := m', s_device_uart := u', s_tasklet_q := q,
        g_stats := (g_stats ?nd1)\<lparr>packets_received := packets_received (g_stats ?nd1) + 1\<rparr>\<rparr>)"
      "node_inv k (?nd1\<lparr>node_mem := m', s_device_uart := u', s_tasklet_q := q\<rparr>)"
      "tx_bytes (?nd1\<lparr>node_mem := m', s_device_uart := u', s_tasklet_q := q\<rparr>) = tx_bytes ?nd1
        @ (if zf_msg_id f = MSG_CMD_PING then take (256 - length (tx_bytes ?nd1)) (frame_bytes (pong k (zf_seq f))) else [])"
      "rx_bytes (?nd1\<lparr>node_mem := m', s_device_uart := u', s_tasklet_q := q\<rparr>) = []"
      "tasklet_pending q = tasklet_pending (s_tasklet_q ?nd1) @ [packet_work f]"
    using node_rx_first_frame [OF l(2) assms(1,3) l(4) le room] by blast
  define nd2 where "nd2 = ?nd1\<lparr>node_mem := m', s_device_uart := u', s_tasklet_q := q,
        g_stats := (g_stats ?nd1)\<lparr>packets_received := packets_received (g_stats ?nd1) + 1\<rparr>\<rparr>"
  have inv2: "node_inv k nd2" using r(2) by (simp add: nd2_def node_inv_def)
  obtain q' where d: "dispatch_pending nd2 =
      (case run_work (tasklet_pending (s_tasklet_q nd2)) (g_stats nd2, node_gpio nd2) of
         (st, gpio) \<Rightarrow> Some (nd2\<lparr>g_stats := st, node_gpio := gpio, s_tasklet_q := q'\<rparr>))"
      "tasklet_inv q'" "tasklet_pending q' = []"
    using node_dispatch [OF inv2] by blast
  have work: "tasklet_pending (s_tasklet_q nd2) = [packet_work f]" using r(5) assms(7) by (simp add: nd2_def)
  let ?g = "if zf_msg_id f = MSG_CMD_SET_LED then fw_gpio_toggle LED_HEARTBEAT (node_gpio nd) else node_gpio nd"
  let ?nd3 = "nd2\<lparr>g_stats := (g_stats nd2)\<lparr>tasklets_executed := tasklets_executed (g_stats nd2) + 1\<rparr>,
    node_gpio := ?g, s_tasklet_q := q'\<rparr>"
  have run: "(service_virtual_wire_loopback nd \<bind> service_uart_rx_stream k) \<bind> dispatch_pending = Some ?nd3"
    using l(1) r(1) d(1) work by (simp add: nd2_def run_packet_work)
  have "gpio_wf (node_gpio nd)" using assms(2) by (simp add: node_inv_def)
  then have "gpio_wf ?g" using gpio_ops(1) [of "node_gpio nd" LED_HEARTBEAT True] by simp
  then have "node_inv k ?nd3" using inv2 d(2) by (simp add: node_inv_def)
  moreover have "length (frame_bytes (pong k (zf_seq f))) \<le> 256"
    using packet_wf [OF assms(1), of "bytes_of ''PONG_FROM_NODE''"] length_frame_bytes [of "pong k (zf_seq f)"]
    by (simp add: pong_def)
  then have "tx_bytes ?nd3 = (if zf_msg_id f = MSG_CMD_PING then frame_bytes (pong k (zf_seq f)) else [])"
    using r(3) l(3) by (simp add: nd2_def tx_bytes_def del: length_spsc_bytes)
  moreover have "rx_bytes ?nd3 = []" using r(4) by (simp add: nd2_def rx_bytes_def)
  ultimately show ?thesis using run d(3) by (intro exI [of _ ?nd3]) (simp add: nd2_def)
qed

text \<open>A concrete layout.\<close>

definition demo_stack :: frame_stack where
  "demo_stack = \<lparr>s_pool_memory = 1024, s_uart_tx_raw = 4096, s_uart_rx_raw = 8192, wire_buf = 12288, rx_raw = 16384,
     reply_raw = 20480, garbage = 24576, ping_text = 28672,
     stack_frame = \<lparr>zf_seq = 0, zf_msg_id = 0, zf_length = 0, zf_payload = replicate 256 0\<rparr>, resp_buf = replicate 256 0\<rparr>"

definition demo_gpio :: gpio_state where
  "demo_gpio = \<lparr>s_virtual_gpio_state = replicate 8 0, s_virtual_gpio_dir = replicate 8 0\<rparr>"

definition demo_pm :: pm_state where
  "demo_pm = \<lparr>s_period_start_us = 0, s_last_wake_us = 0, s_total_active_us = 0, s_total_sleep_us = 0, s_sleep_count = 0,
     s_pm_initialized = False\<rparr>"

lemma demo_layout_stack: "demo_layout demo_stack"
proof -
  have "all_apart [(1024, 1024), (4096, 256), (8192, 256), (12288, 128), (16384, 128), (20480, 64), (24576, 12)]"
    unfolding all_apart.simps by (auto simp: nowrap_def intro!: disjoint_blocksI)
  then show ?thesis by (simp add: demo_layout_def demo_stack_def del: all_apart.simps)
qed

lemma demo_gpio_wf: "gpio_wf demo_gpio"
  by (simp add: gpio_wf_def demo_gpio_def)

theorem node_answers_frame_witness:
  "\<exists>nd nd1 nd'. node_boot demo_stack (\<lambda>_. 0) demo_gpio demo_pm 0 = Some nd
     \<and> send_zerowire_packet demo_stack MSG_CMD_PING 28672 14 nd = Some nd1
     \<and> (service_virtual_wire_loopback nd1 \<bind> service_uart_rx_stream demo_stack) \<bind> dispatch_pending = Some nd'
     \<and> tx_bytes nd' = frame_bytes (pong demo_stack 1) \<and> packets_received (g_stats nd') = 1"
proof -
  obtain nd where nd: "node_boot demo_stack (\<lambda>_. 0) demo_gpio demo_pm 0 = Some nd" "node_inv demo_stack nd" "tx_bytes nd = []"
      "rx_bytes nd = []" "tasklet_pending (s_tasklet_q nd) = []" "g_stats nd = initial_stats"
    using node_boot_inv [OF demo_layout_stack demo_gpio_wf, of "\<lambda>_. 0" demo_pm 0] by blast
  let ?f = "packet demo_stack 1 MSG_CMD_PING (mem_read (node_mem nd) 28672 14)"
  have f: "frame_wf ?f" "length (frame_bytes ?f) = 22"
    using packet_wf [OF demo_layout_stack, of "mem_read (node_mem nd) 28672 14"] by (simp_all add: length_frame_bytes)
  obtain m u where s: "send_zerowire_packet demo_stack MSG_CMD_PING 28672 14 nd =
        Some (nd\<lparr>g_stats := (g_stats nd)\<lparr>packets_sent := packets_sent (g_stats nd) + 1\<rparr>, node_mem := m, s_device_uart := u\<rparr>)"
      "node_inv demo_stack (nd\<lparr>node_mem := m, s_device_uart := u\<rparr>)"
      "tx_bytes (nd\<lparr>node_mem := m, s_device_uart := u\<rparr>) = frame_bytes ?f" "rx_bytes (nd\<lparr>node_mem := m, s_device_uart := u\<rparr>) = []"
    using node_send [OF nd(2) demo_layout_stack, of 28672 14 MSG_CMD_PING] nd(3,4,6) f(2) by (auto simp: initial_stats_def)
  let ?nd1 = "nd\<lparr>g_stats := (g_stats nd)\<lparr>packets_sent := packets_sent (g_stats nd) + 1\<rparr>, node_mem := m, s_device_uart := u\<rparr>"
  have tx: "tx_bytes ?nd1 = frame_bytes ?f @ []" using s(3) by (simp add: tx_bytes_def)
  have rx: "rx_bytes ?nd1 = []" using s(4) by (simp add: rx_bytes_def)
  have inv: "node_inv demo_stack ?nd1" using s(2) by (simp add: node_inv_def)
  have le: "length (tx_bytes ?nd1) \<le> 128" unfolding tx using f(2) by simp
  obtain nd' where "(service_virtual_wire_loopback ?nd1 \<bind> service_uart_rx_stream demo_stack) \<bind> dispatch_pending = Some nd'"
      "tx_bytes nd' = frame_bytes (pong demo_stack 1)" "packets_received (g_stats nd') = 1"
    using node_answers_frame [OF demo_layout_stack inv f(1) tx le rx] nd(5,6) by (auto simp: packet_def initial_stats_def)
  then show ?thesis using nd(1) s(1) by blast
qed

text \<open>
  A telemetry report takes a block, formats its text into it, sends one frame that carries exactly this
  text and the next sequence number, and gives the block back: the free list of the pool is what it was, and
  no other part of the node changes; with no free block it does nothing.
\<close>

theorem telemetry_frame_sent:
  assumes "demo_layout k" and "node_inv k nd" and "pool_inv (node_mem nd) (s_telemetry_pool nd) fl"
  shows "if fl = [] then emit_sensor_telemetry dbg k (up, r1, r2) nd = Some nd
    else \<exists>m p u. emit_sensor_telemetry dbg k (up, r1, r2) nd =
        Some (nd\<lparr>g_stats := (g_stats nd)\<lparr>packets_sent := packets_sent (g_stats nd) + 1\<rparr>, node_mem := m,
          s_device_uart := u, s_telemetry_pool := p\<rparr>)
      \<and> node_inv k (nd\<lparr>node_mem := m, s_device_uart := u, s_telemetry_pool := p\<rparr>) \<and> pool_inv m p fl
      \<and> tx_bytes (nd\<lparr>node_mem := m, s_device_uart := u, s_telemetry_pool := p\<rparr>) = tx_bytes nd
          @ take (256 - length (tx_bytes nd)) (frame_bytes (packet k (ucast (packets_sent (g_stats nd) + 1)) MSG_TELEMETRY_DATA
              (bytes_of (telemetry_text up r1 r2))))
      \<and> rx_bytes (nd\<lparr>node_mem := m, s_device_uart := u, s_telemetry_pool := p\<rparr>) = rx_bytes nd"
proof -
  have good: "pool_good k (node_mem nd) (s_telemetry_pool nd) fl" using assms by (simp add: pool_good_def node_inv_def)
  show ?thesis
  proof (cases fl)
    case Nil
    then show ?thesis using node_emit_exhausted [of k nd dbg up r1 r2] good by simp
  next
    case (Cons i l)
    then show ?thesis using node_emit [OF assms(2,1) good [unfolded Cons], of dbg up r1 r2] by (fastforce simp: pool_good_def)
  qed
qed

theorem telemetry_frame_sent_witness:
  "\<exists>nd nd'. node_boot demo_stack (\<lambda>_. 0) demo_gpio demo_pm 0 = Some nd
     \<and> emit_sensor_telemetry True demo_stack (1500, 7, 2) nd = Some nd'
     \<and> tx_bytes nd' = frame_bytes (packet demo_stack 1 MSG_TELEMETRY_DATA (bytes_of ''UP:1500ms|TMP:25.2C|VCC:3.30V''))
     \<and> pool_inv (node_mem nd') (s_telemetry_pool nd') [0..<15]"
proof -
  obtain nd where nd: "node_boot demo_stack (\<lambda>_. 0) demo_gpio demo_pm 0 = Some nd" "node_inv demo_stack nd" "tx_bytes nd = []"
      "g_stats nd = initial_stats" "pool_inv (node_mem nd) (s_telemetry_pool nd) [0..<15]"
    using node_boot_inv [OF demo_layout_stack demo_gpio_wf, of "\<lambda>_. 0" demo_pm 0] by blast
  let ?t = "''UP:1500ms|TMP:25.2C|VCC:3.30V''" and ?f = "packet demo_stack 1 MSG_TELEMETRY_DATA (bytes_of ''UP:1500ms|TMP:25.2C|VCC:3.30V'')"
  have shown: "telemetry_text 1500 7 2 = ?t"
    by (simp add: telemetry_text_def Let_def dec_padded_def dec_digits.simps)
  have f: "frame_wf ?f" "unat (zf_length ?f) = length ?t"
    using packet_wf [OF demo_layout_stack, of "bytes_of ?t"] by simp_all
  have len: "length (frame_bytes ?f) \<le> 256" using length_frame_bytes [OF f(1)] f(2) by simp
  have ne: "[0..<15] \<noteq> []" by simp
  obtain m p u where e: "emit_sensor_telemetry True demo_stack (1500, 7, 2) nd =
        Some (nd\<lparr>g_stats := (g_stats nd)\<lparr>packets_sent := packets_sent (g_stats nd) + 1\<rparr>, node_mem := m,
          s_device_uart := u, s_telemetry_pool := p\<rparr>)" "pool_inv m p [0..<15]"
      "tx_bytes (nd\<lparr>node_mem := m, s_device_uart := u, s_telemetry_pool := p\<rparr>) = frame_bytes ?f"
    using telemetry_frame_sent [OF demo_layout_stack nd(2,5), of True 1500 7 2] ne len
    unfolding shown nd(3,4) by (auto simp: initial_stats_def simp del: upt_Suc)
  let ?nd' = "nd\<lparr>g_stats := (g_stats nd)\<lparr>packets_sent := packets_sent (g_stats nd) + 1\<rparr>, node_mem := m,
    s_device_uart := u, s_telemetry_pool := p\<rparr>"
  show ?thesis using nd(1) e by (intro exI [of _ nd] exI [of _ ?nd'] conjI) (simp_all add: tx_bytes_def del: upt_Suc)
qed

end
