(* ===== verification/Demo_Loop.thy ===== *)
theory Demo_Loop
  imports Demo_Run
begin

text \<open>
  The superloop of the demonstration node: every routine keeps the invariant and gives back the blocks it
  took, so from start-up on every pass returns, whatever arrives on the line, whichever keys are pressed and
  whatever the clock shows; the automatic demonstration ends.
\<close>

section \<open>Every routine returns to a good node\<close>

definition node_good :: "frame_stack \<Rightarrow> node \<Rightarrow> bool" where
  "node_good k nd \<longleftrightarrow> node_inv k nd \<and> po_free_count (s_telemetry_pool nd) = 15"

definition returns_good :: "frame_stack \<Rightarrow> node option \<Rightarrow> bool" where
  "returns_good k r \<longleftrightarrow> (\<exists>nd. r = Some nd \<and> node_good k nd)"

lemma returns_goodE:
  assumes "returns_good k r"
  obtains nd where "r = Some nd" and "node_good k nd"
  using assms by (auto simp: returns_good_def)

lemma node_good_stats [simp]: "node_good k (nd\<lparr>g_stats := st\<rparr>) = node_good k nd"
  by (simp add: node_good_def)

lemma node_good_gpio: "node_good k nd \<Longrightarrow> gpio_wf g \<Longrightarrow> node_good k (nd\<lparr>node_gpio := g\<rparr>)"
  by (simp add: node_good_def node_inv_def)

lemma node_good_pm [simp]: "node_good k (nd\<lparr>node_pm := x\<rparr>) = node_good k nd"
  by (simp add: node_good_def node_inv_def)

lemma node_good_pool:
  assumes "node_good k nd"
  obtains i fl where "pool_good k (node_mem nd) (s_telemetry_pool nd) (i # fl)" and "length (i # fl) = 15"
proof -
  from assms obtain l where l: "pool_good k (node_mem nd) (s_telemetry_pool nd) l"
    by (auto simp: node_good_def node_inv_def pool_ok_def pool_good_def)
  then have "unat (po_free_count (s_telemetry_pool nd)) = length l" by (simp add: pool_good_def pool_inv_def)
  then have "length l = 15" using assms by (simp add: node_good_def)
  then show thesis using l that by (cases l) simp_all
qed

lemma pool_good_count: "pool_good k m p fl \<Longrightarrow> length fl = 15 \<Longrightarrow> po_free_count p = 15"
  by (simp add: pool_good_def pool_inv_def word_unat_eq_iff)

lemma emit_good:
  assumes "node_good k nd" and lay: "demo_layout k"
  shows "returns_good k (emit_sensor_telemetry dbg k reading nd)"
proof -
  obtain up r1 r2 where r: "reading = (up, r1, r2)" by (cases reading)
  have inv: "node_inv k nd" using assms(1) by (simp add: node_good_def)
  obtain i fl where p: "pool_good k (node_mem nd) (s_telemetry_pool nd) (i # fl)" "length (i # fl) = 15"
    using node_good_pool [OF assms(1)] by blast
  obtain m p' u where e: "emit_sensor_telemetry dbg k (up, r1, r2) nd =
      Some (nd\<lparr>g_stats := (g_stats nd)\<lparr>packets_sent := packets_sent (g_stats nd) + 1\<rparr>, node_mem := m,
        s_device_uart := u, s_telemetry_pool := p'\<rparr>)"
    "node_inv k (nd\<lparr>node_mem := m, s_device_uart := u, s_telemetry_pool := p'\<rparr>)" "pool_good k m p' (i # fl)"
    using node_emit [OF inv lay p(1)] by blast
  then show ?thesis
    using pool_good_count [OF e(3) p(2)] by (simp add: returns_good_def node_good_def r node_inv_def)
qed

lemma ping_good:
  assumes "node_good k nd" and lay: "demo_layout k"
  shows "returns_good k (send_zerowire_packet k MSG_CMD_PING (ping_text k) 14 nd)"
proof -
  have inv: "node_inv k nd" using assms(1) by (simp add: node_good_def)
  have "ping_text k \<noteq> FW_NULL" using lay by (simp add: demo_layout_def)
  then obtain m u where e: "send_zerowire_packet k MSG_CMD_PING (ping_text k) 14 nd =
      Some (nd\<lparr>g_stats := (g_stats nd)\<lparr>packets_sent := packets_sent (g_stats nd) + 1\<rparr>, node_mem := m, s_device_uart := u\<rparr>)"
    "node_inv k (nd\<lparr>node_mem := m, s_device_uart := u\<rparr>)"
    using node_send [OF inv lay, of "ping_text k" 14 MSG_CMD_PING] by auto
  then show ?thesis using assms(1) by (simp add: returns_good_def node_good_def node_inv_def)
qed

lemma stress_good:
  assumes "node_good k nd" and lay: "demo_layout k"
  shows "returns_good k (stress_pool dbg nd)"
proof -
  have inv: "node_inv k nd" using assms(1) by (simp add: node_good_def)
  obtain i fl where p: "pool_good k (node_mem nd) (s_telemetry_pool nd) (i # fl)" "length (i # fl) = 15"
    using node_good_pool [OF assms(1)] by blast
  obtain m p' where e: "stress_pool dbg nd = Some (nd\<lparr>node_mem := m, s_telemetry_pool := p'\<rparr>)"
      "pool_good k m p' (rev (take POOL_BLOCKS (i # fl)) @ drop POOL_BLOCKS (i # fl))"
      "\<forall>a. \<not> in_block (s_pool_memory k) 1024 a \<longrightarrow> m a = node_mem nd a"
    using stress_run [OF lay p(1), of dbg] by blast
  have "length (rev (take POOL_BLOCKS (i # fl)) @ drop POOL_BLOCKS (i # fl)) = 15"
    using p(2) by (simp only: length_append length_rev length_take length_drop)
  then show ?thesis
    using e(1) node_pool_change(1) [OF inv lay e(2,3)] pool_good_count [OF e(2)]
    by (simp add: returns_good_def node_good_def)
qed

lemma noise_good:
  assumes "node_good k nd" and lay: "demo_layout k"
  shows "node_good k (inject_noise k nd)"
proof -
  let ?bs = "[0xAA, 0x55, 0x01, 0x99, 0x02, 0x00, 0xDE, 0xAD, 0, 0, 0, 0] :: u8 list"
  have inv: "node_inv k nd" using assms(1) by (simp add: node_good_def)
  have len: "length ?bs = 12" by simp
  have as: "aside k (garbage k) (length ?bs)" unfolding len by (rule layout_aside(4) [OF lay])
  have "\<exists>n m' u'. fw_uart_write (mem_write (node_mem nd) (garbage k) ?bs) (Some (s_device_uart nd))
        (fw_cspan_make (garbage k) (of_nat (length ?bs))) = (n, m', Some u')
      \<and> node_inv k (nd\<lparr>node_mem := m', s_device_uart := u'\<rparr>)"
    using node_transmit [OF inv lay as] by fastforce
  then obtain n m' u' where "fw_uart_write (mem_write (node_mem nd) (garbage k) ?bs) (Some (s_device_uart nd))
        (fw_cspan_make (garbage k) 12) = (n, m', Some u')"
      "node_inv k (nd\<lparr>node_mem := m', s_device_uart := u'\<rparr>)"
    unfolding len by auto
  then show ?thesis using assms(1) by (simp add: inject_noise_def Let_def node_good_def)
qed

lemma toggle_good: "node_good k nd \<Longrightarrow> node_good k (toggle_led nd)"
  using gpio_ops(1) [of "node_gpio nd" LED_HEARTBEAT True] node_good_gpio [of k nd "fw_gpio_toggle LED_HEARTBEAT (node_gpio nd)"]
  by (simp add: toggle_led_def node_good_def node_inv_def)

lemma loopback_good:
  assumes "node_good k nd" and lay: "demo_layout k"
  shows "returns_good k (service_virtual_wire_loopback nd)"
  using node_loopback [OF _ lay, of nd] assms(1) by (auto simp: returns_good_def node_good_def)

text \<open>Whatever bytes arrive.\<close>

lemma rx_good:
  assumes "node_good k nd" and lay: "demo_layout k"
  shows "returns_good k (service_uart_rx_stream k nd)"
proof -
  have inv: "node_inv k nd" using assms(1) by (simp add: node_good_def)
  obtain n m u where r: "fw_uart_read (node_mem nd) (Some (s_device_uart nd)) (fw_span_make (rx_raw k) 128) = (n, m, Some u)"
      "node_inv k (nd\<lparr>node_mem := m, s_device_uart := u\<rparr>)"
    using node_read [OF inv lay] by blast
  define nd1 where "nd1 = nd\<lparr>node_mem := m, s_device_uart := u\<rparr>"
  have g1: "node_good k nd1" using r(2) assms(1) by (simp add: nd1_def node_good_def)
  obtain st f c where sy: "fw_zerowire_stream_sync m (fw_cspan_make (rx_raw k) n) (Some (stack_frame k)) (Some 0) = (st, f, c)"
    by (rule prod_cases3)
  define nd2 where "nd2 = nd1\<lparr>g_stats := (g_stats nd1)\<lparr>packets_received := packets_received (g_stats nd1) + 1\<rparr>\<rparr>"
  have inv2: "node_inv k nd2" using g1 by (simp add: nd2_def node_good_def)
  have rt: "returns_good k (route_frame k (the f) nd2)"
    using node_route [OF inv2 lay, of "the f"] g1 by (auto simp: returns_good_def node_good_def nd2_def)
  have "service_uart_rx_stream k nd =
      (if n = 0 then Some nd1
       else if st = FW_OK then route_frame k (the f) nd2
       else if the c > 0 then Some (nd1\<lparr>g_stats := (g_stats nd1)\<lparr>crc_errors := crc_errors (g_stats nd1) + 1\<rparr>\<rparr>)
       else Some nd1)"
    using r(1) sy by (simp add: service_uart_rx_stream_def Let_def nd1_def nd2_def)
  then show ?thesis using rt g1 by (simp add: returns_good_def)
qed

lemma dispatch_good:
  assumes "node_good k nd"
  shows "returns_good k (dispatch_pending nd)"
proof -
  have inv: "node_inv k nd" using assms by (simp add: node_good_def)
  obtain st g where w: "run_work (tasklet_pending (s_tasklet_q nd)) (g_stats nd, node_gpio nd) = (st, g)"
    by (cases "run_work (tasklet_pending (s_tasklet_q nd)) (g_stats nd, node_gpio nd)")
  obtain q where q: "dispatch_pending nd = Some (nd\<lparr>g_stats := st, node_gpio := g, s_tasklet_q := q\<rparr>)" "tasklet_inv q"
    using node_dispatch [OF inv] unfolding w by auto
  have "gpio_wf g"
    using run_work_gpio [of "(g_stats nd, node_gpio nd)" "tasklet_pending (s_tasklet_q nd)"] inv w by (simp add: node_inv_def)
  then show ?thesis using q assms by (simp add: returns_good_def node_good_def node_inv_def)
qed

section \<open>A pass\<close>

text \<open>The locals the demonstrations rest on: only the automatic sequence and the keys write them.\<close>

definition same_control :: "main_locals \<Rightarrow> main_locals \<Rightarrow> bool" where
  "same_control ml ml' \<longleftrightarrow> start_time ml' = start_time ml \<and> auto_step ml' = auto_step ml \<and> is_running ml' = is_running ml"

lemma heartbeat_good:
  assumes "node_good k nd" and lay: "demo_layout k"
  shows "\<exists>nd' ml'. heartbeat_step dbg k inp (nd, ml) = Some (nd', ml') \<and> node_good k nd' \<and> same_control ml ml'"
proof (cases "auto_heartbeat_enabled (g_stats nd) \<and> fw_timeout_is_expired (pi_heartbeat inp) (Some (timer_heartbeat ml))")
  case True
  obtain nd1 where "emit_sensor_telemetry dbg k (pi_heartbeat_reading inp) nd = Some nd1" "node_good k nd1"
    using emit_good [OF assms] by (rule returns_goodE)
  then show ?thesis using True toggle_good [of k nd1] by (simp add: heartbeat_step_def same_control_def)
next
  case False
  then show ?thesis using assms(1) by (auto simp: heartbeat_step_def same_control_def)
qed

lemma perf_good:
  "node_good k nd \<Longrightarrow> \<exists>nd' ml'. perf_step inp (nd, ml) = (nd', ml') \<and> node_good k nd' \<and> same_control ml ml'"
  by (simp add: perf_step_def same_control_def)

lemma key_good:
  assumes "node_good k nd" and lay: "demo_layout k"
  shows "\<exists>nd' ml'. key_action dbg k inp ch (nd, ml) = Some (nd', ml') \<and> node_good k nd' \<and> auto_step ml' = auto_step ml"
proof -
  obtain e where e: "emit_sensor_telemetry dbg k (pi_key_reading inp) nd = Some e" "node_good k e"
    using emit_good [OF assms] by (rule returns_goodE)
  obtain p where p: "send_zerowire_packet k MSG_CMD_PING (ping_text k) 14 nd = Some p" "node_good k p"
    using ping_good [OF assms] by (rule returns_goodE)
  obtain t where t: "stress_pool dbg nd = Some t" "node_good k t"
    using stress_good [OF assms] by (rule returns_goodE)
  show ?thesis
    using assms(1) toggle_good [OF assms(1)] noise_good [OF assms] e p t by (simp add: key_action_def)
qed

text \<open>The times of the automatic sequence: step \<open>i\<close> waits for 400 (\<open>i\<close> + 1) milliseconds.\<close>

lemma auto_good:
  assumes "node_good k nd" and lay: "demo_layout k" and step: "auto_step ml \<le> 6"
  shows "\<exists>nd' ml'. auto_action dbg k inp (nd, ml) = Some (nd', ml') \<and> node_good k nd' \<and> start_time ml' = start_time ml
    \<and> auto_step ml' \<le> 6
    \<and> (if pi_elapsed inp - start_time ml < of_nat (400 * (auto_step ml + 1)) then ml' = ml
       else if auto_step ml < 6 then auto_step ml' = auto_step ml + 1 \<and> is_running ml' = is_running ml
       else \<not> is_running ml')"
proof -
  obtain e where e: "emit_sensor_telemetry dbg k (pi_auto_reading inp) nd = Some e" "node_good k e"
    using emit_good [OF assms(1,2)] by (rule returns_goodE)
  obtain p where p: "send_zerowire_packet k MSG_CMD_PING (ping_text k) 14 nd = Some p" "node_good k p"
    using ping_good [OF assms(1,2)] by (rule returns_goodE)
  obtain t where t: "stress_pool dbg nd = Some t" "node_good k t"
    using stress_good [OF assms(1,2)] by (rule returns_goodE)
  note facts = assms(1) toggle_good [OF assms(1)] noise_good [OF assms(1,2)] e p t
  from step consider "auto_step ml = 0" | "auto_step ml = 1" | "auto_step ml = 2" | "auto_step ml = 3" | "auto_step ml = 4"
    | "auto_step ml = 5" | "auto_step ml = 6" by linarith
  then show ?thesis by cases (use facts in \<open>simp_all add: auto_action_def Let_def not_less\<close>)
qed

lemma pass_good:
  assumes good: "node_good k nd" and lay: "demo_layout k" and step: "auto_step ml \<le> 6"
  shows "\<exists>nd' ml'. superloop_pass auto_mode dbg k inp (nd, ml) = Some (nd', ml') \<and> node_good k nd' \<and> auto_step ml' \<le> 6
    \<and> (pi_key inp = None \<longrightarrow> start_time ml' = start_time ml
      \<and> (if \<not> auto_mode \<or> pi_elapsed inp - start_time ml < of_nat (400 * (auto_step ml + 1))
         then auto_step ml' = auto_step ml \<and> is_running ml' = is_running ml
         else if auto_step ml < 6 then auto_step ml' = auto_step ml + 1 \<and> is_running ml' = is_running ml
         else \<not> is_running ml'))"
proof -
  define nd0 where "nd0 = nd\<lparr>g_stats := (g_stats nd)\<lparr>superloop_iterations := superloop_iterations (g_stats nd) + 1\<rparr>\<rparr>"
  define ml0 where "ml0 = ml\<lparr>loop_counter := loop_counter ml + 1\<rparr>"
  have g0: "node_good k nd0" using good by (simp add: nd0_def)
  obtain nd1 ml1 where h: "heartbeat_step dbg k inp (nd0, ml0) = Some (nd1, ml1)" "node_good k nd1" "same_control ml0 ml1"
    using heartbeat_good [OF g0 lay] by blast
  obtain nd2 ml2 where p: "perf_step inp (nd1, ml1) = (nd2, ml2)" "node_good k nd2" "same_control ml1 ml2"
    using perf_good [OF h(2)] by blast
  obtain nd3 where l: "service_virtual_wire_loopback nd2 = Some nd3" "node_good k nd3"
    using loopback_good [OF p(2) lay] by (rule returns_goodE)
  obtain nd4 where r: "service_uart_rx_stream k nd3 = Some nd4" "node_good k nd4"
    using rx_good [OF l(2) lay] by (rule returns_goodE)
  obtain nd5 where d: "dispatch_pending nd4 = Some nd5" "node_good k nd5"
    using dispatch_good [OF r(2)] by (rule returns_goodE)
  have c: "start_time ml2 = start_time ml" "auto_step ml2 = auto_step ml" "is_running ml2 = is_running ml"
    using h(3) p(3) by (simp_all add: same_control_def ml0_def)
  obtain nd6 ml6 where a: "(if auto_mode then auto_action dbg k inp (nd5, ml2) else Some (nd5, ml2)) = Some (nd6, ml6)"
      "node_good k nd6" "start_time ml6 = start_time ml" "auto_step ml6 \<le> 6"
      "if \<not> auto_mode \<or> pi_elapsed inp - start_time ml < of_nat (400 * (auto_step ml + 1))
       then auto_step ml6 = auto_step ml \<and> is_running ml6 = is_running ml
       else if auto_step ml < 6 then auto_step ml6 = auto_step ml + 1 \<and> is_running ml6 = is_running ml else \<not> is_running ml6"
    using auto_good [OF d(2) lay, of ml2 dbg inp] step d(2) c by (cases auto_mode) (auto split: if_splits)
  obtain first enter leave where sl: "pi_sleep inp = (first, enter, leave)" by (rule prod_cases3)
  obtain nd7 ml7 where k7: "(case pi_key inp of None \<Rightarrow> Some (nd6, ml6) | Some ch \<Rightarrow> key_action dbg k inp ch (nd6, ml6)) = Some (nd7, ml7)"
      "node_good k nd7" "pi_key inp = None \<longrightarrow> ml7 = ml6" "auto_step ml7 = auto_step ml6"
    using key_good [OF a(2) lay, of dbg inp "the (pi_key inp)" ml6] a(2) by (cases "pi_key inp") auto
  have "superloop_pass auto_mode dbg k inp (nd, ml) = Some (nd7\<lparr>node_pm := fw_pm_enter_sleep first enter leave (node_pm nd7)\<rparr>, ml7)"
    using h(1) p(1) l(1) r(1) d(1) a(1) k7(1) sl
    by (simp add: superloop_pass_def nd0_def [symmetric] ml0_def [symmetric])
  then show ?thesis using k7(2-4) a(3-5) by auto
qed

section \<open>The loop\<close>

lemma superloop_good:
  assumes "demo_layout k"
  shows "node_good k nd \<Longrightarrow> auto_step ml \<le> 6 \<Longrightarrow>
    \<exists>nd' ml'. superloop auto_mode dbg k inps (nd, ml) = Some (nd', ml') \<and> node_good k nd' \<and> auto_step ml' \<le> 6"
proof (induction inps arbitrary: nd ml)
  case (Cons inp inps)
  obtain nd1 ml1 where "superloop_pass auto_mode dbg k inp (nd, ml) = Some (nd1, ml1)" "node_good k nd1" "auto_step ml1 \<le> 6"
    using pass_good [OF Cons.prems(1) assms Cons.prems(2)] by blast
  then show ?case using Cons.IH Cons.prems by simp
qed simp

text \<open>Late passes finish the automatic sequence, one step each.\<close>

lemma superloop_append:
  "superloop a dbg k (xs @ ys) s = superloop a dbg k xs s \<bind> superloop a dbg k ys"
proof (induction xs arbitrary: s)
  case (Cons x xs)
  show ?case
  proof (cases "is_running (snd s)")
    case False
    then have "superloop a dbg k ys s = Some s" by (cases ys) simp_all
    then show ?thesis using False by simp
  next
    case True
    then show ?thesis using Cons.IH by (cases "superloop_pass a dbg k x s") simp_all
  qed
qed simp

lemma superloop_start_time:
  assumes "demo_layout k"
  shows "node_good k nd \<Longrightarrow> auto_step ml \<le> 6 \<Longrightarrow> \<forall>inp\<in>set inps. pi_key inp = None \<Longrightarrow>
    \<exists>nd' ml'. superloop a dbg k inps (nd, ml) = Some (nd', ml') \<and> node_good k nd' \<and> auto_step ml' \<le> 6
      \<and> start_time ml' = start_time ml"
proof (induction inps arbitrary: nd ml)
  case (Cons inp inps)
  obtain nd1 ml1 where "superloop_pass a dbg k inp (nd, ml) = Some (nd1, ml1)" "node_good k nd1" "auto_step ml1 \<le> 6"
      "start_time ml1 = start_time ml"
    using pass_good [OF Cons.prems(1) assms Cons.prems(2), of a dbg inp] Cons.prems(3) by auto
  then show ?case using Cons.IH [of nd1 ml1] Cons.prems by simp
qed simp

lemma late_passes_stop:
  assumes "demo_layout k"
  shows "node_good k nd \<Longrightarrow> auto_step ml \<le> 6 \<Longrightarrow> 7 \<le> length inps + auto_step ml \<Longrightarrow>
    \<forall>inp\<in>set inps. pi_key inp = None \<and> pi_elapsed inp - start_time ml \<ge> 2800 \<Longrightarrow>
    \<exists>nd' ml'. superloop True dbg k inps (nd, ml) = Some (nd', ml') \<and> node_good k nd' \<and> \<not> is_running ml'"
proof (induction inps arbitrary: nd ml)
  case (Cons inp inps)
  show ?case
  proof (cases "is_running ml")
    case True
    have late: "pi_elapsed inp - start_time ml \<ge> 2800" and key: "pi_key inp = None" using Cons.prems(4) by auto
    have n: "400 * (auto_step ml + 1) \<le> 2800" using Cons.prems(2) by simp
    then have "unat (of_nat (400 * (auto_step ml + 1)) :: u32) = 400 * (auto_step ml + 1)"
      by (intro unat_of_nat_small) simp
    then have "of_nat (400 * (auto_step ml + 1)) \<le> (2800 :: u32)"
      unfolding word_le_nat_alt using n by simp
    then have "\<not> pi_elapsed inp - start_time ml < of_nat (400 * (auto_step ml + 1))" using late by simp
    then obtain nd1 ml1 where p: "superloop_pass True dbg k inp (nd, ml) = Some (nd1, ml1)" "node_good k nd1" "auto_step ml1 \<le> 6"
        "start_time ml1 = start_time ml"
        "if auto_step ml < 6 then auto_step ml1 = auto_step ml + 1 \<and> is_running ml1 = is_running ml else \<not> is_running ml1"
      using pass_good [OF Cons.prems(1) assms Cons.prems(2), of True dbg inp] key by auto
    show ?thesis
    proof (cases "auto_step ml < 6")
      case True
      then show ?thesis using Cons.IH [OF p(2,3)] p Cons.prems(3,4) \<open>is_running ml\<close> by simp
    next
      case False
      then have "superloop True dbg k inps (nd1, ml1) = Some (nd1, ml1)" using p(5) by (cases inps) simp_all
      then show ?thesis using p False \<open>is_running ml\<close> by simp
    qed
  next
    case False
    then show ?thesis using Cons.prems(1) by simp
  qed
qed simp

section \<open>From start-up on\<close>

lemma boot_good:
  assumes "demo_layout k" and "gpio_wf gpio"
  obtains nd where "node_boot k m gpio pm now = Some nd" and "node_good k nd"
  using node_boot_inv [OF assms, of m pm now] pool_good_count
  by (fastforce simp: node_good_def pool_inv_def word_unat_eq_iff)

text \<open>
  C4: started with its buffers apart, the node runs any number of passes, with any clock readings, keys and
  random numbers, without reaching undefined behaviour: every pass returns, the loops inside it end, the
  invariants of pool, rings, tasklet queue and pins hold, and no block of the pool is lost.
\<close>

theorem superloop_never_stuck:
  assumes "demo_layout k" and "gpio_wf gpio"
  shows "\<exists>nd nd' ml'. node_boot k m gpio pm now = Some nd
    \<and> superloop auto_mode dbg k inps (nd, initial_locals t1 t2 t3) = Some (nd', ml')
    \<and> node_inv k nd' \<and> fw_pool_available (Some (s_telemetry_pool nd')) = 15"
proof -
  obtain nd where nd: "node_boot k m gpio pm now = Some nd" "node_good k nd" using boot_good [OF assms] .
  have "auto_step (initial_locals t1 t2 t3) \<le> 6" by (simp add: initial_locals_def)
  from superloop_good [OF assms(1) nd(2) this, of auto_mode dbg inps] show ?thesis
    using nd(1) by (auto simp: node_good_def fw_pool_available_def)
qed

definition sample_pass :: "u32 \<Rightarrow> nat option \<Rightarrow> pass_input" where
  "sample_pass now key = \<lparr>pi_heartbeat = now, pi_heartbeat_restart = now, pi_heartbeat_reading = (now, 3, 4), pi_perf = now,
     pi_perf_restart = now, pi_elapsed = now, pi_auto_reading = (now, 5, 6), pi_key = key, pi_key_reading = (now, 7, 8),
     pi_sleep = (0, 1, 2)\<rparr>"

theorem superloop_never_stuck_witness:
  "\<exists>nd nd' ml'. node_boot demo_stack (\<lambda>_. 0) demo_gpio demo_pm 0 = Some nd
    \<and> superloop True True demo_stack [sample_pass 400 (Some 51), sample_pass 1300 None, sample_pass 1300 (Some 52)]
        (nd, initial_locals 0 0 0) = Some (nd', ml')
    \<and> node_inv demo_stack nd' \<and> fw_pool_available (Some (s_telemetry_pool nd')) = 15"
  by (rule superloop_never_stuck [OF demo_layout_stack demo_gpio_wf])

text \<open>
  The automatic demonstration ends: whatever the passes before saw, as soon as seven passes read a clock
  at least 2.8 seconds after the start, the loop has left its seven steps behind and stops.
\<close>

theorem auto_demo_ends:
  assumes "demo_layout k" and "gpio_wf gpio" and "\<forall>inp\<in>set (early @ late). pi_key inp = None"
    and "7 \<le> length late" and "\<forall>inp\<in>set late. pi_elapsed inp - t3 \<ge> 2800"
  shows "\<exists>nd nd' ml'. node_boot k m gpio pm now = Some nd
    \<and> superloop True dbg k (early @ late) (nd, initial_locals t1 t2 t3) = Some (nd', ml') \<and> \<not> is_running ml'"
proof -
  obtain nd where nd: "node_boot k m gpio pm now = Some nd" "node_good k nd" using boot_good [OF assms(1,2)] .
  let ?ml = "initial_locals t1 t2 t3"
  have ml: "auto_step ?ml \<le> 6" "start_time ?ml = t3" by (simp_all add: initial_locals_def)
  obtain nd1 ml1 where e: "superloop True dbg k early (nd, ?ml) = Some (nd1, ml1)" "node_good k nd1" "auto_step ml1 \<le> 6"
      "start_time ml1 = t3"
    using superloop_start_time [OF assms(1) nd(2) ml(1), of early True dbg] assms(3) ml(2) by auto
  have "\<forall>inp\<in>set late. pi_key inp = None \<and> pi_elapsed inp - start_time ml1 \<ge> 2800" using assms(3,5) e(4) by simp
  from late_passes_stop [OF assms(1) e(2,3) _ this, of dbg] show ?thesis
    using assms(4) nd(1) e(1) by (auto simp: superloop_append)
qed

theorem auto_demo_ends_witness:
  "\<exists>nd nd' ml'. node_boot demo_stack (\<lambda>_. 0) demo_gpio demo_pm 0 = Some nd
    \<and> superloop True True demo_stack ([sample_pass 100 None] @ replicate 7 (sample_pass 3000 None)) (nd, initial_locals 0 0 0)
      = Some (nd', ml') \<and> \<not> is_running ml'"
  by (rule auto_demo_ends [OF demo_layout_stack demo_gpio_wf]) (auto simp: sample_pass_def)

end
