(* ===== verification/Tasklet_Concurrent.thy ===== *)
theory Tasklet_Concurrent
  imports Tasklet
begin

text \<open>
  The work queue between interrupt handlers, which post, and the main loop, which dispatches, interleaved
  at every access to the queue: a post stores the three fields of its item one by one, the dispatcher loads them
  one by one.  \<open>may\<close> says when a context may start a post: it is the interrupt discipline of the application.
  The memory barriers of the code are what lets the steps be taken in program order.
\<close>

datatype ('h, 'c) post_pc =
    Post_Idle
  | Post_Head "('h, 'c) work" usize
  | Post_Tail "('h, 'c) work" usize usize
  | Post_Handler "('h, 'c) work" usize
  | Post_Context "('h, 'c) work" usize
  | Post_Arg "('h, 'c) work" usize

datatype ('h, 'c) disp_pc =
    Disp_Idle
  | Disp_Tail usize
  | Disp_Head usize usize
  | Disp_Handler usize "'h option"
  | Disp_Context usize "'h option" 'c
  | Disp_Arg usize "'h option" 'c u32
  | Disp_Call "'h option" 'c u32

record ('h, 'c) tasklet_system =
  ts_queue :: "('h, 'c) fw_tasklet_queue"
  ts_post :: "nat \<Rightarrow> ('h, 'c) post_pc"
  ts_disp :: "('h, 'c) disp_pc"
  ts_accepted :: "('h, 'c) work list"
  ts_run :: "('h, 'c) work list"

definition slot :: "('h, 'c) fw_tasklet_queue \<Rightarrow> usize \<Rightarrow> nat" where
  "slot q i = unat (i AND tq_mask q)"

text \<open>An assignment to a field of the item in a slot.\<close>

definition set_item ::
  "usize \<Rightarrow> (('h, 'c) fw_tasklet_item \<Rightarrow> ('h, 'c) fw_tasklet_item) \<Rightarrow> ('h, 'c) fw_tasklet_queue \<Rightarrow> ('h, 'c) fw_tasklet_queue" where
  "set_item i f q = q\<lparr>tq_storage := (tq_storage q)[slot q i := f (tq_storage q ! slot q i)]\<rparr>"

definition item_at :: "('h, 'c) fw_tasklet_queue \<Rightarrow> usize \<Rightarrow> ('h, 'c) fw_tasklet_item" where
  "item_at q i = tq_storage q ! slot q i"

text \<open>
  Posting context \<open>i\<close> and the dispatcher.  \<open>ts_accepted\<close> records the work whose post has returned
  \<^verbatim>\<open>FW_OK\<close>, \<open>ts_run\<close> the handlers called.
\<close>

inductive tasklet_step ::
  "(('h, 'c) tasklet_system \<Rightarrow> nat \<Rightarrow> bool) \<Rightarrow> ('h, 'c) tasklet_system \<Rightarrow> ('h, 'c) tasklet_system \<Rightarrow> bool" for may where
  post_load_head: "ts_post s i = Post_Idle \<Longrightarrow> may s i \<Longrightarrow>
    tasklet_step may s (s\<lparr>ts_post := (ts_post s)(i := Post_Head w (tq_head (ts_queue s)))\<rparr>)"
| post_load_tail: "ts_post s i = Post_Head w h \<Longrightarrow>
    tasklet_step may s (s\<lparr>ts_post := (ts_post s)(i := Post_Tail w h (tq_tail (ts_queue s)))\<rparr>)"
| post_full: "ts_post s i = Post_Tail w h t \<Longrightarrow> h - t \<ge> tq_capacity (ts_queue s) \<Longrightarrow>
    tasklet_step may s (s\<lparr>ts_post := (ts_post s)(i := Post_Idle)\<rparr>)"
| post_handler: "ts_post s i = Post_Tail w h t \<Longrightarrow> \<not> h - t \<ge> tq_capacity (ts_queue s) \<Longrightarrow>
    tasklet_step may s (s\<lparr>ts_queue := set_item h (\<lambda>x. x\<lparr>ti_handler := Some (fst w)\<rparr>) (ts_queue s),
                          ts_post := (ts_post s)(i := Post_Handler w h)\<rparr>)"
| post_context: "ts_post s i = Post_Handler w h \<Longrightarrow>
    tasklet_step may s (s\<lparr>ts_queue := set_item h (\<lambda>x. x\<lparr>ti_context := fst (snd w)\<rparr>) (ts_queue s),
                          ts_post := (ts_post s)(i := Post_Context w h)\<rparr>)"
| post_arg: "ts_post s i = Post_Context w h \<Longrightarrow>
    tasklet_step may s (s\<lparr>ts_queue := set_item h (\<lambda>x. x\<lparr>ti_arg := snd (snd w)\<rparr>) (ts_queue s),
                          ts_post := (ts_post s)(i := Post_Arg w h)\<rparr>)"
| post_publish: "ts_post s i = Post_Arg w h \<Longrightarrow>
    tasklet_step may s (s\<lparr>ts_queue := (ts_queue s)\<lparr>tq_head := h + 1\<rparr>,
                          ts_post := (ts_post s)(i := Post_Idle), ts_accepted := ts_accepted s @ [w]\<rparr>)"
| disp_load_tail: "ts_disp s = Disp_Idle \<Longrightarrow>
    tasklet_step may s (s\<lparr>ts_disp := Disp_Tail (tq_tail (ts_queue s))\<rparr>)"
| disp_load_head: "ts_disp s = Disp_Tail t \<Longrightarrow>
    tasklet_step may s (s\<lparr>ts_disp := Disp_Head t (tq_head (ts_queue s))\<rparr>)"
| disp_empty: "ts_disp s = Disp_Head t h \<Longrightarrow> t = h \<Longrightarrow>
    tasklet_step may s (s\<lparr>ts_disp := Disp_Idle\<rparr>)"
| disp_handler: "ts_disp s = Disp_Head t h \<Longrightarrow> t \<noteq> h \<Longrightarrow>
    tasklet_step may s (s\<lparr>ts_disp := Disp_Handler t (ti_handler (item_at (ts_queue s) t))\<rparr>)"
| disp_context: "ts_disp s = Disp_Handler t g \<Longrightarrow>
    tasklet_step may s (s\<lparr>ts_disp := Disp_Context t g (ti_context (item_at (ts_queue s) t))\<rparr>)"
| disp_arg: "ts_disp s = Disp_Context t g c \<Longrightarrow>
    tasklet_step may s (s\<lparr>ts_disp := Disp_Arg t g c (ti_arg (item_at (ts_queue s) t))\<rparr>)"
| disp_publish: "ts_disp s = Disp_Arg t g c a \<Longrightarrow>
    tasklet_step may s (s\<lparr>ts_queue := (ts_queue s)\<lparr>tq_tail := t + 1\<rparr>, ts_disp := Disp_Call g c a\<rparr>)"
| disp_call: "ts_disp s = Disp_Call (Some f) c a \<Longrightarrow>
    tasklet_step may s (s\<lparr>ts_disp := Disp_Idle, ts_run := ts_run s @ [(f, c, a)]\<rparr>)"
| disp_null: "ts_disp s = Disp_Call None c a \<Longrightarrow>
    tasklet_step may s (s\<lparr>ts_disp := Disp_Idle\<rparr>)"

definition tasklet_start :: "('h, 'c) fw_tasklet_queue \<Rightarrow> ('h, 'c) tasklet_system" where
  "tasklet_start q = \<lparr>ts_queue = q, ts_post = (\<lambda>_. Post_Idle), ts_disp = Disp_Idle, ts_accepted = [], ts_run = []\<rparr>"

text \<open>Posts never overlap: the posting interrupts do not preempt each other.\<close>

definition posts_exclusive :: "('h, 'c) tasklet_system \<Rightarrow> nat \<Rightarrow> bool" where
  "posts_exclusive s i \<longleftrightarrow> (\<forall>j. j \<noteq> i \<longrightarrow> ts_post s j = Post_Idle)"

section \<open>The free slot\<close>

lemma set_item_simps [simp]:
  "tq_capacity (set_item i f q) = tq_capacity q" "tq_mask (set_item i f q) = tq_mask q"
  "tq_head (set_item i f q) = tq_head q" "tq_tail (set_item i f q) = tq_tail q"
  "slot (set_item i f q) j = slot q j"
  by (simp_all add: set_item_def slot_def)

lemma slot_lt: "tasklet_wf q \<Longrightarrow> slot q i < length (tq_storage q)"
  using unat_ring_index [of _ i 0] by (erule_tac tasklet_wfE) (simp add: slot_def)

lemma item_at_set: "tasklet_wf q \<Longrightarrow> item_at (set_item i f q) i = f (item_at q i)"
  by (simp add: item_at_def) (simp add: set_item_def slot_lt)

text \<open>A store into the slot at the head changes no queued item, and publishing appends what the slot holds.\<close>

lemma publish_items:
  assumes "tasklet_wf q" and "unat (tq_head q - tq_tail q) < unat (tq_capacity q)"
  shows "tasklet_wf (q\<lparr>tq_head := tq_head q + 1\<rparr>)"
    and "tasklet_items (q\<lparr>tq_head := tq_head q + 1\<rparr>) = tasklet_items q @ [item_at q (tq_head q)]"
proof -
  have "q\<lparr>tq_storage := (tq_storage q)[unat (tq_head q AND tq_mask q) := item_at q (tq_head q)], tq_head := tq_head q + 1\<rparr>
      = q\<lparr>tq_head := tq_head q + 1\<rparr>"
    by (simp add: item_at_def slot_def)
  then show "tasklet_wf (q\<lparr>tq_head := tq_head q + 1\<rparr>)"
    and "tasklet_items (q\<lparr>tq_head := tq_head q + 1\<rparr>) = tasklet_items q @ [item_at q (tq_head q)]"
    using tasklet_push_items [OF assms, of "item_at q (tq_head q)"] by simp_all
qed

lemma store_items:
  assumes wf: "tasklet_wf q" and room: "unat (tq_head q - tq_tail q) < unat (tq_capacity q)"
  shows "tasklet_wf (set_item (tq_head q) f q)" and "tasklet_items (set_item (tq_head q) f q) = tasklet_items q"
proof -
  let ?x = "f (item_at q (tq_head q))" and ?n = "unat (tq_head q - tq_tail q)"
  show wf': "tasklet_wf (set_item (tq_head q) f q)" using wf by (simp add: tasklet_wf_def) (simp add: set_item_def)
  have "tasklet_items ((set_item (tq_head q) f q)\<lparr>tq_head := tq_head q + 1\<rparr>) = tasklet_items q @ [?x]"
    using tasklet_push_items(2) [OF wf room, of ?x] by (simp add: set_item_def slot_def item_at_def)
  moreover have "tasklet_items ((set_item (tq_head q) f q)\<lparr>tq_head := tq_head q + 1\<rparr>)
      = tasklet_items (set_item (tq_head q) f q) @ [item_at (set_item (tq_head q) f q) (tq_head q)]"
    using publish_items(2) [OF wf'] room by simp
  ultimately show "tasklet_items (set_item (tq_head q) f q) = tasklet_items q" by simp
qed

text \<open>The item at the tail is the first one queued.\<close>

lemma item_at_tail:
  assumes "tasklet_wf q" and "tq_head q \<noteq> tq_tail q"
  shows "tasklet_items q = item_at q (tq_tail q) # tasklet_items (q\<lparr>tq_tail := tq_tail q + 1\<rparr>)"
    and "tasklet_wf (q\<lparr>tq_tail := tq_tail q + 1\<rparr>)"
proof -
  have "0 < unat (tq_head q - tq_tail q)" using assms(2) by (simp add: unat_gt_0)
  then have "tasklet_items q \<noteq> []" using length_tasklet_items [of q] by (cases "tasklet_items q") simp_all
  then obtain x xs where xs: "tasklet_items q = x # xs" by (cases "tasklet_items q") auto
  show "tasklet_items q = item_at q (tq_tail q) # tasklet_items (q\<lparr>tq_tail := tq_tail q + 1\<rparr>)"
    "tasklet_wf (q\<lparr>tq_tail := tq_tail q + 1\<rparr>)"
    using tasklet_pop_items [OF assms(1) xs] xs by (simp_all add: item_at_def slot_def)
qed

section \<open>The invariant\<close>

fun post_inv :: "('h, 'c) fw_tasklet_queue \<Rightarrow> ('h, 'c) post_pc \<Rightarrow> bool" where
  "post_inv q Post_Idle \<longleftrightarrow> True"
| "post_inv q (Post_Head w h) \<longleftrightarrow> h = tq_head q"
| "post_inv q (Post_Tail w h t) \<longleftrightarrow> h = tq_head q \<and> tq_head q - tq_tail q \<le> h - t"
| "post_inv q (Post_Handler w h) \<longleftrightarrow> h = tq_head q \<and> tq_head q - tq_tail q < tq_capacity q
     \<and> ti_handler (item_at q h) = Some (fst w)"
| "post_inv q (Post_Context w h) \<longleftrightarrow> h = tq_head q \<and> tq_head q - tq_tail q < tq_capacity q
     \<and> ti_handler (item_at q h) = Some (fst w) \<and> ti_context (item_at q h) = fst (snd w)"
| "post_inv q (Post_Arg w h) \<longleftrightarrow> h = tq_head q \<and> tq_head q - tq_tail q < tq_capacity q
     \<and> ti_handler (item_at q h) = Some (fst w) \<and> ti_context (item_at q h) = fst (snd w) \<and> ti_arg (item_at q h) = snd (snd w)"

fun disp_inv :: "('h, 'c) fw_tasklet_queue \<Rightarrow> ('h, 'c) disp_pc \<Rightarrow> bool" where
  "disp_inv q Disp_Idle \<longleftrightarrow> True"
| "disp_inv q (Disp_Tail t) \<longleftrightarrow> t = tq_tail q"
| "disp_inv q (Disp_Head t h) \<longleftrightarrow> t = tq_tail q \<and> (h = t \<or> tq_head q \<noteq> tq_tail q)"
| "disp_inv q (Disp_Handler t g) \<longleftrightarrow> t = tq_tail q \<and> tq_head q \<noteq> tq_tail q \<and> g = ti_handler (item_at q t)"
| "disp_inv q (Disp_Context t g c) \<longleftrightarrow> t = tq_tail q \<and> tq_head q \<noteq> tq_tail q \<and> g = ti_handler (item_at q t)
     \<and> c = ti_context (item_at q t)"
| "disp_inv q (Disp_Arg t g c a) \<longleftrightarrow> t = tq_tail q \<and> tq_head q \<noteq> tq_tail q \<and> g = ti_handler (item_at q t)
     \<and> c = ti_context (item_at q t) \<and> a = ti_arg (item_at q t)"
| "disp_inv q (Disp_Call g c a) \<longleftrightarrow> g \<noteq> None"

text \<open>The work taken from the queue whose handler is about to be called.\<close>

fun called :: "('h, 'c) disp_pc \<Rightarrow> ('h, 'c) work list" where
  "called (Disp_Call (Some f) c a) = [(f, c, a)]"
| "called d = []"

definition ts_inv :: "('h, 'c) tasklet_system \<Rightarrow> bool" where
  "ts_inv s \<longleftrightarrow> tasklet_inv (ts_queue s)
     \<and> ts_accepted s = ts_run s @ called (ts_disp s) @ tasklet_pending (ts_queue s)
     \<and> (\<forall>i. post_inv (ts_queue s) (ts_post s i)) \<and> disp_inv (ts_queue s) (ts_disp s)
     \<and> (\<forall>i j. ts_post s i \<noteq> Post_Idle \<and> ts_post s j \<noteq> Post_Idle \<longrightarrow> i = j)"

text \<open>With one post in progress the others hold trivially, whatever it does to the queue.\<close>

lemma others_idle: "ts_inv s \<Longrightarrow> ts_post s i \<noteq> Post_Idle \<Longrightarrow> posts_exclusive s i"
  unfolding ts_inv_def posts_exclusive_def by blast

lemma ts_inv_postI:
  assumes "posts_exclusive s i" and "tasklet_inv (ts_queue s')" and "post_inv (ts_queue s') pc" and "disp_inv (ts_queue s') (ts_disp s)"
    and "ts_post s' = (ts_post s)(i := pc)" and "ts_disp s' = ts_disp s" and "ts_run s' = ts_run s"
    and "ts_accepted s' = ts_run s @ called (ts_disp s) @ tasklet_pending (ts_queue s')"
  shows "ts_inv s'"
proof -
  have idle: "ts_post s' j = Post_Idle" if "j \<noteq> i" for j using assms(1,5) that by (simp add: posts_exclusive_def)
  then have "\<forall>j. post_inv (ts_queue s') (ts_post s' j)" using assms(3,5) by (metis fun_upd_same post_inv.simps(1))
  moreover have "\<forall>j k. ts_post s' j \<noteq> Post_Idle \<and> ts_post s' k \<noteq> Post_Idle \<longrightarrow> j = k" using idle by metis
  ultimately show ?thesis using assms(2,4,6-8) unfolding ts_inv_def by simp
qed

lemma tail_item_store:
  assumes "tasklet_wf q" and "unat (tq_head q - tq_tail q) < unat (tq_capacity q)" and "tq_head q \<noteq> tq_tail q"
  shows "item_at (set_item (tq_head q) f q) (tq_tail q) = item_at q (tq_tail q)"
  using item_at_tail(1) [OF assms(1,3)] item_at_tail(1) [OF store_items(1) [OF assms(1,2), of f]] assms(3)
    store_items(2) [OF assms(1,2), of f] by simp

lemma store_keeps:
  assumes "ts_inv s" and "h = tq_head (ts_queue s)" and "tq_head (ts_queue s) - tq_tail (ts_queue s) < tq_capacity (ts_queue s)"
  shows "tasklet_inv (set_item h f (ts_queue s))" and "tasklet_pending (set_item h f (ts_queue s)) = tasklet_pending (ts_queue s)"
    and "disp_inv (set_item h f (ts_queue s)) (ts_disp s)" and "item_at (set_item h f (ts_queue s)) h = f (item_at (ts_queue s) h)"
proof -
  let ?q = "ts_queue s"
  have wf: "tasklet_wf ?q" and room: "unat (tq_head ?q - tq_tail ?q) < unat (tq_capacity ?q)"
    using assms by (simp_all add: ts_inv_def tasklet_inv_def word_less_nat_alt)
  note st = store_items [OF wf room, of f, folded assms(2)]
  show "tasklet_inv (set_item h f ?q)" using assms(1) st by (simp add: ts_inv_def tasklet_inv_def)
  show "tasklet_pending (set_item h f ?q) = tasklet_pending ?q" using st(2) by (simp add: tasklet_pending_def)
  show "item_at (set_item h f ?q) h = f (item_at ?q h)" by (rule item_at_set [OF wf])
  show "disp_inv (set_item h f ?q) (ts_disp s)"
    using assms(1) tail_item_store [OF wf room, of f] assms(2) by (cases "ts_disp s") (auto simp: ts_inv_def)
qed

lemma publish_keeps:
  assumes "ts_inv s" and "ts_post s i = Post_Arg w h"
  shows "tasklet_inv ((ts_queue s)\<lparr>tq_head := h + 1\<rparr>)"
    and "tasklet_pending ((ts_queue s)\<lparr>tq_head := h + 1\<rparr>) = tasklet_pending (ts_queue s) @ [w]"
    and "disp_inv ((ts_queue s)\<lparr>tq_head := h + 1\<rparr>) (ts_disp s)"
proof -
  let ?q = "ts_queue s"
  have "post_inv ?q (ts_post s i)" using assms(1) by (simp add: ts_inv_def)
  then have pc: "post_inv ?q (Post_Arg w h)" unfolding assms(2) .
  then have h: "h = tq_head ?q" and lt: "tq_head ?q - tq_tail ?q < tq_capacity ?q"
    and it: "ti_handler (item_at ?q h) = Some (fst w)"
    and "ti_context (item_at ?q h) = fst (snd w)" "ti_arg (item_at ?q h) = snd (snd w)"
    unfolding post_inv.simps by blast+
  then have wk: "tasklet_work (item_at ?q h) = w" by (simp add: tasklet_work_def)
  have wf: "tasklet_wf ?q" and room: "unat (tq_head ?q - tq_tail ?q) < unat (tq_capacity ?q)"
    using assms(1) lt by (simp_all add: ts_inv_def tasklet_inv_def word_less_nat_alt)
  note pb = publish_items [OF wf room, folded h]
  show "tasklet_inv (?q\<lparr>tq_head := h + 1\<rparr>)" using assms(1) pb it by (simp add: ts_inv_def tasklet_inv_def)
  show "tasklet_pending (?q\<lparr>tq_head := h + 1\<rparr>) = tasklet_pending ?q @ [w]" using pb(2) wk by (simp add: tasklet_pending_def)
  have "0 < length (tasklet_items (?q\<lparr>tq_head := h + 1\<rparr>))" unfolding pb(2) by simp
  then have "h + 1 \<noteq> tq_tail ?q" by auto
  then show "disp_inv (?q\<lparr>tq_head := h + 1\<rparr>) (ts_disp s)"
    using assms(1) by (cases "ts_disp s") (auto simp: ts_inv_def item_at_def slot_def)
qed

lemma take_keeps:
  assumes "ts_inv s" and "ts_disp s = Disp_Arg t g c a"
  shows "tasklet_inv ((ts_queue s)\<lparr>tq_tail := t + 1\<rparr>)" and "g \<noteq> None"
    and "tasklet_pending (ts_queue s) = (the g, c, a) # tasklet_pending ((ts_queue s)\<lparr>tq_tail := t + 1\<rparr>)"
    and "post_inv ((ts_queue s)\<lparr>tq_tail := t + 1\<rparr>) (ts_post s i)"
proof -
  let ?q = "ts_queue s"
  have "disp_inv ?q (ts_disp s)" using assms(1) by (simp add: ts_inv_def)
  then have t: "t = tq_tail ?q" and ne: "tq_head ?q \<noteq> tq_tail ?q" and it: "g = ti_handler (item_at ?q t)"
    "c = ti_context (item_at ?q t)" "a = ti_arg (item_at ?q t)"
    using assms(2) by simp_all
  have inv: "tasklet_inv ?q" and wf: "tasklet_wf ?q" using assms(1) by (simp_all add: ts_inv_def tasklet_inv_def)
  note tl = item_at_tail [OF wf ne, folded t]
  show "tasklet_inv (?q\<lparr>tq_tail := t + 1\<rparr>)" "g \<noteq> None"
    using inv tl it(1) by (simp_all add: tasklet_inv_def)
  show "tasklet_pending ?q = (the g, c, a) # tasklet_pending (?q\<lparr>tq_tail := t + 1\<rparr>)"
    using tl(1) it by (simp add: tasklet_pending_def tasklet_work_def)
  have e: "tq_head ?q - (tq_tail ?q + 1) = (tq_head ?q - tq_tail ?q) - 1" by simp
  have "tq_head ?q - (tq_tail ?q + 1) \<le> tq_head ?q - tq_tail ?q"
    unfolding e using ne by (simp add: word_le_nat_alt unat_minus_one)
  then show "post_inv (?q\<lparr>tq_tail := t + 1\<rparr>) (ts_post s i)"
    using assms(1) t by (cases "ts_post s i") (auto simp: ts_inv_def item_at_def slot_def intro: spec [of _ i] dest!: spec [of _ i])
qed

text \<open>The three stores of a post.\<close>

lemma ts_inv_store:
  assumes inv: "ts_inv s" and busy: "ts_post s i \<noteq> Post_Idle" and h: "h = tq_head (ts_queue s)"
    and room: "tq_head (ts_queue s) - tq_tail (ts_queue s) < tq_capacity (ts_queue s)"
    and pc: "\<And>q. tq_head q = h \<Longrightarrow> tq_head q - tq_tail q < tq_capacity q \<Longrightarrow> item_at q h = f (item_at (ts_queue s) h) \<Longrightarrow> post_inv q pc"
  shows "ts_inv (s\<lparr>ts_queue := set_item h f (ts_queue s), ts_post := (ts_post s)(i := pc)\<rparr>)"
proof -
  note k = store_keeps [OF inv h room, of f]
  have "post_inv (set_item h f (ts_queue s)) pc" using h room k(4) by (intro pc) simp_all
  then show ?thesis
    using k inv by (intro ts_inv_postI [OF others_idle [OF inv busy], where pc = pc]) (simp_all add: ts_inv_def)
qed

lemma ts_inv_pc: "ts_inv s \<Longrightarrow> ts_post s i = pc \<Longrightarrow> post_inv (ts_queue s) pc"
  by (auto simp: ts_inv_def)

lemma ts_step_inv: "tasklet_step posts_exclusive s s' \<Longrightarrow> ts_inv s \<Longrightarrow> ts_inv s'"
proof (induction rule: tasklet_step.induct)
  case (post_load_head s i w)
  then show ?case
    by (intro ts_inv_postI [of s i _ "Post_Head w (tq_head (ts_queue s))"]) (simp_all add: ts_inv_def)
next
  case (post_load_tail s i w h)
  have "post_inv (ts_queue s) (Post_Tail w h (tq_tail (ts_queue s)))"
    using ts_inv_pc [OF post_load_tail(2,1)] by simp
  then show ?case
    using post_load_tail others_idle [of s i]
    by (intro ts_inv_postI [of s i _ "Post_Tail w h (tq_tail (ts_queue s))"]) (simp_all add: ts_inv_def)
next
  case (post_full s i w h t)
  then show ?case
    using others_idle [of s i] by (intro ts_inv_postI [of s i _ Post_Idle]) (simp_all add: ts_inv_def)
next
  case (post_handler s i w h t)
  then show ?case using ts_inv_pc [OF post_handler(3,1)] by (intro ts_inv_store) (auto simp: not_le)
next
  case (post_context s i w h)
  then show ?case using ts_inv_pc [OF post_context(2,1)] by (intro ts_inv_store) auto
next
  case (post_arg s i w h)
  then show ?case using ts_inv_pc [OF post_arg(2,1)] by (intro ts_inv_store) auto
next
  case (post_publish s i w h)
  note k = publish_keeps [OF post_publish.prems post_publish.hyps]
  show ?case
    using k post_publish others_idle [of s i] by (intro ts_inv_postI [of s i _ Post_Idle]) (simp_all add: ts_inv_def)
next
  case (disp_publish s t g c a)
  note k = take_keeps [OF disp_publish.prems disp_publish.hyps]
  have "\<forall>i. post_inv ((ts_queue s)\<lparr>tq_tail := t + 1\<rparr>) (ts_post s i)" using k(4) by blast
  then show ?case using k(1-3) disp_publish unfolding ts_inv_def by auto
qed (auto simp: ts_inv_def)

lemma ts_reachable_inv: "(tasklet_step posts_exclusive)\<^sup>*\<^sup>* s s' \<Longrightarrow> ts_inv s \<Longrightarrow> ts_inv s'"
  by (induction rule: rtranclp_induct) (auto intro: ts_step_inv)

lemma ts_start_inv: "tasklet_inv q \<Longrightarrow> tasklet_pending q = [] \<Longrightarrow> ts_inv (tasklet_start q)"
  by (simp add: ts_inv_def tasklet_start_def)

section \<open>The dispatcher makes progress\<close>

lemmas steps_step = converse_rtranclp_into_rtranclp

text \<open>Whatever the posting contexts are in the middle of, the dispatcher can finish its call \<dots>\<close>

lemma disp_finishes:
  assumes "ts_inv s"
  shows "\<exists>s'. (tasklet_step posts_exclusive)\<^sup>*\<^sup>* s s' \<and> ts_disp s' = Disp_Idle \<and> ts_accepted s' = ts_accepted s"
proof -
  let ?R = "\<lambda>s. \<exists>s'. (tasklet_step posts_exclusive)\<^sup>*\<^sup>* s s' \<and> ts_disp s' = Disp_Idle \<and> ts_accepted s' = ts_accepted s"
  have R: "?R s" if "tasklet_step posts_exclusive s t" "ts_accepted t = ts_accepted s" "?R t" for s t
    using that by (metis converse_rtranclp_into_rtranclp)
  have idle: "?R s" if "ts_disp s = Disp_Idle" for s using that by blast
  have call: "?R s" if "ts_disp s = Disp_Call g c a" for s g c a
  proof (cases g)
    case None
    then show ?thesis using that by - (rule R [OF disp_null _ idle], simp_all)
  next
    case (Some f)
    then show ?thesis using that by - (rule R [OF disp_call _ idle], simp_all)
  qed
  have arg: "?R s" if "ts_disp s = Disp_Arg t g c a" for s t g c a
    using that by - (rule R [OF disp_publish _ call], simp_all)
  have ctxt: "?R s" if "ts_disp s = Disp_Context t g c" for s t g c
    using that by - (rule R [OF disp_arg _ arg], simp_all)
  have handler: "?R s" if "ts_disp s = Disp_Handler t g" for s t g
    using that by - (rule R [OF disp_context _ ctxt], simp_all)
  have head: "?R s" if "ts_disp s = Disp_Head t h" for s t h
  proof (cases "t = h")
    case True
    then show ?thesis using that by - (rule R [OF disp_empty _ idle], simp_all)
  next
    case False
    then show ?thesis using that by - (rule R [OF disp_handler _ handler], simp_all)
  qed
  have tail: "?R s" if "ts_disp s = Disp_Tail t" for s t
    using that by - (rule R [OF disp_load_head _ head], simp_all)
  show ?thesis
    using idle call arg ctxt handler head tail by (cases "ts_disp s") blast+
qed

text \<open>\<dots> and then run the oldest work.\<close>

lemma disp_runs_next:
  assumes inv: "ts_inv s" and idle: "ts_disp s = Disp_Idle" and w: "tasklet_pending (ts_queue s) = w # ws"
  shows "\<exists>s'. (tasklet_step posts_exclusive)\<^sup>*\<^sup>* s s' \<and> ts_disp s' = Disp_Idle \<and> ts_accepted s' = ts_accepted s
    \<and> tasklet_pending (ts_queue s') = ws"
proof -
  let ?q = "ts_queue s" and ?t = "tq_tail (ts_queue s)"
  have "0 < length (tasklet_items ?q)" using w by (simp add: tasklet_pending_def flip: length_map [of tasklet_work])
  then have ne: "?t \<noteq> tq_head ?q" by auto
  define x where "x = item_at ?q ?t"
  let ?s6 = "s\<lparr>ts_disp := Disp_Arg ?t (ti_handler x) (ti_context x) (ti_arg x)\<rparr>"
  have "(tasklet_step posts_exclusive)\<^sup>*\<^sup>* s ?s6"
    using disp_load_tail [OF idle, of posts_exclusive]
      disp_load_head [of "s\<lparr>ts_disp := Disp_Tail ?t\<rparr>" ?t posts_exclusive]
      disp_handler [of "s\<lparr>ts_disp := Disp_Head ?t (tq_head ?q)\<rparr>" ?t "tq_head ?q" posts_exclusive]
      disp_context [of "s\<lparr>ts_disp := Disp_Handler ?t (ti_handler x)\<rparr>" ?t "ti_handler x" posts_exclusive]
      disp_arg [of "s\<lparr>ts_disp := Disp_Context ?t (ti_handler x) (ti_context x)\<rparr>" ?t "ti_handler x" "ti_context x" posts_exclusive] ne
    by (simp add: x_def)
  moreover from this have inv6: "ts_inv ?s6" using inv by (rule ts_reachable_inv)
  note k = take_keeps [OF inv6, of ?t "ti_handler x" "ti_context x" "ti_arg x"]
  obtain f where f: "ti_handler x = Some f" using k(2) by auto
  let ?s8 = "s\<lparr>ts_queue := ?q\<lparr>tq_tail := ?t + 1\<rparr>, ts_disp := Disp_Idle, ts_run := ts_run s @ [(f, ti_context x, ti_arg x)]\<rparr>"
  have "(tasklet_step posts_exclusive)\<^sup>*\<^sup>* ?s6 ?s8"
    using disp_publish [of ?s6 ?t "ti_handler x" "ti_context x" "ti_arg x" posts_exclusive]
      disp_call [of "s\<lparr>ts_queue := ?q\<lparr>tq_tail := ?t + 1\<rparr>, ts_disp := Disp_Call (Some f) (ti_context x) (ti_arg x)\<rparr>" f "ti_context x" "ti_arg x" posts_exclusive]
    by (simp add: f)
  ultimately have "(tasklet_step posts_exclusive)\<^sup>*\<^sup>* s ?s8" by (rule rtranclp_trans)
  moreover have "tasklet_pending (ts_queue ?s8) = ws" using k(3) w by simp
  ultimately show ?thesis by (intro exI [of _ ?s8]) simp
qed

lemma disp_drains:
  "ts_inv s \<Longrightarrow> ts_disp s = Disp_Idle \<Longrightarrow> \<exists>s'. (tasklet_step posts_exclusive)\<^sup>*\<^sup>* s s' \<and> ts_accepted s' = ts_accepted s
    \<and> ts_run s' = ts_accepted s"
proof (induction "tasklet_pending (ts_queue s)" arbitrary: s)
  case Nil
  then have "ts_run s = ts_accepted s" by (simp add: ts_inv_def)
  then show ?case by blast
next
  case (Cons w ws)
  obtain s' where s': "(tasklet_step posts_exclusive)\<^sup>*\<^sup>* s s'" "ts_disp s' = Disp_Idle" "ts_accepted s' = ts_accepted s"
      "tasklet_pending (ts_queue s') = ws"
    using disp_runs_next [OF Cons.prems Cons.hyps(2) [symmetric]] by blast
  then have "ts_inv s'" using Cons.prems(1) ts_reachable_inv by blast
  with Cons.hyps(1) [of s'] s' show ?case by (metis rtranclp_trans)
qed

section \<open>Uninterrupted calls\<close>

lemma item_all: "x\<lparr>ti_handler := f, ti_context := c, ti_arg := a\<rparr> = \<lparr>ti_handler = f, ti_context = c, ti_arg = a\<rparr>"
  by (cases x) simp

text \<open>Without interruption the steps of a post are \<open>fw_tasklet_post\<close>.\<close>

lemma post_alone:
  assumes "ts_post s i = Post_Idle" and "may s i" and "fw_tasklet_post (Some (ts_queue s)) (Some f) c a = (FW_OK, Some q)"
    and wf: "tasklet_wf (ts_queue s)"
  shows "(tasklet_step may)\<^sup>*\<^sup>* s (s\<lparr>ts_queue := q, ts_accepted := ts_accepted s @ [(f, c, a)]\<rparr>)"
proof -
  let ?q = "ts_queue s" and ?w = "(f, c, a)" and ?p = "\<lambda>pc. (ts_post s)(i := pc)"
  let ?h = "tq_head ?q" and ?t = "tq_tail ?q"
  let ?q1 = "set_item ?h (\<lambda>x. x\<lparr>ti_handler := Some f\<rparr>) ?q"
  let ?q2 = "set_item ?h (\<lambda>x. x\<lparr>ti_context := c\<rparr>) ?q1"
  let ?q3 = "set_item ?h (\<lambda>x. x\<lparr>ti_arg := a\<rparr>) ?q2"
  have room: "\<not> ?h - ?t \<ge> tq_capacity ?q" and q: "q = ?q\<lparr>tq_storage := (tq_storage ?q)[slot ?q ?h := \<lparr>ti_handler = Some f, ti_context = c, ti_arg = a\<rparr>], tq_head := ?h + 1\<rparr>"
    using assms(3) by (auto simp: fw_tasklet_post_def Let_def slot_def split: if_splits)
  have q3: "?q3\<lparr>tq_head := ?h + 1\<rparr> = q" unfolding q by (simp add: item_all set_item_def slot_def slot_lt [OF wf, unfolded slot_def])
  have idle: "?p Post_Idle = ts_post s" using assms(1) by auto
  have "(tasklet_step may)\<^sup>*\<^sup>* s (s\<lparr>ts_queue := ?q3\<lparr>tq_head := ?h + 1\<rparr>, ts_post := ?p Post_Idle, ts_accepted := ts_accepted s @ [?w]\<rparr>)"
    using post_load_head [of s i may ?w] assms(1,2)
      post_load_tail [of "s\<lparr>ts_post := ?p (Post_Head ?w ?h)\<rparr>" i ?w ?h may]
      post_handler [of "s\<lparr>ts_post := ?p (Post_Tail ?w ?h ?t)\<rparr>" i ?w ?h ?t may] room
      post_context [of "s\<lparr>ts_queue := ?q1, ts_post := ?p (Post_Handler ?w ?h)\<rparr>" i ?w ?h may]
      post_arg [of "s\<lparr>ts_queue := ?q2, ts_post := ?p (Post_Context ?w ?h)\<rparr>" i ?w ?h may]
      post_publish [of "s\<lparr>ts_queue := ?q3, ts_post := ?p (Post_Arg ?w ?h)\<rparr>" i ?w ?h may]
    by simp
  then show ?thesis unfolding q3 idle by simp
qed

section \<open>Nested posts\<close>

text \<open>
  What a post in progress is going to publish: its work, when it has read the head and there is room; the item it
  leaves when another post has filled the same slot in between: the fields it has stored before are lost.
\<close>

fun posting :: "('h, 'c) fw_tasklet_queue \<Rightarrow> ('h, 'c) post_pc \<Rightarrow> ('h, 'c) work option" where
  "posting q Post_Idle = None"
| "posting q (Post_Head w h) = (if h - tq_tail q < tq_capacity q then Some w else None)"
| "posting q (Post_Tail w h t) = (if h - t < tq_capacity q then Some w else None)"
| "posting q (Post_Handler w h) = Some w"
| "posting q (Post_Context w h) = Some w"
| "posting q (Post_Arg w h) = Some w"

fun mixed_work :: "('h, 'c) post_pc \<Rightarrow> ('h, 'c) work \<Rightarrow> ('h, 'c) work" where
  "mixed_work Post_Idle v = v"
| "mixed_work (Post_Head w h) v = w"
| "mixed_work (Post_Tail w h t) v = w"
| "mixed_work (Post_Handler w h) v = (fst v, snd w)"
| "mixed_work (Post_Context w h) v = (fst v, fst (snd v), snd (snd w))"
| "mixed_work (Post_Arg w h) v = v"

definition work_item :: "('h, 'c) work \<Rightarrow> ('h, 'c) fw_tasklet_item" where
  "work_item w = \<lparr>ti_handler = Some (fst w), ti_context = fst (snd w), ti_arg = snd (snd w)\<rparr>"

definition filled :: "('h, 'c) fw_tasklet_queue \<Rightarrow> usize \<Rightarrow> ('h, 'c) fw_tasklet_item \<Rightarrow> ('h, 'c) fw_tasklet_queue" where
  "filled q h x = (set_item h (\<lambda>_. x) q)\<lparr>tq_head := h + 1\<rparr>"

lemma set_item_set [simp]:
  "tasklet_wf q \<Longrightarrow> set_item h f (set_item h g q) = set_item h (\<lambda>x. f (g x)) q"
  by (simp add: set_item_def slot_def slot_lt [unfolded slot_def])

lemma set_item_head [simp]: "set_item h f (q\<lparr>tq_head := k\<rparr>) = (set_item h f q)\<lparr>tq_head := k\<rparr>"
  by (simp add: set_item_def slot_def)

lemma posting_room:
  assumes "post_inv q pc" and "posting q pc = Some w"
  shows "tq_head q - tq_tail q < tq_capacity q"
  using assms by (cases pc) (auto split: if_splits)

text \<open>The rest of a post into a slot that another post has filled and published.\<close>

lemma post_finishes_over:
  fixes s :: "('h, 'c) tasklet_system"
  assumes wf: "tasklet_wf q" and q: "ts_queue s = filled q h (work_item v)" and h: "h = tq_head q"
    and pc: "ts_post s i = pc" "post_inv q pc" "posting q pc = Some w"
  shows "(tasklet_step may)\<^sup>*\<^sup>* s (s\<lparr>ts_queue := filled q h (work_item (mixed_work pc v)),
      ts_post := (ts_post s)(i := Post_Idle), ts_accepted := ts_accepted s @ [w]\<rparr>)"
proof -
  let ?upd = "\<lambda>x pc. s\<lparr>ts_queue := filled q h x, ts_post := (ts_post s)(i := pc)\<rparr>"
  let ?fin = "\<lambda>x. s\<lparr>ts_queue := filled q h x, ts_post := (ts_post s)(i := Post_Idle), ts_accepted := ts_accepted s @ [w]\<rparr>"
  have set: "set_item h f (filled q h x) = filled q h (f x)" for f x using wf by (simp add: filled_def)
  have hd: "(filled q h x)\<lparr>tq_head := h + 1\<rparr> = filled q h x" for x by (simp add: filled_def)
  have tl: "tq_tail (filled q h x) = tq_tail q" "tq_capacity (filled q h x) = tq_capacity q" for x
    by (simp_all add: filled_def)
  have s: "s = ?upd (work_item v) pc" using q pc(1) by auto
  have arg: "(tasklet_step may)\<^sup>*\<^sup>* (?upd x (Post_Arg w h)) (?fin x)" for x
    using post_publish [of "?upd x (Post_Arg w h)" i w h may] by (simp add: hd)
  have cont: "(tasklet_step may)\<^sup>*\<^sup>* (?upd x (Post_Context w h)) (?fin (x\<lparr>ti_arg := snd (snd w)\<rparr>))" for x
    using post_arg [of "?upd x (Post_Context w h)" i w h may] arg [of "x\<lparr>ti_arg := snd (snd w)\<rparr>"]
    by (simp add: set)
  have handler: "(tasklet_step may)\<^sup>*\<^sup>* (?upd x (Post_Handler w h))
      (?fin (x\<lparr>ti_context := fst (snd w), ti_arg := snd (snd w)\<rparr>))" for x
    using post_context [of "?upd x (Post_Handler w h)" i w h may] cont [of "x\<lparr>ti_context := fst (snd w)\<rparr>"]
    by (simp add: set)
  have tail: "(tasklet_step may)\<^sup>*\<^sup>* (?upd x (Post_Tail w h t)) (?fin (work_item w))"
    if "h - t < tq_capacity q" for x t
    using post_handler [of "?upd x (Post_Tail w h t)" i w h t may] handler [of "x\<lparr>ti_handler := Some (fst w)\<rparr>"] that
    by (cases x) (simp add: set tl work_item_def not_le)
  have head: "(tasklet_step may)\<^sup>*\<^sup>* (?upd x (Post_Head w h)) (?fin (work_item w))"
    if "h - tq_tail q < tq_capacity q" for x
    using post_load_tail [of "?upd x (Post_Head w h)" i w h may] tail [OF that, of x] by (simp add: tl)
  show ?thesis
    using pc(2,3) arg [of "work_item v"] cont [of "work_item v"] handler [of "work_item v"]
      tail [of _ "work_item v"] head [of "work_item v"] h
    by (subst s, cases pc) (auto simp: work_item_def split: if_splits)
qed

text \<open>The history of accepted work has no influence on the steps.\<close>

lemma posts_exclusive_accepted [simp]: "posts_exclusive (s\<lparr>ts_accepted := acc\<rparr>) i = posts_exclusive s i"
  by (simp add: posts_exclusive_def)

lemma step_accepted:
  "tasklet_step posts_exclusive s s' \<Longrightarrow> \<exists>new. ts_accepted s' = ts_accepted s @ new
     \<and> tasklet_step posts_exclusive (s\<lparr>ts_accepted := acc\<rparr>) (s'\<lparr>ts_accepted := acc @ new\<rparr>)"
proof (induction rule: tasklet_step.induct)
  case (post_load_head s i w)
  have "posts_exclusive (s\<lparr>ts_accepted := acc\<rparr>) i" using post_load_head by simp
  with tasklet_step.post_load_head [where s = "s\<lparr>ts_accepted := acc\<rparr>" and i = i and w = w and may = posts_exclusive] post_load_head
  show ?case
    by (intro exI [of _ "[]"]) (cases s, simp)
next
  case (post_load_tail s i w h)
  then show ?case using tasklet_step.post_load_tail [where s = "s\<lparr>ts_accepted := acc\<rparr>" and may = posts_exclusive and i = i and w = w and h = h]
    by (intro exI [of _ "[]"]) (cases s, simp)
next
  case (post_full s i w h t)
  then show ?case using tasklet_step.post_full [where s = "s\<lparr>ts_accepted := acc\<rparr>" and may = posts_exclusive and i = i and w = w and h = h and t = t]
    by (intro exI [of _ "[]"]) (cases s, simp)
next
  case (post_handler s i w h t)
  then show ?case using tasklet_step.post_handler [where s = "s\<lparr>ts_accepted := acc\<rparr>" and may = posts_exclusive and i = i and w = w and h = h and t = t]
    by (intro exI [of _ "[]"]) (cases s, simp)
next
  case (post_context s i w h)
  then show ?case using tasklet_step.post_context [where s = "s\<lparr>ts_accepted := acc\<rparr>" and may = posts_exclusive and i = i and w = w and h = h]
    by (intro exI [of _ "[]"]) (cases s, simp)
next
  case (post_arg s i w h)
  then show ?case using tasklet_step.post_arg [where s = "s\<lparr>ts_accepted := acc\<rparr>" and may = posts_exclusive and i = i and w = w and h = h]
    by (intro exI [of _ "[]"]) (cases s, simp)
next
  case (post_publish s i w h)
  then show ?case using tasklet_step.post_publish [where s = "s\<lparr>ts_accepted := acc\<rparr>" and may = posts_exclusive and i = i and w = w and h = h]
    by (intro exI [of _ "[w]"]) (cases s, simp)
next
  case (disp_load_tail s)
  then show ?case using tasklet_step.disp_load_tail [where s = "s\<lparr>ts_accepted := acc\<rparr>" and may = posts_exclusive]
    by (intro exI [of _ "[]"]) (cases s, simp)
next
  case (disp_load_head s t)
  then show ?case using tasklet_step.disp_load_head [where s = "s\<lparr>ts_accepted := acc\<rparr>" and may = posts_exclusive and t = t]
    by (intro exI [of _ "[]"]) (cases s, simp)
next
  case (disp_empty s t h)
  then show ?case using tasklet_step.disp_empty [where s = "s\<lparr>ts_accepted := acc\<rparr>" and may = posts_exclusive and t = t and h = h]
    by (intro exI [of _ "[]"]) (cases s, simp)
next
  case (disp_handler s t h)
  then show ?case using tasklet_step.disp_handler [where s = "s\<lparr>ts_accepted := acc\<rparr>" and may = posts_exclusive and t = t and h = h]
    by (intro exI [of _ "[]"]) (cases s, simp)
next
  case (disp_context s t g)
  then show ?case using tasklet_step.disp_context [where s = "s\<lparr>ts_accepted := acc\<rparr>" and may = posts_exclusive and t = t and g = g]
    by (intro exI [of _ "[]"]) (cases s, simp)
next
  case (disp_arg s t g c)
  then show ?case using tasklet_step.disp_arg [where s = "s\<lparr>ts_accepted := acc\<rparr>" and may = posts_exclusive and t = t and g = g and c = c]
    by (intro exI [of _ "[]"]) (cases s, simp)
next
  case (disp_publish s t g c a)
  then show ?case using tasklet_step.disp_publish [where s = "s\<lparr>ts_accepted := acc\<rparr>" and may = posts_exclusive and t = t and g = g and c = c and a = a]
    by (intro exI [of _ "[]"]) (cases s, simp)
next
  case (disp_call s f c a)
  then show ?case using tasklet_step.disp_call [where s = "s\<lparr>ts_accepted := acc\<rparr>" and may = posts_exclusive and f = f and c = c and a = a]
    by (intro exI [of _ "[]"]) (cases s, simp)
next
  case (disp_null s c a)
  then show ?case using tasklet_step.disp_null [where s = "s\<lparr>ts_accepted := acc\<rparr>" and may = posts_exclusive and c = c and a = a]
    by (intro exI [of _ "[]"]) (cases s, simp)
qed

lemma steps_accepted:
  "(tasklet_step posts_exclusive)\<^sup>*\<^sup>* s s' \<Longrightarrow> \<exists>new. ts_accepted s' = ts_accepted s @ new
     \<and> (tasklet_step posts_exclusive)\<^sup>*\<^sup>* (s\<lparr>ts_accepted := acc\<rparr>) (s'\<lparr>ts_accepted := acc @ new\<rparr>)"
proof (induction rule: rtranclp_induct)
  case base
  then show ?case by (intro exI [of _ "[]"]) simp
next
  case (step t u)
  then obtain n1 where n1: "ts_accepted t = ts_accepted s @ n1"
      "(tasklet_step posts_exclusive)\<^sup>*\<^sup>* (s\<lparr>ts_accepted := acc\<rparr>) (t\<lparr>ts_accepted := acc @ n1\<rparr>)" by blast
  obtain n2 where n2: "ts_accepted u = ts_accepted t @ n2"
      "tasklet_step posts_exclusive (t\<lparr>ts_accepted := acc @ n1\<rparr>) (u\<lparr>ts_accepted := (acc @ n1) @ n2\<rparr>)"
    using step_accepted [OF step.hyps(2)] by blast
  show ?case
    using n1 n2 rtranclp.rtrancl_into_rtrancl [OF n1(2) n2(2)] by (intro exI [of _ "n1 @ n2"]) simp
qed

lemma nested_post:
  assumes inv: "ts_inv s" and w: "posting (ts_queue s) (ts_post s i) = Some w"
  shows "\<exists>q1 s'. fw_tasklet_post (Some (ts_queue s)) (Some (fst v)) (fst (snd v)) (snd (snd v)) = (FW_OK, Some q1)
     \<and> (tasklet_step (\<lambda>_ _. True))\<^sup>*\<^sup>* s (s\<lparr>ts_queue := q1, ts_accepted := ts_accepted s @ [v]\<rparr>)
     \<and> (tasklet_step (\<lambda>_ _. True))\<^sup>*\<^sup>* (s\<lparr>ts_queue := q1, ts_accepted := ts_accepted s @ [v]\<rparr>) s'
     \<and> ts_accepted s' = ts_accepted s @ [v, w]
     \<and> ts_post s' = (\<lambda>_. Post_Idle) \<and> ts_disp s' = ts_disp s \<and> ts_run s' = ts_run s
     \<and> ts_inv (s'\<lparr>ts_accepted := ts_accepted s @ [mixed_work (ts_post s i) v]\<rparr>)"
proof -
  let ?q = "ts_queue s" and ?pc = "ts_post s i" and ?h = "tq_head (ts_queue s)" and ?may = "\<lambda>_ _. True"
  let ?m = "mixed_work ?pc v"
  have pc: "post_inv ?q ?pc" using inv by (simp add: ts_inv_def)
  have wf: "tasklet_wf ?q" using inv by (simp add: ts_inv_def tasklet_inv_def)
  have room: "?h - tq_tail ?q < tq_capacity ?q" by (rule posting_room [OF pc w])
  have busy: "?pc \<noteq> Post_Idle" using w by auto
  then have idle: "ts_post s k = Post_Idle" if "k \<noteq> i" for k
    using inv that unfolding ts_inv_def by blast
  let ?s1 = "s\<lparr>ts_queue := filled ?q ?h (work_item v), ts_accepted := ts_accepted s @ [v]\<rparr>"
  have post: "fw_tasklet_post (Some ?q) (Some (fst v)) (fst (snd v)) (snd (snd v)) = (FW_OK, Some (filled ?q ?h (work_item v)))"
    using room by (simp add: fw_tasklet_post_def Let_def filled_def work_item_def set_item_def slot_def not_le)
  from post_alone [OF idle [of "Suc i"] TrueI post wf]
  have nested: "(tasklet_step ?may)\<^sup>*\<^sup>* s ?s1" by simp
  let ?s2 = "?s1\<lparr>ts_queue := filled ?q ?h (work_item ?m), ts_post := (ts_post s)(i := Post_Idle),
      ts_accepted := ts_accepted s @ [v, w]\<rparr>"
  have rest: "(tasklet_step ?may)\<^sup>*\<^sup>* ?s1 ?s2"
    using post_finishes_over [OF wf _ refl _ pc w, of ?s1 v i ?may] by simp
  let ?u = "s\<lparr>ts_queue := set_item ?h (\<lambda>_. work_item ?m) ?q, ts_post := (ts_post s)(i := Post_Arg ?m ?h)\<rparr>"
  have u: "ts_inv ?u"
    by (rule ts_inv_store [OF inv busy refl room]) (simp add: work_item_def)
  have all: "(ts_post s)(i := Post_Idle) = (\<lambda>_. Post_Idle)" using idle by auto
  have "tasklet_step posts_exclusive ?u (?s2\<lparr>ts_accepted := ts_accepted s @ [?m]\<rparr>)"
    using post_publish [of ?u i ?m ?h posts_exclusive] by (simp add: filled_def)
  from ts_step_inv [OF this u] post nested rest all show ?thesis
    by (intro exI [of _ "filled ?q ?h (work_item v)"] exI [of _ ?s2]) simp
qed

section \<open>Properties\<close>

text \<open>
  C3: as long as posting interrupts do not preempt each other, every interleaving with the dispatcher runs the
  accepted work whole, once and in order: the handlers called, the one about to be called and the
  queue make up exactly what was accepted, and from every reachable state the dispatcher can run all of it.
\<close>

theorem tasklet_interleaved_fifo:
  assumes "tasklet_inv q" and "tasklet_pending q = []" and "(tasklet_step posts_exclusive)\<^sup>*\<^sup>* (tasklet_start q) s"
  shows "ts_accepted s = ts_run s @ called (ts_disp s) @ tasklet_pending (ts_queue s)
    \<and> (\<exists>s'. (tasklet_step posts_exclusive)\<^sup>*\<^sup>* s s' \<and> ts_accepted s' = ts_accepted s \<and> ts_run s' = ts_accepted s)"
proof -
  have inv: "ts_inv s" by (rule ts_reachable_inv [OF assms(3) ts_start_inv [OF assms(1,2)]])
  obtain s1 where s1: "(tasklet_step posts_exclusive)\<^sup>*\<^sup>* s s1" "ts_disp s1 = Disp_Idle" "ts_accepted s1 = ts_accepted s"
    using disp_finishes [OF inv] by blast
  then have "ts_inv s1" using inv ts_reachable_inv by blast
  from disp_drains [OF this s1(2)] s1 have "\<exists>s'. (tasklet_step posts_exclusive)\<^sup>*\<^sup>* s s' \<and> ts_accepted s' = ts_accepted s
      \<and> ts_run s' = ts_accepted s"
    by (metis rtranclp_trans)
  then show ?thesis using inv by (simp add: ts_inv_def)
qed

definition small_queue :: "(string, unit) fw_tasklet_queue" where
  "small_queue = \<lparr>tq_storage = replicate 2 \<lparr>ti_handler = None, ti_context = (), ti_arg = 0\<rparr>, tq_capacity = 2, tq_mask = 1,
     tq_head = 0xFFFFFFFF, tq_tail = 0xFFFFFFFF\<rparr>"

lemma small_queue_inv: "tasklet_inv small_queue" "tasklet_pending small_queue = []"
  by (simp_all add: small_queue_def tasklet_inv_def tasklet_wf_def tasklet_items_def tasklet_pending_def)

text \<open>A witness run: the dispatcher finds the queue empty while a post is half done; later the work runs.\<close>

theorem tasklet_interleaved_fifo_witness:
  "\<exists>s s'. (tasklet_step posts_exclusive)\<^sup>*\<^sup>* (tasklet_start small_queue) s \<and> ts_accepted s = [(''f'', (), 7)] \<and> ts_run s = []
     \<and> (tasklet_step posts_exclusive)\<^sup>*\<^sup>* s s' \<and> ts_run s' = [(''f'', (), 7)]"
proof -
  let ?s = "tasklet_start small_queue" and ?may = posts_exclusive
  obtain q where q: "fw_tasklet_post (Some small_queue) (Some ''f'') () 7 = (FW_OK, Some q)"
    by (simp add: fw_tasklet_post_def small_queue_def)
  have start: "ts_post ?s 0 = Post_Idle" "?may ?s 0" "ts_queue ?s = small_queue" "ts_accepted ?s = []" "ts_run ?s = []"
    by (simp_all add: tasklet_start_def posts_exclusive_def)
  have "(tasklet_step ?may)\<^sup>*\<^sup>* ?s (?s\<lparr>ts_queue := q, ts_accepted := [(''f'', (), 7)]\<rparr>)"
    using post_alone [where s = ?s and i = 0 and may = ?may and f = "''f''" and c = "()" and a = 7 and q = q] q small_queue_inv(1) start by (simp add: tasklet_inv_def)
  from tasklet_interleaved_fifo [OF small_queue_inv this] this start(5) show ?thesis by fastforce
qed

text \<open>
  C22: posting contexts must not preempt each other.  Take any state that posts without nesting and the dispatcher
  have led to, in which context \<open>i\<close> has read the head for its post of \<open>w\<close>, there is room, and it has not published
  yet.  If another context now posts any \<open>v\<close> from beginning to end (\<open>fw_tasklet_post\<close> on the queue as it stands), that
  post returns \<^verbatim>\<open>FW_OK\<close>; when \<open>i\<close> then goes on to its end, so does its own, but only one item
  has been added: the fields \<open>i\<close> had not stored when it was interrupted come from \<open>w\<close>, the others from \<open>v\<close>.
  So \<open>v\<close> is lost before the first store, \<open>w\<close> after the last, and in between the item is a mixture of both that
  nobody posted.  The loss is final: however the system goes on without nesting, what is run and queued is the
  accepted work with that one item in the place of the two.
\<close>

theorem nested_posts_lose_work:
  assumes "tasklet_inv q" and "tasklet_pending q = []" and "(tasklet_step posts_exclusive)\<^sup>*\<^sup>* (tasklet_start q) s"
    and "posting (ts_queue s) (ts_post s i) = Some w"
  shows "\<exists>q1 s'. fw_tasklet_post (Some (ts_queue s)) (Some (fst v)) (fst (snd v)) (snd (snd v)) = (FW_OK, Some q1)
     \<and> (tasklet_step (\<lambda>_ _. True))\<^sup>*\<^sup>* s (s\<lparr>ts_queue := q1, ts_accepted := ts_accepted s @ [v]\<rparr>)
     \<and> (tasklet_step (\<lambda>_ _. True))\<^sup>*\<^sup>* (s\<lparr>ts_queue := q1, ts_accepted := ts_accepted s @ [v]\<rparr>) s'
     \<and> ts_accepted s' = ts_accepted s @ [v, w]
     \<and> ts_post s' = (\<lambda>_. Post_Idle) \<and> ts_disp s' = ts_disp s \<and> ts_run s' = ts_run s
     \<and> (\<forall>s''. (tasklet_step posts_exclusive)\<^sup>*\<^sup>* s' s'' \<longrightarrow>
          (\<exists>new. ts_accepted s'' = ts_accepted s @ [v, w] @ new
             \<and> ts_run s'' @ called (ts_disp s'') @ tasklet_pending (ts_queue s'')
               = ts_accepted s @ [mixed_work (ts_post s i) v] @ new))"
proof -
  let ?m = "mixed_work (ts_post s i) v" and ?post = "fw_tasklet_post (Some (ts_queue s)) (Some (fst v)) (fst (snd v)) (snd (snd v))"
  have "ts_inv s" by (rule ts_reachable_inv [OF assms(3) ts_start_inv [OF assms(1,2)]])
  from nested_post [OF this assms(4)] obtain q1 s' where q1: "?post = (FW_OK, Some q1)"
      "(tasklet_step (\<lambda>_ _. True))\<^sup>*\<^sup>* s (s\<lparr>ts_queue := q1, ts_accepted := ts_accepted s @ [v]\<rparr>)"
    and s': "(tasklet_step (\<lambda>_ _. True))\<^sup>*\<^sup>* (s\<lparr>ts_queue := q1, ts_accepted := ts_accepted s @ [v]\<rparr>) s'"
      "ts_accepted s' = ts_accepted s @ [v, w]" "ts_post s' = (\<lambda>_. Post_Idle)" "ts_disp s' = ts_disp s" "ts_run s' = ts_run s"
    and inv: "ts_inv (s'\<lparr>ts_accepted := ts_accepted s @ [?m]\<rparr>)" by blast
  have "\<exists>new. ts_accepted s'' = ts_accepted s @ [v, w] @ new
      \<and> ts_run s'' @ called (ts_disp s'') @ tasklet_pending (ts_queue s'') = ts_accepted s @ [?m] @ new"
    if run: "(tasklet_step posts_exclusive)\<^sup>*\<^sup>* s' s''" for s''
  proof -
    obtain new where new: "ts_accepted s'' = ts_accepted s' @ new"
        "(tasklet_step posts_exclusive)\<^sup>*\<^sup>* (s'\<lparr>ts_accepted := ts_accepted s @ [?m]\<rparr>)
           (s''\<lparr>ts_accepted := (ts_accepted s @ [?m]) @ new\<rparr>)"
      using steps_accepted [OF run] by blast
    from ts_reachable_inv [OF new(2) inv] show ?thesis
      using new(1) s'(2) by (intro exI [of _ new]) (simp add: ts_inv_def)
  qed
  then show ?thesis using q1 s' by blast
qed

text \<open>A witness run: \<^verbatim>\<open>low\<close> is interrupted by \<^verbatim>\<open>high\<close> after its handler is stored; what runs in the end is the handler of \<^verbatim>\<open>high\<close> with the argument of \<^verbatim>\<open>low\<close>.\<close>

theorem nested_posts_lose_work_witness:
  "\<exists>s'. (tasklet_step (\<lambda>_ _. True))\<^sup>*\<^sup>* (tasklet_start small_queue) s'
     \<and> ts_accepted s' = [(''high'', (), 1), (''low'', (), 2)] \<and> ts_post s' = (\<lambda>_. Post_Idle) \<and> ts_disp s' = Disp_Idle
     \<and> tasklet_pending (ts_queue s') = [(''high'', (), 2)]"
proof -
  let ?s = "tasklet_start small_queue" and ?h = "0xFFFFFFFF :: usize" and ?w = "(''low'', (), 2 :: u32)"
  let ?p = "\<lambda>pc. (\<lambda>_. Post_Idle)(0 := pc)"
  let ?q1 = "set_item ?h (\<lambda>x. x\<lparr>ti_handler := Some ''low''\<rparr>) small_queue"
  let ?s1 = "?s\<lparr>ts_queue := ?q1, ts_post := ?p (Post_Handler ?w ?h)\<rparr>"
  have low: "(tasklet_step may)\<^sup>*\<^sup>* ?s ?s1" if "may ?s 0" for may
    using that post_load_head [of ?s 0 may ?w] post_load_tail [of "?s\<lparr>ts_post := ?p (Post_Head ?w ?h)\<rparr>" 0 ?w ?h may]
      post_handler [of "?s\<lparr>ts_post := ?p (Post_Tail ?w ?h ?h)\<rparr>" 0 ?w ?h ?h may]
    by (simp add: tasklet_start_def small_queue_def)
  have excl: "posts_exclusive ?s 0" by (simp add: posts_exclusive_def tasklet_start_def)
  have "posting (ts_queue ?s1) (ts_post ?s1 0) = Some ?w" by simp
  from nested_posts_lose_work [OF small_queue_inv low [of posts_exclusive, OF excl] this, of "(''high'', (), 1)"]
  obtain q1 s' where s': "(tasklet_step (\<lambda>_ _. True))\<^sup>*\<^sup>* ?s1 (?s1\<lparr>ts_queue := q1, ts_accepted := ts_accepted ?s1 @ [(''high'', (), 1)]\<rparr>)"
      "(tasklet_step (\<lambda>_ _. True))\<^sup>*\<^sup>* (?s1\<lparr>ts_queue := q1, ts_accepted := ts_accepted ?s1 @ [(''high'', (), 1)]\<rparr>) s'"
      "ts_accepted s' = ts_accepted ?s1 @ [(''high'', (), 1), ?w]"
      "ts_post s' = (\<lambda>_. Post_Idle)" "ts_disp s' = ts_disp ?s1" "ts_run s' = ts_run ?s1"
    and later: "\<And>s''. (tasklet_step posts_exclusive)\<^sup>*\<^sup>* s' s'' \<Longrightarrow> \<exists>new. ts_accepted s'' = ts_accepted ?s1 @ [(''high'', (), 1), ?w] @ new
      \<and> ts_run s'' @ called (ts_disp s'') @ tasklet_pending (ts_queue s'')
        = ts_accepted ?s1 @ [mixed_work (ts_post ?s1 0) (''high'', (), 1)] @ new"
    by blast
  have s1: "ts_accepted ?s1 = []" "ts_disp ?s1 = Disp_Idle" "ts_run ?s1 = []" by (simp_all add: tasklet_start_def)
  have "(tasklet_step (\<lambda>_ _. True))\<^sup>*\<^sup>* ?s s'"
    using low [of "\<lambda>_ _. True"] rtranclp_trans [OF s'(1,2)] by (meson rtranclp_trans)
  moreover have "tasklet_pending (ts_queue s') = [(''high'', (), 2)]"
    using later [of s'] s'(3-6) s1 by simp
  ultimately show ?thesis using s'(3-5) s1 by (intro exI [of _ s']) simp
qed

end
