(* ===== verification/Stm32_Poc.thy ===== *)
theory Stm32_Poc
  imports Demo_Common Loopback Pool_Init Text_Format
begin

text \<open>
  The firmware of \<^verbatim>\<open>examples/stm32_poc/main.c\<close>: its start-up with the early returns of \<^verbatim>\<open>FW_CHECK\<close>, the
  interrupt routine, the deferred work and the request that is encoded, decoded and answered with a
  telemetry block.  The static data are the record \<open>poc\<close>, the addresses of the static and stack buffers the
  record \<open>poc_layout\<close>; the texts on the console are left out.
\<close>

definition TELEMETRY_POOL_BLOCKS :: nat where "TELEMETRY_POOL_BLOCKS = 8"
definition TELEMETRY_BLOCK_SIZE :: usize where "TELEMETRY_BLOCK_SIZE = 32"
definition UART_RX_RING_SIZE :: usize where "UART_RX_RING_SIZE = 64"
definition TASKLET_QUEUE_SIZE :: usize where "TASKLET_QUEUE_SIZE = 16"

definition LED_STATUS :: fw_gpio where
  "LED_STATUS = \<lparr>gp_port = 0, gp_pin = 5, gp_mode = FW_GPIO_MODE_OUTPUT_PP, gp_pull = 0, gp_speed = 2\<rparr>"

datatype poc_tasklet = Packet_received_tasklet

record poc_layout =
  s_telemetry_mem :: ptr
  poc_rx_raw :: ptr
  wire_buffer :: ptr
  decoded_frame :: fw_zerowire_frame
  request_payload :: "u8 list"

record poc =
  poc_mem :: mem
  poc_pool :: fw_pool
  s_uart_rx_queue :: fw_spsc
  s_tasklet_queue :: "(poc_tasklet, ptr) fw_tasklet_queue"
  poc_gpio :: gpio_state

definition s_tasklet_storage :: "(poc_tasklet, ptr) fw_tasklet_item list" where
  "s_tasklet_storage = replicate (unat TASKLET_QUEUE_SIZE) \<lparr>ti_handler = None, ti_context = FW_NULL, ti_arg = 0\<rparr>"

definition packet_received_tasklet :: "ptr \<Rightarrow> u32 \<Rightarrow> gpio_state \<Rightarrow> gpio_state" where
  "packet_received_tasklet ctxt arg gpio = fw_gpio_toggle LED_STATUS gpio"

definition run_poc_tasklet :: "poc_tasklet \<Rightarrow> ptr \<Rightarrow> u32 \<Rightarrow> gpio_state \<Rightarrow> gpio_state" where
  "run_poc_tasklet h ctxt arg gpio = (case h of Packet_received_tasklet \<Rightarrow> packet_received_tasklet ctxt arg gpio)"

definition USART2_IRQHandler :: "poc \<Rightarrow> poc" where
  "USART2_IRQHandler pc =
     (let rx_byte = 0xAA :: u8
      in case fw_spsc_push (poc_mem pc) (Some (s_uart_rx_queue pc)) rx_byte of
           (st, m, q) \<Rightarrow>
             (case fw_tasklet_post (Some (s_tasklet_queue pc)) (Some Packet_received_tasklet) FW_NULL (ucast rx_byte) of
                (st', tq) \<Rightarrow> pc\<lparr>poc_mem := m, s_uart_rx_queue := the q, s_tasklet_queue := the tq\<rparr>))"

definition firmware_init :: "poc_layout \<Rightarrow> poc \<Rightarrow> (fw_status \<times> poc) option" where
  "firmware_init k pc0 =
     (case fw_gpio_init LED_STATUS (poc_gpio pc0) of (st, gpio) \<Rightarrow>
      let pc = pc0\<lparr>poc_gpio := gpio\<rparr>
      in if st \<noteq> FW_OK then Some (st, pc)
         else
           let pc = pc\<lparr>poc_gpio := fw_gpio_write LED_STATUS False (poc_gpio pc)\<rparr>
           in (case fw_pool_init (poc_mem pc) (Some (poc_pool pc)) (s_telemetry_mem k)
                      (of_nat TELEMETRY_POOL_BLOCKS * TELEMETRY_BLOCK_SIZE) TELEMETRY_BLOCK_SIZE 8 of
                 None \<Rightarrow> None
               | Some (st, m, pool) \<Rightarrow>
                   let pc = pc\<lparr>poc_mem := m, poc_pool := the pool\<rparr>
                   in if st \<noteq> FW_OK then Some (st, pc)
                      else (case fw_spsc_init (Some (s_uart_rx_queue pc)) (poc_rx_raw k) UART_RX_RING_SIZE of (st, q) \<Rightarrow>
                        let pc = pc\<lparr>s_uart_rx_queue := the q\<rparr>
                        in if st \<noteq> FW_OK then Some (st, pc)
                           else (case fw_tasklet_queue_init (Some (s_tasklet_queue pc)) (Some s_tasklet_storage) TASKLET_QUEUE_SIZE of
                                   (st, tq) \<Rightarrow> Some (st, pc\<lparr>s_tasklet_queue := the tq\<rparr>)))))"

definition poc_dispatch :: "poc \<Rightarrow> (usize \<times> poc) option" where
  "poc_dispatch pc =
     map_option (\<lambda>(n, gpio, tq). (n, pc\<lparr>poc_gpio := gpio, s_tasklet_queue := the tq\<rparr>))
       (fw_tasklet_dispatch_all (\<lambda>h c a (w, q). (run_poc_tasklet h c a w, q)) (poc_gpio pc) (Some (s_tasklet_queue pc)))"

text \<open>The answer to a decoded request: a block taken, filled and given back.\<close>

definition poc_telemetry :: "bool \<Rightarrow> u32 \<Rightarrow> poc \<Rightarrow> poc option" where
  "poc_telemetry dbg uptime pc =
     (case fw_pool_alloc (poc_mem pc) (Some (poc_pool pc)) of
        None \<Rightarrow> None
      | Some (telemetry, m, p) \<Rightarrow>
          let pc = pc\<lparr>poc_mem := m, poc_pool := the p\<rparr>
          in if telemetry = FW_NULL then Some pc
             else
               let stored = fst (snprintf_text (unat TELEMETRY_BLOCK_SIZE) (''STATUS_OK_UPTIME_'' @ dec_digits (unat uptime)));
                   m = mem_write m telemetry (map of_char stored @ [0])
               in (case fw_pool_free dbg m (Some (poc_pool pc)) telemetry of
                     None \<Rightarrow> None
                   | Some (st, m', p') \<Rightarrow> Some (pc\<lparr>poc_mem := m', poc_pool := the p'\<rparr>)))"

definition host_request :: "poc_layout \<Rightarrow> fw_zerowire_frame" where
  "host_request k = \<lparr>zf_seq = 1, zf_msg_id = 0x10, zf_length = 4, zf_payload = map of_char ''PING'' @ drop 4 (request_payload k)\<rparr>"

definition poc_request :: "bool \<Rightarrow> poc_layout \<Rightarrow> u32 \<Rightarrow> poc \<Rightarrow> (fw_zerowire_frame option \<times> poc) option" where
  "poc_request dbg k uptime pc =
     (case fw_zerowire_encode (poc_mem pc) (Some (host_request k)) (fw_span_make (wire_buffer k) 64) of
        (encoded_bytes, m) \<Rightarrow>
          let pc = pc\<lparr>poc_mem := m\<rparr>
          in (case fw_zerowire_decode m (fw_cspan_make (wire_buffer k) encoded_bytes) (Some (decoded_frame k)) of
                (st, frame) \<Rightarrow>
                  if st = FW_OK then map_option (Pair frame) (poc_telemetry dbg uptime pc) else Some (frame, pc)))"

text \<open>The whole program: the exit code, the number of tasklets run and the frame decoded.\<close>

definition poc_main :: "bool \<Rightarrow> poc_layout \<Rightarrow> u32 \<Rightarrow> (nat \<Rightarrow> u32) \<Rightarrow> poc \<Rightarrow> (int \<times> usize \<times> fw_zerowire_frame option \<times> poc) option" where
  "poc_main dbg k uptime clock pc0 =
     (case firmware_init k pc0 of
        None \<Rightarrow> None
      | Some (st, pc) \<Rightarrow>
          if st \<noteq> FW_OK then Some (1, 0, None, pc)
          else (case poc_dispatch (USART2_IRQHandler pc) of
                  None \<Rightarrow> None
                | Some (dispatched, pc1) \<Rightarrow>
                    (case poc_request dbg k uptime pc1 of
                       None \<Rightarrow> None
                     | Some (frame, pc2) \<Rightarrow>
                         (case poll_timeout clock (fw_timeout_start (clock 0) (Some \<lparr>to_start_ms = 0, to_duration_ms = 0\<rparr>) 10) 1 of
                            None \<Rightarrow> None
                          | Some j \<Rightarrow> Some (0, dispatched, frame, pc2)))))"

section \<open>Interrupts\<close>

definition irq_work :: "(poc_tasklet, ptr) work" where
  "irq_work = (Packet_received_tasklet, FW_NULL, 0xAA)"

lemma irq_as_queues:
  "USART2_IRQHandler pc =
     (case snd (spsc_enq 0xAA (poc_mem pc, s_uart_rx_queue pc)) of
        (m, q) \<Rightarrow> pc\<lparr>poc_mem := m, s_uart_rx_queue := q, s_tasklet_queue := snd (tasklet_enq irq_work (s_tasklet_queue pc))\<rparr>)"
  by (simp add: USART2_IRQHandler_def spsc_enq_def tasklet_enq_def irq_work_def split: prod.splits)

lemma irq_storm_queues:
  "(USART2_IRQHandler ^^ n) pc =
     (case enq_all spsc_enq (replicate n 0xAA) (poc_mem pc, s_uart_rx_queue pc) of
        (m, q) \<Rightarrow> pc\<lparr>poc_mem := m, s_uart_rx_queue := q,
                   s_tasklet_queue := enq_all tasklet_enq (replicate n irq_work) (s_tasklet_queue pc)\<rparr>)"
proof (induction n arbitrary: pc)
  case (Suc n)
  obtain m q where e: "snd (spsc_enq 0xAA (poc_mem pc, s_uart_rx_queue pc)) = (m, q)"
    by (cases "snd (spsc_enq 0xAA (poc_mem pc, s_uart_rx_queue pc))")
  have pow: "(USART2_IRQHandler ^^ Suc n) pc = (USART2_IRQHandler ^^ n) (USART2_IRQHandler pc)"
    by (simp add: funpow_swap1)
  have step: "USART2_IRQHandler pc = pc\<lparr>poc_mem := m, s_uart_rx_queue := q,
      s_tasklet_queue := snd (tasklet_enq irq_work (s_tasklet_queue pc))\<rparr>"
    by (simp add: irq_as_queues e)
  show ?case unfolding pow Suc.IH step by (simp add: e split: prod.splits)
qed simp

lemma run_poc_toggles: "run_poc_tasklet h c a g = fw_gpio_toggle LED_STATUS g"
  by (cases h) (simp add: run_poc_tasklet_def packet_received_tasklet_def)

lemma poc_dispatch_drains:
  assumes "tasklet_inv (s_tasklet_queue pc)" and "gpio_wf (poc_gpio pc)"
  shows "\<exists>g tq. poc_dispatch pc = Some (of_nat (length (tasklet_pending (s_tasklet_queue pc))),
        pc\<lparr>poc_gpio := g, s_tasklet_queue := tq\<rparr>) \<and> tasklet_inv tq \<and> tasklet_pending tq = [] \<and> gpio_wf g
    \<and> (pin_level g 0 5 \<longleftrightarrow> (pin_level (poc_gpio pc) 0 5 \<noteq> odd (length (tasklet_pending (s_tasklet_queue pc)))))"
proof -
  have pin: "unat (gp_port LED_STATUS) = 0" "unat (gp_pin LED_STATUS) = 5" by (simp_all add: LED_STATUS_def)
  obtain g tq where "fw_tasklet_dispatch_all (\<lambda>h c a (w, q). (run_poc_tasklet h c a w, q)) (poc_gpio pc) (Some (s_tasklet_queue pc))
        = Some (of_nat (length (tasklet_pending (s_tasklet_queue pc))), g, Some tq)"
      "tasklet_inv tq" "tasklet_pending tq = []" "gpio_wf g"
      "pin_level g 0 5 \<longleftrightarrow> (pin_level (poc_gpio pc) 0 5 \<noteq> odd (length (tasklet_pending (s_tasklet_queue pc))))"
    using dispatch_toggles [where act = run_poc_tasklet, OF run_poc_toggles _ assms] pin by auto
  then show ?thesis by (intro exI [of _ g] exI [of _ tq]) (simp add: poc_dispatch_def)
qed

text \<open>
  C21: a storm of interrupts loses what the queues have no room for and nothing else: after \<open>n\<close> of them the
  ring and the work queue hold what they held, followed by as many new entries as fit; the superloop then
  runs every accepted piece of work once and returns their number, and the LED shows its parity.
\<close>

theorem isr_storm_bounded:
  assumes "spsc_wf (s_uart_rx_queue pc)" and "tasklet_inv (s_tasklet_queue pc)" and "gpio_wf (poc_gpio pc)"
  shows "let bytes = spsc_bytes (poc_mem pc) (s_uart_rx_queue pc); work = tasklet_pending (s_tasklet_queue pc);
      new_bytes = min (unat (sq_capacity (s_uart_rx_queue pc)) - length bytes) n;
      new_work = min (unat (tq_capacity (s_tasklet_queue pc)) - length work) n;
      pc' = (USART2_IRQHandler ^^ n) pc
    in spsc_bytes (poc_mem pc') (s_uart_rx_queue pc') = bytes @ replicate new_bytes 0xAA
      \<and> tasklet_pending (s_tasklet_queue pc') = work @ replicate new_work (Packet_received_tasklet, FW_NULL, 0xAA)
      \<and> (\<exists>pc''. poc_dispatch pc' = Some (of_nat (length work + new_work), pc'')
          \<and> tasklet_pending (s_tasklet_queue pc'') = []
          \<and> (pin_level (poc_gpio pc'') 0 5 \<longleftrightarrow> (pin_level (poc_gpio pc) 0 5 \<noteq> odd (length work + new_work))))"
proof -
  let ?tq = "enq_all tasklet_enq (replicate n irq_work) (s_tasklet_queue pc)" and ?pc' = "(USART2_IRQHandler ^^ n) pc"
  let ?bytes = "spsc_bytes (poc_mem pc) (s_uart_rx_queue pc)" and ?work = "tasklet_pending (s_tasklet_queue pc)"
  let ?nb = "min (unat (sq_capacity (s_uart_rx_queue pc)) - length ?bytes) n"
  let ?nw = "min (unat (tq_capacity (s_tasklet_queue pc)) - length ?work) n"
  obtain m q where s: "enq_all spsc_enq (replicate n 0xAA) (poc_mem pc, s_uart_rx_queue pc) = (m, q)"
    by (cases "enq_all spsc_enq (replicate n 0xAA) (poc_mem pc, s_uart_rx_queue pc)")
  have pc': "?pc' = pc\<lparr>poc_mem := m, s_uart_rx_queue := q, s_tasklet_queue := ?tq\<rparr>"
    by (simp add: irq_storm_queues s)
  have ring: "spsc_bytes m q = ?bytes @ replicate ?nb 0xAA"
    using spsc_queue.enq_all_items [of "(poc_mem pc, s_uart_rx_queue pc)" "replicate n 0xAA"] assms(1) s
    by (simp add: spsc_inv_def spsc_items_def spsc_cap_def take_replicate del: length_spsc_bytes)
  have tasks: "tasklet_inv ?tq" "tasklet_pending ?tq = ?work @ replicate ?nw irq_work"
    using tasklet_queue.enq_all_items [OF assms(2), of "replicate n irq_work"]
    by (simp_all add: tasklet_cap_def take_replicate)
  have "tasklet_inv (s_tasklet_queue ?pc')" "gpio_wf (poc_gpio ?pc')" using tasks(1) assms(3) by (simp_all add: pc')
  from poc_dispatch_drains [OF this] obtain g tq where
      "poc_dispatch ?pc' = Some (of_nat (length ?work + ?nw), ?pc'\<lparr>poc_gpio := g, s_tasklet_queue := tq\<rparr>)"
      "tasklet_pending tq = []" "pin_level g 0 5 \<longleftrightarrow> (pin_level (poc_gpio pc) 0 5 \<noteq> odd (length ?work + ?nw))"
    using tasks(2) by (auto simp: pc')
  then show ?thesis
    unfolding Let_def using ring tasks(2) by (auto simp: pc' irq_work_def)
qed

theorem isr_storm_bounded_witness:
  "let pc = \<lparr>poc_mem = (\<lambda>_. 0), poc_pool = blank_pool,
        s_uart_rx_queue = \<lparr>sq_buffer = 1024, sq_capacity = 64, sq_mask = 63, sq_head = 0, sq_tail = 0\<rparr>,
        s_tasklet_queue = \<lparr>tq_storage = s_tasklet_storage, tq_capacity = 16, tq_mask = 15, tq_head = 0, tq_tail = 0\<rparr>,
        poc_gpio = \<lparr>s_virtual_gpio_state = replicate 8 0, s_virtual_gpio_dir = replicate 8 0\<rparr>\<rparr>;
      pc' = (USART2_IRQHandler ^^ 20) pc
    in spsc_bytes (poc_mem pc') (s_uart_rx_queue pc') = replicate 20 0xAA
      \<and> length (tasklet_pending (s_tasklet_queue pc')) = 16
      \<and> (\<exists>pc''. poc_dispatch pc' = Some (16, pc'') \<and> \<not> pin_level (poc_gpio pc'') 0 5)"
proof -
  let ?q = "\<lparr>sq_buffer = 1024, sq_capacity = 64, sq_mask = 63, sq_head = 0, sq_tail = 0\<rparr>"
  let ?tq = "\<lparr>tq_storage = s_tasklet_storage, tq_capacity = 16, tq_mask = 15, tq_head = 0, tq_tail = 0\<rparr>"
  let ?g = "\<lparr>s_virtual_gpio_state = replicate 8 0, s_virtual_gpio_dir = replicate 8 0\<rparr>"
  let ?pc = "\<lparr>poc_mem = (\<lambda>_. 0), poc_pool = blank_pool, s_uart_rx_queue = ?q, s_tasklet_queue = ?tq, poc_gpio = ?g\<rparr>"
  have wf: "spsc_wf ?q" by (simp add: spsc_wf_def nowrap_def)
  have tq: "tasklet_inv ?tq"
    by (simp add: tasklet_inv_def tasklet_wf_def tasklet_items_def s_tasklet_storage_def TASKLET_QUEUE_SIZE_def)
  have g: "gpio_wf ?g" by (simp add: gpio_wf_def)
  have empty: "spsc_bytes (\<lambda>_. 0) ?q = []" "tasklet_pending ?tq = []"
    by (simp_all add: spsc_bytes_def ring_read_def tasklet_pending_def tasklet_items_def)
  have low: "\<not> pin_level ?g 0 5" by (simp add: pin_level_def)
  show ?thesis
    using isr_storm_bounded [of ?pc 20] wf tq g low empty unfolding Let_def by auto
qed

section \<open>The program from start to end\<close>

definition poc_layout_ok :: "poc_layout \<Rightarrow> bool" where
  "poc_layout_ok k \<longleftrightarrow> s_telemetry_mem k \<noteq> FW_NULL \<and> 8 dvd unat (s_telemetry_mem k) \<and> unat (s_telemetry_mem k) + 256 < 2 ^ 32
     \<and> poc_rx_raw k \<noteq> FW_NULL \<and> nowrap (poc_rx_raw k) 64 \<and> wire_buffer k \<noteq> FW_NULL
     \<and> disjoint_blocks (poc_rx_raw k) 64 (s_telemetry_mem k) 256 \<and> disjoint_blocks (wire_buffer k) 64 (s_telemetry_mem k) 256
     \<and> disjoint_blocks (wire_buffer k) 64 (poc_rx_raw k) 64
     \<and> length (zf_payload (decoded_frame k)) = 256 \<and> length (request_payload k) = 256"

definition poc_inv :: "poc_layout \<Rightarrow> poc \<Rightarrow> nat list \<Rightarrow> bool" where
  "poc_inv k pc fl \<longleftrightarrow> pool_inv (poc_mem pc) (poc_pool pc) fl \<and> pool_in (s_telemetry_mem k) 256 (poc_pool pc)
     \<and> unat (po_block_size (poc_pool pc)) = 32
     \<and> spsc_wf (s_uart_rx_queue pc) \<and> sq_buffer (s_uart_rx_queue pc) = poc_rx_raw k \<and> sq_capacity (s_uart_rx_queue pc) = 64
     \<and> tasklet_inv (s_tasklet_queue pc) \<and> gpio_wf (poc_gpio pc)"

abbreviation poc_ring :: "poc \<Rightarrow> u8 list" where
  "poc_ring pc \<equiv> spsc_bytes (poc_mem pc) (s_uart_rx_queue pc)"

lemma poc_pool_init:
  assumes k: "poc_layout_ok k"
  shows "\<exists>m' p. fw_pool_init m (Some p0) (s_telemetry_mem k) (of_nat TELEMETRY_POOL_BLOCKS * TELEMETRY_BLOCK_SIZE) TELEMETRY_BLOCK_SIZE 8
      = Some (FW_OK, m', Some p) \<and> pool_inv m' p [0..<7] \<and> pool_in (s_telemetry_mem k) 256 p \<and> unat (po_block_size p) = 32"
proof -
  let ?b = "s_telemetry_mem k"
  have b: "?b \<noteq> FW_NULL" "8 dvd unat ?b" "unat ?b + 256 < 2 ^ 32" using k by (simp_all add: poc_layout_ok_def)
  have al: "round_up 3 (unat ?b) = unat ?b" using round_up_id [of 3 "unat ?b"] b(2) by simp
  then have lay: "pool_layout 3 (unat ?b) 256 32 = (unat ?b, 32, 8, 7)"
    by (simp add: pool_layout_def Let_def) (simp add: round_up_def)
  obtain m' p where p: "fw_pool_init m (Some p0) ?b 256 32 8 = Some (FW_OK, m', Some p)"
      "pool_inv m' p [0..<7]" "unat (po_capacity p) = 7" "unat (po_block_size p) = 32" "unat (po_storage p) = unat ?b + 8"
    using pool_init_layout [where buffer = ?b and sz = 256 and al = 8 and bs = 32 and ?k0.0 = 3 and m = m and ?p0.0 = p0
        and start = "unat ?b" and b = 32 and bytes = 8 and c = 7] b lay by auto
  have "unat (po_alloc_bitmap p) = unat ?b"
    using pool_init_bitmap [OF p(1)] align_up_round [of 3 ?b] b al by simp
  then show ?thesis
    using p by (intro exI [of _ m'] exI [of _ p])
      (simp add: pool_in_def TELEMETRY_POOL_BLOCKS_def TELEMETRY_BLOCK_SIZE_def)
qed

lemma firmware_init_ok:
  assumes k: "poc_layout_ok k" and g: "gpio_wf (poc_gpio pc0)"
  shows "\<exists>pc. firmware_init k pc0 = Some (FW_OK, pc) \<and> poc_inv k pc [0..<7] \<and> poc_ring pc = []
    \<and> tasklet_pending (s_tasklet_queue pc) = [] \<and> \<not> pin_level (poc_gpio pc) 0 5"
proof -
  obtain gi where gi: "fw_gpio_init LED_STATUS (poc_gpio pc0) = (FW_OK, gi)" "gpio_wf gi"
    using g by (simp add: fw_gpio_init_def gpio_bad_def LED_STATUS_def gpio_wf_def Let_def)
  let ?g = "fw_gpio_write LED_STATUS False gi"
  have gw: "gpio_wf ?g" "\<not> pin_level ?g 0 5"
    using gpio_ops(1) [OF gi(2), of LED_STATUS False] gpio_ops(2) [OF gi(2), of LED_STATUS False 0 5] by (simp_all add: LED_STATUS_def)
  obtain m p where p: "fw_pool_init (poc_mem pc0) (Some (poc_pool pc0)) (s_telemetry_mem k)
        (of_nat TELEMETRY_POOL_BLOCKS * TELEMETRY_BLOCK_SIZE) TELEMETRY_BLOCK_SIZE 8 = Some (FW_OK, m, Some p)"
      "pool_inv m p [0..<7]" "pool_in (s_telemetry_mem k) 256 p" "unat (po_block_size p) = 32"
    using poc_pool_init [OF k] by blast
  have rx: "poc_rx_raw k \<noteq> FW_NULL" "nowrap (poc_rx_raw k) 64" using k by (simp_all add: poc_layout_ok_def)
  let ?q = "\<lparr>sq_buffer = poc_rx_raw k, sq_capacity = 64, sq_mask = 63, sq_head = 0, sq_tail = 0\<rparr>"
  have q: "fw_spsc_init (Some (s_uart_rx_queue pc0)) (poc_rx_raw k) UART_RX_RING_SIZE = (FW_OK, Some ?q)"
    using rx(1) by (simp add: fw_spsc_init_def UART_RX_RING_SIZE_def)
  have qw: "spsc_wf ?q" "spsc_bytes m ?q = []"
    using rx by (simp_all add: spsc_wf_def spsc_bytes_def ring_read_def)
  let ?tq = "\<lparr>tq_storage = s_tasklet_storage, tq_capacity = 16, tq_mask = 15, tq_head = 0, tq_tail = 0\<rparr>"
  have tq: "fw_tasklet_queue_init (Some (s_tasklet_queue pc0)) (Some s_tasklet_storage) TASKLET_QUEUE_SIZE = (FW_OK, Some ?tq)"
    by (simp add: fw_tasklet_queue_init_def TASKLET_QUEUE_SIZE_def)
  have tw: "tasklet_inv ?tq" "tasklet_pending ?tq = []"
    by (simp_all add: tasklet_inv_def tasklet_wf_def tasklet_items_def tasklet_pending_def s_tasklet_storage_def TASKLET_QUEUE_SIZE_def)
  show ?thesis
    using gi(1) gw p q qw tq tw by (simp add: firmware_init_def Let_def poc_inv_def)
qed

lemma poc_inv_irq:
  assumes inv: "poc_inv k pc fl" and k: "poc_layout_ok k" and empty: "poc_ring pc = []"
  shows "\<exists>m q. USART2_IRQHandler pc = pc\<lparr>poc_mem := m, s_uart_rx_queue := q,
        s_tasklet_queue := snd (tasklet_enq irq_work (s_tasklet_queue pc))\<rparr>
    \<and> poc_inv k (USART2_IRQHandler pc) fl \<and> poc_ring (USART2_IRQHandler pc) = [0xAA]"
proof -
  let ?q = "s_uart_rx_queue pc"
  have wf: "spsc_wf ?q" and geo: "sq_buffer ?q = poc_rx_raw k" "sq_capacity ?q = 64" using inv by (simp_all add: poc_inv_def)
  obtain st m q where p: "fw_spsc_push (poc_mem pc) (Some ?q) 0xAA = (st, m, Some q)" "spsc_wf q" "sq_capacity q = 64"
      "sq_buffer q = poc_rx_raw k" "spsc_bytes m q = [0xAA]" "\<forall>a. \<not> in_block (poc_rx_raw k) 64 a \<longrightarrow> m a = poc_mem pc a"
    using spsc_push_or_drop [OF wf, of "poc_mem pc" "0xAA"] empty geo by auto
  have e: "USART2_IRQHandler pc = pc\<lparr>poc_mem := m, s_uart_rx_queue := q,
      s_tasklet_queue := snd (tasklet_enq irq_work (s_tasklet_queue pc))\<rparr>"
    using p(1) by (simp add: irq_as_queues spsc_enq_def)
  have nw: "nowrap (s_telemetry_mem k) 256" using k by (simp add: poc_layout_ok_def nowrap_def)
  have "m a = poc_mem pc a" if "in_block (s_telemetry_mem k) 256 a" for a
    using p(6) that k by (auto simp: poc_layout_ok_def disjoint_blocks_def)
  then have "pool_inv m (poc_pool pc) fl"
    using pool_inv_outside [of "poc_mem pc" "poc_pool pc" fl "s_telemetry_mem k" 256 m] inv nw by (simp add: poc_inv_def)
  moreover have "tasklet_inv (snd (tasklet_enq irq_work (s_tasklet_queue pc)))"
    using tasklet_queue.enq_all_items [of "s_tasklet_queue pc" "[irq_work]"] inv by (simp add: poc_inv_def)
  ultimately have "poc_inv k (USART2_IRQHandler pc) fl" using inv p(2-4) by (simp add: e poc_inv_def)
  moreover have "poc_ring (USART2_IRQHandler pc) = [0xAA]" using p(5) by (simp add: e)
  ultimately show ?thesis using e by blast
qed

text \<open>Memory changes outside the ring keep its bytes.\<close>

lemma poc_ring_cong:
  assumes "poc_inv k pc fl" and "\<And>a. in_block (poc_rx_raw k) 64 a \<Longrightarrow> m a = poc_mem pc a"
  shows "spsc_bytes m (s_uart_rx_queue pc) = poc_ring pc"
  using assms by (intro spsc_bytes_cong) (simp_all add: poc_inv_def)

lemma poc_telemetry_ok:
  assumes inv: "poc_inv k pc (i # fl)" and k: "poc_layout_ok k"
  shows "\<exists>m p. poc_telemetry dbg uptime pc = Some (pc\<lparr>poc_mem := m, poc_pool := p\<rparr>)
    \<and> poc_inv k (pc\<lparr>poc_mem := m, poc_pool := p\<rparr>) (i # fl) \<and> spsc_bytes m (s_uart_rx_queue pc) = poc_ring pc"
proof -
  let ?b = "s_telemetry_mem k"
  have nw: "nowrap ?b 256" using k by (simp add: poc_layout_ok_def nowrap_def)
  have P: "pool_inv (poc_mem pc) (poc_pool pc) (i # fl)" "pool_in ?b 256 (poc_pool pc)" using inv by (simp_all add: poc_inv_def)
  obtain m1 p1 where al: "fw_pool_alloc (poc_mem pc) (Some (poc_pool pc)) = Some (block_addr p1 i, m1, Some p1)" "pool_inv m1 p1 fl"
      "pool_in ?b 256 p1" "po_block_size p1 = po_block_size (poc_pool pc)" "i < unat (po_capacity p1)" "i \<notin> set fl"
      "block_addr p1 i \<noteq> FW_NULL" "\<forall>a. \<not> in_block ?b 256 a \<longrightarrow> m1 a = poc_mem pc a"
    using pool_alloc_in [OF P nw] by metis
  define bs :: "u8 list" where "bs = map of_char (fst (snprintf_text (unat TELEMETRY_BLOCK_SIZE) (''STATUS_OK_UPTIME_'' @ dec_digits (unat uptime)))) @ [0]"
  have len: "length bs \<le> unat (po_block_size p1)"
    using inv al(4) by (simp add: bs_def snprintf_text_def TELEMETRY_BLOCK_SIZE_def poc_inv_def)
  let ?m2 = "mem_write m1 (block_addr p1 i) bs"
  note wr = pool_write_in [OF al(2,3) nw al(5,6) len]
  obtain m3 p3 where fr: "fw_pool_free dbg ?m2 (Some p1) (block_addr p1 i) = Some (FW_OK, m3, Some p3)" "pool_inv m3 p3 (i # fl)"
      "pool_in ?b 256 p3" "po_block_size p3 = po_block_size p1" "\<forall>a. \<not> in_block ?b 256 a \<longrightarrow> m3 a = ?m2 a"
    using pool_free_in [OF wr(1) al(3) nw al(5,6), of dbg] by blast
  have run: "poc_telemetry dbg uptime pc = Some (pc\<lparr>poc_mem := m3, poc_pool := p3\<rparr>)"
    using al(1,7) fr(1) unfolding bs_def by (simp add: poc_telemetry_def Let_def)
  have out: "m3 a = poc_mem pc a" if "in_block (poc_rx_raw k) 64 a" for a
  proof -
    have "\<not> in_block ?b 256 a" using that k by (auto simp: poc_layout_ok_def disjoint_blocks_def)
    then show ?thesis using fr(5) wr(2) al(8) by simp
  qed
  have "poc_inv k (pc\<lparr>poc_mem := m3, poc_pool := p3\<rparr>) (i # fl)"
    using inv fr(2-4) al(4) by (simp add: poc_inv_def)
  then show ?thesis using run poc_ring_cong [OF inv out] by blast
qed

lemma poc_request_ok:
  assumes inv: "poc_inv k pc (i # fl)" and k: "poc_layout_ok k"
  shows "\<exists>m p. poc_request dbg k uptime pc = Some (Some \<lparr>zf_seq = 1, zf_msg_id = 0x10, zf_length = 4,
        zf_payload = map of_char ''PING'' @ drop 4 (zf_payload (decoded_frame k))\<rparr>, pc\<lparr>poc_mem := m, poc_pool := p\<rparr>)
    \<and> poc_inv k (pc\<lparr>poc_mem := m, poc_pool := p\<rparr>) (i # fl) \<and> spsc_bytes m (s_uart_rx_queue pc) = poc_ring pc"
proof -
  let ?f = "host_request k" and ?w = "wire_buffer k"
  let ?fb = "frame_bytes (host_request k)"
  have f: "frame_wf ?f" "unat (zf_length ?f) = 4" using k by (simp_all add: frame_wf_def host_request_def poc_layout_ok_def)
  have len: "length ?fb = 12" using length_frame_bytes [OF f(1)] f(2) by simp
  have w0: "?w \<noteq> FW_NULL" using k by (simp add: poc_layout_ok_def)
  let ?m = "mem_write (poc_mem pc) ?w ?fb"
  have e: "fw_zerowire_encode (poc_mem pc) (Some ?f) (fw_span_make ?w 64) = (12, ?m)"
    using encode_bytes [OF f(1), of "fw_span_make ?w 64" "poc_mem pc"] w0 f(2) len by (simp add: fw_span_make_def)
  have "mem_read ?m ?w 12 = ?fb" using mem_read_write_same [of ?fb "poc_mem pc" ?w] unfolding len by simp
  then have d: "fw_zerowire_decode ?m (fw_cspan_make ?w 12) (Some (decoded_frame k)) = (FW_OK, Some \<lparr>zf_seq = 1, zf_msg_id = 0x10,
      zf_length = 4, zf_payload = map of_char ''PING'' @ drop 4 (zf_payload (decoded_frame k))\<rparr>)"
    using decode_eq [of "fw_cspan_make ?w 12" ?m "decoded_frame k"] decode_frame_bytes [OF f(1), of "[]" "decoded_frame k"] w0
    by (simp add: fw_cspan_make_def host_request_def)
  have out: "?m a = poc_mem pc a" if "\<not> in_block ?w 64 a" for a
    using that len by (intro mem_write_out) (simp add: in_block_def)
  have nw: "nowrap (s_telemetry_mem k) 256" using k by (simp add: poc_layout_ok_def nowrap_def)
  have "?m a = poc_mem pc a" if "in_block (s_telemetry_mem k) 256 a" for a
    using that k by (intro out) (auto simp: poc_layout_ok_def disjoint_blocks_def)
  then have "pool_inv ?m (poc_pool pc) (i # fl)"
    using pool_inv_outside [of "poc_mem pc" "poc_pool pc" "i # fl" "s_telemetry_mem k" 256 ?m] inv nw by (simp add: poc_inv_def)
  then have inv1: "poc_inv k (pc\<lparr>poc_mem := ?m\<rparr>) (i # fl)" using inv by (simp add: poc_inv_def)
  have ring: "spsc_bytes ?m (s_uart_rx_queue pc) = poc_ring pc"
    using k by (intro poc_ring_cong [OF inv] out) (auto simp: poc_layout_ok_def disjoint_blocks_def)
  show ?thesis
    using poc_telemetry_ok [OF inv1 k, of dbg uptime] e d ring by (auto simp: poc_request_def Let_def)
qed

text \<open>
  Placed in memory without overlap and with a clock that moves on, the program runs to its end with exit
  code 0: the start-up succeeds, the one interrupt leaves its byte in the ring and one piece of work that
  lights the LED, the request is decoded as it was encoded, and the pool has all its seven blocks again.
\<close>

theorem poc_main_completes:
  assumes "poc_layout_ok k" and "gpio_wf (poc_gpio pc0)" and "1 \<le> n" and "10 \<le> clock n - clock 0"
  shows "\<exists>pc. poc_main dbg k uptime clock pc0 = Some (0, 1, Some \<lparr>zf_seq = 1, zf_msg_id = 0x10, zf_length = 4,
        zf_payload = map of_char ''PING'' @ drop 4 (zf_payload (decoded_frame k))\<rparr>, pc)
    \<and> pool_inv (poc_mem pc) (poc_pool pc) [0..<7] \<and> spsc_bytes (poc_mem pc) (s_uart_rx_queue pc) = [0xAA]
    \<and> tasklet_pending (s_tasklet_queue pc) = [] \<and> pin_level (poc_gpio pc) 0 5"
proof -
  obtain pc where init: "firmware_init k pc0 = Some (FW_OK, pc)" "poc_inv k pc [0..<7]" "poc_ring pc = []"
      "tasklet_pending (s_tasklet_queue pc) = []" "\<not> pin_level (poc_gpio pc) 0 5"
    using firmware_init_ok [OF assms(1,2)] by blast
  have fl: "[0..<7] = 0 # [1..<7]" by (simp add: upt_rec)
  obtain m q where irq: "USART2_IRQHandler pc = pc\<lparr>poc_mem := m, s_uart_rx_queue := q,
        s_tasklet_queue := snd (tasklet_enq irq_work (s_tasklet_queue pc))\<rparr>"
      "poc_inv k (USART2_IRQHandler pc) [0..<7]" "poc_ring (USART2_IRQHandler pc) = [0xAA]"
    using poc_inv_irq [OF init(2) assms(1) init(3)] by blast
  define pc1 where "pc1 = USART2_IRQHandler pc"
  have inv1: "poc_inv k pc1 [0..<7]" "tasklet_inv (s_tasklet_queue pc1)" "gpio_wf (poc_gpio pc1)"
    using irq(2) by (simp_all add: pc1_def poc_inv_def)
  have tq: "tasklet_inv (s_tasklet_queue pc)" using init(2) by (simp add: poc_inv_def)
  then have "0 < tasklet_cap (s_tasklet_queue pc)" by (simp add: tasklet_cap_def tasklet_inv_def tasklet_wf_def unat_gt_0)
  then have "tasklet_pending (s_tasklet_queue pc1) = [irq_work]"
    using tasklet_queue.enq_all_items [OF tq, of "[irq_work]"] init(4) irq(1) by (simp add: pc1_def take_Cons')
  then obtain g tq' where d: "poc_dispatch pc1 = Some (1, pc1\<lparr>poc_gpio := g, s_tasklet_queue := tq'\<rparr>)" "tasklet_inv tq'"
      "tasklet_pending tq' = []" "gpio_wf g" "pin_level g 0 5"
    using poc_dispatch_drains [OF inv1(2,3)] init(5) irq(1) by (auto simp: pc1_def)
  define pc2 where "pc2 = pc1\<lparr>poc_gpio := g, s_tasklet_queue := tq'\<rparr>"
  have inv2: "poc_inv k pc2 (0 # [1..<7])" using inv1(1) d(2,4) unfolding fl by (simp add: pc2_def poc_inv_def)
  obtain m3 p3 where r: "poc_request dbg k uptime pc2 = Some (Some \<lparr>zf_seq = 1, zf_msg_id = 0x10, zf_length = 4,
        zf_payload = map of_char ''PING'' @ drop 4 (zf_payload (decoded_frame k))\<rparr>, pc2\<lparr>poc_mem := m3, poc_pool := p3\<rparr>)"
      "poc_inv k (pc2\<lparr>poc_mem := m3, poc_pool := p3\<rparr>) (0 # [1..<7])" "spsc_bytes m3 (s_uart_rx_queue pc2) = poc_ring pc2"
    using poc_request_ok [OF inv2 assms(1)] by blast
  obtain j where j: "poll_timeout clock (Some \<lparr>to_start_ms = clock 0, to_duration_ms = 10\<rparr>) 1 = Some j"
    using poll_timeout_returns [of 1 n 10 clock "clock 0"] assms(3,4) by blast
  have "pool_inv m3 p3 [0..<7]" using r(2) unfolding fl by (simp add: poc_inv_def)
  moreover have "spsc_bytes m3 (s_uart_rx_queue pc2) = [0xAA]" using r(3) irq(3) by (simp add: pc2_def pc1_def)
  ultimately show ?thesis
    using init(1) d(1,3,5) r(1) j
    by (simp add: poc_main_def pc1_def [symmetric] pc2_def [symmetric] fw_timeout_start_def, simp add: pc2_def)
qed

theorem poc_main_completes_witness:
  "\<exists>pc. poc_main True \<lparr>s_telemetry_mem = 1024, poc_rx_raw = 4096, wire_buffer = 8192,
        decoded_frame = \<lparr>zf_seq = 0, zf_msg_id = 0, zf_length = 0, zf_payload = replicate 256 0\<rparr>, request_payload = replicate 256 0\<rparr>
      7 (\<lambda>j. of_nat j * 5)
      \<lparr>poc_mem = (\<lambda>_. 0), poc_pool = blank_pool,
        s_uart_rx_queue = \<lparr>sq_buffer = 0, sq_capacity = 0, sq_mask = 0, sq_head = 0, sq_tail = 0\<rparr>,
        s_tasklet_queue = \<lparr>tq_storage = [], tq_capacity = 0, tq_mask = 0, tq_head = 0, tq_tail = 0\<rparr>,
        poc_gpio = \<lparr>s_virtual_gpio_state = replicate 8 0, s_virtual_gpio_dir = replicate 8 0\<rparr>\<rparr>
     = Some (0, 1, Some \<lparr>zf_seq = 1, zf_msg_id = 0x10, zf_length = 4,
          zf_payload = map of_char ''PING'' @ replicate 252 0\<rparr>, pc)
     \<and> spsc_bytes (poc_mem pc) (s_uart_rx_queue pc) = [0xAA]"
proof -
  let ?k = "\<lparr>s_telemetry_mem = 1024, poc_rx_raw = 4096, wire_buffer = 8192,
        decoded_frame = \<lparr>zf_seq = 0, zf_msg_id = 0, zf_length = 0, zf_payload = replicate 256 0\<rparr>, request_payload = replicate 256 0\<rparr>"
  let ?g = "\<lparr>s_virtual_gpio_state = replicate 8 0, s_virtual_gpio_dir = replicate 8 0\<rparr>"
  have "disjoint_blocks (4096 :: ptr) 64 1024 256" "disjoint_blocks (8192 :: ptr) 64 1024 256" "disjoint_blocks (8192 :: ptr) 64 4096 64"
    by (rule disjoint_blocksI; simp add: nowrap_def)+
  then have k: "poc_layout_ok ?k" by (simp add: poc_layout_ok_def nowrap_def)
  have g: "gpio_wf ?g" by (simp add: gpio_wf_def)
  have t: "(10 :: u32) \<le> of_nat 2 * 5 - of_nat 0 * 5" by simp
  show ?thesis
    using poc_main_completes [OF k, of "\<lparr>poc_mem = (\<lambda>_. 0), poc_pool = blank_pool,
        s_uart_rx_queue = \<lparr>sq_buffer = 0, sq_capacity = 0, sq_mask = 0, sq_head = 0, sq_tail = 0\<rparr>,
        s_tasklet_queue = \<lparr>tq_storage = [], tq_capacity = 0, tq_mask = 0, tq_head = 0, tq_tail = 0\<rparr>, poc_gpio = ?g\<rparr>"
        2 "\<lambda>j. of_nat j * 5" True 7] g t by (auto simp del: replicate.simps)
qed

end
