(* ===== verification/Host_Sim.thy ===== *)
theory Host_Sim
  imports Demo_Common Loopback
begin

text \<open>
  The whole program of \<^verbatim>\<open>examples/host_sim/main.c\<close> around the loopback: start-up, the frame it sends to
  itself, the deferred work for a decoded frame, its dispatch and the wait for a timeout.  The texts on the
  console are left out.
\<close>

definition TX_RING_CAPACITY :: usize where "TX_RING_CAPACITY = 64"
definition RX_RING_CAPACITY :: usize where "RX_RING_CAPACITY = 64"
definition TASKLET_CAPACITY :: usize where "TASKLET_CAPACITY = 16"

definition STATUS_LED :: fw_gpio where
  "STATUS_LED = \<lparr>gp_port = 2, gp_pin = 13, gp_mode = FW_GPIO_MODE_OUTPUT_PP, gp_pull = 0, gp_speed = 2\<rparr>"

datatype host_tasklet = On_packet_processed

text \<open>Where the static and stack buffers lie, and what the uninitialised frames hold.\<close>

record host_layout =
  s_tx_storage :: ptr
  s_rx_storage :: ptr
  wire_bytes :: ptr
  rx_buffer :: ptr
  frame_in :: fw_zerowire_frame
  frame_payload :: "u8 list"

definition s_tasklets :: "(host_tasklet, ptr) fw_tasklet_item list" where
  "s_tasklets = replicate (unat TASKLET_CAPACITY) \<lparr>ti_handler = None, ti_context = FW_NULL, ti_arg = 0\<rparr>"

definition on_packet_processed :: "ptr \<Rightarrow> u32 \<Rightarrow> gpio_state \<Rightarrow> gpio_state" where
  "on_packet_processed ctxt arg gpio = fw_gpio_toggle STATUS_LED gpio"

definition run_host_tasklet :: "host_tasklet \<Rightarrow> ptr \<Rightarrow> u32 \<Rightarrow> gpio_state \<Rightarrow> gpio_state" where
  "run_host_tasklet h ctxt arg gpio = (case h of On_packet_processed \<Rightarrow> on_packet_processed ctxt arg gpio)"

definition host_frame_out :: "host_layout \<Rightarrow> fw_zerowire_frame" where
  "host_frame_out k = \<lparr>zf_seq = 1, zf_msg_id = 0x42, zf_length = 8, zf_payload = map of_char ''HOST_OK!'' @ drop 8 (frame_payload k)\<rparr>"

text \<open>The start-up ignores the status of every call.\<close>

definition host_boot :: "host_layout \<Rightarrow> gpio_state \<Rightarrow> gpio_state \<times> ptr fw_uart \<times> (host_tasklet, ptr) fw_tasklet_queue" where
  "host_boot k gpio =
     (let gpio = snd (fw_gpio_init STATUS_LED gpio);
          gpio = fw_gpio_write STATUS_LED False gpio;
          s_tx_queue = snd (fw_spsc_init (Some zero_spsc) (s_tx_storage k) TX_RING_CAPACITY);
          s_rx_queue = snd (fw_spsc_init (Some zero_spsc) (s_rx_storage k) RX_RING_CAPACITY);
          s_uart = snd (fw_uart_init
             (Some \<lparr>ua_hardware_instance = FW_NULL, ua_tx_queue = None, ua_rx_queue = None, ua_is_initialized = False\<rparr>)
             FW_NULL () s_tx_queue s_rx_queue);
          s_tasklet_q = snd (fw_tasklet_queue_init (Some zero_tasklet_queue) (Some s_tasklets) TASKLET_CAPACITY)
      in (gpio, the s_uart, the s_tasklet_q))"

text \<open>The result is the exit code, the status and frame of the decoder, the number of tasklets run and the pins.\<close>

definition host_main ::
  "host_layout \<Rightarrow> (nat \<Rightarrow> u32) \<Rightarrow> mem \<Rightarrow> gpio_state \<Rightarrow> (int \<times> fw_status \<times> fw_zerowire_frame option \<times> usize \<times> gpio_state) option" where
  "host_main k clock m gpio0 =
     (case host_boot k gpio0 of (gpio, s_uart, s_tasklet_q) \<Rightarrow>
        (case host_loopback m s_uart (host_frame_out k) (fw_span_make (wire_bytes k) 64) (fw_span_make (rx_buffer k) 64) (frame_in k) of
           None \<Rightarrow> None
         | Some (dec_st, f) \<Rightarrow>
             let q = (if dec_st = FW_OK
                      then snd (fw_tasklet_post (Some s_tasklet_q) (Some On_packet_processed) FW_NULL (ucast (zf_msg_id (the f))))
                      else Some s_tasklet_q)
             in (case fw_tasklet_dispatch_all (\<lambda>h c a (w, q). (run_host_tasklet h c a w, q)) gpio q of
                   None \<Rightarrow> None
                 | Some (dispatched, gpio', q') \<Rightarrow>
                     (case poll_timeout clock (fw_timeout_start (clock 0) (Some \<lparr>to_start_ms = 0, to_duration_ms = 0\<rparr>) 20) 1 of
                        None \<Rightarrow> None
                      | Some j \<Rightarrow> Some (0, dec_st, f, dispatched, gpio')))))"

section \<open>The program from start to end\<close>

definition host_layout_ok :: "host_layout \<Rightarrow> bool" where
  "host_layout_ok k \<longleftrightarrow> (\<forall>b\<in>{s_tx_storage k, s_rx_storage k, wire_bytes k, rx_buffer k}. b \<noteq> FW_NULL \<and> nowrap b 64)
     \<and> disjoint_blocks (s_tx_storage k) 64 (s_rx_storage k) 64 \<and> disjoint_blocks (s_tx_storage k) 64 (wire_bytes k) 16
     \<and> disjoint_blocks (s_rx_storage k) 64 (rx_buffer k) 64 \<and> length (frame_payload k) = 256 \<and> length (zf_payload (frame_in k)) = 256"

definition host_led_ready :: "gpio_state \<Rightarrow> bool" where
  "host_led_ready g \<longleftrightarrow> gpio_wf g \<and> \<not> pin_level g 2 13"

lemma host_boot_ok:
  assumes k: "host_layout_ok k" and g: "gpio_wf gpio0"
  obtains g u tq where "host_boot k gpio0 = (g, u, tq)" "host_led_ready g" "tasklet_inv tq" "tasklet_pending tq = []"
    "ua_is_initialized u" "ua_tx_queue u = Some (host_ring (s_tx_storage k))" "ua_rx_queue u = Some (host_ring (s_rx_storage k))"
proof -
  obtain gi where gi: "fw_gpio_init STATUS_LED gpio0 = (FW_OK, gi)" "gpio_wf gi"
    using g by (simp add: fw_gpio_init_def gpio_bad_def STATUS_LED_def gpio_wf_def Let_def)
  have led: "host_led_ready (fw_gpio_write STATUS_LED False gi)"
    using gpio_ops(1) [OF gi(2), of STATUS_LED False] gpio_ops(2) [OF gi(2), of STATUS_LED False 2 13]
    by (simp add: host_led_ready_def STATUS_LED_def)
  have b: "s_tx_storage k \<noteq> FW_NULL" "nowrap (s_tx_storage k) 64" "s_rx_storage k \<noteq> FW_NULL" "nowrap (s_rx_storage k) 64"
    using k by (simp_all add: host_layout_ok_def)
  have len: "length s_tasklets = 16" by (simp add: s_tasklets_def TASKLET_CAPACITY_def)
  note q = fresh_tasklet_queue [OF len]
  show ?thesis
  proof (rule that [OF _ led q(2,3)])
    show "host_boot k gpio0 = (fw_gpio_write STATUS_LED False gi,
        \<lparr>ua_hardware_instance = FW_NULL, ua_tx_queue = Some (host_ring (s_tx_storage k)),
          ua_rx_queue = Some (host_ring (s_rx_storage k)), ua_is_initialized = True\<rparr>,
        \<lparr>tq_storage = s_tasklets, tq_capacity = 16, tq_mask = 15, tq_head = 0, tq_tail = 0\<rparr>)"
      by (simp add: host_boot_def gi(1) fresh_spsc(1) [OF b(1,2)] fresh_spsc(1) [OF b(3,4)] q(1) fw_uart_init_def
        TX_RING_CAPACITY_def RX_RING_CAPACITY_def TASKLET_CAPACITY_def host_ring_def)
  qed simp_all
qed

lemma run_host_toggles: "run_host_tasklet h c a g = fw_gpio_toggle STATUS_LED g"
  by (cases h) (simp add: run_host_tasklet_def on_packet_processed_def)

text \<open>The frame the example sends to itself arrives.\<close>

lemma host_frame_arrives:
  assumes k: "host_layout_ok k" and "ua_is_initialized u" and "ua_tx_queue u = Some (host_ring (s_tx_storage k))"
    and "ua_rx_queue u = Some (host_ring (s_rx_storage k))"
  shows "host_loopback m u (host_frame_out k) (fw_span_make (wire_bytes k) 64) (fw_span_make (rx_buffer k) 64) (frame_in k) =
    Some (FW_OK, Some \<lparr>zf_seq = 1, zf_msg_id = 0x42, zf_length = 8,
      zf_payload = map of_char ''HOST_OK!'' @ drop 8 (zf_payload (frame_in k))\<rparr>)"
proof -
  have wf: "frame_wf (host_frame_out k)" using k by (simp add: frame_wf_def host_frame_out_def host_layout_ok_def)
  have ring: "spsc_wf (host_ring (s_tx_storage k))" "spsc_wf (host_ring (s_rx_storage k))"
    using k by (simp_all add: host_layout_ok_def spsc_wf_def host_ring_def)
  show ?thesis
    using host_loopback_delivers [OF wf assms(2-4) ring, of "fw_span_make (wire_bytes k) 64" "fw_span_make (rx_buffer k) 64" m "frame_in k"] k
    by (simp add: host_ring_def fw_span_make_def host_layout_ok_def spsc_apart_def host_frame_out_def)
qed

text \<open>
  With its buffers apart and a clock that moves on, the host simulation runs to its end: the frame is decoded
  as it was sent, exactly one piece of work is posted for it and run, and the LED is on.
\<close>

theorem host_sim_completes:
  assumes "host_layout_ok k" and "gpio_wf gpio0" and "1 \<le> n" and "20 \<le> clock n - clock 0"
  shows "\<exists>gpio. host_main k clock m gpio0 = Some (0, FW_OK, Some \<lparr>zf_seq = 1, zf_msg_id = 0x42, zf_length = 8,
      zf_payload = map of_char ''HOST_OK!'' @ drop 8 (zf_payload (frame_in k))\<rparr>, 1, gpio) \<and> fw_gpio_read STATUS_LED gpio"
proof -
  obtain g u tq where boot: "host_boot k gpio0 = (g, u, tq)" "host_led_ready g" "tasklet_inv tq" "tasklet_pending tq = []"
      "ua_is_initialized u" "ua_tx_queue u = Some (host_ring (s_tx_storage k))" "ua_rx_queue u = Some (host_ring (s_rx_storage k))"
    by (rule host_boot_ok [OF assms(1,2)])
  note frame = host_frame_arrives [OF assms(1) boot(5-7), of m]
  define tq1 where "tq1 = snd (tasklet_enq (On_packet_processed, FW_NULL, 0x42) tq)"
  have post: "snd (fw_tasklet_post (Some tq) (Some On_packet_processed) FW_NULL 0x42) = Some tq1"
    by (simp add: tq1_def tasklet_enq_def fw_tasklet_post_def Let_def split: prod.splits)
  have "0 < tasklet_cap tq" using boot(3) by (simp add: tasklet_cap_def tasklet_inv_def tasklet_wf_def unat_gt_0)
  then have tq1: "tasklet_inv tq1" "length (tasklet_pending tq1) = 1"
    using tasklet_queue.enq_all_items [OF boot(3), of "[(On_packet_processed, FW_NULL, 0x42)]"] boot(4)
    by (simp_all add: tq1_def take_Cons')
  have pin: "unat (gp_port STATUS_LED) = 2" "unat (gp_pin STATUS_LED) = 13" by (simp_all add: STATUS_LED_def)
  have g: "gpio_wf g" "\<not> pin_level g 2 13" using boot(2) by (simp_all add: host_led_ready_def)
  obtain g' q' where d: "fw_tasklet_dispatch_all (\<lambda>h c a (w, q). (run_host_tasklet h c a w, q)) g (Some tq1) = Some (1, g', Some q')"
      "gpio_wf g'" "pin_level g' 2 13"
    using dispatch_toggles [where act = run_host_tasklet, OF run_host_toggles _ tq1(1) g(1)] pin tq1(2) g(2) by auto
  obtain j where j: "poll_timeout clock (Some \<lparr>to_start_ms = clock 0, to_duration_ms = 20\<rparr>) 1 = Some j"
    using poll_timeout_returns [of 1 n 20 clock "clock 0"] assms(3,4) by blast
  have "fw_gpio_read STATUS_LED g'" using gpio_ops(4) [OF d(2), of STATUS_LED] d(3) pin by simp
  then show ?thesis using boot(1) frame post d(1) j by (simp add: host_main_def Let_def fw_timeout_start_def)
qed

theorem host_sim_completes_witness:
  "\<exists>gpio. host_main \<lparr>s_tx_storage = 1024, s_rx_storage = 2048, wire_bytes = 4096, rx_buffer = 8192,
        frame_in = \<lparr>zf_seq = 0, zf_msg_id = 0, zf_length = 0, zf_payload = replicate 256 9\<rparr>, frame_payload = replicate 256 0\<rparr>
      (\<lambda>j. of_nat j * 7 - 10) (\<lambda>_. 0) \<lparr>s_virtual_gpio_state = replicate 8 0xFFFF, s_virtual_gpio_dir = replicate 8 0\<rparr>
    = Some (0, FW_OK, Some \<lparr>zf_seq = 1, zf_msg_id = 0x42, zf_length = 8,
        zf_payload = map of_char ''HOST_OK!'' @ replicate 248 9\<rparr>, 1, gpio) \<and> fw_gpio_read STATUS_LED gpio"
proof -
  let ?k = "\<lparr>s_tx_storage = 1024, s_rx_storage = 2048, wire_bytes = 4096, rx_buffer = 8192,
        frame_in = \<lparr>zf_seq = 0, zf_msg_id = 0, zf_length = 0, zf_payload = replicate 256 9\<rparr>, frame_payload = replicate 256 0\<rparr>"
  have "disjoint_blocks (1024 :: ptr) 64 2048 64" "disjoint_blocks (1024 :: ptr) 64 4096 16" "disjoint_blocks (2048 :: ptr) 64 8192 64"
    by (rule disjoint_blocksI; simp add: nowrap_def)+
  then have k: "host_layout_ok ?k" by (simp add: host_layout_ok_def nowrap_def)
  have g: "gpio_wf \<lparr>s_virtual_gpio_state = replicate 8 0xFFFF, s_virtual_gpio_dir = replicate 8 0\<rparr>" by (simp add: gpio_wf_def)
  show ?thesis
    using host_sim_completes [OF k g, of 3 "\<lambda>j. of_nat j * 7 - 10" "\<lambda>_. 0"] by (simp del: replicate.simps)
qed

end
