(* ===== verification/Arena_Trace.thy ===== *)
theory Arena_Trace
  imports Arena
begin

text \<open>
  The arena under any client: the operations of \<^verbatim>\<open>arena.h\<close> as data, a run of them on the arena and its memory,
  and the shape of the arena that every run keeps.  Marks are arbitrary, also stale ones.
\<close>

datatype arena_op =
    Arena_alloc usize usize
  | Arena_alloc_zeroed usize usize
  | Arena_alloc_span usize usize
  | Arena_rewind fw_arena_mark
  | Arena_reset

text \<open>An operation: the block it hands out, if any, and the new state.\<close>

fun arena_step :: "bool \<Rightarrow> arena_op \<Rightarrow> mem \<times> fw_arena option \<Rightarrow> (ptr \<times> usize) option \<times> (mem \<times> fw_arena option)" where
  "arena_step dbg (Arena_alloc n al) (m, a) =
     (case fw_arena_alloc a n al of (p, a') \<Rightarrow> (if p = FW_NULL then None else Some (p, n), (m, a')))"
| "arena_step dbg (Arena_alloc_zeroed n al) (m, a) =
     (case fw_arena_alloc_zeroed m a n al of (p, m', a') \<Rightarrow> (if p = FW_NULL then None else Some (p, n), (m', a')))"
| "arena_step dbg (Arena_alloc_span n al) (m, a) =
     (case fw_arena_alloc_span a n al of
        (s, a') \<Rightarrow> (if span_data s = FW_NULL then None else Some (span_data s, span_length s), (m, a')))"
| "arena_step dbg (Arena_rewind mrk) (m, a) = (None, fw_arena_rewind dbg m a mrk)"
| "arena_step dbg Arena_reset (m, a) = (None, fw_arena_reset dbg m a)"

fun arena_run :: "bool \<Rightarrow> arena_op list \<Rightarrow> mem \<times> fw_arena option \<Rightarrow> (ptr \<times> usize) list \<times> (mem \<times> fw_arena option)" where
  "arena_run dbg [] s = ([], s)"
| "arena_run dbg (x # xs) s =
     (case arena_step dbg x s of (b, s') \<Rightarrow>
        (case arena_run dbg xs s' of (bs, s'') \<Rightarrow> ((case b of None \<Rightarrow> bs | Some y \<Rightarrow> y # bs), s'')))"

section \<open>The shape of an arena\<close>

text \<open>
  An arena on the buffer \<open>b\<close> of \<open>c\<close> bytes, and what a step may do to it: the blocks it hands out lie in the
  buffer, it writes nothing else, and the high-water mark does not fall.
\<close>

definition arena_on :: "ptr \<Rightarrow> usize \<Rightarrow> fw_arena \<Rightarrow> bool" where
  "arena_on b c a \<longleftrightarrow> arena_wf a \<and> ar_buffer a = b \<and> ar_capacity a = c"

definition block_in :: "ptr \<Rightarrow> usize \<Rightarrow> ptr \<times> usize \<Rightarrow> bool" where
  "block_in b c x \<longleftrightarrow> (case x of (p, n) \<Rightarrow> p \<noteq> FW_NULL \<and> nowrap p (unat n) \<and> unat b \<le> unat p \<and> unat p + unat n \<le> unat b + unat c)"

definition arena_kept :: "ptr \<Rightarrow> usize \<Rightarrow> mem \<times> fw_arena \<Rightarrow> mem \<times> fw_arena \<Rightarrow> bool" where
  "arena_kept b c s s' \<longleftrightarrow> arena_on b c (snd s') \<and> ar_peak_used (snd s) \<le> ar_peak_used (snd s')
     \<and> (\<forall>x. \<not> in_block b (unat c) x \<longrightarrow> fst s' x = fst s x)"

lemma arena_kept_refl: "arena_on b c a \<Longrightarrow> arena_kept b c (m, a) (m, a)"
  by (simp add: arena_kept_def)

lemma arena_kept_trans: "arena_kept b c s s' \<Longrightarrow> arena_kept b c s' s'' \<Longrightarrow> arena_kept b c s s''"
  by (auto simp: arena_kept_def)

lemma arena_on_alloc:
  assumes "arena_on b c a"
  obtains p a' where "fw_arena_alloc (Some a) n al = (p, Some a')" "arena_kept b c (m, a) (m, a')"
    "p = FW_NULL \<or> block_in b c (p, n)"
proof -
  have wf: "arena_wf a" and bc: "ar_buffer a = b" "ar_capacity a = c" using assms by (simp_all add: arena_on_def)
  obtain p ao where res: "fw_arena_alloc (Some a) n al = (p, ao)" by (cases "fw_arena_alloc (Some a) n al")
  then obtain a' where ao: "ao = Some a'" by (auto simp: fw_arena_alloc_def Let_def split: if_splits)
  show ?thesis
  proof (cases "p = FW_NULL")
    case True
    then have "a' = a" using arena_alloc_null [OF wf] res ao by simp
    then show ?thesis using that [of p a'] res ao True arena_kept_refl [OF assms] by simp
  next
    case False
    obtain k where "2 ^ k dvd unat p" and lo: "unat (ar_buffer a) + unat (ar_offset a) \<le> unat p"
      and off: "unat (ar_offset a') = unat p - unat (ar_buffer a) + unat n"
      and le: "unat (ar_offset a') \<le> unat (ar_capacity a)"
      and a': "a' = a\<lparr>ar_offset := ar_offset a', ar_peak_used := max (ar_offset a') (ar_peak_used a)\<rparr>"
      using arena_alloc_success [OF wf _ False] res ao by metis
    have f: "ar_buffer a' = b" "ar_capacity a' = c" "ar_peak_used a' = max (ar_offset a') (ar_peak_used a)"
      by (subst a', simp add: bc)+
    have "arena_on b c a'" using wf le bc by (auto simp: arena_on_def arena_wf_def f max_def word_le_nat_alt)
    then have "arena_kept b c (m, a) (m, a')" by (simp add: arena_kept_def f)
    moreover have "nowrap b (unat c)" using wf bc by (simp add: arena_wf_def)
    then have "block_in b c (p, n)"
      using False off le lo bc by (auto simp: block_in_def nowrap_def)
    ultimately show ?thesis using that [of p a'] res ao by simp
  qed
qed

lemma memset_outside:
  assumes "nowrap b (unat c)" and "unat b \<le> unat p" and "unat p + unat n \<le> unat b + unat c" and "\<not> in_block b (unat c) x"
  shows "memset m p v n x = m x"
proof -
  have "nowrap p (unat n)" using assms(1,3) by (simp add: nowrap_def)
  then have "\<not> in_block p (unat n) x" using assms by (auto simp: in_block_iff)
  then show ?thesis by (simp add: memset_def mem_write_out)
qed

lemma arena_step_kept:
  assumes "arena_on b c a"
  shows "\<exists>m' a' r. arena_step dbg x (m, Some a) = (r, (m', Some a')) \<and> arena_kept b c (m, a) (m', a')
    \<and> (\<forall>y. r = Some y \<longrightarrow> block_in b c y)"
proof -
  have nw: "nowrap b (unat c)" and off: "unat (ar_offset a) \<le> unat c" and bc: "ar_buffer a = b" "ar_capacity a = c"
    using assms by (auto simp: arena_on_def arena_wf_def word_le_nat_alt)
  show ?thesis
  proof (cases x)
    case (Arena_alloc n al)
    obtain p a' where "fw_arena_alloc (Some a) n al = (p, Some a')" "arena_kept b c (m, a) (m, a')" "p = FW_NULL \<or> block_in b c (p, n)"
      by (rule arena_on_alloc [OF assms])
    then show ?thesis by (auto simp: Arena_alloc)
  next
    case (Arena_alloc_zeroed n al)
    obtain p a' where r: "fw_arena_alloc (Some a) n al = (p, Some a')" "arena_kept b c (m, a) (m, a')" "p = FW_NULL \<or> block_in b c (p, n)"
      by (rule arena_on_alloc [OF assms])
    have "arena_kept b c (m, a) (memset m p 0 n, a')" if "block_in b c (p, n)"
      using r(2) that memset_outside [OF nw, of p n _ m 0] by (simp add: arena_kept_def block_in_def)
    then show ?thesis using r by (auto simp: Arena_alloc_zeroed fw_arena_alloc_zeroed_def)
  next
    case (Arena_alloc_span n al)
    obtain p a' where "fw_arena_alloc (Some a) n al = (p, Some a')" "arena_kept b c (m, a) (m, a')" "p = FW_NULL \<or> block_in b c (p, n)"
      by (rule arena_on_alloc [OF assms])
    then show ?thesis by (auto simp: Arena_alloc_span fw_arena_alloc_span_def fw_span_make_def)
  next
    case (Arena_rewind mrk)
    have "memset m (b + mrk) 0xDD (ar_offset a - mrk) y = m y" if "mrk \<le> ar_offset a" "\<not> in_block b (unat c) y" for y
    proof (cases "mrk = ar_offset a")
      case False
      have lt: "unat mrk < unat (ar_offset a)" using that(1) False by (simp add: word_less_nat_alt [symmetric])
      then have "unat (b + mrk) = unat b + unat mrk" using off nw by (intro unat_add_nowrap) (simp add: nowrap_def)
      moreover have "unat (ar_offset a - mrk) = unat (ar_offset a) - unat mrk" using that(1) by (simp add: unat_sub_le)
      ultimately show ?thesis using lt off by (intro memset_outside [OF nw _ _ that(2)]) simp_all
    qed (simp add: memset_def)
    then show ?thesis using assms by (auto simp: Arena_rewind fw_arena_rewind_def arena_kept_def arena_on_def arena_wf_def bc)
  next
    case Arena_reset
    have "memset m b 0xDD (ar_offset a) y = m y" if "\<not> in_block b (unat c) y" for y
      using off by (intro memset_outside [OF nw _ _ that]) simp_all
    then show ?thesis using assms by (auto simp: Arena_reset fw_arena_reset_def arena_kept_def arena_on_def arena_wf_def)
  qed
qed

lemma arena_run_kept:
  "arena_on b c a \<Longrightarrow> \<exists>bs m' a'. arena_run dbg xs (m, Some a) = (bs, (m', Some a')) \<and> arena_kept b c (m, a) (m', a')
    \<and> (\<forall>y\<in>set bs. block_in b c y)"
proof (induction xs arbitrary: m a)
  case (Cons x xs)
  obtain m1 a1 r where step: "arena_step dbg x (m, Some a) = (r, (m1, Some a1))" "arena_kept b c (m, a) (m1, a1)"
      "\<forall>y. r = Some y \<longrightarrow> block_in b c y"
    using arena_step_kept [OF Cons.prems] by blast
  moreover from this obtain bs m2 a2 where "arena_run dbg xs (m1, Some a1) = (bs, (m2, Some a2))" "arena_kept b c (m1, a1) (m2, a2)"
      "\<forall>y\<in>set bs. block_in b c y"
    using Cons.IH [of a1 m1] by (auto simp: arena_kept_def)
  ultimately show ?case using arena_kept_trans [OF step(2)] by (auto split: option.splits)
qed (simp add: arena_kept_refl)

text \<open>
  C23: no client breaks an arena: after any sequence of operations from the initialisation on, with marks, sizes and
  alignments of any value, the arena still describes its buffer, has used no more than its high-water mark
  and that no more than the capacity; every block handed out lies in the buffer, and nothing outside it was written.
\<close>

theorem arena_ops_typed:
  assumes "fw_arena_init (Some a0) b c = (FW_OK, Some a)" and "nowrap b (unat c)"
  shows "\<exists>bs m' a'. arena_run dbg xs (m, Some a) = (bs, (m', Some a'))
    \<and> ar_buffer a' = b \<and> ar_capacity a' = c \<and> ar_offset a' \<le> ar_peak_used a' \<and> ar_peak_used a' \<le> c
    \<and> (\<forall>y\<in>set bs. block_in b c y) \<and> (\<forall>x. \<not> in_block b (unat c) x \<longrightarrow> m' x = m x)"
proof -
  have "arena_on b c a" using arena_init_wf [OF assms] assms(1) by (auto simp: arena_on_def fw_arena_init_def split: if_splits)
  then have "\<exists>bs m' a'. arena_run dbg xs (m, Some a) = (bs, (m', Some a')) \<and> arena_kept b c (m, a) (m', a')
      \<and> (\<forall>y\<in>set bs. block_in b c y)"
    by (rule arena_run_kept)
  then show ?thesis by (auto simp: arena_kept_def arena_on_def arena_wf_def)
qed

theorem arena_ops_typed_witness:
  "\<exists>bs m' a'. arena_run True [Arena_alloc 10 8, Arena_rewind 999, Arena_alloc_zeroed 100 0, Arena_rewind 3, Arena_alloc_span 4 4]
      (\<lambda>_. 7, Some \<lparr>ar_buffer = 1025, ar_capacity = 64, ar_offset = 0, ar_peak_used = 0\<rparr>) = (bs, (m', Some a'))
    \<and> ar_buffer a' = 1025 \<and> ar_peak_used a' \<le> 64 \<and> m' 1024 = 7 \<and> m' 1089 = 7"
proof -
  have "\<not> in_block (1025 :: ptr) 64 1024" "\<not> in_block (1025 :: ptr) 64 1089" by (simp_all add: in_block_iff nowrap_def)
  then show ?thesis
    using arena_ops_typed [of "\<lparr>ar_buffer = 0, ar_capacity = 0, ar_offset = 0, ar_peak_used = 0\<rparr>" 1025 64
        "\<lparr>ar_buffer = 1025, ar_capacity = 64, ar_offset = 0, ar_peak_used = 0\<rparr>" True
        "[Arena_alloc 10 8, Arena_rewind 999, Arena_alloc_zeroed 100 0, Arena_rewind 3, Arena_alloc_span 4 4]" "\<lambda>_. 7"]
    by (simp add: fw_arena_init_def nowrap_def del: arena_run.simps) blast
qed

end
