(* ===== verification/Spec2Isabelle.thy ===== *)
theory Spec2Isabelle
  imports Spsc_Concurrent Pool_Init Buffer Tasklet Dispatcher Fsm Dsp_Filter Hook Init Nvs_Compact_Power Ota_Power Hub Sha256 Chacha20 Watchdog Boot_Guard Monitor Gpio Uart Log_Queue Power_Mgmt Dma Cache Crash_Dump Baremetal_Adapter Dwt Demo_Loop Tasklet_Concurrent Stm32_Poc Host_Sim Arena_Trace
begin

text \<open>
  ZeroEmbedded, a C library for microcontrollers without a heap: memory managers, byte rings, a deferred
  work queue, a wire protocol with command dispatch, storage in flash, drivers and diagnostics.  This
  development models the C core (\<^verbatim>\<open>core-c/include/zero\<close>, \<^verbatim>\<open>core-c/src\<close>), the bare-metal adapter
  (\<^verbatim>\<open>rtos/baremetal_adapter.c\<close>) and the three programs under \<^verbatim>\<open>examples\<close>, which compose the library.

  \<^bold>\<open>Machine model.\<close>  Pointers and \<^verbatim>\<open>size_t\<close> are 32 bits, as on the targets; machine integers are words of
  their width and wrap as in C.  The memory is a function from addresses to bytes (\<open>Memory\<close>), words in
  it are little-endian.  A C structure is a record; a pointer parameter that may be \<^verbatim>\<open>NULL\<close> is an option,
  buffers are addresses in the memory.  An operation takes the memory and the structures it changes and
  returns them with its status.  Undefined behaviour the code can reach (division by zero, a shift by the
  width) and a loop that never ends are the result None; such loops are partial functions and the
  properties show that they end.  Callbacks are parameters that may change whatever the code lets them
  reach.

  \<^bold>\<open>Foundations.\<close>  \<open>Prelude\<close>: status codes (\<^verbatim>\<open>result.h\<close>), little-endian encodings, words as naturals, lists.
  \<open>Memory\<close>: reads, writes, blocks, alignment.  \<open>Span\<close>: spans and string views (\<^verbatim>\<open>span.h\<close>,
  \<^verbatim>\<open>string_view.h\<close>).  \<open>Text_Format\<close>: the conversions of \<^verbatim>\<open>snprintf\<close> the code uses.  \<open>Exchange\<close>: the
  exchange sort that \<^verbatim>\<open>hook.c\<close> and \<^verbatim>\<open>init.c\<close> write out, as the locale \<open>exchange\<close>.

  \<^bold>\<open>Memory managers.\<close>  \<open>Arena\<close> (\<^verbatim>\<open>arena.c\<close>): aligned, disjoint allocations;
  \<open>Arena_Trace\<close>: any sequence of its operations.  \<open>Buffer\<close> (\<^verbatim>\<open>buffer.c\<close>): appends
  refine list append.  \<open>Allocator\<close>: the contract of a block allocator as a locale and its clients;
  \<open>Pool\<close> and \<open>Pool_Init\<close> (\<^verbatim>\<open>pool.c\<close>): bitmap and intrusive free list as bytes of the memory, the pool
  invariant, exactness of the release, the layout computed by the initialisation, and the interpretation
  of the contract.  \<open>Hub\<close> (\<^verbatim>\<open>hub.c\<close>): tiers of pools and arenas with reserves, on the lemmas of both.

  \<^bold>\<open>Rings and deferred work.\<close>  \<open>Ring\<close>: the queue contract and index arithmetic.  \<open>Spsc\<close> (\<^verbatim>\<open>spsc.c\<close>): the
  sequential ring refines a bounded queue, bulk copies equal byte copies.  \<open>Spsc_Concurrent\<close>: producer
  and consumer as interleaved steps, one per access to shared memory, with an invariant by rule
  induction.  \<open>Tasklet\<close> (\<^verbatim>\<open>tasklet.c\<close>): the work queue; \<open>dispatch_all\<close> drains it and ends.
  \<open>Tasklet_Concurrent\<close>: posting interrupts and the dispatcher as interleaved steps; what a post leaves
  in the queue when another one interrupts it.

  \<^bold>\<open>Protocol and control.\<close>  \<open>Crc\<close>: the table-driven and bitwise CRC-16 and the CRC-32, with detection of
  every error within as many consecutive bytes as the checksum has.  \<open>Zerowire\<close> (\<^verbatim>\<open>zerowire.c\<close>): encoder,
  decoder and stream scanner, whose result is given for every stream.  \<open>Dispatcher\<close>
  (\<^verbatim>\<open>dispatcher.c\<close>), \<open>Fsm\<close> (\<^verbatim>\<open>fsm.c\<close>), \<open>Hook\<close> (\<^verbatim>\<open>hook.c\<close>), \<open>Init\<close> (\<^verbatim>\<open>init.c\<close>), \<open>Dsp_Filter\<close> (\<^verbatim>\<open>filter.c\<close>).
  \<open>Loopback\<close>: protocol, UART driver and rings composed.

  \<^bold>\<open>Programs.\<close>  \<open>Demo_Node\<close> (\<^verbatim>\<open>interactive_demo/main.c\<close>): the firmware node, its routines, start-up and
  superloop; \<open>Demo_Run\<close>: what one received frame and one telemetry report do; \<open>Demo_Loop\<close>: the invariant of
  the superloop, which no input breaks, and its end.  \<open>Stm32_Poc\<close> (\<^verbatim>\<open>stm32_poc/main.c\<close>): interrupts against
  the bounded queues, and the program from start to end.  \<open>Host_Sim\<close> (\<^verbatim>\<open>host_sim/main.c\<close>): the simulation from
  start to end.  \<open>Demo_Common\<close>: what they share.  Their buffers lie apart, as the linker places them; the
  properties state that as a predicate on the layout.

  \<^bold>\<open>Storage.\<close> \<open>Flash\<close>: the driver record of \<^verbatim>\<open>flash.h\<close>
  and its contract, the locale \<open>flash_reader\<close> for what reads return and \<open>flash_device\<close>
  on top of it, extended by \<open>nor_device\<close> for writes over cells that are not erased, interpreted on the
  NOR device of \<^verbatim>\<open>tests/test_storage.c\<close>.
  \<open>Nvs\<close> (\<^verbatim>\<open>nvs.c\<close>): the key-value store as the code has it;
  \<open>Nvs_Log\<close>: the log a bank holds, what the loops compute on it, compaction; \<open>Nvs_Map\<close>:
  write, read, delete and initialisation as operations of a dictionary; \<open>Power_Cut\<close>: a device that
  loses power after a given number of bytes; \<open>Nvs_Power\<close>: the store on it, the initialisation after
  it and what each key then reads (sectors of at most 0xFF00 bytes, an append without compaction);
  \<open>Nvs_Compact_Power\<close>: a compaction that loses power after the header of the new bank.
  \<open>Ota\<close> (\<^verbatim>\<open>ota.c\<close>): update metadata and image check;
  \<open>Ota_Power\<close>: a metadata update that loses power. The properties hold for every device that meets
  the contract, which a premise \<open>flash_device\<close> states, the one on writes over a torn header for every
  \<open>nor_device\<close>.

  \<^bold>\<open>Cryptography.\<close>  \<open>Sha256\<close> (\<^verbatim>\<open>sha256.c\<close>): the streaming hash equals the definition of FIPS 180-4.  \<open>Chacha20\<close>
  (\<^verbatim>\<open>chacha20.c\<close>): the cipher adds a key stream and undoes itself, in place or not.

  \<^bold>\<open>Drivers and diagnostics.\<close>  \<open>Timer\<close> (\<^verbatim>\<open>timer.c\<close>), \<open>Watchdog\<close>, \<open>Boot_Guard\<close>, \<open>Monitor\<close>, \<open>Gpio\<close>, \<open>Uart\<close>,
  \<open>Log_Queue\<close> (\<^verbatim>\<open>log.c\<close>), \<open>Power_Mgmt\<close> (\<^verbatim>\<open>power.c\<close>), \<open>Dma\<close>, \<open>Cache\<close>, \<open>Crash_Dump\<close>, \<open>Dwt\<close>, \<open>Rtos_Baremetal\<close>,
  \<open>Baremetal_Adapter\<close>.  A clock is a sequence of readings or an argument.  The boot guard is followed over any
  history of boots, success marks and manual settings.

  \<^bold>\<open>Interfaces.\<close>  \<open>bounded_queue\<close> (Ring) is interpreted on the byte ring, the tasklet queue and the log;
  the allocator contract on the pool; \<open>exchange\<close> on the hook and initialisation tables; \<open>flash_device\<close> and
  \<open>nor_device\<close> on the virtual device.  Clients are proved once against each.

  \<^bold>\<open>Bounds.\<close>  No fuel is used: every loop is structural, has a termination measure, or is a partial function
  proved to return.  The store properties ask for values below 65536 bytes, the width of the length field;
  the stream and ring properties hold for all lengths the types admit.

  \<^bold>\<open>Not modelled.\<close>  The Windows variant of the sleep; memory barriers (the concurrent ring is
  sequentially consistent); the effect of the hardware registers beyond the words written; a log sink that
  calls the logger again; a power failure in the middle of an erase; the alignment a port may ask of a flash write; a guard of the state
  machine that changes the context it is given; the compiler macros of
  \<^verbatim>\<open>attributes.h\<close> and \<^verbatim>\<open>config.h\<close>; functions with an empty body (\<^verbatim>\<open>fw_task_yield\<close>, the UART interrupt handler); what the programs print; benchmarks and tests, except
  the flash device of the tests; the Rust port and the Python tools.
\<close>

section \<open>End to end\<close>

text \<open>C5: a frame that fits the rings and buffers arrives as it was sent: encoder, transmit queue, line,
  receive queue and decoder compose to the identity on well-formed frames, and the line loop ends.\<close>

theorem loopback_delivers_frame:
  assumes "frame_wf f" and "ua_is_initialized u" and "ua_tx_queue u = Some tx" and "ua_rx_queue u = Some rx"
    and "spsc_wf tx" and "spsc_wf rx" and "sq_head tx = sq_tail tx" and "sq_head rx = sq_tail rx"
    and "disjoint_blocks (sq_buffer tx) (unat (sq_capacity tx)) (sq_buffer rx) (unat (sq_capacity rx))"
    and "span_data wire \<noteq> FW_NULL" and "span_data buf \<noteq> FW_NULL"
    and "unat (zf_length f) + 8 \<le> unat (span_length wire)" and "unat (zf_length f) + 8 \<le> unat (span_length buf)"
    and "unat (zf_length f) + 8 \<le> unat (sq_capacity tx)" and "unat (zf_length f) + 8 \<le> unat (sq_capacity rx)"
    and "spsc_apart tx (span_data wire) (of_nat (unat (zf_length f) + 8))" and "spsc_apart rx (span_data buf) (span_length buf)"
  shows "host_loopback m u f wire buf f0 =
    Some (FW_OK, Some (f\<lparr>zf_payload := take (unat (zf_length f)) (zf_payload f) @ drop (unat (zf_length f)) (zf_payload f0)\<rparr>))"
  using assms by (rule host_loopback_delivers)

theorem loopback_delivers_frame_witness:
  "host_loopback (\<lambda>_. 0)
     \<lparr>ua_hardware_instance = (), ua_tx_queue = Some (host_ring 1024), ua_rx_queue = Some (host_ring 2048), ua_is_initialized = True\<rparr>
     sample_frame \<lparr>span_data = 4096, span_length = 64\<rparr> \<lparr>span_data = 8192, span_length = 64\<rparr> sample_frame
   = Some (FW_OK, Some sample_frame)"
proof -
  have wf: "frame_wf sample_frame" by (simp add: frame_wf_def sample_frame_def)
  have ring: "spsc_wf (host_ring 1024)" "spsc_wf (host_ring 2048)" by (simp_all add: spsc_wf_def host_ring_def nowrap_def)
  have ap: "disjoint_blocks (1024 :: ptr) 64 2048 64" "disjoint_blocks (1024 :: ptr) 64 4096 11" "disjoint_blocks (2048 :: ptr) 64 8192 64"
    by (rule disjoint_blocksI; simp add: nowrap_def)+
  have same: "sample_frame\<lparr>zf_payload := take (unat (zf_length sample_frame)) (zf_payload sample_frame)
      @ drop (unat (zf_length sample_frame)) (zf_payload sample_frame)\<rparr> = sample_frame"
    by simp
  show ?thesis
    using loopback_delivers_frame [OF wf, of "\<lparr>ua_hardware_instance = (), ua_tx_queue = Some (host_ring 1024),
          ua_rx_queue = Some (host_ring 2048), ua_is_initialized = True\<rparr>" "host_ring 1024" "host_ring 2048"
        "\<lparr>span_data = 4096, span_length = 64\<rparr>" "\<lparr>span_data = 8192, span_length = 64\<rparr>" "\<lambda>_. 0" sample_frame]
      ring ap unfolding same by (simp add: host_ring_def spsc_apart_def sample_frame_def)
qed

end
